(* ===== verification/Prelude.thy ===== *)
theory Prelude
  imports Main "HOL-Library.Word"
begin

text \<open>
  Shared vocabulary of the VESPER OS development: the fixed-width integer types
  of \<^verbatim>\<open>stdint.h\<close>, the fact collections the component theories
  feed, and the generic lemmas about lists, words and modular indices
  that several components need.
\<close>

unbundle bit_operations_syntax

section \<open>Machine integers\<close>

type_synonym u8 = "8 word"
type_synonym u16 = "16 word"
type_synonym u32 = "32 word"
type_synonym u64 = "64 word"

named_theorems kconst "the numeric constants (macros) of the source"

lemma unat_u32: "unat (x :: u32) < 4294967296"
proof -
  have "unat x < 2 ^ LENGTH(32)" by (rule unsigned_less)
  then show ?thesis by simp
qed

lemma unat_u8: "unat (x :: u8) < 256"
proof -
  have "unat x < 2 ^ LENGTH(8)" by (rule unsigned_less)
  then show ?thesis by simp
qed

lemma unat_of_nat_u32: "n < 4294967296 \<Longrightarrow> unat (of_nat n :: u32) = n"
  by (simp add: unat_of_nat take_bit_eq_mod)

lemma unat_plus_u32:
  fixes a b :: u32
  shows "unat a + unat b < 4294967296 \<Longrightarrow> unat (a + b) = unat a + unat b"
  by (simp add: unat_word_ariths)

section \<open>Shifts and masks as arithmetic\<close>

lemma unat_take_bit_length: "take_bit LENGTH('a) (unat (w :: 'a::len word)) = unat w"
  by (simp add: take_bit_nat_eq_self_iff unsigned_less)

lemma unat_drop_bit: "unat (drop_bit n (w :: 'a::len word)) = unat w div 2 ^ n"
proof -
  have "unat (drop_bit n w) = drop_bit n (unat w)"
    by (simp add: unsigned_drop_bit_eq unat_take_bit_length)
  then show ?thesis by (simp only: drop_bit_eq_div)
qed

lemma unat_and_mask: "unat ((w :: 'a::len word) AND mask n) = unat w mod 2 ^ n"
proof -
  have "unat (w AND mask n) = take_bit n (unat w)"
    by (simp add: unsigned_take_bit_eq flip: take_bit_eq_mask)
  then show ?thesis by (simp only: take_bit_eq_mod)
qed

lemma and_not_mask_word: "(w :: 'a::len word) AND NOT (mask n) = push_bit n (drop_bit n w)"
proof (rule bit_word_eqI)
  fix k assume "k < LENGTH('a)"
  then show "bit (w AND NOT (mask n)) k = bit (push_bit n (drop_bit n w)) k"
    by (cases "n \<le> k") (auto simp: bit_simps)
qed

lemma unat_and_not_mask: "unat ((w :: 'a::len word) AND NOT (mask n)) = unat w div 2 ^ n * 2 ^ n"
proof -
  have less: "unat w div 2 ^ n * 2 ^ n < 2 ^ LENGTH('a)"
    by (rule le_less_trans[OF div_times_less_eq_dividend]) (rule unsigned_less)
  have "unat (w AND NOT (mask n)) = take_bit LENGTH('a) (push_bit n (unat (drop_bit n w)))"
    by (simp add: and_not_mask_word unsigned_push_bit_eq)
  also have "\<dots> = unat w div 2 ^ n * 2 ^ n"
    using less by (simp add: unat_drop_bit push_bit_eq_mult take_bit_eq_mod)
  finally show ?thesis .
qed

text \<open>The bits of the hexadecimal mask constants.\<close>

lemma mask_consts:
  "(0xFFFFF :: u32) = mask 20" "(0xFFFF :: u32) = mask 16" "(0xFFF :: u32) = mask 12" "(0x3FF :: u32) = mask 10"
  "(0xFF :: u32) = mask 8" "(0x0F :: u32) = mask 4" "(0xFFFF :: u16) = mask 16" "(0xFF :: u16) = mask 8"
  "(0xFF :: u8) = mask 8" "(0x0F :: u8) = mask 4" "(0x7F :: u8) = mask 7"
  by (simp_all add: mask_eq_exp_minus_1)

lemma bit_masks:
  "bit (0xFFFFF :: u32) n \<longleftrightarrow> n < 20" "bit (0xFFFF :: u32) n \<longleftrightarrow> n < 16"
  "bit (0xFFF :: u32) n \<longleftrightarrow> n < 12" "bit (0x3FF :: u32) n \<longleftrightarrow> n < 10"
  "bit (0xFF :: u32) n \<longleftrightarrow> n < 8" "bit (0x0F :: u32) n \<longleftrightarrow> n < 4"
  "bit (0xFFFF :: u16) n \<longleftrightarrow> n < 16" "bit (0xFF :: u16) n \<longleftrightarrow> n < 8"
  "bit (0xFF :: u8) n \<longleftrightarrow> n < 8" "bit (0x0F :: u8) n \<longleftrightarrow> n < 4" "bit (0x7F :: u8) n \<longleftrightarrow> n < 7"
  unfolding mask_consts by (auto simp: bit_mask_iff simp del: mask_numeral)

section \<open>String literals\<close>

text \<open>The characters of a string literal as bytes.\<close>

definition chars :: "string \<Rightarrow> u8 list" where
  "chars s = map of_char s"

section \<open>Counting loops\<close>

text \<open>
  \<open>for_range a b body\<close> is \<^verbatim>\<open>for (uint32_t i = a; i < b; i++) body\<close> for a body
  without an early exit.
\<close>

definition for_range :: "u32 \<Rightarrow> u32 \<Rightarrow> (u32 \<Rightarrow> 's \<Rightarrow> 's) \<Rightarrow> 's \<Rightarrow> 's" where
  "for_range a b body s = fold (\<lambda>i. body (of_nat i)) [unat a ..< unat b] s"

lemma fold_invariant_upt:
  assumes "P a s" "\<And>i s. a \<le> i \<Longrightarrow> i < b \<Longrightarrow> P i s \<Longrightarrow> P (Suc i) (f i s)" "a \<le> b"
  shows "P b (fold f [a ..< b] s)"
  using assms(3,2)
proof (induction b rule: dec_induct)
  case base
  then show ?case using assms(1) by simp
next
  case (step n)
  then show ?case by simp
qed

text \<open>The rule for such a loop: an invariant indexed by the loop counter.\<close>

lemma for_range_invariant:
  assumes "P (unat a) s" "a \<le> b"
    and "\<And>i s. unat a \<le> i \<Longrightarrow> i < unat b \<Longrightarrow> P i s \<Longrightarrow> P (Suc i) (body (of_nat i) s)"
  shows "P (unat b) (for_range a b body s)"
  unfolding for_range_def
  by (rule fold_invariant_upt) (use assms in \<open>auto simp: word_le_nat_alt\<close>)

lemma for_range_empty: "b \<le> a \<Longrightarrow> for_range a b body s = s"
  by (simp add: for_range_def word_le_nat_alt)

end
