(* ===== verification/Devices.thy ===== *)
theory Devices
  imports Prelude
begin

text \<open>
  Port input and output, \<^verbatim>\<open>kernel/port_io.h\<close>, and the drivers of the interrupt controllers
  and of the clock, \<^verbatim>\<open>kernel/pic.c\<close> and \<^verbatim>\<open>kernel/rtc.c\<close>. The machine behind the ports is a parameter:
  \<open>'d\<close> is its state and an \<open>io\<close> record says what the four instructions do to it. What
  the drivers rely on is stated as a contract of the chip, from its data sheet.
\<close>

section \<open>The code\<close>

record 'd io =
  inb :: "u16 \<Rightarrow> 'd \<Rightarrow> u8 \<times> 'd"
  outb :: "u16 \<Rightarrow> u8 \<Rightarrow> 'd \<Rightarrow> 'd"
  inw :: "u16 \<Rightarrow> 'd \<Rightarrow> u16 \<times> 'd"
  outw :: "u16 \<Rightarrow> u16 \<Rightarrow> 'd \<Rightarrow> 'd"

definition io_wait :: "'d io \<Rightarrow> 'd \<Rightarrow> 'd" where
  "io_wait io d = outb io 0x80 0x00 d"

subsection \<open>The interrupt controllers\<close>

definition PIC1_CMD :: u16 where [kconst]: "PIC1_CMD = 0x20"
definition PIC1_DATA :: u16 where [kconst]: "PIC1_DATA = 0x21"
definition PIC2_CMD :: u16 where [kconst]: "PIC2_CMD = 0xA0"
definition PIC2_DATA :: u16 where [kconst]: "PIC2_DATA = 0xA1"
definition PIC_EOI :: u8 where [kconst]: "PIC_EOI = 0x20"
definition PIC1_OFFSET :: u8 where [kconst]: "PIC1_OFFSET = 32"
definition PIC2_OFFSET :: u8 where [kconst]: "PIC2_OFFSET = 40"

definition pic_init :: "'d io \<Rightarrow> 'd \<Rightarrow> 'd" where
  "pic_init io d =
     (let d = io_wait io (outb io PIC1_CMD 0x11 d);
          d = io_wait io (outb io PIC2_CMD 0x11 d);
          d = io_wait io (outb io PIC1_DATA PIC1_OFFSET d);
          d = io_wait io (outb io PIC2_DATA PIC2_OFFSET d);
          d = io_wait io (outb io PIC1_DATA 0x04 d);
          d = io_wait io (outb io PIC2_DATA 0x02 d);
          d = io_wait io (outb io PIC1_DATA 0x01 d);
          d = io_wait io (outb io PIC2_DATA 0x01 d);
          d = outb io PIC1_DATA 0xFF d
      in outb io PIC2_DATA 0xFF d)"

definition pic_send_eoi :: "'d io \<Rightarrow> u8 \<Rightarrow> 'd \<Rightarrow> 'd" where
  "pic_send_eoi io irq d =
     (let d = (if irq \<ge> 8 then outb io PIC2_CMD PIC_EOI d else d)
      in outb io PIC1_CMD PIC_EOI d)"

definition pic_unmask_irq :: "'d io \<Rightarrow> u8 \<Rightarrow> 'd \<Rightarrow> 'd" where
  "pic_unmask_irq io irq d =
     (let (port, irq, d) =
            (if irq < 8 then (PIC1_DATA, irq, d)
             else let (master, d) = inb io PIC1_DATA d
                  in (PIC2_DATA, irq - 8, outb io PIC1_DATA (master AND NOT (push_bit 2 1)) d));
          (v, d) = inb io port d
      in outb io port (v AND NOT (push_bit (unat irq) 1)) d)"

definition pic_mask_irq :: "'d io \<Rightarrow> u8 \<Rightarrow> 'd \<Rightarrow> 'd" where
  "pic_mask_irq io irq d =
     (let (port, irq) = (if irq < 8 then (PIC1_DATA, irq) else (PIC2_DATA, irq - 8));
          (v, d) = inb io port d
      in outb io port (v OR push_bit (unat irq) 1) d)"

subsection \<open>The real-time clock\<close>

record rtc_time =
  year :: u16
  month :: u8
  day :: u8
  hour :: u8
  minute :: u8
  second :: u8

definition cmos_read :: "'d io \<Rightarrow> u8 \<Rightarrow> 'd \<Rightarrow> u8 \<times> 'd" where
  "cmos_read io reg d = inb io 0x71 (outb io 0x70 (0x80 OR reg) d)"

definition bcd_to_bin :: "u8 \<Rightarrow> u8" where
  "bcd_to_bin bcd = (drop_bit 4 bcd AND 0x0F) * 10 + (bcd AND 0x0F)"

text \<open>The wait for the update-in-progress flag; it has no value when the flag stays set.\<close>

partial_function (option) rtc_wait :: "'d io \<Rightarrow> 'd \<Rightarrow> 'd option" where
  "rtc_wait io d =
     (let (a, d) = cmos_read io 0x0A d in if a AND 0x80 \<noteq> 0 then rtc_wait io d else Some d)"

text \<open>The conversion of the raw register values, with the value of status register B first.\<close>

definition rtc_convert :: "u8 \<Rightarrow> rtc_time \<Rightarrow> rtc_time" where
  "rtc_convert status_b t =
     (let t = (if status_b AND 0x04 = 0
               then t\<lparr>second := bcd_to_bin (second t), minute := bcd_to_bin (minute t),
                      hour := bcd_to_bin (hour t), day := bcd_to_bin (day t), month := bcd_to_bin (month t),
                      year := ucast (bcd_to_bin (ucast (year t)))\<rparr>
               else t);
          t = (if status_b AND 0x02 = 0 \<and> hour t AND 0x80 \<noteq> 0
               then t\<lparr>hour := ((hour t AND 0x7F) + 12) mod 24\<rparr> else t)
      in t\<lparr>year := year t + (if year t < 70 then 2000 else 1900)\<rparr>)"

definition rtc_read :: "'d io \<Rightarrow> 'd \<Rightarrow> (rtc_time \<times> 'd) option" where
  "rtc_read io d =
     (case rtc_wait io d of None \<Rightarrow> None
      | Some d \<Rightarrow>
          let (status_b, d) = cmos_read io 0x0B d;
              (sec, d) = cmos_read io 0x00 d;
              (mi, d) = cmos_read io 0x02 d;
              (h, d) = cmos_read io 0x04 d;
              (da, d) = cmos_read io 0x07 d;
              (mo, d) = cmos_read io 0x08 d;
              (y, d) = cmos_read io 0x09 d
          in Some (rtc_convert status_b
               \<lparr>year = ucast y, month = mo, day = da, hour = h, minute = mi, second = sec\<rparr>, d))"

section \<open>The 8259A\<close>

text \<open>
  The state of one controller as its data sheet describes it: the progress of the initialisation
  sequence, the vector base, the interrupt mask and the lines in service.
\<close>

record i8259 =
  icw :: nat
  vec_base :: u8
  imr :: u8
  in_service :: u8

definition chip_cmd :: "u8 \<Rightarrow> i8259 \<Rightarrow> i8259" where
  "chip_cmd v c =
     (if bit v 4 then c\<lparr>icw := 1, imr := 0, in_service := 0\<rparr>
      else if v = 0x20 then c\<lparr>in_service := in_service c AND (in_service c - 1)\<rparr> else c)"

definition chip_data :: "u8 \<Rightarrow> i8259 \<Rightarrow> i8259" where
  "chip_data v c =
     (if icw c = 1 then c\<lparr>icw := 2, vec_base := v\<rparr>
      else if icw c = 2 then c\<lparr>icw := 3\<rparr>
      else if icw c = 3 then c\<lparr>icw := 0\<rparr>
      else c\<lparr>imr := v\<rparr>)"

text \<open>The two controllers are wired to their ports, and the ports 0x80 and 0x60 are not theirs.\<close>

definition pics_wired :: "'d io \<Rightarrow> ('d \<Rightarrow> i8259) \<Rightarrow> ('d \<Rightarrow> i8259) \<Rightarrow> bool" where
  "pics_wired io p1 p2 \<longleftrightarrow>
     (\<forall>v d. p1 (outb io 0x20 v d) = chip_cmd v (p1 d) \<and> p2 (outb io 0x20 v d) = p2 d) \<and>
     (\<forall>v d. p1 (outb io 0x21 v d) = chip_data v (p1 d) \<and> p2 (outb io 0x21 v d) = p2 d) \<and>
     (\<forall>v d. p2 (outb io 0xA0 v d) = chip_cmd v (p2 d) \<and> p1 (outb io 0xA0 v d) = p1 d) \<and>
     (\<forall>v d. p2 (outb io 0xA1 v d) = chip_data v (p2 d) \<and> p1 (outb io 0xA1 v d) = p1 d) \<and>
     (\<forall>v d. p1 (outb io 0x80 v d) = p1 d \<and> p2 (outb io 0x80 v d) = p2 d) \<and>
     (\<forall>d. p1 (snd (inb io 0x60 d)) = p1 d \<and> p2 (snd (inb io 0x60 d)) = p2 d) \<and>
     (\<forall>d. fst (inb io 0x21 d) = imr (p1 d) \<and> p1 (snd (inb io 0x21 d)) = p1 d \<and> p2 (snd (inb io 0x21 d)) = p2 d) \<and>
     (\<forall>d. fst (inb io 0xA1 d) = imr (p2 d) \<and> p1 (snd (inb io 0xA1 d)) = p1 d \<and> p2 (snd (inb io 0xA1 d)) = p2 d)"

lemma pics_wiredD:
  assumes "pics_wired io p1 p2"
  shows "p1 (outb io 0x20 v d) = chip_cmd v (p1 d)" "p2 (outb io 0x20 v d) = p2 d"
    "p1 (outb io 0x21 v d) = chip_data v (p1 d)" "p2 (outb io 0x21 v d) = p2 d"
    "p2 (outb io 0xA0 v d) = chip_cmd v (p2 d)" "p1 (outb io 0xA0 v d) = p1 d"
    "p2 (outb io 0xA1 v d) = chip_data v (p2 d)" "p1 (outb io 0xA1 v d) = p1 d"
    "p1 (outb io 0x80 v d) = p1 d" "p2 (outb io 0x80 v d) = p2 d"
    "fst (inb io 0x21 d) = imr (p1 d)" "p1 (snd (inb io 0x21 d)) = p1 d" "p2 (snd (inb io 0x21 d)) = p2 d"
    "fst (inb io 0xA1 d) = imr (p2 d)" "p1 (snd (inb io 0xA1 d)) = p1 d" "p2 (snd (inb io 0xA1 d)) = p2 d"
    "p1 (snd (inb io 0x60 d)) = p1 d" "p2 (snd (inb io 0x60 d)) = p2 d"
  using assms unfolding pics_wired_def by blast+

text \<open>Whether interrupt line \<open>n\<close> is masked: lines 8 to 15 are those of the second controller.\<close>

definition line_masked :: "i8259 \<Rightarrow> i8259 \<Rightarrow> nat \<Rightarrow> bool" where
  "line_masked c1 c2 n = (if n < 8 then bit (imr c1) n else bit (imr c2) (n - 8))"

definition vector_of :: "i8259 \<Rightarrow> i8259 \<Rightarrow> nat \<Rightarrow> nat" where
  "vector_of c1 c2 n = (if n < 8 then unat (vec_base c1) + n else unat (vec_base c2) + (n - 8))"

lemma bit_4_iff: "bit (4 :: int) n \<longleftrightarrow> n = 2"
proof -
  have "(4 :: int) = 2 ^ 2" by simp
  then show ?thesis by (simp only: bit_exp_iff) auto
qed

lemma pic_init_chips:
  assumes "pics_wired io p1 p2"
  shows "p1 (pic_init io d) = (p1 d)\<lparr>icw := 0, vec_base := 32, imr := 0xFF, in_service := 0\<rparr>"
    and "p2 (pic_init io d) = (p2 d)\<lparr>icw := 0, vec_base := 40, imr := 0xFF, in_service := 0\<rparr>"
proof -
  have "bit (17 :: u8) 4" by (simp add: bit_numeral_rec(2) bit_1_iff numeral_eq_Suc)
  then show "p1 (pic_init io d) = (p1 d)\<lparr>icw := 0, vec_base := 32, imr := 0xFF, in_service := 0\<rparr>"
      "p2 (pic_init io d) = (p2 d)\<lparr>icw := 0, vec_base := 40, imr := 0xFF, in_service := 0\<rparr>"
    unfolding pic_init_def Let_def io_wait_def kconst by (simp_all add: pics_wiredD[OF assms] chip_cmd_def chip_data_def)
qed

text \<open>
  \<^verbatim>\<open>pic_init\<close> brings both controllers out of any state through their initialisation
  sequence: sixteen lines, all masked, delivered on vectors 32 to 47, clear of the processor's exceptions.
\<close>
theorem pic_init_correct:
  assumes "pics_wired io p1 p2"
  shows "icw (p1 (pic_init io d)) = 0 \<and> icw (p2 (pic_init io d)) = 0 \<and>
    (\<forall>n < 16. line_masked (p1 (pic_init io d)) (p2 (pic_init io d)) n \<and>
       vector_of (p1 (pic_init io d)) (p2 (pic_init io d)) n = 32 + n)"
  using pic_init_chips[OF assms, of d]
  by (simp add: line_masked_def vector_of_def bit_masks del: bit_numeral_word_iff) auto

text \<open>
  \<^verbatim>\<open>pic_unmask_irq\<close> enables exactly the requested line (and the cascade line 2 for a
  line of the second controller), \<^verbatim>\<open>pic_mask_irq\<close> disables exactly it; every other line keeps its mask.
\<close>
theorem pic_mask_lines:
  assumes "pics_wired io p1 p2" "icw (p1 d) = 0" "icw (p2 d) = 0" "irq < 16" "n < 16"
  defines "u \<equiv> pic_unmask_irq io irq d" and "m \<equiv> pic_mask_irq io irq d"
  shows "(line_masked (p1 u) (p2 u) n \<longleftrightarrow>
      line_masked (p1 d) (p2 d) n \<and> n \<noteq> unat irq \<and> \<not> (irq \<ge> 8 \<and> n = 2)) \<and>
    (line_masked (p1 m) (p2 m) n \<longleftrightarrow> line_masked (p1 d) (p2 d) n \<or> n = unat irq)"
proof -
  note w = pics_wiredD[OF assms(1)]
  have irq: "unat irq < 16" using assms(4) by (simp add: word_less_nat_alt)
  show ?thesis
  proof (cases "irq < 8")
    case True
    then have "unat irq < 8" by (simp add: word_less_nat_alt)
    then show ?thesis using True assms(2,3)
      by (auto simp: u_def m_def pic_unmask_irq_def pic_mask_irq_def kconst Let_def split_beta w chip_data_def
        line_masked_def bit_simps)
  next
    case False
    then have i: "unat irq \<ge> 8" by (simp add: word_less_nat_alt)
    then have "unat (irq - 8) = unat irq - 8" by (simp add: unat_sub word_le_nat_alt)
    then show ?thesis using False i irq assms(2,3,5)
      by (auto simp: bit_4_iff u_def m_def pic_unmask_irq_def pic_mask_irq_def kconst Let_def split_beta w chip_data_def
        line_masked_def bit_simps)
  qed
qed

text \<open>A machine that consists of the two controllers.\<close>

definition pic_io :: "(i8259 \<times> i8259) io" where
  "pic_io =
     \<lparr>inb = (\<lambda>port d. (if port = 0x21 then imr (fst d) else if port = 0xA1 then imr (snd d) else 0xFF, d)),
      outb = (\<lambda>port v (a, b).
        if port = 0x20 then (chip_cmd v a, b) else if port = 0x21 then (chip_data v a, b)
        else if port = 0xA0 then (a, chip_cmd v b) else if port = 0xA1 then (a, chip_data v b) else (a, b)),
      inw = (\<lambda>_ d. (0xFFFF, d)), outw = (\<lambda>_ _ d. d)\<rparr>"

lemma pic_io_wired: "pics_wired pic_io fst snd"
  by (simp add: pics_wired_def pic_io_def split_beta)

definition chip0 :: i8259 where "chip0 = \<lparr>icw = 0, vec_base = 8, imr = 0xB8, in_service = 1\<rparr>"

theorem pic_init_correct_witness:
  "vector_of (fst (pic_init pic_io (chip0, chip0))) (snd (pic_init pic_io (chip0, chip0))) 9 = 41"
  using pic_init_correct[OF pic_io_wired, of "(chip0, chip0)"] by simp

theorem pic_mask_lines_witness:
  "\<not> line_masked (fst (pic_unmask_irq pic_io 1 (chip0, chip0))) (snd (pic_unmask_irq pic_io 1 (chip0, chip0))) 1"
  using pic_mask_lines[OF pic_io_wired, of "(chip0, chip0)" 1 1] by (simp add: chip0_def)

section \<open>The clock\<close>

text \<open>
  The clock chip behind the index and data ports: register A reports an update in progress for
  \<open>busy d\<close> more polls, and the other registers hold the time while it is read.
\<close>

definition cmos_wired :: "'d io \<Rightarrow> ('d \<Rightarrow> u8 \<Rightarrow> u8) \<Rightarrow> ('d \<Rightarrow> nat) \<Rightarrow> bool" where
  "cmos_wired io regs busy \<longleftrightarrow>
     (\<forall>r d. r < 0x80 \<longrightarrow> (let (v, d') = inb io 0x71 (outb io 0x70 (0x80 OR r) d)
        in regs d' = regs d \<and>
           (if r = 0x0A then (v AND 0x80 \<noteq> 0 \<longleftrightarrow> busy d > 0) \<and> busy d' = busy d - 1
            else v = regs d r \<and> busy d' = busy d)))"

lemma cmos_wiredD:
  assumes "cmos_wired io regs busy" "cmos_read io r d = (v, d')" "r < 0x80"
  shows "regs d' = regs d" "r = 0x0A \<Longrightarrow> v AND 0x80 \<noteq> 0 \<longleftrightarrow> busy d > 0" "r = 0x0A \<Longrightarrow> busy d' = busy d - 1"
    "r \<noteq> 0x0A \<Longrightarrow> v = regs d r"
  using assms unfolding cmos_wired_def cmos_read_def by (auto dest!: spec[of _ r] spec[of _ d])

lemma rtc_wait_ends:
  assumes "cmos_wired io regs busy"
  shows "\<exists>d'. rtc_wait io d = Some d' \<and> regs d' = regs d"
proof (induction "busy d" arbitrary: d)
  case 0
  obtain v d' where r: "cmos_read io 0x0A d = (v, d')" by fastforce
  then show ?case using cmos_wiredD[OF assms r, simplified] 0 by (simp add: rtc_wait.simps)
next
  case (Suc n)
  obtain v d' where r: "cmos_read io 0x0A d = (v, d')" by fastforce
  have "rtc_wait io d = rtc_wait io d'" "n = busy d'" "regs d' = regs d"
    using cmos_wiredD[OF assms r, simplified] Suc.hyps(2) r rtc_wait.simps[of io d] by simp_all
  then show ?case using Suc.hyps(1)[of d'] by simp
qed

definition bcd :: "nat \<Rightarrow> u8" where
  "bcd n = of_nat (16 * (n div 10) + n mod 10)"

lemma bcd_to_bin_table: "list_all (\<lambda>n. bcd_to_bin (bcd n) = of_nat n) [0 ..< 100]"
  by code_simp

lemma bcd_to_bin_bcd: "n < 100 \<Longrightarrow> bcd_to_bin (bcd n) = of_nat n"
  by (rule bspec[OF bcd_to_bin_table[unfolded list_all_iff]]) (simp only: set_upt atLeastLessThan_iff le0 simp_thms)

text \<open>
  A date and time, and the registers of a clock in 24-hour mode that shows it, in binary when bit 2 of register B is set
  and in BCD otherwise.
\<close>

definition clock_shows :: "(u8 \<Rightarrow> u8) \<Rightarrow> nat \<Rightarrow> nat \<Rightarrow> nat \<Rightarrow> nat \<Rightarrow> nat \<Rightarrow> nat \<Rightarrow> bool" where
  "clock_shows regs y mo da h mi sec \<longleftrightarrow>
     1970 \<le> y \<and> y < 2070 \<and> mo < 100 \<and> da < 100 \<and> h < 24 \<and> mi < 60 \<and> sec < 60 \<and> regs 0x0B AND 0x02 \<noteq> 0 \<and>
     (let enc = (if regs 0x0B AND 0x04 = 0 then bcd else of_nat)
      in regs 0x09 = enc (y mod 100) \<and> regs 0x08 = enc mo \<and> regs 0x07 = enc da \<and> regs 0x04 = enc h \<and>
         regs 0x02 = enc mi \<and> regs 0x00 = enc sec)"

lemma rtc_century:
  fixes y :: nat
  assumes "1970 \<le> y" "y < 2070"
  shows "(of_nat (y mod 100) :: u16) + (if (of_nat (y mod 100) :: u16) < 70 then 2000 else 1900) = of_nat y"
proof -
  have less: "(of_nat (y mod 100) :: u16) < 70 \<longleftrightarrow> y mod 100 < 70"
    by (simp add: word_less_nat_alt unat_of_nat take_bit_eq_mod)
  show ?thesis
  proof (cases "y < 2000")
    case True
    then have e: "y mod 100 = y - 1900"
      using assms mod_mult_self1[of "y - 1900" 19 100] by simp
    then have "of_nat y = (of_nat (y mod 100) + 1900 :: u16)"
      using assms(1) of_nat_add[of "y - 1900" 1900, where 'a = u16] by simp
    then show ?thesis using less e assms True by simp
  next
    case False
    then have e: "y mod 100 = y - 2000"
      using assms mod_mult_self1[of "y - 2000" 20 100] by simp
    then have "of_nat y = (of_nat (y mod 100) + 2000 :: u16)"
      using False of_nat_add[of "y - 2000" 2000, where 'a = u16] by simp
    then show ?thesis using less e assms False by simp
  qed
qed

lemma ucast_of_nat_u8: "n < 256 \<Longrightarrow> (ucast (of_nat n :: u8) :: u16) = of_nat n"
  by (simp add: unsigned_of_nat take_bit_nat_eq_self)

lemma ucast_u8_u16_u8: "(ucast (ucast (x :: u8) :: u16) :: u8) = x"
  by (rule bit_word_eqI) (simp add: bit_simps)

text \<open>
  On a clock in 24-hour mode, whether it counts in BCD or in binary, \<^verbatim>\<open>rtc_read\<close> returns once the update flag clears,
  with the year (1970 to 2069), month, day, hour, minute and second that the clock shows.
\<close>
theorem rtc_read_correct:
  assumes "cmos_wired io regs busy" "clock_shows (regs d) y mo da h mi sec"
  shows "\<exists>d'. rtc_read io d = Some (\<lparr>year = of_nat y, month = of_nat mo, day = of_nat da, hour = of_nat h,
    minute = of_nat mi, second = of_nat sec\<rparr>, d')"
proof -
  note cw = cmos_wiredD(1,4)[OF assms(1)]
  obtain d0 where d0: "rtc_wait io d = Some d0" "regs d0 = regs d" using rtc_wait_ends[OF assms(1)] by blast
  obtain b d1 where r1: "cmos_read io 0x0B d0 = (b, d1)" by fastforce
  obtain s1 d2 where r2: "cmos_read io 0x00 d1 = (s1, d2)" by fastforce
  obtain m1 d3 where r3: "cmos_read io 0x02 d2 = (m1, d3)" by fastforce
  obtain h1 d4 where r4: "cmos_read io 0x04 d3 = (h1, d4)" by fastforce
  obtain a1 d5 where r5: "cmos_read io 0x07 d4 = (a1, d5)" by fastforce
  obtain o1 d6 where r6: "cmos_read io 0x08 d5 = (o1, d6)" by fastforce
  obtain y1 d7 where r7: "cmos_read io 0x09 d6 = (y1, d7)" by fastforce
  note rr = r1 r2 r3 r4 r5 r6 r7
  have v: "b = regs d 0x0B" "s1 = regs d 0x00" "m1 = regs d 0x02" "h1 = regs d 0x04" "a1 = regs d 0x07"
    "o1 = regs d 0x08" "y1 = regs d 0x09"
    using cw[OF r1, simplified] cw[OF r2, simplified] cw[OF r3, simplified] cw[OF r4, simplified]
      cw[OF r5, simplified] cw[OF r6, simplified] cw[OF r7, simplified] d0(2) by simp_all
  have y: "y mod 100 < 100" by simp
  note cent = rtc_century[of y] ucast_of_nat_u8[of "y mod 100"]
  have "rtc_convert b \<lparr>year = ucast y1, month = o1, day = a1, hour = h1, minute = m1, second = s1\<rparr> =
    \<lparr>year = of_nat y, month = of_nat mo, day = of_nat da, hour = of_nat h, minute = of_nat mi, second = of_nat sec\<rparr>"
    using assms(2) cent y
    by (simp add: v rtc_convert_def clock_shows_def Let_def bcd_to_bin_bcd ucast_u8_u16_u8 split: if_splits)
  then show ?thesis by (simp add: rtc_read_def d0(1) rr)
qed

text \<open>A clock chip alone: the polls left, the register file and the latched index.\<close>

definition cmos_io :: "(nat \<times> (u8 \<Rightarrow> u8) \<times> u8) io" where
  "cmos_io =
     \<lparr>inb = (\<lambda>port (n, regs, i).
        if port \<noteq> 0x71 then (0xFF, (n, regs, i))
        else if i = 0x0A then (if n > 0 then 0x80 else 0x26, (n - 1, regs, i)) else (regs i, (n, regs, i))),
      outb = (\<lambda>port v (n, regs, i). (n, regs, if port = 0x70 then v AND 0x7F else i)),
      inw = (\<lambda>_ d. (0xFFFF, d)), outw = (\<lambda>_ _ d. d)\<rparr>"

definition noon_regs :: "u8 \<Rightarrow> u8" where
  "noon_regs r = (if r = 0x0B then 0x02 else if r = 0x09 then 0x25 else if r = 0x08 then 0x12
     else if r = 0x07 then 0x31 else if r = 0x04 then 0x23 else if r = 0x02 then 0x59 else 0x07)"

lemma nmi_bit: "(r :: u8) < 0x80 \<Longrightarrow> (0x80 OR r) AND 0x7F = r"
proof -
  assume "r < 0x80"
  then have "unat r < 128" by (simp add: word_less_nat_alt)
  then have "unat (r AND 0x7F) = unat r" unfolding mask_consts unat_and_mask by simp
  then have "r AND 0x7F = r" by (simp add: word_unat_eq_iff)
  then show ?thesis by (simp add: bit.conj_disj_distrib2)
qed

lemma cmos_io_wired: "cmos_wired cmos_io (fst \<circ> snd) fst"
  by (auto simp: cmos_wired_def cmos_io_def nmi_bit)

theorem rtc_read_correct_witness:
  "\<exists>d'. rtc_read cmos_io (3, noon_regs, 0) = Some (\<lparr>year = 2025, month = 12, day = 31, hour = 23, minute = 59,
     second = 7\<rparr>, d')"
  using rtc_read_correct[OF cmos_io_wired, of "(3, noon_regs, 0)" 2025 12 31 23 59 7]
  by (simp add: clock_shows_def noon_regs_def bcd_def)

text \<open>
  In 12-hour BCD mode the afternoon flag is lost: 1 PM, hour register 0x81, comes out as 81, because the flag is
  tested after the conversion from BCD has overwritten it.
\<close>

lemma rtc_12h_pm_lost: "hour t = 0x81 \<Longrightarrow> hour (rtc_convert 0 t) = 81"
  by (simp add: rtc_convert_def bcd_to_bin_def Let_def)

end
