(* ===== verification/Memory.thy ===== *)
theory Memory
  imports Prelude
begin

text \<open>
  Physical memory as the kernel sees it: a total map from 32-bit addresses to
  bytes, with the little-endian 32-bit accesses that C compiles field and array
  accesses to, and the two memory routines of \<^verbatim>\<open>kernel/string.h\<close> that work through
  raw pointers. Addresses are words, so pointer arithmetic wraps as it does on
  the machine. The component theories reason about separated ranges through
  the lemmas of the last section.
\<close>

type_synonym mem = "u32 \<Rightarrow> u8"

section \<open>Multi-byte accesses\<close>

definition load32 :: "mem \<Rightarrow> u32 \<Rightarrow> u32" where
  "load32 m a =
     ucast (m a) OR push_bit 8 (ucast (m (a + 1))) OR
     push_bit 16 (ucast (m (a + 2))) OR push_bit 24 (ucast (m (a + 3)))"

definition store32 :: "mem \<Rightarrow> u32 \<Rightarrow> u32 \<Rightarrow> mem" where
  "store32 m a v =
     m(a := ucast v, a + 1 := ucast (drop_bit 8 v),
       a + 2 := ucast (drop_bit 16 v), a + 3 := ucast (drop_bit 24 v))"

definition load16 :: "mem \<Rightarrow> u32 \<Rightarrow> u16" where
  "load16 m a = ucast (m a) OR push_bit 8 (ucast (m (a + 1)))"

definition load64 :: "mem \<Rightarrow> u32 \<Rightarrow> u64" where
  "load64 m a = ucast (load32 m a) OR push_bit 32 (ucast (load32 m (a + 4)))"

section \<open>\<^verbatim>\<open>memset\<close> and \<^verbatim>\<open>memcpy\<close>\<close>

text \<open>
  The \<^verbatim>\<open>while (n--)\<close> loops of \<^verbatim>\<open>string.h\<close>, one byte per iteration; the count is the
  unsigned value of the C argument.
\<close>

fun memset_bytes :: "mem \<Rightarrow> u32 \<Rightarrow> u8 \<Rightarrow> nat \<Rightarrow> mem" where
  "memset_bytes m p c 0 = m"
| "memset_bytes m p c (Suc n) = memset_bytes (m(p := c)) (p + 1) c n"

definition memset :: "mem \<Rightarrow> u32 \<Rightarrow> u8 \<Rightarrow> u32 \<Rightarrow> mem" where
  "memset m s c n = memset_bytes m s c (unat n)"

fun memcpy_bytes :: "mem \<Rightarrow> u32 \<Rightarrow> u32 \<Rightarrow> nat \<Rightarrow> mem" where
  "memcpy_bytes m d s 0 = m"
| "memcpy_bytes m d s (Suc n) = memcpy_bytes (m(d := m s)) (d + 1) (s + 1) n"

definition memcpy :: "mem \<Rightarrow> u32 \<Rightarrow> u32 \<Rightarrow> u32 \<Rightarrow> mem" where
  "memcpy m d s n = memcpy_bytes m d s (unat n)"

section \<open>Ranges\<close>

text \<open>\<open>within a n x\<close>: the address \<open>x\<close> lies in the \<open>n\<close> bytes from \<open>a\<close> (with wrap-around).\<close>

definition within :: "u32 \<Rightarrow> nat \<Rightarrow> u32 \<Rightarrow> bool" where
  "within a n x \<longleftrightarrow> unat (x - a) < n"

lemma unat_diff_lt_iff:
  fixes a x :: u32
  assumes "unat a + n \<le> 4294967296"
  shows "unat (x - a) < n \<longleftrightarrow> unat a \<le> unat x \<and> unat x < unat a + n"
  using assms unat_u32[of x] unat_u32[of a]
  by (auto simp: unat_sub_if')

lemma within_nat:
  "unat a + n \<le> 4294967296 \<Longrightarrow> within a n x \<longleftrightarrow> unat a \<le> unat x \<and> unat x < unat a + n"
  unfolding within_def by (rule unat_diff_lt_iff)

section \<open>Reading back what was written\<close>

lemma load32_store32_same [simp]: "load32 (store32 m a v) a = v"
proof (rule bit_word_eqI)
  fix n
  assume "n < LENGTH(32)"
  then consider "n < 8" | "8 \<le> n" "n < 16" | "16 \<le> n" "n < 24" | "24 \<le> n" "n < 32"
    by fastforce
  then show "bit (load32 (store32 m a v) a) n = bit v n"
    by cases (auto simp: load32_def store32_def bit_simps)
qed

lemma store32_apply_other: "\<not> within a 4 x \<Longrightarrow> store32 m a v x = m x"
  by (auto simp: store32_def within_def)

lemma load32_cong:
  assumes "\<And>x. within a 4 x \<Longrightarrow> m x = m' x"
  shows "load32 m a = load32 m' a"
  using assms by (simp add: load32_def within_def)

lemma load32_store32_other:
  assumes "unat a + 4 \<le> 4294967296" "unat b + 4 \<le> 4294967296"
    and "unat a + 4 \<le> unat b \<or> unat b + 4 \<le> unat a"
  shows "load32 (store32 m a v) b = load32 m b"
proof (rule load32_cong)
  fix x
  assume "within b 4 x"
  with assms have "\<not> within a 4 x" by (auto simp: within_nat)
  then show "store32 m a v x = m x" by (rule store32_apply_other)
qed

section \<open>\<^verbatim>\<open>memset\<close> and \<^verbatim>\<open>memcpy\<close> as functions of the address\<close>

lemma within_Suc:
  assumes "n < 4294967296"
  shows "within p (Suc n) x \<longleftrightarrow> x = p \<or> (within (p + 1) n x \<and> x \<noteq> p)"
proof (cases "x = p")
  case False
  then have "x - p \<noteq> 0" by simp
  then have "unat (x - p - 1) = unat (x - p) - 1" by (rule unat_minus_one)
  moreover have "0 < unat (x - p)" using \<open>x - p \<noteq> 0\<close> by (simp add: unat_gt_0)
  ultimately have "unat (x - (p + 1)) = unat (x - p) - 1" "0 < unat (x - p)"
    by (simp_all add: diff_diff_eq)
  then show ?thesis using False unfolding within_def by linarith
qed (simp add: within_def)

lemma not_within_Suc_start:
  "n < 4294967296 \<Longrightarrow> \<not> within (p + 1) n (p :: u32)"
  unfolding within_def
proof -
  assume "n < 4294967296"
  have "p - (p + 1) = (- 1 :: u32)" by simp
  then have "unat (p - (p + 1)) = 4294967295" 
    by (simp add: unsigned_minus_1_eq_mask mask_eq_exp_minus_1)
  then show "\<not> unat (p - (p + 1)) < n" using \<open>n < 4294967296\<close> by simp
qed

lemma memset_bytes_apply:
  "n \<le> 4294967296 \<Longrightarrow> memset_bytes m p c n x = (if within p n x then c else m x)"
proof (induction n arbitrary: m p)
  case (Suc n)
  then show ?case
    by (auto simp: within_Suc not_within_Suc_start)
qed (simp add: within_def)

lemma memset_apply: "memset m s c n x = (if within s (unat n) x then c else m x)"
  unfolding memset_def using unat_u32[of n] by (intro memset_bytes_apply) simp

lemma memcpy_bytes_apply:
  assumes "n \<le> 4294967296" and "\<And>i. i < n \<Longrightarrow> \<not> within d n (s + of_nat i)"
  shows "memcpy_bytes m d s n x = (if within d n x then m (s + (x - d)) else m x)"
  using assms
proof (induction n arbitrary: m d s)
  case (Suc n)
  have less: "n < 4294967296" using Suc.prems(1) by simp
  have sep: "\<And>i. i < n \<Longrightarrow> \<not> within (d + 1) n (s + 1 + of_nat i)"
  proof -
    fix i assume "i < n"
    then have "\<not> within d (Suc n) (s + of_nat (Suc i))"
      using Suc.prems(2)[of "Suc i"] by simp
    then show "\<not> within (d + 1) n (s + 1 + of_nat i)"
      using less by (auto simp: within_Suc add.assoc)
  qed
  have src: "s + (x - d) \<noteq> d" if "within (d + 1) n x" "x \<noteq> d"
  proof -
    have "unat (x - d) < Suc n" using that less by (simp add: within_Suc flip: within_def)
    then have "\<not> within d (Suc n) (s + of_nat (unat (x - d)))" by (rule Suc.prems(2))
    then show ?thesis using less by (simp add: within_Suc)
  qed
  have "memcpy_bytes m d s (Suc n) x = memcpy_bytes (m(d := m s)) (d + 1) (s + 1) n x"
    by simp
  also have "\<dots> = (if within (d + 1) n x then (m(d := m s)) (s + 1 + (x - (d + 1)))
      else (m(d := m s)) x)"
    using sep less by (intro Suc.IH) auto
  also have "\<dots> = (if within d (Suc n) x then m (s + (x - d)) else m x)"
    using src less by (auto simp: within_Suc not_within_Suc_start)
  finally show ?case .
qed (simp add: within_def)

lemma load32_memset_zero:
  assumes "unat s + unat n \<le> 4294967296" "unat s \<le> unat a" "unat a + 4 \<le> unat s + unat n"
  shows "load32 (memset m s 0 n) a = 0"
proof -
  have "memset m s 0 n x = 0" if "within a 4 x" for x
    using that assms by (simp add: memset_apply within_nat)
  then have "load32 (memset m s 0 n) a = load32 (\<lambda>_. 0) a" by (intro load32_cong)
  then show ?thesis by (simp add: load32_def)
qed

lemma load32_memset_other:
  assumes "unat s + unat n \<le> 4294967296" "unat a + 4 \<le> 4294967296"
    and "unat a + 4 \<le> unat s \<or> unat s + unat n \<le> unat a"
  shows "load32 (memset m s c n) a = load32 m a"
  by (rule load32_cong) (use assms in \<open>auto simp: memset_apply within_nat\<close>)

section \<open>Accesses at natural-number addresses\<close>

text \<open>
  Proofs about data structures in memory are done on \<open>nat\<close> addresses, where range
  conditions are linear arithmetic: \<open>ld\<close> and \<open>st\<close> are the word accesses at
  such an address.
\<close>

definition ld :: "mem \<Rightarrow> nat \<Rightarrow> u32" where
  "ld m n = load32 m (of_nat n)"

definition st :: "mem \<Rightarrow> nat \<Rightarrow> u32 \<Rightarrow> mem" where
  "st m n v = store32 m (of_nat n) v"

lemma ld_st_same [simp]: "ld (st m a v) a = v"
  by (simp add: ld_def st_def)

lemma ld_st_other:
  assumes "a + 4 \<le> 4294967296" "b + 4 \<le> 4294967296" "a + 4 \<le> b \<or> b + 4 \<le> a"
  shows "ld (st m a v) b = ld m b"
  unfolding ld_def st_def
  by (rule load32_store32_other) (use assms in \<open>simp_all add: unat_of_nat_u32\<close>)

lemma st_frame:
  assumes "a + 4 \<le> 4294967296" "unat x < a \<or> a + 4 \<le> unat x"
  shows "st m a v x = m x"
  unfolding st_def
  by (rule store32_apply_other) (use assms in \<open>auto simp: within_nat unat_of_nat_u32\<close>)

lemma ld_cong:
  assumes "\<And>x. a \<le> unat x \<Longrightarrow> unat x < a + 4 \<Longrightarrow> m x = m' x" "a + 4 \<le> 4294967296"
  shows "ld m a = ld m' a"
  unfolding ld_def
  by (rule load32_cong) (use assms in \<open>auto simp: within_nat unat_of_nat_u32\<close>)

end
