(* ===== verification/Pmm.thy ===== *)
theory Pmm
  imports Memory
begin

text \<open>
  The physical memory manager, \<^verbatim>\<open>kernel/pmm.c\<close>: a bitmap with one bit per 4 KB frame
  of the first 32 MB (1 = used), filled from the E820 map the boot loader leaves at
  \<^verbatim>\<open>0x0500\<close>. The abstract view is the set of free frame numbers; the lemmas relate the
  byte-and-bit arithmetic of the code to it, and the interface \<open>frame_allocator\<close> is
  what the paging code relies on.
\<close>

section \<open>The code\<close>

definition PMM_PAGE_SIZE :: u32 where [kconst]: "PMM_PAGE_SIZE = 4096"
definition PMM_MAX_PHYS :: u64 where [kconst]: "PMM_MAX_PHYS = 32 * 1024 * 1024"
definition PMM_TOTAL_FRAMES :: u32 where [kconst]: "PMM_TOTAL_FRAMES = 8192"
definition BOOT_MMAP_ADDR :: u32 where [kconst]: "BOOT_MMAP_ADDR = 0x0500"
definition E820_TYPE_USABLE :: u32 where [kconst]: "E820_TYPE_USABLE = 1"

record pmm =
  pmm_bitmap :: "u8 list"
  pmm_free :: u32
  pmm_total :: u32

record e820_entry =
  e820_base :: u64
  e820_length :: u64
  e820_type :: u32

text \<open>Entry \<open>i\<close> of the packed \<^verbatim>\<open>boot_mmap_t\<close>: 20 bytes per entry after a 16-bit count.\<close>

definition mmap_count :: "mem \<Rightarrow> u16" where
  "mmap_count m = load16 m BOOT_MMAP_ADDR"

definition mmap_entry :: "mem \<Rightarrow> nat \<Rightarrow> e820_entry" where
  "mmap_entry m i =
     (let a = BOOT_MMAP_ADDR + 2 + of_nat (20 * i)
      in \<lparr>e820_base = load64 m a, e820_length = load64 m (a + 8), e820_type = load32 m (a + 16)\<rparr>)"

definition pmm_set_used :: "u32 \<Rightarrow> pmm \<Rightarrow> pmm" where
  "pmm_set_used frame s =
     (let i = unat (drop_bit 3 frame) in
      s\<lparr>pmm_bitmap := (pmm_bitmap s)[i := (pmm_bitmap s ! i) OR push_bit (unat (frame AND 7)) 1]\<rparr>)"

definition pmm_set_free :: "u32 \<Rightarrow> pmm \<Rightarrow> pmm" where
  "pmm_set_free frame s =
     (let i = unat (drop_bit 3 frame) in
      s\<lparr>pmm_bitmap := (pmm_bitmap s)[i := (pmm_bitmap s ! i) AND NOT (push_bit (unat (frame AND 7)) 1)]\<rparr>)"

definition pmm_is_used :: "u32 \<Rightarrow> pmm \<Rightarrow> bool" where
  "pmm_is_used frame s \<longleftrightarrow>
     drop_bit (unat (frame AND 7)) (pmm_bitmap s ! unat (drop_bit 3 frame)) AND 1 \<noteq> 0"

text \<open>\<^verbatim>\<open>if (pmm_free > 0) pmm_free--;\<close>\<close>

definition dec_free :: "pmm \<Rightarrow> pmm" where
  "dec_free s = (if pmm_free s > 0 then s\<lparr>pmm_free := pmm_free s - 1\<rparr> else s)"

definition pmm_reserve_range :: "u64 \<Rightarrow> u64 \<Rightarrow> pmm \<Rightarrow> pmm" where
  "pmm_reserve_range base len s =
     (if base \<ge> PMM_MAX_PHYS then s
      else
        let len = (if base + len > PMM_MAX_PHYS then PMM_MAX_PHYS - base else len);
            start = (ucast (base div 4096) :: u32);
            end' = ucast ((base + len + 4096 - 1) div 4096);
            end' = (if end' > PMM_TOTAL_FRAMES then PMM_TOTAL_FRAMES else end')
        in for_range start end'
             (\<lambda>f s. if \<not> pmm_is_used f s then dec_free (pmm_set_used f s) else s) s)"

text \<open>One usable frame found: \<^verbatim>\<open>pmm_set_free(f); pmm_free++;\<close>\<close>

definition pmm_add_frame :: "u32 \<Rightarrow> pmm \<Rightarrow> pmm" where
  "pmm_add_frame f s = (pmm_set_free f s)\<lparr>pmm_free := pmm_free s + 1\<rparr>"

definition pmm_add_entry :: "e820_entry \<Rightarrow> pmm \<Rightarrow> pmm" where
  "pmm_add_entry e s =
     (if e820_type e \<noteq> E820_TYPE_USABLE then s
      else if e820_base e \<ge> PMM_MAX_PHYS then s
      else
        let base = e820_base e;
            end' = base + e820_length e;
            end' = (if end' > PMM_MAX_PHYS then PMM_MAX_PHYS else end');
            start_frame = (ucast ((base + 4096 - 1) div 4096) :: u32);
            end_frame = ucast (end' div 4096);
            end_frame = (if end_frame > PMM_TOTAL_FRAMES then PMM_TOTAL_FRAMES else end_frame);
            s = for_range start_frame end_frame pmm_add_frame s
        in s\<lparr>pmm_total := pmm_total s + (end_frame - start_frame)\<rparr>)"

definition pmm_init :: "mem \<Rightarrow> pmm" where
  "pmm_init m =
     (let s = \<lparr>pmm_bitmap = replicate 1024 0xFF, pmm_free = 0, pmm_total = 0\<rparr> in
      if mmap_count m = 0 then
        let s = for_range (0x100000 div PMM_PAGE_SIZE) PMM_TOTAL_FRAMES
              (\<lambda>f s. (pmm_add_frame f s)\<lparr>pmm_total := pmm_total s + 1\<rparr>) s
        in s\<lparr>pmm_total := pmm_total s + 0x100000 div PMM_PAGE_SIZE\<rparr>
      else
        pmm_reserve_range 0 0x100000
          (fold (\<lambda>i. pmm_add_entry (mmap_entry m i)) [0 ..< unat (mmap_count m)] s))"

definition pmm_alloc_frame :: "pmm \<Rightarrow> pmm \<times> u32" where
  "pmm_alloc_frame s =
     (case find (\<lambda>f. \<not> pmm_is_used (of_nat f) s) [0 ..< unat PMM_TOTAL_FRAMES] of
        Some f \<Rightarrow> (dec_free (pmm_set_used (of_nat f) s), of_nat f * PMM_PAGE_SIZE)
      | None \<Rightarrow> (s, 0))"

definition pmm_free_frame :: "u32 \<Rightarrow> pmm \<Rightarrow> pmm" where
  "pmm_free_frame phys_addr s =
     (let f = phys_addr div PMM_PAGE_SIZE in
      if f \<ge> PMM_TOTAL_FRAMES then s
      else if pmm_is_used f s then (pmm_set_free f s)\<lparr>pmm_free := pmm_free s + 1\<rparr>
      else s)"

definition pmm_free_frames :: "pmm \<Rightarrow> u32" where "pmm_free_frames s = pmm_free s"
definition pmm_total_frames :: "pmm \<Rightarrow> u32" where "pmm_total_frames s = pmm_total s"

section \<open>Frames and bits\<close>

definition frame_used :: "pmm \<Rightarrow> nat \<Rightarrow> bool" where
  "frame_used s f \<longleftrightarrow> bit (pmm_bitmap s ! (f div 8)) (f mod 8)"

definition free_set :: "pmm \<Rightarrow> nat set" where
  "free_set s = {f. f < 8192 \<and> \<not> frame_used s f}"

lemma frame_index:
  "unat (drop_bit 3 (f :: u32)) = unat f div 8" "unat (f AND 7) = unat f mod 8"
  using unat_drop_bit[of 3 f] unat_and_mask[of f 3] by (simp_all add: mask_eq_exp_minus_1)

lemma pmm_is_used_iff: "pmm_is_used f s \<longleftrightarrow> frame_used s (unat f)"
  unfolding pmm_is_used_def frame_used_def frame_index
  by (simp add: and_one_eq bit_iff_odd_drop_bit odd_iff_mod_2_eq_one)

lemma bit_exp_u8: "k < 8 \<Longrightarrow> bit ((2 :: u8) ^ k) j \<longleftrightarrow> j = k"
  by (auto simp: bit_exp_iff)

lemma div_mod_8_eq_iff: "(f :: nat) div 8 = g div 8 \<and> f mod 8 = g mod 8 \<longleftrightarrow> f = g"
  by (metis div_mult_mod_eq)

lemma frame_used_set_used:
  assumes "length (pmm_bitmap s) = 1024" "unat f < 8192" "g < 8192"
  shows "frame_used (pmm_set_used f s) g \<longleftrightarrow> g = unat f \<or> frame_used s g"
proof -
  have "unat f div 8 < 1024" "g div 8 < 1024" using assms by auto
  then show ?thesis
    using assms(1) div_mod_8_eq_iff[of g "unat f"]
    unfolding frame_used_def pmm_set_used_def frame_index Let_def
    by (auto simp: nth_list_update bit_or_iff bit_exp_u8)
qed

lemma frame_used_set_free:
  assumes "length (pmm_bitmap s) = 1024" "unat f < 8192" "g < 8192"
  shows "frame_used (pmm_set_free f s) g \<longleftrightarrow> g \<noteq> unat f \<and> frame_used s g"
proof -
  have "unat f div 8 < 1024" "g div 8 < 1024" "g mod 8 < 8" using assms by auto
  then show ?thesis
    using assms(1) div_mod_8_eq_iff[of g "unat f"]
    unfolding frame_used_def pmm_set_free_def frame_index Let_def
    by (auto simp: nth_list_update bit_and_iff bit_not_iff bit_exp_u8)
qed

section \<open>The set of free frames\<close>

lemma finite_free_set [simp]: "finite (free_set s)"
  unfolding free_set_def by (rule finite_subset[of _ "{..<8192}"]) auto

lemma card_free_set_le: "card (free_set s) \<le> 8192"
  using card_mono[of "{..<8192}" "free_set s"] by (auto simp: free_set_def)

lemma free_set_set_used:
  assumes "length (pmm_bitmap s) = 1024" "unat f < 8192"
  shows "free_set (pmm_set_used f s) = free_set s - {unat f}"
  using assms by (auto simp: free_set_def frame_used_set_used)

lemma free_set_set_free:
  assumes "length (pmm_bitmap s) = 1024" "unat f < 8192"
  shows "free_set (pmm_set_free f s) = insert (unat f) (free_set s)"
  using assms by (auto simp: free_set_def frame_used_set_free)

lemma free_set_cong: "pmm_bitmap s = pmm_bitmap t \<Longrightarrow> free_set s = free_set t"
  by (simp add: free_set_def frame_used_def)

lemma free_set_update [simp]:
  "free_set (s\<lparr>pmm_free := n\<rparr>) = free_set s" "free_set (s\<lparr>pmm_total := n\<rparr>) = free_set s"
  "free_set (dec_free s) = free_set s"
  by (auto intro!: free_set_cong simp: dec_free_def)

lemma pmm_fields [simp]:
  "length (pmm_bitmap (pmm_set_used f s)) = length (pmm_bitmap s)"
  "length (pmm_bitmap (pmm_set_free f s)) = length (pmm_bitmap s)"
  "pmm_bitmap (dec_free s) = pmm_bitmap s"
  "pmm_free (pmm_set_used f s) = pmm_free s" "pmm_free (pmm_set_free f s) = pmm_free s"
  "pmm_total (pmm_set_used f s) = pmm_total s" "pmm_total (pmm_set_free f s) = pmm_total s"
  "pmm_total (dec_free s) = pmm_total s"
  by (simp_all add: pmm_set_used_def pmm_set_free_def dec_free_def Let_def)

lemma pmm_is_used_free_set: "unat f < 8192 \<Longrightarrow> pmm_is_used f s \<longleftrightarrow> unat f \<notin> free_set s"
  by (simp add: pmm_is_used_iff free_set_def)

text \<open>
  The allocator's invariant: the bitmap has its 1024 bytes, \<^verbatim>\<open>pmm_free\<close> counts the free
  frames, and the first megabyte is reserved.
\<close>

definition counted :: "pmm \<Rightarrow> bool" where
  "counted s \<longleftrightarrow> length (pmm_bitmap s) = 1024 \<and> unat (pmm_free s) = card (free_set s)"

definition pmm_inv :: "pmm \<Rightarrow> bool" where
  "pmm_inv s \<longleftrightarrow> counted s \<and> (\<forall>f \<in> free_set s. 256 \<le> f)"

lemma counted_take:
  assumes "counted s" "unat f < 8192" "unat f \<in> free_set s"
  shows "counted (dec_free (pmm_set_used f s))"
proof -
  have "unat (pmm_free s) = card (free_set s)" "0 < card (free_set s)"
    using assms by (auto simp: counted_def card_gt_0_iff)
  moreover have "pmm_free s \<noteq> 0" using calculation by auto
  ultimately show ?thesis
    using assms unfolding counted_def
    by (simp add: free_set_set_used dec_free_def word_gt_0 unat_minus_one card_Diff_singleton)
qed

lemma counted_release:
  assumes "counted s" "unat f < 8192" "unat f \<notin> free_set s"
  shows "counted (pmm_add_frame f s)"
proof -
  have "card (free_set s) < 8193" using card_free_set_le[of s] by simp
  then have "unat (pmm_free s + 1) = unat (pmm_free s) + 1"
    using assms(1) unat_plus_u32[of "pmm_free s" 1] by (simp add: counted_def)
  then show ?thesis
    using assms unfolding counted_def pmm_add_frame_def
    by (simp add: free_set_set_free)
qed

section \<open>Allocation and release\<close>

lemma find_upt_least:
  "find P [0 ..< n] = Some i \<longleftrightarrow> i < n \<and> P i \<and> (\<forall>j < i. \<not> P j)"
  by (auto simp: find_Some_iff)

lemma pmm_alloc_frame_none:
  assumes "free_set s = {}"
  shows "pmm_alloc_frame s = (s, 0)"
proof -
  have "\<not> (\<exists>f < 8192. \<not> pmm_is_used (of_nat f) s)"
    using assms by (auto simp: pmm_is_used_free_set unat_of_nat_u32)
  then have "find (\<lambda>f. \<not> pmm_is_used (of_nat f) s) [0 ..< unat PMM_TOTAL_FRAMES] = None"
    by (auto simp: find_None_iff kconst)
  then show ?thesis by (simp add: pmm_alloc_frame_def)
qed

lemma pmm_alloc_frame_some:
  assumes "free_set s \<noteq> {}"
  defines "f \<equiv> Min (free_set s)"
  shows "pmm_alloc_frame s = (dec_free (pmm_set_used (of_nat f) s), of_nat (4096 * f))"
    "f \<in> free_set s" "f < 8192"
proof -
  show f: "f \<in> free_set s" unfolding f_def using assms by (intro Min_in) auto
  then show less: "f < 8192" by (auto simp: free_set_def)
  have low: "g \<notin> free_set s" if "g < f" for g
    using that Min_le[of "free_set s" g] unfolding f_def by fastforce
  have "find (\<lambda>f. \<not> pmm_is_used (of_nat f) s) [0 ..< unat PMM_TOTAL_FRAMES] = Some f"
    unfolding find_upt_least using f less low
    by (auto simp: pmm_is_used_free_set unat_of_nat_u32 kconst)
  then show "pmm_alloc_frame s = (dec_free (pmm_set_used (of_nat f) s), of_nat (4096 * f))"
    by (simp add: pmm_alloc_frame_def PMM_PAGE_SIZE_def mult.commute)
qed

lemma unat_frame_addr: "f < 8192 \<Longrightarrow> unat (of_nat (4096 * f) :: u32) = 4096 * f"
  by (rule unat_of_nat_u32) simp

lemma pmm_alloc_frame_inv:
  assumes "pmm_inv s" "free_set s \<noteq> {}"
  shows "pmm_inv (fst (pmm_alloc_frame s))"
    "free_set (fst (pmm_alloc_frame s)) = free_set s - {Min (free_set s)}"
proof -
  note al = pmm_alloc_frame_some[OF assms(2)]
  have n: "unat (of_nat (Min (free_set s)) :: u32) = Min (free_set s)"
    using al(3) by (intro unat_of_nat_u32) simp
  show fs: "free_set (fst (pmm_alloc_frame s)) = free_set s - {Min (free_set s)}"
    using assms al(3) n by (simp add: al(1) free_set_set_used pmm_inv_def counted_def)
  have "counted (dec_free (pmm_set_used (of_nat (Min (free_set s))) s))"
    using assms(1) al(2,3) n by (intro counted_take) (simp_all add: pmm_inv_def)
  then show "pmm_inv (fst (pmm_alloc_frame s))"
    using assms(1) fs by (auto simp: pmm_inv_def al(1))
qed

lemma pmm_free_frame_frame:
  assumes "unat a div 4096 = f" "f < 8192" "length (pmm_bitmap s) = 1024"
  shows "pmm_free_frame a s = (if f \<in> free_set s then s else pmm_add_frame (of_nat f) s)"
    and "free_set (pmm_free_frame a s) = insert f (free_set s)"
proof -
  have q: "unat (a div 4096) = f" using assms(1) by (simp add: unat_div)
  have "of_nat (unat (a div 4096)) = a div 4096" by simp
  then have w: "a div 4096 = of_nat f" by (simp only: q)
  then show fr: "pmm_free_frame a s = (if f \<in> free_set s then s else pmm_add_frame (of_nat f) s)"
    using assms(2) unfolding pmm_free_frame_def
    by (simp add: Let_def PMM_PAGE_SIZE_def PMM_TOTAL_FRAMES_def pmm_is_used_free_set
        unat_of_nat_u32 pmm_add_frame_def word_le_nat_alt)
  show "free_set (pmm_free_frame a s) = insert f (free_set s)"
    using assms(2,3) unfolding fr
    by (auto simp: pmm_add_frame_def free_set_set_free unat_of_nat_u32)
qed

lemma pmm_free_frame_inv:
  assumes "pmm_inv s" "256 \<le> unat a div 4096"
  shows "pmm_inv (pmm_free_frame a s)"
proof (cases "unat a div 4096 < 8192")
  case True
  note fr = pmm_free_frame_frame[OF refl True]
  have "counted (pmm_free_frame a s)"
    using assms(1) True counted_release[of s "of_nat (unat a div 4096)"]
    by (simp add: fr(1) pmm_inv_def counted_def unat_of_nat_u32)
  then show ?thesis using assms fr(2) by (auto simp: pmm_inv_def counted_def)
next
  case False
  then have "\<not> a div 4096 < 8192"
    by (simp add: word_less_nat_alt unat_div)
  then show ?thesis using assms(1)
    by (simp add: pmm_free_frame_def PMM_PAGE_SIZE_def PMM_TOTAL_FRAMES_def Let_def not_less)
qed

section \<open>Initialisation from the E820 map\<close>

text \<open>The frames that lie wholly inside a usable entry of the map and below 32 MB.\<close>

definition entry_frames :: "e820_entry \<Rightarrow> nat set" where
  "entry_frames e =
     {f. f < 8192 \<and> e820_type e = 1 \<and> unat (e820_base e) \<le> 4096 * f \<and>
         4096 * (f + 1) \<le> unat (e820_base e + e820_length e)}"

lemma add_frames_loop:
  assumes "unat b \<le> 8192" "length (pmm_bitmap s) = 1024"
  shows "length (pmm_bitmap (for_range a b pmm_add_frame s)) = 1024 \<and>
    free_set (for_range a b pmm_add_frame s) = free_set s \<union> {unat a ..< unat b} \<and>
    pmm_free (for_range a b pmm_add_frame s) = pmm_free s + of_nat (unat b - unat a) \<and>
    pmm_total (for_range a b pmm_add_frame s) = pmm_total s"
proof (cases "b \<le> a")
  case True
  then show ?thesis using assms by (simp add: for_range_empty word_le_nat_alt)
next
  case False
  then have "a \<le> b" by simp
  let ?P = "\<lambda>i t. length (pmm_bitmap t) = 1024 \<and> free_set t = free_set s \<union> {unat a ..< i} \<and>
      pmm_free t = pmm_free s + of_nat (i - unat a) \<and> pmm_total t = pmm_total s"
  show "?P (unat b) (for_range a b pmm_add_frame s)"
  proof (rule for_range_invariant[OF _ \<open>a \<le> b\<close>])
    fix i t
    assume i: "unat a \<le> i" "i < unat b" and P: "?P i t"
    have "unat (of_nat i :: u32) = i" "i < 8192" using i assms(1) by (simp_all add: unat_of_nat_u32)
    then show "?P (Suc i) (pmm_add_frame (of_nat i) t)"
      using i(1) P by (simp add: pmm_add_frame_def free_set_set_free Suc_diff_le atLeastLessThanSuc)
  qed (use assms in simp)
qed

lemma div_4096_bounds:
  fixes x f :: nat
  shows "(x + 4095) div 4096 \<le> f \<longleftrightarrow> x \<le> 4096 * f" "f < x div 4096 \<longleftrightarrow> 4096 * (f + 1) \<le> x"
proof -
  show "(x + 4095) div 4096 \<le> f \<longleftrightarrow> x \<le> 4096 * f" by linarith
  show "f < x div 4096 \<longleftrightarrow> 4096 * (f + 1) \<le> x"
    using less_eq_div_iff_mult_less_eq[of 4096 "f + 1" x] by (simp add: ac_simps Suc_le_eq)
qed

lemma entry_bounds:
  fixes base end' :: u64
  assumes "base < PMM_MAX_PHYS" "end' \<le> PMM_MAX_PHYS"
  shows "unat (ucast ((base + 4096 - 1) div 4096) :: u32) = (unat base + 4095) div 4096"
    "unat (ucast (end' div 4096) :: u32) = unat end' div 4096"
proof -
  have b: "unat base < 33554432" using assms by (simp add: kconst word_less_nat_alt)
  have e: "unat end' \<le> 33554432" using assms by (simp add: kconst word_le_nat_alt)
  have "unat (4095 + base) = unat base + 4095"
    using b by (simp add: unat_word_ariths)
  then show "unat (ucast ((base + 4096 - 1) div 4096) :: u32) = (unat base + 4095) div 4096"
    using b by (simp add: unsigned_ucast_eq unat_div take_bit_eq_mod)
  show "unat (ucast (end' div 4096) :: u32) = unat end' div 4096"
    using e by (simp add: unsigned_ucast_eq unat_div take_bit_eq_mod)
qed

lemma pmm_add_entry_spec:
  assumes "length (pmm_bitmap s) = 1024"
  shows "length (pmm_bitmap (pmm_add_entry e s)) = 1024"
    "free_set (pmm_add_entry e s) = free_set s \<union> entry_frames e"
    "pmm_free (pmm_add_entry e s) = pmm_free s + of_nat (card (entry_frames e))"
proof -
  define base where "base = e820_base e"
  define top where "top = (if base + e820_length e > PMM_MAX_PHYS then PMM_MAX_PHYS
    else base + e820_length e)"
  have "length (pmm_bitmap (pmm_add_entry e s)) = 1024 \<and>
    free_set (pmm_add_entry e s) = free_set s \<union> entry_frames e \<and>
    pmm_free (pmm_add_entry e s) = pmm_free s + of_nat (card (entry_frames e))"
  proof (cases "e820_type e = 1 \<and> base < PMM_MAX_PHYS")
    case False
    have "entry_frames e = {}" 
      using False by (fastforce simp: entry_frames_def base_def kconst word_less_nat_alt)
    then show ?thesis using False assms
      by (auto simp: pmm_add_entry_def base_def E820_TYPE_USABLE_def)
  next
    case True
    let ?a = "ucast ((base + 4096 - 1) div 4096) :: u32" and ?b = "ucast (top div 4096) :: u32"
    have top: "top \<le> PMM_MAX_PHYS" by (simp add: top_def not_less)
    note eb = entry_bounds[OF conjunct2[OF True] top]
    have ub: "unat ?b \<le> 8192" using top unfolding eb
      by (simp add: kconst word_le_nat_alt)
    have ef: "entry_frames e = {unat ?a ..< unat ?b}"
      unfolding eb entry_frames_def set_eq_iff atLeastLessThan_iff mem_Collect_eq div_4096_bounds
      using True by (auto simp: top_def base_def kconst word_less_nat_alt)
    have "\<not> ?b > PMM_TOTAL_FRAMES" using ub by (simp add: PMM_TOTAL_FRAMES_def word_less_nat_alt)
    moreover have "\<not> e820_base e \<ge> PMM_MAX_PHYS" using True by (simp add: base_def not_le)
    ultimately have "pmm_add_entry e s = (let s' = for_range ?a ?b pmm_add_frame s in
        s'\<lparr>pmm_total := pmm_total s' + (?b - ?a)\<rparr>)"
      using True unfolding pmm_add_entry_def top_def base_def
      by (simp add: E820_TYPE_USABLE_def Let_def not_less)
    then show ?thesis
      using add_frames_loop[OF ub assms, of ?a] unfolding ef by (simp add: Let_def)
  qed
  then show "length (pmm_bitmap (pmm_add_entry e s)) = 1024"
    "free_set (pmm_add_entry e s) = free_set s \<union> entry_frames e"
    "pmm_free (pmm_add_entry e s) = pmm_free s + of_nat (card (entry_frames e))"
    by blast+
qed

lemma add_entries_spec:
  assumes "length (pmm_bitmap s) = 1024"
  shows "length (pmm_bitmap (fold pmm_add_entry es s)) = 1024"
    "free_set (fold pmm_add_entry es s) = free_set s \<union> (\<Union>e \<in> set es. entry_frames e)"
    "pmm_free (fold pmm_add_entry es s) =
       pmm_free s + of_nat (\<Sum>e \<leftarrow> es. card (entry_frames e))"
  using assms by (induction es arbitrary: s) (auto simp: pmm_add_entry_spec)

lemma reserve_frame:
  assumes "length (pmm_bitmap s) = 1024" "unat f < 8192"
  defines "t \<equiv> if \<not> pmm_is_used f s then dec_free (pmm_set_used f s) else s"
  shows "length (pmm_bitmap t) = 1024" "free_set t = free_set s - {unat f}"
    "counted s \<Longrightarrow> counted t"
  using assms by (simp_all add: pmm_is_used_free_set free_set_set_used counted_take)

lemma pmm_reserve_low:
  assumes "length (pmm_bitmap s) = 1024"
  shows "length (pmm_bitmap (pmm_reserve_range 0 0x100000 s)) = 1024"
    "free_set (pmm_reserve_range 0 0x100000 s) = free_set s - {0 ..< 256}"
    "counted s \<Longrightarrow> counted (pmm_reserve_range 0 0x100000 s)"
proof -
  have code: "pmm_reserve_range 0 0x100000 s = for_range 0 256
      (\<lambda>f s. if \<not> pmm_is_used f s then dec_free (pmm_set_used f s) else s) s"
    by (simp add: pmm_reserve_range_def kconst word_less_nat_alt)
  let ?P = "\<lambda>i t. length (pmm_bitmap t) = 1024 \<and> free_set t = free_set s - {0 ..< i} \<and>
      (counted s \<longrightarrow> counted t)"
  have "?P (unat (256 :: u32)) (for_range 0 256
      (\<lambda>f s. if \<not> pmm_is_used f s then dec_free (pmm_set_used f s) else s) s)"
  proof (rule for_range_invariant)
    fix i t
    assume i: "i < unat (256 :: u32)" and P: "?P i t"
    have n: "unat (of_nat i :: u32) = i" "i < 8192" using i by (simp_all add: unat_of_nat_u32)
    have "free_set s - {0 ..< i} - {i} = free_set s - {0 ..< Suc i}" by auto
    then show "?P (Suc i) (if \<not> pmm_is_used (of_nat i) t
        then dec_free (pmm_set_used (of_nat i) t) else t)"
      using reserve_frame[of t "of_nat i"] P n by simp
  qed (use assms in simp_all)
  then have "?P 256 (pmm_reserve_range 0 0x100000 s)" unfolding code by simp
  then show "length (pmm_bitmap (pmm_reserve_range 0 0x100000 s)) = 1024"
    "free_set (pmm_reserve_range 0 0x100000 s) = free_set s - {0 ..< 256}"
    "counted s \<Longrightarrow> counted (pmm_reserve_range 0 0x100000 s)"
    by blast+
qed

definition boot_entries :: "mem \<Rightarrow> e820_entry list" where
  "boot_entries m = map (mmap_entry m) [0 ..< unat (mmap_count m)]"

definition pmm_empty :: pmm where
  "pmm_empty = \<lparr>pmm_bitmap = replicate 1024 0xFF, pmm_free = 0, pmm_total = 0\<rparr>"

lemma bit_255_u8: "k < 8 \<Longrightarrow> bit (0xFF :: u8) k"
proof -
  assume "k < 8"
  have "(0xFF :: u8) = mask 8" by (simp add: mask_eq_exp_minus_1)
  then show ?thesis using \<open>k < 8\<close> by (simp only: bit_mask_iff) simp
qed

lemma pmm_empty: "length (pmm_bitmap pmm_empty) = 1024" "free_set pmm_empty = {}" "counted pmm_empty"
proof -
  have "frame_used pmm_empty f" if "f < 8192" for f
  proof -
    have "pmm_bitmap pmm_empty ! (f div 8) = 0xFF" using that by (simp add: pmm_empty_def)
    then show ?thesis unfolding frame_used_def using bit_255_u8[of "f mod 8"] by simp
  qed
  then show "free_set pmm_empty = {}" by (auto simp: free_set_def)
  then show "length (pmm_bitmap pmm_empty) = 1024" "counted pmm_empty"
    by (simp_all add: counted_def pmm_empty_def)
qed

lemma pmm_init_map:
  assumes "mmap_count m \<noteq> 0"
  shows "pmm_init m = pmm_reserve_range 0 0x100000 (fold pmm_add_entry (boot_entries m) pmm_empty)"
  using assms by (simp add: pmm_init_def boot_entries_def fold_map comp_def pmm_empty_def Let_def)

lemma pmm_init_default:
  assumes "mmap_count m = 0"
  shows "pmm_inv (pmm_init m)" "free_set (pmm_init m) = {256 ..< 8192}" "pmm_total (pmm_init m) = 8192"
proof -
  let ?body = "\<lambda>f s. (pmm_add_frame f s)\<lparr>pmm_total := pmm_total s + 1\<rparr>"
  let ?P = "\<lambda>i t. counted t \<and> free_set t = {256 ..< i} \<and> pmm_total t = of_nat (i - 256)"
  have "?P (unat (8192 :: u32)) (for_range 256 8192 ?body pmm_empty)"
  proof (rule for_range_invariant)
    fix i t
    assume i: "unat (256 :: u32) \<le> i" "i < unat (8192 :: u32)" and P: "?P i t"
    have n: "unat (of_nat i :: u32) = i" "i < 8192" using i by (simp_all add: unat_of_nat_u32)
    have "counted (pmm_add_frame (of_nat i) t)" using P n by (intro counted_release) auto
    moreover have "free_set (pmm_add_frame (of_nat i) t) = {256 ..< Suc i}"
      using P n i by (simp add: pmm_add_frame_def free_set_set_free counted_def atLeastLessThanSuc)
    moreover have "pmm_total t + 1 = of_nat (Suc i - 256)" using P i by (simp add: Suc_diff_le)
    ultimately show "?P (Suc i) (?body (of_nat i) t)" by (simp add: counted_def)
  qed (use pmm_empty in \<open>simp_all add: pmm_empty_def\<close>)
  moreover have "pmm_init m = (let s = for_range 256 8192 ?body pmm_empty in
      s\<lparr>pmm_total := pmm_total s + 256\<rparr>)"
    using assms by (simp add: pmm_init_def pmm_empty_def kconst Let_def)
  ultimately show "pmm_inv (pmm_init m)" "free_set (pmm_init m) = {256 ..< 8192}"
    "pmm_total (pmm_init m) = 8192"
    by (simp_all add: pmm_inv_def counted_def Let_def)
qed

section \<open>The frame-allocator interface\<close>

fun take_frames :: "('s \<Rightarrow> 's \<times> u32) \<Rightarrow> nat \<Rightarrow> 's \<Rightarrow> 's \<times> u32 list" where
  "take_frames alloc 0 s = (s, [])"
| "take_frames alloc (Suc n) s =
     (let (s, a) = alloc s; (s, as) = take_frames alloc n s in (s, a # as))"

text \<open>
  What the paging code relies on: a set of free frames, all above the first megabyte
  and below 32 MB, from which allocation takes a frame and to which release returns one.
\<close>

locale frame_allocator =
  fixes inv :: "'s \<Rightarrow> bool"
    and frees :: "'s \<Rightarrow> nat set"
    and alloc :: "'s \<Rightarrow> 's \<times> u32"
    and release :: "u32 \<Rightarrow> 's \<Rightarrow> 's"
  assumes frees_finite: "inv s \<Longrightarrow> finite (frees s)"
    and frees_bounds: "inv s \<Longrightarrow> f \<in> frees s \<Longrightarrow> 256 \<le> f \<and> f < 8192"
    and alloc_some: "inv s \<Longrightarrow> frees s \<noteq> {} \<Longrightarrow>
      \<exists>f \<in> frees s. unat (snd (alloc s)) = 4096 * f \<and>
        frees (fst (alloc s)) = frees s - {f} \<and> inv (fst (alloc s))"
    and alloc_none: "inv s \<Longrightarrow> frees s = {} \<Longrightarrow> alloc s = (s, 0)"
    and release_frame: "inv s \<Longrightarrow> 256 \<le> unat a div 4096 \<Longrightarrow> unat a div 4096 < 8192 \<Longrightarrow>
      inv (release a s) \<and> frees (release a s) = insert (unat a div 4096) (frees s)"
begin

lemma alloc_cases:
  assumes "inv s"
  obtains "frees s = {}" "alloc s = (s, 0)"
  | f s' a where "f \<in> frees s" "256 \<le> f" "f < 8192" "alloc s = (s', a)"
      "unat a = 4096 * f" "a \<noteq> 0" "inv s'" "frees s' = frees s - {f}"
proof (cases "frees s = {}")
  case True
  then show thesis using that(1) alloc_none[OF assms] by blast
next
  case False
  obtain f where f: "f \<in> frees s" "unat (snd (alloc s)) = 4096 * f"
      "frees (fst (alloc s)) = frees s - {f}" "inv (fst (alloc s))"
    using alloc_some[OF assms False] by blast
  moreover have "256 \<le> f" "f < 8192" using frees_bounds[OF assms f(1)] by simp_all
  moreover have "snd (alloc s) \<noteq> 0"
  proof
    assume "snd (alloc s) = 0"
    then have "4096 * f = 0" using f(2) by simp
    then show False using \<open>256 \<le> f\<close> by simp
  qed
  ultimately show thesis using that(2)[of f "fst (alloc s)" "snd (alloc s)"] by simp
qed

lemma alloc_zero_iff: "inv s \<Longrightarrow> snd (alloc s) = 0 \<longleftrightarrow> frees s = {}"
  by (erule alloc_cases) auto

lemma alloc_inv: "inv s \<Longrightarrow> inv (fst (alloc s))"
  using alloc_cases[of s] by (metis fst_conv)

lemma alloc_release:
  assumes "inv s" "alloc s = (s', a)" "a \<noteq> 0"
  shows "inv (release a s')" "frees (release a s') = frees s"
proof -
  obtain f where f: "f \<in> frees s" "256 \<le> f" "f < 8192" "unat a = 4096 * f" "inv s'"
      "frees s' = frees s - {f}"
    using alloc_cases[OF assms(1)] assms(2,3) by (metis prod.inject)
  then have "inv (release a s') \<and> frees (release a s') = insert f (frees s')"
    using release_frame[OF f(5), of a] by simp
  then show "inv (release a s')" "frees (release a s') = frees s" using f(1,6) by auto
qed

lemma take_frames_distinct:
  assumes "inv s" "n \<le> card (frees s)" "take_frames alloc n s = (s', as)"
  shows "inv s' \<and> length as = n \<and> distinct as \<and> (\<forall>a \<in> set as. \<exists>f \<in> frees s. unat a = 4096 * f) \<and>
    frees s' = frees s - (\<lambda>a. unat a div 4096) ` set as"
  using assms
proof (induction n arbitrary: s as)
  case (Suc n)
  have fin: "finite (frees s)" by (rule frees_finite[OF Suc.prems(1)])
  have ne: "frees s \<noteq> {}" using Suc.prems(2) by auto
  obtain f s1 a where f: "f \<in> frees s" "alloc s = (s1, a)" "unat a = 4096 * f" "inv s1"
      "frees s1 = frees s - {f}"
    using alloc_cases[OF Suc.prems(1)] ne by metis
  obtain bs where bs: "take_frames alloc n s1 = (s', bs)" "as = a # bs"
    using Suc.prems(3) f(2) by (auto split: prod.splits)
  have "n \<le> card (frees s1)" using Suc.prems(2) f(1,5) fin by (simp add: card_Diff_singleton)
  note IH = Suc.IH[OF f(4) this bs(1)]
  have "a \<notin> set bs" using IH f(3,5) by fastforce
  moreover have "unat a div 4096 = f" using f(3) by simp
  ultimately show ?case using IH f bs(2) by auto
qed simp

end

interpretation fa: frame_allocator pmm_inv free_set pmm_alloc_frame pmm_free_frame
proof unfold_locales
  fix s assume s: "pmm_inv s" "free_set s \<noteq> {}"
  show "\<exists>f \<in> free_set s. unat (snd (pmm_alloc_frame s)) = 4096 * f \<and>
      free_set (fst (pmm_alloc_frame s)) = free_set s - {f} \<and> pmm_inv (fst (pmm_alloc_frame s))"
  proof (intro bexI conjI)
    show "unat (snd (pmm_alloc_frame s)) = 4096 * Min (free_set s)"
      unfolding pmm_alloc_frame_some(1)[OF s(2)] snd_conv
      by (rule unat_frame_addr[OF pmm_alloc_frame_some(3)[OF s(2)]])
  qed (rule pmm_alloc_frame_inv[OF s] pmm_alloc_frame_some(2)[OF s(2)])+
next
  fix s and a :: u32
  assume "pmm_inv s" "256 \<le> unat a div 4096" "unat a div 4096 < 8192"
  then show "pmm_inv (pmm_free_frame a s) \<and>
      free_set (pmm_free_frame a s) = insert (unat a div 4096) (free_set s)"
    using pmm_free_frame_inv[of s a] pmm_free_frame_frame(2)[of a "unat a div 4096" s]
    by (simp add: pmm_inv_def counted_def)
qed (auto simp: pmm_inv_def free_set_def pmm_alloc_frame_none)

section \<open>Properties of the physical memory manager\<close>

lemma bitmap_eqI:
  assumes "length (pmm_bitmap s) = 1024" "length (pmm_bitmap t) = 1024" "free_set s = free_set t"
  shows "pmm_bitmap s = pmm_bitmap t"
proof (rule nth_equalityI)
  fix i assume i: "i < length (pmm_bitmap s)"
  show "pmm_bitmap s ! i = pmm_bitmap t ! i"
  proof (rule bit_word_eqI)
    fix k assume k: "k < LENGTH(8)"
    then have "8 * i + k < 8192" "(8 * i + k) div 8 = i" "(8 * i + k) mod 8 = k"
      using i assms(1) by simp_all
    then show "bit (pmm_bitmap s ! i) k = bit (pmm_bitmap t ! i) k"
      using assms(3) unfolding free_set_def frame_used_def set_eq_iff mem_Collect_eq by metis
  qed
qed (use assms in simp)

text \<open>
  C14. Under the allocator invariant, \<^verbatim>\<open>pmm_alloc_frame\<close> returns 0 exactly when no frame is
  free, and then changes nothing; otherwise it returns the base address of the lowest free
  frame, page aligned, above the first megabyte and below 32 MB, marks that frame and no
  other used, decrements the free count by one and keeps the invariant.
\<close>
theorem pmm_alloc_frame_correct:
  assumes "pmm_inv s" "pmm_alloc_frame s = (s', a)"
  shows "(a = 0 \<longleftrightarrow> free_set s = {}) \<and> (a = 0 \<longrightarrow> s' = s) \<and>
    (a \<noteq> 0 \<longrightarrow> unat a = 4096 * Min (free_set s) \<and> 0x100000 \<le> unat a \<and> unat a + 4096 \<le> 0x2000000 \<and>
       free_set s' = free_set s - {Min (free_set s)} \<and>
       unat (pmm_free_frames s') + 1 = unat (pmm_free_frames s)) \<and> pmm_inv s'"
proof (cases "free_set s = {}")
  case True
  then show ?thesis using assms by (simp add: pmm_alloc_frame_none)
next
  case False
  define f where "f = Min (free_set s)"
  note al = pmm_alloc_frame_some[OF False, folded f_def]
  have inv: "pmm_inv s'" "free_set s' = free_set s - {f}"
    using pmm_alloc_frame_inv[OF assms(1) False] assms(2) by (simp_all add: f_def)
  have a: "unat a = 4096 * f" using al(1) unat_frame_addr[OF al(3)] assms(2) by (metis prod.inject)
  have "256 \<le> f" using assms(1) al(2) by (simp add: pmm_inv_def)
  moreover have "a \<noteq> 0" using a \<open>256 \<le> f\<close> by (auto dest: arg_cong[where f = unat])
  moreover have "card (free_set s') + 1 = card (free_set s)"
    using al(2) inv(2) card_gt_0_iff[of "free_set s"] False by (simp add: card_Diff_singleton)
  ultimately show ?thesis
    using inv a al(3) False assms(1)
    by (simp add: f_def pmm_free_frames_def pmm_inv_def counted_def)
qed

text \<open>A booted allocator with no E820 map, for the concrete instances below.\<close>

definition boot_pmm :: pmm where
  "boot_pmm = pmm_init (\<lambda>_. 0)"

lemma boot_pmm: "pmm_inv boot_pmm" "free_set boot_pmm = {256 ..< 8192}"
proof -
  have "mmap_count (\<lambda>_. 0) = 0" by (simp add: mmap_count_def load16_def)
  then show "pmm_inv boot_pmm" "free_set boot_pmm = {256 ..< 8192}"
    unfolding boot_pmm_def by (rule pmm_init_default)+
qed

lemma Min_boot: "Min {256 ..< 8192 :: nat} = 256"
  by (rule Min_eqI) auto

theorem pmm_alloc_frame_correct_witness:
  "unat (snd (pmm_alloc_frame boot_pmm)) = 0x100000 \<and> pmm_inv (fst (pmm_alloc_frame boot_pmm))"
  using pmm_alloc_frame_correct[OF boot_pmm(1) prod.collapse[symmetric]] Min_boot
  by (simp add: boot_pmm(2))

text \<open>
  Freeing a frame straight after allocating it gives back the allocator state bit for
  bit: bitmap, free count and total.
\<close>
theorem pmm_alloc_free_roundtrip:
  assumes "pmm_inv s" "pmm_alloc_frame s = (s', a)" "a \<noteq> 0"
  shows "pmm_free_frame a s' = s"
proof -
  have inv: "pmm_inv (pmm_free_frame a s')" "free_set (pmm_free_frame a s') = free_set s"
    using fa.alloc_release[OF assms] by simp_all
  have "pmm_bitmap (pmm_free_frame a s') = pmm_bitmap s"
    using inv assms(1) by (intro bitmap_eqI) (simp_all add: pmm_inv_def counted_def)
  moreover have "pmm_free (pmm_free_frame a s') = pmm_free s"
    using inv assms(1) by (simp add: pmm_inv_def counted_def word_unat_eq_iff)
  moreover have "pmm_total (pmm_free_frame a s') = pmm_total s"
    using assms(2) by (auto simp: pmm_free_frame_def pmm_alloc_frame_def Let_def split: option.splits)
  ultimately show ?thesis by (simp add: pmm.equality)
qed

theorem pmm_alloc_free_roundtrip_witness:
  "pmm_free_frame (snd (pmm_alloc_frame boot_pmm)) (fst (pmm_alloc_frame boot_pmm)) = boot_pmm"
  by (rule pmm_alloc_free_roundtrip[OF boot_pmm(1) prod.collapse[symmetric]])
    (simp add: fa.alloc_zero_iff[OF boot_pmm(1)] boot_pmm(2))

text \<open>
  No frame is handed out twice: as long as frames are free, \<open>n\<close> successive calls of
  \<^verbatim>\<open>pmm_alloc_frame\<close> return \<open>n\<close> different frames that were free, and exactly those leave
  the free set.
\<close>
theorem pmm_alloc_distinct:
  assumes "pmm_inv s" "n \<le> card (free_set s)" "take_frames pmm_alloc_frame n s = (s', as)"
  shows "pmm_inv s' \<and> length as = n \<and> distinct as \<and>
    (\<forall>a \<in> set as. \<exists>f \<in> free_set s. unat a = 4096 * f) \<and>
    free_set s' = free_set s - (\<lambda>a. unat a div 4096) ` set as"
  by (rule fa.take_frames_distinct[OF assms])

theorem pmm_alloc_distinct_witness:
  "distinct (snd (take_frames pmm_alloc_frame 7936 boot_pmm)) \<and>
   free_set (fst (take_frames pmm_alloc_frame 7936 boot_pmm)) =
     {256 ..< 8192} - (\<lambda>a. unat a div 4096) ` set (snd (take_frames pmm_alloc_frame 7936 boot_pmm))"
  using pmm_alloc_distinct[OF boot_pmm(1) _ prod.collapse[symmetric], of 7936]
  by (simp add: boot_pmm(2))

lemma finite_entry_frames [simp]: "finite (entry_frames e)"
  unfolding entry_frames_def by (rule finite_subset[of _ "{..<8192}"]) auto

lemma sum_card_disjoint:
  assumes "\<And>i j. i < j \<Longrightarrow> j < length es \<Longrightarrow> entry_frames (es ! i) \<inter> entry_frames (es ! j) = {}"
  shows "(\<Sum>e \<leftarrow> es. card (entry_frames e)) = card (\<Union>e \<in> set es. entry_frames e)"
  using assms
proof (induction es)
  case (Cons e es)
  have "entry_frames e \<inter> (\<Union>e \<in> set es. entry_frames e) = {}"
    using Cons.prems[of 0 "Suc _"] by (fastforce simp: in_set_conv_nth)
  moreover have "(\<Sum>e \<leftarrow> es. card (entry_frames e)) = card (\<Union>e \<in> set es. entry_frames e)"
    using Cons.prems[of "Suc _" "Suc _"] by (intro Cons.IH) simp
  ultimately show ?case by (simp add: card_Un_disjoint)
qed simp

lemma pmm_init_counted:
  assumes "\<And>i j. i < j \<Longrightarrow> j < length (boot_entries m) \<Longrightarrow>
      entry_frames (boot_entries m ! i) \<inter> entry_frames (boot_entries m ! j) = {}"
    and "mmap_count m \<noteq> 0"
  shows "pmm_inv (pmm_init m)"
proof -
  let ?s = "fold pmm_add_entry (boot_entries m) pmm_empty"
  note es = add_entries_spec[OF pmm_empty(1), of "boot_entries m"]
  have "unat (pmm_free ?s) = card (free_set ?s)"
    using es(2) card_free_set_le[of ?s]
    by (simp add: es(3) pmm_empty sum_card_disjoint[OF assms(1)] unat_of_nat_u32 pmm_empty_def[THEN arg_cong[where f = pmm_free]])
  then have "counted ?s" using es(1) by (simp add: counted_def)
  then show ?thesis
    using pmm_reserve_low(2,3)[OF es(1)] by (auto simp: pmm_init_map[OF assms(2)] pmm_inv_def)
qed

lemma pmm_init_free:
  "free_set (pmm_init m) =
     {f. 256 \<le> f \<and> f < 8192 \<and> (mmap_count m = 0 \<or>
        (\<exists>e \<in> set (boot_entries m). e820_type e = 1 \<and> unat (e820_base e) \<le> 4096 * f \<and>
           4096 * (f + 1) \<le> unat (e820_base e + e820_length e)))}"
proof (cases "mmap_count m = 0")
  case True
  then show ?thesis using pmm_init_default[OF True] by (simp add: set_eq_iff)
next
  case False
  note es = add_entries_spec[OF pmm_empty(1), of "boot_entries m"]
  have "free_set (pmm_init m) = (\<Union>e \<in> set (boot_entries m). entry_frames e) - {0 ..< 256}"
    using pmm_reserve_low(2)[OF es(1)] es(2) by (simp add: pmm_init_map[OF False] pmm_empty(2))
  then show ?thesis
    unfolding set_eq_iff mem_Collect_eq entry_frames_def Diff_iff UN_iff atLeastLessThan_iff not_le
      not_less de_Morgan_conj
    using False by blast
qed

text \<open>
  After \<^verbatim>\<open>pmm_init\<close> a frame is free exactly when it lies at or above 1 MB, below 32 MB, and
  wholly inside a usable entry of the E820 map (anywhere in 1 MB to 32 MB when the map is
  empty); and when no frame is covered by two entries, the free count is exact and the
  allocator invariant holds.
\<close>
theorem pmm_init_correct:
  "free_set (pmm_init m) =
     {f. 256 \<le> f \<and> f < 8192 \<and> (mmap_count m = 0 \<or>
        (\<exists>e \<in> set (boot_entries m). e820_type e = 1 \<and> unat (e820_base e) \<le> 4096 * f \<and>
           4096 * (f + 1) \<le> unat (e820_base e + e820_length e)))} \<and>
   ((\<forall>i j. i < j \<longrightarrow> j < length (boot_entries m) \<longrightarrow>
       entry_frames (boot_entries m ! i) \<inter> entry_frames (boot_entries m ! j) = {}) \<longrightarrow>
     pmm_inv (pmm_init m))"
  using pmm_init_free[of m] pmm_init_default(1)[of m] pmm_init_counted[of m] by blast

text \<open>A map with the one usable entry from 1 MB to 2 MB.\<close>

definition mmap_1MB :: mem where
  "mmap_1MB = ((\<lambda>_. 0)(0x500 := 1, 0x504 := 0x10, 0x50C := 0x10, 0x512 := 1))"

lemma boot_entries_1MB:
  "mmap_count mmap_1MB = 1"
  "boot_entries mmap_1MB = [\<lparr>e820_base = 0x100000, e820_length = 0x100000, e820_type = 1\<rparr>]"
proof -
  show c: "mmap_count mmap_1MB = 1"
    by (simp add: mmap_count_def mmap_1MB_def load16_def kconst)
  show "boot_entries mmap_1MB = [\<lparr>e820_base = 0x100000, e820_length = 0x100000, e820_type = 1\<rparr>]"
    unfolding boot_entries_def c
    by (simp add: mmap_entry_def mmap_1MB_def load64_def load32_def kconst Let_def)
qed

lemma frames_1MB:
  "{f :: nat. 256 \<le> f \<and> f < 8192 \<and> 1048576 \<le> 4096 * f \<and> 4096 * (f + 1) \<le> 2097152} = {256 ..< 512}"
proof (rule set_eqI)
  fix f :: nat
  have "4096 * (f + 1) \<le> 2097152 \<longleftrightarrow> f < 512" "1048576 \<le> 4096 * f \<longleftrightarrow> 256 \<le> f"
    using div_4096_bounds(2)[where x = 2097152 and f = f] div_4096_bounds(1)[where x = 1048576 and f = f]
    by simp_all
  then show "f \<in> {f :: nat. 256 \<le> f \<and> f < 8192 \<and> 1048576 \<le> 4096 * f \<and> 4096 * (f + 1) \<le> 2097152} \<longleftrightarrow>
      f \<in> {256 ..< 512}"
    unfolding mem_Collect_eq atLeastLessThan_iff by linarith
qed

theorem pmm_init_correct_witness:
  "free_set (pmm_init mmap_1MB) = {256 ..< 512} \<and> pmm_inv (pmm_init mmap_1MB)"
proof -
  have "unat (0x100000 + 0x100000 :: u64) = 2097152" "unat (0x100000 :: u64) = 1048576" by simp_all
  then show ?thesis
    using pmm_init_correct[of mmap_1MB] frames_1MB
    unfolding boot_entries_1MB by (simp del: mult_Suc_right)
qed

end
