(* ===== verification/Paging.thy ===== *)
theory Paging
  imports Pmm
begin

text \<open>
  Two-level page tables, \<^verbatim>\<open>kernel/paging.c\<close>, together with \<^verbatim>\<open>phys_of_virt\<close> of
  \<^verbatim>\<open>kernel/elf.c\<close>. The tables live in physical memory and are read and written by
  physical address, as the code does through the identity map of the first 8 MB; what lies above it
  faults. Frames come from the physical memory manager. \<open>translate\<close> is the processor's page walk, against which the
  operations are stated. Each address space is described by which frames hold its
  page tables and which frame backs each page; the central facts are that every
  operation keeps these frames distinct and off the free list, and that no operation
  on one address space changes the translation of another.
\<close>

section \<open>The code\<close>

definition PT_ENTRIES :: u32 where [kconst]: "PT_ENTRIES = 1024"
definition PD_ENTRIES :: u32 where [kconst]: "PD_ENTRIES = 1024"
definition PAGE_SIZE :: u32 where [kconst]: "PAGE_SIZE = 4096"
definition PAGE_PRESENT :: u32 where [kconst]: "PAGE_PRESENT = push_bit 0 1"
definition PAGE_WRITABLE :: u32 where [kconst]: "PAGE_WRITABLE = push_bit 1 1"
definition PAGE_USER :: u32 where [kconst]: "PAGE_USER = push_bit 2 1"

text \<open>
  The machine state the memory code works on: physical memory, the frame
  allocator, the two control registers, and the link-time addresses of
  \<^verbatim>\<open>page_directory\<close> and \<^verbatim>\<open>page_tables\<close>. The flag \<open>derailed\<close> is a failure flag: it is set, and never cleared, when
  kernel code goes through a pointer that its identity map does not cover (the processor then raises a page fault, whose
  handler stops the machine), when it changes that map, and when it writes through an unchecked pointer into its own code and data.
  From there on the machine no longer does what the rest of the state says, so results are claimed while the flag is clear.
\<close>

record mm =
  memory :: mem
  frames :: pmm
  cr0 :: u32
  cr3 :: u32
  page_directory :: u32
  page_tables :: u32
  derailed :: bool

definition derail :: "mm \<Rightarrow> mm" where
  "derail s = s\<lparr>derailed := True\<rparr>"

text \<open>An access of kernel code to the \<open>n\<close> bytes at the physical address \<open>a\<close>, once paging is on.\<close>

definition touch :: "u32 \<Rightarrow> nat \<Rightarrow> mm \<Rightarrow> mm" where
  "touch a n s = (if bit (cr0 s) 31 \<and> 0 < n \<and> 0x800000 < unat a + n then derail s else s)"

text \<open>\<^verbatim>\<open>p[i]\<close> for a \<^verbatim>\<open>uint32_t *p\<close>.\<close>

definition get_entry :: "mem \<Rightarrow> u32 \<Rightarrow> u32 \<Rightarrow> u32" where
  "get_entry m p i = load32 m (p + 4 * i)"

definition set_entry :: "u32 \<Rightarrow> u32 \<Rightarrow> u32 \<Rightarrow> mm \<Rightarrow> mm" where
  "set_entry p i v s = touch (p + 4 * i) 4 (s\<lparr>memory := store32 (memory s) (p + 4 * i) v\<rparr>)"

definition zero_page :: "u32 \<Rightarrow> mm \<Rightarrow> mm" where
  "zero_page a s = touch a 4096 (s\<lparr>memory := memset (memory s) a 0 PAGE_SIZE\<rparr>)"

definition pt_fill :: "u32 \<Rightarrow> mm \<Rightarrow> mm" where
  "pt_fill t s = for_range 0 PT_ENTRIES
     (\<lambda>i s. let phys = t * (4 * 1024 * 1024) + i * PAGE_SIZE
       in set_entry (page_tables s + 4096 * t) i (phys OR PAGE_PRESENT OR PAGE_WRITABLE) s) s"

definition paging_init :: "mm \<Rightarrow> mm" where
  "paging_init s =
     (let s = s\<lparr>memory := memset (memory s) (page_directory s) 0 4096\<rparr>;
          s = for_range 0 2 (\<lambda>t s. set_entry (page_directory s) t
                ((page_tables s + 4096 * t) OR PAGE_PRESENT OR PAGE_WRITABLE) (pt_fill t s)) s;
          s = s\<lparr>cr3 := page_directory s\<rparr>
      in s\<lparr>cr0 := cr0 s OR 0x80000000\<rparr>)"

definition paging_map_page :: "u32 \<Rightarrow> u32 \<Rightarrow> u32 \<Rightarrow> mm \<Rightarrow> mm" where
  "paging_map_page virt phys flags s =
     (let pdi = drop_bit 22 virt;
          pti = drop_bit 12 virt AND 0x3FF
      in if get_entry (memory s) (page_directory s) pdi AND PAGE_PRESENT = 0 then s
         else
           let pt = get_entry (memory s) (page_directory s) pdi AND NOT 0xFFF
           in set_entry pt pti ((phys AND NOT 0xFFF) OR PAGE_PRESENT OR (flags AND 0xFFE)) s)"

definition paging_switch :: "u32 \<Rightarrow> mm \<Rightarrow> mm" where
  "paging_switch pd_phys s = s\<lparr>cr3 := pd_phys\<rparr>"

definition paging_get_cr3 :: "mm \<Rightarrow> u32" where
  "paging_get_cr3 s = cr3 s"

definition paging_get_kernel_pd_phys :: "mm \<Rightarrow> u32" where
  "paging_get_kernel_pd_phys s = page_directory s"

definition alloc_frame :: "mm \<Rightarrow> mm \<times> u32" where
  "alloc_frame s = (let (p, a) = pmm_alloc_frame (frames s) in (s\<lparr>frames := p\<rparr>, a))"

definition free_frame :: "u32 \<Rightarrow> mm \<Rightarrow> mm" where
  "free_frame a s = s\<lparr>frames := pmm_free_frame a (frames s)\<rparr>"

definition paging_create_pd :: "mm \<Rightarrow> mm \<times> u32" where
  "paging_create_pd s =
     (let (s, pd_phys) = alloc_frame s
      in if pd_phys = 0 then (s, 0)
         else
           let s = zero_page pd_phys s;
               s = set_entry pd_phys 0 (get_entry (memory s) (page_directory s) 0) s;
               s = set_entry pd_phys 1 (get_entry (memory s) (page_directory s) 1) s
           in (s, pd_phys))"

text \<open>
  One iteration of \<^verbatim>\<open>paging_alloc_user_pages\<close>: the page-table part, then the frame. The
  flag is False for the \<^verbatim>\<open>return -1\<close> branches. The tables behind the first two directory entries are the kernel's, in every
  address space, so an entry written there replaces a page the kernel runs on.
\<close>

definition alloc_page_table :: "u32 \<Rightarrow> u32 \<Rightarrow> mm \<Rightarrow> mm \<times> bool" where
  "alloc_page_table pd pdi s =
     (let s = touch (pd + 4 * pdi) 4 s
      in if get_entry (memory s) pd pdi AND PAGE_PRESENT = 0 then
           let (s, pt_phys) = alloc_frame s
           in if pt_phys = 0 then (s, False)
              else (set_entry pd pdi (pt_phys OR PAGE_PRESENT OR PAGE_WRITABLE OR PAGE_USER) (zero_page pt_phys s), True)
         else (s, True))"

definition alloc_user_page :: "u32 \<Rightarrow> u32 \<Rightarrow> mm \<Rightarrow> mm \<times> bool" where
  "alloc_user_page pd virt s =
     (let pdi = drop_bit 22 virt;
          pti = drop_bit 12 virt AND 0x3FF;
          (s, ok) = alloc_page_table pd pdi s
      in if \<not> ok then (s, False)
         else
           let (s, frame_phys) = alloc_frame s
           in if frame_phys = 0 then (s, False)
              else
                let pt = get_entry (memory s) pd pdi AND NOT 0xFFF;
                    s = set_entry pt pti (frame_phys OR PAGE_PRESENT OR PAGE_WRITABLE OR PAGE_USER) s
                in (if pdi < 2 then derail s else s, True))"

fun alloc_user_pages_loop :: "u32 \<Rightarrow> u32 \<Rightarrow> nat list \<Rightarrow> mm \<Rightarrow> mm \<times> int" where
  "alloc_user_pages_loop pd virt_base [] s = (s, 0)"
| "alloc_user_pages_loop pd virt_base (i # is) s =
     (let (s, ok) = alloc_user_page pd (virt_base + of_nat i * PAGE_SIZE) s
      in if ok then alloc_user_pages_loop pd virt_base is s else (s, -1))"

definition paging_alloc_user_pages :: "u32 \<Rightarrow> u32 \<Rightarrow> u32 \<Rightarrow> mm \<Rightarrow> mm \<times> int" where
  "paging_alloc_user_pages pd_phys virt_base n_pages s =
     alloc_user_pages_loop pd_phys virt_base [0 ..< unat n_pages] s"

text \<open>The loops of \<^verbatim>\<open>paging_destroy_pd\<close> read every entry of a page table and, from the third on, of the directory.\<close>

definition destroy_pt :: "u32 \<Rightarrow> mm \<Rightarrow> mm" where
  "destroy_pt pt_phys s =
     free_frame pt_phys (for_range 0 PT_ENTRIES
       (\<lambda>j s. if get_entry (memory s) pt_phys j AND PAGE_PRESENT \<noteq> 0
              then free_frame (get_entry (memory s) pt_phys j AND NOT 0xFFF) s else s) (touch pt_phys 4096 s))"

definition paging_destroy_pd :: "u32 \<Rightarrow> mm \<Rightarrow> mm" where
  "paging_destroy_pd pd_phys s =
     free_frame pd_phys (for_range 2 PD_ENTRIES
       (\<lambda>i s. if get_entry (memory s) pd_phys i AND PAGE_PRESENT = 0 then s
              else destroy_pt (get_entry (memory s) pd_phys i AND NOT 0xFFF) s) (touch pd_phys 4096 s))"

definition phys_of_virt :: "mem \<Rightarrow> u32 \<Rightarrow> u32 \<Rightarrow> u32" where
  "phys_of_virt m pd_phys virt =
     (let pdi = drop_bit 22 virt;
          pti = drop_bit 12 virt AND 0x3FF
      in if get_entry m pd_phys pdi AND PAGE_PRESENT = 0 then 0
         else
           let pt = get_entry m pd_phys pdi AND NOT 0xFFF
           in if get_entry m pt pti AND PAGE_PRESENT = 0 then 0
              else get_entry m pt pti AND NOT 0xFFF)"

text \<open>The entries \<^verbatim>\<open>phys_of_virt\<close> reads.\<close>

definition touch_walk :: "u32 \<Rightarrow> u32 \<Rightarrow> mm \<Rightarrow> mm" where
  "touch_walk pd_phys virt s =
     (let pdi = drop_bit 22 virt;
          pti = drop_bit 12 virt AND 0x3FF;
          pde = get_entry (memory s) pd_phys pdi;
          s = touch (pd_phys + 4 * pdi) 4 s
      in if pde AND PAGE_PRESENT = 0 then s else touch ((pde AND NOT 0xFFF) + 4 * pti) 4 s)"

section \<open>The page walk\<close>

text \<open>
  What the processor does with an address under page directory \<open>pd\<close>: the physical
  address, and whether the page is open to ring 3 (the user bit must be set at both levels).
\<close>

definition translate :: "mem \<Rightarrow> u32 \<Rightarrow> u32 \<Rightarrow> (u32 \<times> bool) option" where
  "translate m pd va =
     (let pde = get_entry m pd (drop_bit 22 va);
          pte = get_entry m (pde AND NOT 0xFFF) (drop_bit 12 va AND 0x3FF)
      in if pde AND 1 = 0 \<or> pte AND 1 = 0 then None
         else Some ((pte AND NOT 0xFFF) + (va AND 0xFFF), pde AND 4 \<noteq> 0 \<and> pte AND 4 \<noteq> 0))"

section \<open>Accesses\<close>

lemma derail_simps [simp]:
  "memory (derail s) = memory s" "frames (derail s) = frames s" "cr0 (derail s) = cr0 s" "cr3 (derail s) = cr3 s"
  "page_directory (derail s) = page_directory s" "page_tables (derail s) = page_tables s" "derailed (derail s)"
  by (simp_all add: derail_def)

lemma touch_simps [simp]:
  "memory (touch a n s) = memory s" "frames (touch a n s) = frames s" "cr0 (touch a n s) = cr0 s" "cr3 (touch a n s) = cr3 s"
  "page_directory (touch a n s) = page_directory s" "page_tables (touch a n s) = page_tables s"
  by (simp_all add: touch_def)

lemma touch_low: "unat a + n \<le> 0x800000 \<Longrightarrow> touch a n s = s"
  by (simp add: touch_def)

lemma touch_cases: "touch a n s = s \<or> touch a n s = derail s"
  by (simp add: touch_def)

lemma touch_keeps_derailed: "derailed s \<Longrightarrow> derailed (touch a n s)"
  by (simp add: touch_def)

lemma derail_upd [simp]: "(derail s)\<lparr>frames := q\<rparr> = derail (s\<lparr>frames := q\<rparr>)" "(derail s)\<lparr>memory := m\<rparr> = derail (s\<lparr>memory := m\<rparr>)"
  by (simp_all add: derail_def)

lemma touch_upd [simp]:
  "(touch a n s)\<lparr>frames := q\<rparr> = touch a n (s\<lparr>frames := q\<rparr>)" "(touch a n s)\<lparr>memory := m\<rparr> = touch a n (s\<lparr>memory := m\<rparr>)"
  by (simp_all add: touch_def derail_def)

lemma set_entry_simps [simp]:
  "frames (set_entry p i v s) = frames s" "cr0 (set_entry p i v s) = cr0 s" "cr3 (set_entry p i v s) = cr3 s"
  "page_directory (set_entry p i v s) = page_directory s" "page_tables (set_entry p i v s) = page_tables s"
  by (simp_all add: set_entry_def)

lemma zero_page_simps [simp]:
  "memory (zero_page a s) = memset (memory s) a 0 4096"
  "frames (zero_page a s) = frames s" "cr0 (zero_page a s) = cr0 s" "cr3 (zero_page a s) = cr3 s"
  "page_directory (zero_page a s) = page_directory s" "page_tables (zero_page a s) = page_tables s"
  by (simp_all add: zero_page_def PAGE_SIZE_def)

section \<open>Entries\<close>

lemma mask12: "(0xFFF :: u32) = mask 12" and mask10: "(0x3FF :: u32) = mask 10"
  by (simp_all add: mask_eq_exp_minus_1)

lemma entry_flags:
  "x OR PAGE_PRESENT OR PAGE_WRITABLE OR PAGE_USER = x OR 7"
  "x OR PAGE_PRESENT OR PAGE_WRITABLE = x OR 3"
  by (simp_all add: kconst or.assoc)

lemma frame_addr_push: "(of_nat (4096 * f) :: u32) = push_bit 12 (of_nat f)"
  by (simp add: push_bit_eq_mult mult.commute)

lemma entry_frame: "k \<le> 12 \<Longrightarrow> (of_nat (4096 * f) OR mask k :: u32) AND NOT 0xFFF = of_nat (4096 * f)"
  unfolding frame_addr_push mask12
  by (rule bit_word_eqI) (auto simp: bit_simps)

lemma entry_bit: "k \<le> 12 \<Longrightarrow> n < 12 \<Longrightarrow> bit (of_nat (4096 * f) OR mask k :: u32) n \<longleftrightarrow> n < k"
  unfolding frame_addr_push by (auto simp: bit_simps)

lemma and_exp_eq_0: "(x :: u32) AND 2 ^ n = 0 \<longleftrightarrow> \<not> bit x n"
  by (simp add: and_exp_eq_0_iff_not_bit)

lemma and_flags: "(x :: u32) AND 1 = 0 \<longleftrightarrow> \<not> bit x 0" "x AND 4 = 0 \<longleftrightarrow> \<not> bit x 2"
  using and_exp_eq_0[of x 0] and_exp_eq_0[of x 2] by simp_all

lemma masks: "(7 :: u32) = mask 3" "(3 :: u32) = mask 2"
  by (simp_all add: mask_eq_exp_minus_1)

lemma user_entry:
  "(of_nat (4096 * f) OR 7 :: u32) AND NOT 0xFFF = of_nat (4096 * f)"
  "(of_nat (4096 * f) OR 7 :: u32) AND 1 \<noteq> 0" "(of_nat (4096 * f) OR 7 :: u32) AND 4 \<noteq> 0"
  unfolding masks and_flags using entry_frame[of 3 f] entry_bit[of 3 _ f] by simp_all

lemma user_entry_neg: "(of_nat (4096 * f) OR 7 :: u32) AND - 4096 = of_nat (4096 * f)"
  using user_entry(1)[of f] by (simp del: of_nat_mult)

lemma kernel_entry:
  "(of_nat (4096 * f) OR 3 :: u32) AND NOT 0xFFF = of_nat (4096 * f)"
  "(of_nat (4096 * f) OR 3 :: u32) AND 1 \<noteq> 0" "(of_nat (4096 * f) OR 3 :: u32) AND 4 = 0"
  unfolding masks and_flags using entry_frame[of 2 f] entry_bit[of 2 _ f] by simp_all

section \<open>Pages of memory\<close>

text \<open>\<open>only m m' W\<close>: the step from \<open>m\<close> to \<open>m'\<close> wrote to the page frames \<open>W\<close> only.\<close>

definition only :: "mem \<Rightarrow> mem \<Rightarrow> nat set \<Rightarrow> bool" where
  "only m m' W \<longleftrightarrow> (\<forall>x. unat x div 4096 \<notin> W \<longrightarrow> m' x = m x)"

lemma only_refl [simp]: "only m m W"
  by (simp add: only_def)

lemma only_trans: "only m m1 W \<Longrightarrow> only m1 m2 W \<Longrightarrow> only m m2 W"
  by (auto simp: only_def)

lemma only_mono: "only m m' V \<Longrightarrow> V \<subseteq> W \<Longrightarrow> only m m' W"
  by (auto simp: only_def)

lemma page_div: "4096 * p \<le> x \<Longrightarrow> x < 4096 * p + 4096 \<Longrightarrow> x div 4096 = (p :: nat)"
  by (metis add.commute div_nat_eqI mult.commute mult_Suc)

lemma ld_only:
  assumes "only m m' W" "p \<notin> W" "p < 1048576" "k < 1024"
  shows "ld m' (4096 * p + 4 * k) = ld m (4096 * p + 4 * k)"
proof (rule ld_cong)
  fix x :: u32
  assume "4096 * p + 4 * k \<le> unat x" "unat x < 4096 * p + 4 * k + 4"
  then have "unat x div 4096 = p" using assms(4) by (intro page_div) simp_all
  then show "m' x = m x" using assms(1,2) by (simp add: only_def)
qed (use assms(3,4) in simp)

lemma get_entry_ld: "get_entry m (of_nat (4096 * p)) (of_nat i) = ld m (4096 * p + 4 * i)"
  by (simp add: get_entry_def ld_def)

lemma set_entry_st:
  "set_entry (of_nat (4096 * p)) (of_nat i) v s =
     touch (of_nat (4096 * p + 4 * i)) 4 (s\<lparr>memory := st (memory s) (4096 * p + 4 * i) v\<rparr>)"
  by (simp add: set_entry_def st_def)

text \<open>Page frames below 8 MB are in the identity map.\<close>

lemma touch_frame:
  assumes "p < 2048" "i + n \<le> 4096"
  shows "touch (of_nat (4096 * p + i)) n s = s"
proof -
  have "unat (of_nat (4096 * p + i) :: u32) \<le> 4096 * p + i"
    by (simp add: unat_of_nat take_bit_eq_mod del: of_nat_mult of_nat_add)
  then show ?thesis using assms by (intro touch_low) simp
qed

lemma touch_entry: "p < 2048 \<Longrightarrow> i < 1024 \<Longrightarrow> touch (of_nat (4096 * p) + 4 * of_nat i) 4 s = s"
  using touch_frame[of p "4 * i" 4 s] by simp

lemma set_entry_low:
  assumes "p < 2048" "i < 1024"
  shows "set_entry (of_nat (4096 * p)) (of_nat i) v s = s\<lparr>memory := st (memory s) (4096 * p + 4 * i) v\<rparr>"
  unfolding set_entry_st using assms by (intro touch_frame) simp_all

lemma only_st: "p < 1048576 \<Longrightarrow> i < 1024 \<Longrightarrow> only m (st m (4096 * p + 4 * i) v) {p}"
  unfolding only_def
proof (intro allI impI)
  fix x :: u32
  assume *: "p < 1048576" "i < 1024" "unat x div 4096 \<notin> {p}"
  then have "unat x < 4096 * p + 4 * i \<or> 4096 * p + 4 * i + 4 \<le> unat x"
    using page_div[of p "unat x"] by force
  then show "st m (4096 * p + 4 * i) v x = m x" using * by (intro st_frame) simp_all
qed

lemma ld_st_page:
  assumes "p < 1048576" "q < 1048576" "i < 1024" "k < 1024"
  shows "ld (st m (4096 * p + 4 * i) v) (4096 * q + 4 * k) =
    (if p = q \<and> i = k then v else ld m (4096 * q + 4 * k))"
proof (cases "p = q \<and> i = k")
  case False
  then have "4096 * p + 4 * i + 4 \<le> 4096 * q + 4 * k \<or> 4096 * q + 4 * k + 4 \<le> 4096 * p + 4 * i"
    using assms by (cases p q rule: linorder_cases) auto
  then show ?thesis using False assms by (subst ld_st_other) auto
qed simp

lemma only_memset:
  assumes "p < 1048576"
  shows "only m (memset m (of_nat (4096 * p)) 0 4096) {p}"
  unfolding only_def
proof (intro allI impI)
  fix x :: u32
  assume "unat x div 4096 \<notin> {p}"
  moreover have "unat (of_nat (4096 * p) :: u32) = 4096 * p"
    using assms by (intro unat_of_nat_u32) simp
  ultimately show "memset m (of_nat (4096 * p)) 0 4096 x = m x"
    using assms page_div[of p "unat x"] by (auto simp: memset_apply within_nat simp del: of_nat_mult)
qed

lemma ld_memset_page:
  assumes "p < 1048576" "k < 1024"
  shows "ld (memset m (of_nat (4096 * p)) 0 4096) (4096 * p + 4 * k) = 0"
proof -
  have "unat (of_nat (4096 * p) :: u32) = 4096 * p" "unat (of_nat (4096 * p + 4 * k) :: u32) = 4096 * p + 4 * k"
    using assms by (intro unat_of_nat_u32; simp)+
  then show ?thesis unfolding ld_def using assms
    by (intro load32_memset_zero) (simp_all del: of_nat_mult of_nat_add)
qed

lemma va_index:
  "drop_bit 22 (va :: u32) = of_nat (unat va div 4194304)"
  "drop_bit 12 va AND 0x3FF = of_nat (unat va div 4096 mod 1024)"
proof -
  have "unat (drop_bit 22 va) = unat va div 4194304" using unat_drop_bit[of 22 va] by simp
  then show "drop_bit 22 va = of_nat (unat va div 4194304)" by (metis of_nat_unat ucast_id)
  have "unat (drop_bit 12 va AND 0x3FF) = unat va div 4096 mod 1024"
    using unat_and_mask[of "drop_bit 12 va" 10] unat_drop_bit[of 12 va] by (simp add: mask10)
  then show "drop_bit 12 va AND 0x3FF = of_nat (unat va div 4096 mod 1024)"
    by (metis of_nat_unat ucast_id)
qed

section \<open>Address spaces\<close>

text \<open>
  The user part of an address space: \<open>T\<close> gives the frame of the page table behind each
  present directory entry, \<open>P\<close> the frame behind each mapped page. \<open>p\<close> is the frame of the
  directory itself and \<open>k\<close> the frame of the first of the two shared kernel page tables.
\<close>

type_synonym tables = "nat \<rightharpoonup> nat"
type_synonym pages = "nat \<times> nat \<rightharpoonup> nat"

definition entry_is :: "u32 \<Rightarrow> nat option \<Rightarrow> bool" where
  "entry_is e x = (case x of None \<Rightarrow> e AND 1 = 0 | Some f \<Rightarrow> e = of_nat (4096 * f) OR 7)"

lemma entry_is_simps [simp]:
  "entry_is e None \<longleftrightarrow> e AND 1 = 0" "entry_is e (Some f) \<longleftrightarrow> e = of_nat (4096 * f) OR 7"
  by (simp_all add: entry_is_def)

definition as_rep :: "mem \<Rightarrow> nat \<Rightarrow> nat \<Rightarrow> tables \<Rightarrow> pages \<Rightarrow> bool" where
  "as_rep m k p T P \<longleftrightarrow>
     (\<forall>i < 2. ld m (4096 * p + 4 * i) = of_nat (4096 * (k + i)) OR 3) \<and>
     (\<forall>i. 2 \<le> i \<and> i < 1024 \<longrightarrow> entry_is (ld m (4096 * p + 4 * i)) (T i)) \<and>
     (\<forall>i t. T i = Some t \<longrightarrow> (\<forall>j < 1024. entry_is (ld m (4096 * t + 4 * j)) (P (i, j)))) \<and>
     dom T \<subseteq> {2 ..< 1024} \<and> dom P \<subseteq> dom T \<times> {..< 1024}"

definition owned :: "nat \<Rightarrow> tables \<Rightarrow> pages \<Rightarrow> nat set" where
  "owned p T P = insert p (ran T \<union> ran P)"

definition as_ok :: "nat \<Rightarrow> tables \<Rightarrow> pages \<Rightarrow> bool" where
  "as_ok p T P \<longleftrightarrow> inj_on T (dom T) \<and> inj_on P (dom P) \<and> ran T \<inter> ran P = {} \<and>
     p \<notin> ran T \<and> p \<notin> ran P \<and> owned p T P \<subseteq> {256 ..< 8192}"

text \<open>
  The memory state holds a well-formed address space whose frames are all allocated. The
  kernel's own directory and page tables lie in the reserved first megabyte.
\<close>

definition kframe :: "mm \<Rightarrow> nat" where
  "kframe s = unat (page_tables s) div 4096"

definition aspace :: "mm \<Rightarrow> nat \<Rightarrow> tables \<Rightarrow> pages \<Rightarrow> bool" where
  "aspace s p T P \<longleftrightarrow> pmm_inv (frames s) \<and> kframe s + 2 \<le> 256 \<and>
     as_rep (memory s) (kframe s) p T P \<and> as_ok p T P \<and> owned p T P \<inter> free_set (frames s) = {}"

lemma kframe_touch [simp]: "kframe (touch a n s) = kframe s" "kframe (derail s) = kframe s"
  by (simp_all add: kframe_def)

lemma aspace_touch [simp]: "aspace (touch a n s) p T P = aspace s p T P" "aspace (derail s) p T P = aspace s p T P"
  by (simp_all add: aspace_def)

lemma ran_upd_new: "m a = None \<Longrightarrow> ran (m(a \<mapsto> b)) = insert b (ran m)"
  by (rule ran_map_upd)

lemma inj_on_upd_new:
  assumes "inj_on m (dom m)" "m a = None" "b \<notin> ran m"
  shows "inj_on (m(a \<mapsto> b)) (dom (m(a \<mapsto> b)))"
  using assms by (auto simp: inj_on_def ran_def dom_def)

text \<open>Writes outside the directory and page tables of an address space do not change it.\<close>

lemma as_rep_only:
  assumes "as_rep m k p T P" "only m m' W" "insert p (ran T) \<inter> W = {}" "insert p (ran T) \<subseteq> {256 ..< 8192}"
  shows "as_rep m' k p T P"
proof -
  have "ld m' (4096 * q + 4 * i) = ld m (4096 * q + 4 * i)" if "q \<in> insert p (ran T)" "i < 1024" for q i
    using assms(2-4) that by (intro ld_only) auto
  then show ?thesis
    using assms(1) unfolding as_rep_def by (simp add: ranI)
qed

lemma translate_as_rep:
  assumes rep: "as_rep m k p T P" and va: "0x800000 \<le> unat va"
  defines "i \<equiv> unat va div 4194304" and "j \<equiv> unat va div 4096 mod 1024"
  shows "translate m (of_nat (4096 * p)) va =
    (case P (i, j) of None \<Rightarrow> None | Some f \<Rightarrow> Some (of_nat (4096 * f) + (va AND 0xFFF), True))"
proof -
  have i: "2 \<le> i" "i < 1024" using va unat_u32[of va] by (simp_all add: i_def div_le_mono less_mult_imp_div_less)
  have pde: "get_entry m (of_nat (4096 * p)) (drop_bit 22 va) = ld m (4096 * p + 4 * i)"
    unfolding va_index i_def by (rule get_entry_ld)
  show ?thesis
  proof (cases "T i")
    case None
    then have "P (i, j) = None" "ld m (4096 * p + 4 * i) AND 1 = 0" using rep i by (auto simp: as_rep_def)
    then show ?thesis unfolding translate_def Let_def pde by simp
  next
    case (Some t)
    then have e: "ld m (4096 * p + 4 * i) = of_nat (4096 * t) OR 7" using rep i by (auto simp: as_rep_def)
    have "entry_is (ld m (4096 * t + 4 * j)) (P (i, j))" using rep Some by (simp add: as_rep_def j_def)
    moreover have "get_entry m (ld m (4096 * p + 4 * i) AND NOT 0xFFF) (drop_bit 12 va AND 0x3FF) =
        ld m (4096 * t + 4 * j)"
      unfolding va_index j_def e user_entry(1) by (rule get_entry_ld)
    ultimately show ?thesis
      unfolding translate_def Let_def pde
      by (cases "P (i, j)")
        (simp_all add: e user_entry user_entry_neg del: of_nat_mult)
  qed
qed

section \<open>Growing an address space\<close>

lemma as_rep_new_table:
  assumes rep: "as_rep m k p T P" and i: "T i = None" "2 \<le> i" "i < 1024"
    and t: "t \<notin> insert p (ran T)" "t < 8192" and b: "insert p (ran T) \<subseteq> {256 ..< 8192}"
    and pT: "p \<notin> ran T"
  shows "as_rep (st (memset m (of_nat (4096 * t)) 0 4096) (4096 * p + 4 * i) (of_nat (4096 * t) OR 7))
    k p (T(i \<mapsto> t)) P" (is "as_rep ?m k p ?T P")
proof -
  have p: "p < 1048576" using b by auto
  have other: "ld ?m (4096 * q + 4 * n) = ld m (4096 * q + 4 * n)"
    if "q \<in> insert p (ran T)" "n < 1024" "q \<noteq> p \<or> n \<noteq> i" for q n
  proof -
    have q: "q < 1048576" "q \<noteq> t" using that(1) b t(1) by auto
    then have "ld (memset m (of_nat (4096 * t)) 0 4096) (4096 * q + 4 * n) = ld m (4096 * q + 4 * n)"
      using that(2) t(2) by (intro ld_only[OF only_memset]) auto
    then show ?thesis using that i p q by (auto simp: ld_st_page simp del: of_nat_mult)
  qed
  have tabs: "ld ?m (4096 * u + 4 * n) = ld m (4096 * u + 4 * n)" if "T i' = Some u" "n < 1024" for i' u n
    using other[of u n] ranI[of T i' u] that pT by auto
  have "ld ?m (4096 * p + 4 * i) = of_nat (4096 * t) OR 7"
    using p i by (simp add: ld_st_page del: of_nat_mult)
  moreover have "ld ?m (4096 * t + 4 * j) = 0" if "j < 1024" for j
    using that p t i by (simp add: ld_st_page ld_memset_page del: of_nat_mult)
  moreover have "P (i, j) = None" for j using rep i(1) by (auto simp: as_rep_def)
  moreover have "dom P \<subseteq> dom ?T \<times> {..< 1024}" using rep by (auto simp: as_rep_def)
  ultimately show ?thesis
    using rep i other tabs unfolding as_rep_def by (auto simp del: of_nat_mult)
qed

lemma as_rep_new_page:
  assumes rep: "as_rep m k p T P" and t: "T i = Some t" and j: "j < 1024"
    and inj: "inj_on T (dom T)" "p \<notin> ran T" and b: "insert p (ran T) \<subseteq> {256 ..< 8192}"
  shows "as_rep (st m (4096 * t + 4 * j) (of_nat (4096 * f) OR 7)) k p T (P((i, j) \<mapsto> f))"
    (is "as_rep ?m k p T ?P")
proof -
  have tr: "t \<in> ran T" using t by (rule ranI)
  then have tb: "t < 1048576" "t \<noteq> p" using b inj(2) by auto
  have ld: "ld ?m (4096 * q + 4 * n) =
      (if q = t \<and> n = j then of_nat (4096 * f) OR 7 else ld m (4096 * q + 4 * n))"
    if "q \<in> insert p (ran T)" "n < 1024" for q n
    using that tb j b by (subst ld_st_page) auto
  have same: "i' = i" if "T i' = Some t" for i'
    using inj(1) t that by (auto simp: inj_on_def dom_def)
  show ?thesis
    unfolding as_rep_def
  proof (intro conjI allI impI)
    fix i' t' j' assume *: "T i' = Some t'" "j' < (1024 :: nat)"
    then have "entry_is (ld m (4096 * t' + 4 * j')) (P (i', j'))" using rep by (simp add: as_rep_def)
    then show "entry_is (ld ?m (4096 * t' + 4 * j')) (?P (i', j'))"
      using * ld[of t' j'] same[of i'] t by (auto simp: ranI simp del: of_nat_mult)
  qed (use rep ld t tb(2) j in \<open>auto simp: as_rep_def simp del: of_nat_mult\<close>)
qed

lemma alloc_frame_cases:
  assumes "pmm_inv (frames s)"
  obtains "free_set (frames s) = {}" "alloc_frame s = (s, 0)"
  | f q where "f \<in> free_set (frames s)" "256 \<le> f" "f < 8192"
      "alloc_frame s = (s\<lparr>frames := q\<rparr>, of_nat (4096 * f))" "(of_nat (4096 * f) :: u32) \<noteq> 0"
      "pmm_inv q" "free_set q = free_set (frames s) - {f}" "\<forall>g \<in> free_set (frames s). f \<le> g"
proof (rule fa.alloc_cases[OF assms])
  assume "free_set (frames s) = {}" "pmm_alloc_frame (frames s) = (frames s, 0)"
  then show thesis using that(1) by (simp add: alloc_frame_def)
next
  fix f q a
  assume *: "f \<in> free_set (frames s)" "256 \<le> f" "f < 8192" "pmm_alloc_frame (frames s) = (q, a)"
    "unat a = 4096 * f" "a \<noteq> 0" "pmm_inv q" "free_set q = free_set (frames s) - {f}"
  have "a = of_nat (4096 * f)" using *(5) by (metis of_nat_unat ucast_id)
  moreover have ne: "free_set (frames s) \<noteq> {}" using *(1) by auto
  have "unat a = 4096 * Min (free_set (frames s))"
    using *(4) pmm_alloc_frame_some(1)[OF ne] unat_frame_addr[OF pmm_alloc_frame_some(3)[OF ne]] by (simp del: of_nat_mult)
  then have "\<forall>g \<in> free_set (frames s). f \<le> g" using *(5) by simp
  ultimately show thesis using that(2)[of f q] * by (simp add: alloc_frame_def)
qed

lemma alloc_frame_touch: "alloc_frame (touch a n s) = apfst (touch a n) (alloc_frame s)"
  by (simp add: alloc_frame_def split_beta Let_def)

text \<open>
  One step of growth: the address space stays well formed, frames only move from the free
  set into it, nothing outside its directory and page tables and the formerly free frames is written, and the
  registers and kernel tables stay.
\<close>

definition as_grow :: "nat \<Rightarrow> mm \<Rightarrow> tables \<Rightarrow> pages \<Rightarrow> mm \<Rightarrow> tables \<Rightarrow> pages \<Rightarrow> bool" where
  "as_grow p s T P s' T' P' \<longleftrightarrow> aspace s' p T' P' \<and>
     owned p T' P' \<union> free_set (frames s') = owned p T P \<union> free_set (frames s) \<and>
     owned p T P \<subseteq> owned p T' P' \<and> ran T' \<subseteq> ran T \<union> free_set (frames s) \<and>
     only (memory s) (memory s') (insert p (ran T) \<union> free_set (frames s)) \<and>
     page_tables s' = page_tables s \<and> page_directory s' = page_directory s \<and>
     cr3 s' = cr3 s \<and> cr0 s' = cr0 s"

lemma as_grow_refl: "aspace s p T P \<Longrightarrow> as_grow p s T P s T P"
  by (simp add: as_grow_def)

lemma as_grow_frees:
  "as_grow p s T P s' T' P' \<Longrightarrow> free_set (frames s') \<subseteq> free_set (frames s)"
  by (auto simp: as_grow_def aspace_def)

lemma as_grow_only:
  "as_grow p s T P s' T' P' \<Longrightarrow> only (memory s) (memory s') (owned p T P \<union> free_set (frames s))"
  unfolding as_grow_def by (auto simp: owned_def elim: only_mono)

lemma as_grow_trans:
  assumes "as_grow p s T P s1 T1 P1" "as_grow p s1 T1 P1 s2 T2 P2"
  shows "as_grow p s T P s2 T2 P2"
proof -
  have W: "insert p (ran T1) \<union> free_set (frames s1) \<subseteq> insert p (ran T) \<union> free_set (frames s)"
    using as_grow_frees[OF assms(1)] assms(1) by (auto simp: as_grow_def)
  have "only (memory s) (memory s2) (insert p (ran T) \<union> free_set (frames s))"
  proof (rule only_trans)
    show "only (memory s) (memory s1) (insert p (ran T) \<union> free_set (frames s))" using assms(1) by (simp add: as_grow_def)
    have "only (memory s1) (memory s2) (insert p (ran T1) \<union> free_set (frames s1))" using assms(2) by (simp add: as_grow_def)
    then show "only (memory s1) (memory s2) (insert p (ran T) \<union> free_set (frames s))" using W by (rule only_mono)
  qed
  moreover have "ran T2 \<subseteq> ran T \<union> free_set (frames s)"
  proof -
    have "ran T2 \<subseteq> ran T1 \<union> free_set (frames s1)" using assms(2) by (simp add: as_grow_def)
    also have "\<dots> \<subseteq> ran T \<union> free_set (frames s)"
      using as_grow_frees[OF assms(1)] assms(1) by (auto simp: as_grow_def)
    finally show ?thesis .
  qed
  moreover have "owned p T P \<subseteq> owned p T2 P2"
    by (rule subset_trans[of _ "owned p T1 P1"]) (use assms in \<open>simp_all add: as_grow_def\<close>)
  ultimately show ?thesis using assms by (simp add: as_grow_def)
qed

lemma as_grow_touch [simp]:
  "as_grow p s T P (touch a n s') T' P' = as_grow p s T P s' T' P'"
  "as_grow p s T P (derail s') T' P' = as_grow p s T P s' T' P'"
  by (simp_all add: as_grow_def)

text \<open>
  The frames below 8 MB that are left. A step that takes at most \<open>n\<close> frames takes the lowest ones; if there are that many and the
  tables it goes through lie below 8 MB, then what it allocates does too, and no access faults.
\<close>

definition lowfree :: "mm \<Rightarrow> nat" where
  "lowfree s = card (free_set (frames s) \<inter> {..< 2048})"

definition on_track :: "nat \<Rightarrow> nat \<Rightarrow> mm \<Rightarrow> tables \<Rightarrow> pages \<Rightarrow> mm \<Rightarrow> tables \<Rightarrow> pages \<Rightarrow> bool" where
  "on_track n p s T P s' T' P' \<longleftrightarrow> lowfree s \<le> lowfree s' + n \<and>
     (n \<le> lowfree s \<and> insert p (ran T) \<subseteq> {..< 2048} \<longrightarrow>
        ran T' \<subseteq> {..< 2048} \<and> ran P' \<subseteq> ran P \<union> {..< 2048} \<and> derailed s' = derailed s)"

lemma lowfree_touch [simp]: "lowfree (touch a n s) = lowfree s" "lowfree (derail s) = lowfree s"
  by (simp_all add: lowfree_def)

lemma lowfree_le: "lowfree s \<le> card (free_set (frames s))"
  unfolding lowfree_def by (rule card_mono) (auto simp: free_set_def)

lemma on_track_trans:
  "on_track n p s T P s1 T1 P1 \<Longrightarrow> on_track k p s1 T1 P1 s2 T2 P2 \<Longrightarrow> on_track (n + k) p s T P s2 T2 P2"
  unfolding on_track_def by (elim conjE, intro conjI impI) (simp_all, blast+)

lemma on_track_mono: "on_track n p s T P s' T' P' \<Longrightarrow> n \<le> k \<Longrightarrow> on_track k p s T P s' T' P'"
  by (simp add: on_track_def)

lemma on_track_refl: "on_track n p s T P s T P"
  by (auto simp: on_track_def)

lemma lowfree_alloc:
  assumes "f \<in> free_set (frames s)" "free_set q = free_set (frames s) - {f}" "\<forall>g \<in> free_set (frames s). f \<le> g"
    and "frames s' = q"
  shows "lowfree s \<le> lowfree s' + 1" "1 \<le> lowfree s \<Longrightarrow> f < 2048"
proof -
  have "free_set (frames s) \<inter> {..< 2048} \<subseteq> insert f (free_set q \<inter> {..< 2048})" using assms(2) by auto
  then have "card (free_set (frames s) \<inter> {..< 2048}) \<le> card (insert f (free_set q \<inter> {..< 2048}))" by (intro card_mono) simp_all
  also have "\<dots> \<le> card (free_set q \<inter> {..< 2048}) + 1" using card_insert_le_m1 by (simp add: card_insert_if)
  finally show "lowfree s \<le> lowfree s' + 1" by (simp add: lowfree_def assms(4))
  assume "1 \<le> lowfree s"
  then have "free_set (frames s) \<inter> {..< 2048} \<noteq> {}" unfolding lowfree_def by fastforce
  then show "f < 2048" using assms(3) by (meson IntE disjoint_iff le_less_trans lessThan_iff)
qed

lemma as_ok_bounds: "as_ok p T P \<Longrightarrow> insert p (ran T) \<subseteq> {256 ..< 8192}"
  by (auto simp: as_ok_def owned_def)

lemma as_ok_new_table:
  assumes "as_ok p T P" "T i = None" "t \<notin> owned p T P" "256 \<le> t" "t < 8192"
  shows "as_ok p (T(i \<mapsto> t)) P" "owned p (T(i \<mapsto> t)) P = insert t (owned p T P)"
  using assms inj_on_upd_new[of T i t]
  by (auto simp: as_ok_def owned_def ran_upd_new)

lemma as_ok_new_page:
  assumes "as_ok p T P" "P x = None" "f \<notin> owned p T P" "256 \<le> f" "f < 8192"
  shows "as_ok p T (P(x \<mapsto> f))" "owned p T (P(x \<mapsto> f)) = insert f (owned p T P)"
  using assms inj_on_upd_new[of P x f]
  by (auto simp: as_ok_def owned_def ran_upd_new)

lemma alloc_page_table_spec:
  assumes as: "aspace s p T P" and i: "2 \<le> i" "i < 1024"
    and al: "alloc_page_table (of_nat (4096 * p)) (of_nat i) s = (s', ok)"
  shows "\<exists>T'. as_grow p s T P s' T' P \<and> (ok \<longrightarrow> T' i \<noteq> None) \<and>
    (free_set (frames s) \<noteq> {} \<longrightarrow> ok) \<and> card (free_set (frames s)) \<le> card (free_set (frames s')) + 1 \<and>
    on_track 1 p s T P s' T' P"
proof (cases "T i")
  case (Some t)
  then have "ld (memory s) (4096 * p + 4 * i) = of_nat (4096 * t) OR 7"
    using as i by (auto simp: aspace_def as_rep_def)
  then have s': "s' = touch (of_nat (4096 * p) + 4 * of_nat i) 4 s" "ok"
    using al user_entry(2)[of t] by (simp_all add: alloc_page_table_def get_entry_ld PAGE_PRESENT_def Let_def del: of_nat_mult)
  moreover have "on_track 1 p s T P s' T P" unfolding s' using i by (auto simp: on_track_def touch_entry simp del: of_nat_mult)
  ultimately show ?thesis using Some as by (intro exI[of _ T]) (simp add: as_grow_refl)
next
  case None
  have rep: "as_rep (memory s) (kframe s) p T P" and ok_as: "as_ok p T P" and inv: "pmm_inv (frames s)"
    and disj: "owned p T P \<inter> free_set (frames s) = {}"
    using as by (simp_all add: aspace_def)
  have "ld (memory s) (4096 * p + 4 * i) AND 1 = 0"
    using None rep i by (auto simp: as_rep_def)
  then have code: "alloc_page_table (of_nat (4096 * p)) (of_nat i) s =
      (let (s, a) = alloc_frame s; s = touch (of_nat (4096 * p) + 4 * of_nat i) 4 s in if a = 0 then (s, False) else
        (set_entry (of_nat (4096 * p)) (of_nat i) (a OR 7) (zero_page a s), True))"
    unfolding alloc_page_table_def touch_simps get_entry_ld entry_flags alloc_frame_touch Let_def
    by (simp add: PAGE_PRESENT_def split_beta)
  show ?thesis
  proof (rule alloc_frame_cases[OF inv])
    assume e: "free_set (frames s) = {}" "alloc_frame s = (s, 0)"
    then have s': "s' = touch (of_nat (4096 * p) + 4 * of_nat i) 4 s" "\<not> ok" using al code by (simp_all del: of_nat_mult)
    moreover have "on_track 1 p s T P s' T P" unfolding s' using i by (auto simp: on_track_def touch_entry simp del: of_nat_mult)
    ultimately show ?thesis using as e by (intro exI[of _ T]) (simp add: as_grow_refl)
  next
    fix t q
    assume t: "t \<in> free_set (frames s)" "256 \<le> t" "t < 8192"
      "alloc_frame s = (s\<lparr>frames := q\<rparr>, of_nat (4096 * t))" "(of_nat (4096 * t) :: u32) \<noteq> 0"
      "pmm_inv q" "free_set q = free_set (frames s) - {t}" "\<forall>g \<in> free_set (frames s). t \<le> g"
    let ?m = "st (memset (memory s) (of_nat (4096 * t)) 0 4096) (4096 * p + 4 * i) (of_nat (4096 * t) OR 7)"
    let ?s = "s\<lparr>frames := q, memory := ?m\<rparr>"
    have s': "s' = touch (of_nat (4096 * p + 4 * i)) 4 (touch (of_nat (4096 * t)) 4096 (touch (of_nat (4096 * p) + 4 * of_nat i) 4 ?s))"
        and ok: "ok"
      using al code t(4,5) by (simp_all add: set_entry_st zero_page_def PAGE_SIZE_def del: of_nat_mult of_nat_add)
    have low: "s' = ?s" if "p < 2048" "t < 2048"
      unfolding s' using that i touch_frame[of t 0 4096] by (simp add: touch_frame touch_entry del: of_nat_mult of_nat_add)
    have nt: "t \<notin> owned p T P" using t(1) disj by auto
    note bnd = as_ok_bounds[OF ok_as]
    have p: "p < 1048576" using bnd by auto
    have "as_rep ?m (kframe s) p (T(i \<mapsto> t)) P"
      using nt t ok_as by (intro as_rep_new_table[OF rep None i _ _ bnd]) (auto simp: owned_def as_ok_def)
    moreover have "only (memory s) ?m (insert p (ran T) \<union> free_set (frames s))"
    proof (rule only_trans)
      show "only (memory s) (memset (memory s) (of_nat (4096 * t)) 0 4096) (insert p (ran T) \<union> free_set (frames s))"
        using only_memset[of t] t by (rule_tac only_mono) auto
      show "only (memset (memory s) (of_nat (4096 * t)) 0 4096) ?m (insert p (ran T) \<union> free_set (frames s))"
        using only_st[OF p i(2)] by (rule only_mono) simp
    qed
    moreover note as_ok_new_table[OF ok_as None nt t(2,3)]
    moreover have "ran (T(i \<mapsto> t)) = insert t (ran T)" using None by (rule ran_upd_new)
    moreover note ranT = this
    ultimately have "as_grow p s T P ?s (T(i \<mapsto> t)) P"
      using as t(1,6,7) disj unfolding as_grow_def aspace_def kframe_def
      by (auto simp del: of_nat_mult)
    then have "as_grow p s T P s' (T(i \<mapsto> t)) P" unfolding s' by (simp del: of_nat_mult of_nat_add)
    moreover have q: "frames s' = q" by (simp add: s' del: of_nat_mult of_nat_add)
    moreover have "card (free_set (frames s)) \<le> card (free_set (frames s')) + 1"
      unfolding q using t(1,7) by (simp add: card_Diff_singleton)
    moreover have "on_track 1 p s T P s' (T(i \<mapsto> t)) P"
      using lowfree_alloc[OF t(1,7,8) q] low ranT by (auto simp: on_track_def)
    ultimately show ?thesis using ok by (intro exI[of _ "T(i \<mapsto> t)"]) simp
  qed
qed

lemma alloc_user_page_spec:
  assumes as: "aspace s p T P" and va: "0x800000 \<le> unat va"
    and al: "alloc_user_page (of_nat (4096 * p)) va s = (s', ok)"
  defines "x \<equiv> (unat va div 4194304, unat va div 4096 mod 1024)"
  assumes new: "P x = None"
  shows "\<exists>T' P'. as_grow p s T P s' T' P' \<and>
    (if ok then \<exists>f \<in> free_set (frames s). P' = P(x \<mapsto> f) else P' = P) \<and>
    (2 \<le> card (free_set (frames s)) \<longrightarrow> ok) \<and>
    card (free_set (frames s)) \<le> card (free_set (frames s')) + 2 \<and> on_track 2 p s T P s' T' P'"
proof -
  define i where "i = unat va div 4194304"
  define j where "j = unat va div 4096 mod 1024"
  have i: "2 \<le> i" "i < 1024" and j: "j < 1024"
    using va unat_u32[of va] by (simp_all add: i_def j_def div_le_mono less_mult_imp_div_less)
  have x: "x = (i, j)" by (simp add: x_def i_def j_def)
  obtain s1 ok1 where pt: "alloc_page_table (of_nat (4096 * p)) (of_nat i) s = (s1, ok1)"
    by fastforce
  obtain T1 where g1: "as_grow p s T P s1 T1 P" and T1: "ok1 \<longrightarrow> T1 i \<noteq> None"
      "free_set (frames s) \<noteq> {} \<longrightarrow> ok1" "card (free_set (frames s)) \<le> card (free_set (frames s1)) + 1"
    and tr1: "on_track 1 p s T P s1 T1 P"
    using alloc_page_table_spec[OF as i pt] by blast
  have i2: "\<not> (of_nat i :: u32) < 2" using i unat_of_nat_u32[of i] by (simp add: word_less_nat_alt)
  have code: "alloc_user_page (of_nat (4096 * p)) va s =
      (if \<not> ok1 then (s1, False) else
        let (s2, a) = alloc_frame s1 in if a = 0 then (s2, False) else
          (set_entry (get_entry (memory s2) (of_nat (4096 * p)) (of_nat i) AND NOT 0xFFF) (of_nat j) (a OR 7) s2, True))"
    unfolding alloc_user_page_def va_index i_def[symmetric] j_def[symmetric] pt Let_def entry_flags using i2 by (simp add: split_beta)
  have as1: "aspace s1 p T1 P" using g1 by (simp add: as_grow_def)
  then have inv1: "pmm_inv (frames s1)" and rep1: "as_rep (memory s1) (kframe s1) p T1 P"
    and ok_as: "as_ok p T1 P" and disj: "owned p T1 P \<inter> free_set (frames s1) = {}"
    by (simp_all add: aspace_def)
  have two: "ok1 \<and> free_set (frames s1) \<noteq> {}" if "2 \<le> card (free_set (frames s))"
    using that T1 by (auto dest: card_gt_0_iff[THEN iffD1])
  show ?thesis
  proof (cases "ok1 \<and> free_set (frames s1) \<noteq> {}")
    case False
    then have "ok1 \<Longrightarrow> alloc_frame s1 = (s1, 0)"
      by (simp add: alloc_frame_def pmm_alloc_frame_none)
    then have "s' = s1 \<and> \<not> ok"
      using al code by (cases ok1) (simp_all del: of_nat_mult)
    then show ?thesis
      using g1 T1(3) two False on_track_mono[OF tr1, of 2] by (intro exI[of _ T1] exI[of _ P]) auto
  next
    case True
    then obtain t where t: "T1 i = Some t" using T1(1) by auto
    from inv1 show ?thesis
    proof (rule alloc_frame_cases)
      fix f q
      assume f: "f \<in> free_set (frames s1)" "256 \<le> f" "f < 8192"
        "alloc_frame s1 = (s1\<lparr>frames := q\<rparr>, of_nat (4096 * f))" "(of_nat (4096 * f) :: u32) \<noteq> 0"
        "pmm_inv q" "free_set q = free_set (frames s1) - {f}" "\<forall>g \<in> free_set (frames s1). f \<le> g"
      let ?m = "st (memory s1) (4096 * t + 4 * j) (of_nat (4096 * f) OR 7)"
      have pde: "ld (memory s1) (4096 * p + 4 * i) = of_nat (4096 * t) OR 7"
        using rep1 t i unfolding as_rep_def by (metis entry_is_simps(2))
      let ?s = "s1\<lparr>frames := q, memory := ?m\<rparr>"
      have s': "s' = touch (of_nat (4096 * t + 4 * j)) 4 ?s" and ok: "ok"
        using al code f(4,5) True
        by (simp_all add: get_entry_ld pde user_entry user_entry_neg set_entry_st del: of_nat_mult of_nat_add)
      have nf: "f \<notin> owned p T1 P" using f(1) disj by auto
      note bnd = as_ok_bounds[OF ok_as]
      have tr: "t \<in> ran T1" "t < 1048576" using t bnd by (auto simp: ran_def)
      have "as_rep ?m (kframe s1) p T1 (P((i, j) \<mapsto> f))"
        using ok_as by (intro as_rep_new_page[OF rep1 t j _ _ bnd]) (auto simp: as_ok_def)
      moreover have "only (memory s1) ?m (insert p (ran T1) \<union> free_set (frames s1))"
        using only_st[OF tr(2) j] by (rule only_mono) (use tr in auto)
      moreover note as_ok_new_page[OF ok_as new[unfolded x] nf f(2,3)]
      ultimately have "as_grow p s1 T1 P ?s T1 (P((i, j) \<mapsto> f))"
        using as1 f(1,6,7) disj unfolding as_grow_def aspace_def kframe_def
        by (auto simp del: of_nat_mult)
      then have "as_grow p s1 T1 P s' T1 (P((i, j) \<mapsto> f))" unfolding s' by (simp del: of_nat_mult of_nat_add)
      then have "as_grow p s T P s' T1 (P((i, j) \<mapsto> f))" by (rule as_grow_trans[OF g1])
      moreover have q: "frames s' = q" by (simp add: s' del: of_nat_mult of_nat_add)
      moreover have "card (free_set (frames s)) \<le> card (free_set (frames s')) + 2"
        unfolding q using f(1,7) T1(3) by (simp add: card_Diff_singleton)
      moreover have "on_track 2 p s T P s' T1 (P((i, j) \<mapsto> f))"
      proof -
        have "on_track 1 p s1 T1 P s' T1 (P((i, j) \<mapsto> f))"
          unfolding on_track_def
        proof (intro conjI impI)
          show "lowfree s1 \<le> lowfree s' + 1" by (rule lowfree_alloc(1)[OF f(1,7,8) q])
          assume a: "1 \<le> lowfree s1 \<and> insert p (ran T1) \<subseteq> {..< 2048}"
          then show "ran T1 \<subseteq> {..< 2048}" by simp
          have "f < 2048" using lowfree_alloc(2)[OF f(1,7,8) q] a by simp
          then show "ran (P((i, j) \<mapsto> f)) \<subseteq> ran P \<union> {..< 2048}" using ran_upd_new[of P "(i, j)" f] new x by auto
          have "t < 2048" using a tr(1) by auto
          then show "derailed s' = derailed s1" unfolding s' using j by (simp add: touch_frame del: of_nat_mult of_nat_add)
        qed
        from on_track_trans[OF tr1 this] show ?thesis by (simp only: one_add_one)
      qed
      moreover have "f \<in> free_set (frames s)" using f(1) as_grow_frees[OF g1] by auto
      ultimately show ?thesis
        using ok x by (intro exI[of _ T1] exI[of _ "P((i, j) \<mapsto> f)"]) auto
    qed (use True in simp)
  qed
qed

definition page_of :: "u32 \<Rightarrow> nat \<times> nat" where
  "page_of va = (unat va div 4194304, unat va div 4096 mod 1024)"

lemma page_of_eq_iff: "page_of va = page_of vb \<longleftrightarrow> unat va div 4096 = unat vb div 4096"
proof -
  have "unat v div 4194304 = unat v div 4096 div 1024" for v :: u32
    using div_mult2_eq[of "unat v" 4096 1024] by simp
  then show ?thesis unfolding page_of_def by (metis div_mod_decomp prod.inject)
qed

lemma alloc_user_pages_loop_spec:
  assumes "aspace s p T P"
    and "alloc_user_pages_loop (of_nat (4096 * p)) vb is s = (s', r)"
    and "\<And>i. i \<in> set is \<Longrightarrow> 0x800000 \<le> unat (vb + of_nat i * PAGE_SIZE)"
    and "\<And>i. i \<in> set is \<Longrightarrow> P (page_of (vb + of_nat i * PAGE_SIZE)) = None"
    and "distinct (map (\<lambda>i. page_of (vb + of_nat i * PAGE_SIZE)) is)"
  shows "\<exists>T' P'. as_grow p s T P s' T' P' \<and> (r = 0 \<or> r = -1) \<and>
    (2 * length is \<le> card (free_set (frames s)) \<longrightarrow> r = 0) \<and>
    card (free_set (frames s)) \<le> card (free_set (frames s')) + 2 * length is \<and>
    (\<forall>x. x \<notin> (\<lambda>i. page_of (vb + of_nat i * PAGE_SIZE)) ` set is \<longrightarrow> P' x = P x) \<and>
    (r = 0 \<longrightarrow> (\<forall>i \<in> set is. \<exists>f \<in> free_set (frames s). P' (page_of (vb + of_nat i * PAGE_SIZE)) = Some f)) \<and>
    on_track (2 * length is) p s T P s' T' P'"
  using assms
proof (induction "is" arbitrary: s T P)
  case Nil
  then show ?case by (intro exI[of _ T] exI[of _ P]) (auto simp: as_grow_refl on_track_refl)
next
  case (Cons i "is")
  let ?x = "\<lambda>i. page_of (vb + of_nat i * PAGE_SIZE)"
  obtain s1 ok where al: "alloc_user_page (of_nat (4096 * p)) (vb + of_nat i * PAGE_SIZE) s = (s1, ok)"
    by fastforce
  obtain T1 P1 where g: "as_grow p s T P s1 T1 P1"
    and P1: "if ok then \<exists>f \<in> free_set (frames s). P1 = P(?x i \<mapsto> f) else P1 = P"
    and c: "2 \<le> card (free_set (frames s)) \<longrightarrow> ok"
      "card (free_set (frames s)) \<le> card (free_set (frames s1)) + 2"
    and tr: "on_track 2 p s T P s1 T1 P1"
    using alloc_user_page_spec[OF Cons.prems(1) _ al] Cons.prems(3,4)[of i] unfolding page_of_def
    by (metis list.set_intros(1))
  show ?case
  proof (cases ok)
    case False
    then have "s' = s1" "r = -1" using Cons.prems(2) al by simp_all
    then show ?thesis using g P1 c(1) False on_track_mono[OF tr, of "2 * length (i # is)"] by (intro exI[of _ T1] exI[of _ P1]) auto
  next
    case True
    then obtain f where f: "f \<in> free_set (frames s)" "P1 = P(?x i \<mapsto> f)" using P1 by auto
    have as1: "aspace s1 p T1 P1" using g by (simp add: as_grow_def)
    have run: "alloc_user_pages_loop (of_nat (4096 * p)) vb is s1 = (s', r)"
      using Cons.prems(2) al True by simp
    have ne: "?x j \<noteq> ?x i" if "j \<in> set is" for j
      using Cons.prems(5) imageI[OF that, of ?x] by auto
    have "\<exists>T' P'. as_grow p s1 T1 P1 s' T' P' \<and> (r = 0 \<or> r = -1) \<and>
      (2 * length is \<le> card (free_set (frames s1)) \<longrightarrow> r = 0) \<and>
      card (free_set (frames s1)) \<le> card (free_set (frames s')) + 2 * length is \<and>
      (\<forall>x. x \<notin> ?x ` set is \<longrightarrow> P' x = P1 x) \<and>
      (r = 0 \<longrightarrow> (\<forall>i \<in> set is. \<exists>f \<in> free_set (frames s1). P' (?x i) = Some f)) \<and>
      on_track (2 * length is) p s1 T1 P1 s' T' P'"
      by (rule Cons.IH[OF as1 run]) (use Cons.prems(3,4,5) ne in \<open>auto simp: f(2)\<close>)
    then obtain T' P' where g': "as_grow p s1 T1 P1 s' T' P'" and r: "r = 0 \<or> r = -1"
      and l: "2 * length is \<le> card (free_set (frames s1)) \<longrightarrow> r = 0"
      and l2: "card (free_set (frames s1)) \<le> card (free_set (frames s')) + 2 * length is"
      and k: "\<forall>x. x \<notin> ?x ` set is \<longrightarrow> P' x = P1 x"
      and h: "r = 0 \<longrightarrow> (\<forall>i \<in> set is. \<exists>f \<in> free_set (frames s1). P' (?x i) = Some f)"
      and tr': "on_track (2 * length is) p s1 T1 P1 s' T' P'"
      by blast
    have "P' (?x i) = Some f" using k[rule_format, of "?x i"] f(2) Cons.prems(5) by simp
    then have h': "r = 0 \<longrightarrow> (\<forall>i \<in> set (i # is). \<exists>f \<in> free_set (frames s). P' (?x i) = Some f)"
      using h f(1) as_grow_frees[OF g] by fastforce
    have l': "2 * length (i # is) \<le> card (free_set (frames s)) \<longrightarrow> r = 0" using l c(2) by auto
    have k': "\<forall>x. x \<notin> ?x ` set (i # is) \<longrightarrow> P' x = P x" using k f(2) by auto
    have "card (free_set (frames s)) \<le> card (free_set (frames s')) + 2 * length (i # is)" using l2 c(2) by simp
    moreover have "on_track (2 * length (i # is)) p s T P s' T' P'" using on_track_trans[OF tr tr'] by simp
    ultimately show ?thesis using as_grow_trans[OF g g'] r l' k' h' by blast
  qed
qed

section \<open>Isolation of address spaces\<close>

lemma as_grow_isolates:
  assumes g: "as_grow p s T P s' T' P'" and q: "aspace s q U Q" and d: "owned p T P \<inter> owned q U Q = {}"
  shows "aspace s' q U Q \<and> owned p T' P' \<inter> owned q U Q = {}"
proof -
  have disj: "owned q U Q \<inter> (owned p T P \<union> free_set (frames s)) = {}"
    using q d by (auto simp: aspace_def)
  have "as_rep (memory s') (kframe s) q U Q"
  proof (rule as_rep_only)
    show "only (memory s) (memory s') (owned p T P \<union> free_set (frames s))" "as_rep (memory s) (kframe s) q U Q"
      using as_grow_only[OF g] q by (simp_all add: aspace_def)
    show "insert q (ran U) \<subseteq> {256 ..< 8192}" using q as_ok_bounds[of q U Q] by (simp add: aspace_def)
    show "insert q (ran U) \<inter> (owned p T P \<union> free_set (frames s)) = {}"
      using disj by (auto simp: owned_def[of q])
  qed
  then show ?thesis using q g disj unfolding aspace_def as_grow_def kframe_def by auto
qed

text \<open>The kernel half of every address space is the shared pair of page tables.\<close>

lemma translate_kernel_half:
  assumes "\<And>i. i < 2 \<Longrightarrow> ld m (4096 * p + 4 * i) = of_nat (4096 * (k + i)) OR 3"
    and "\<And>i. i < 2 \<Longrightarrow> ld m' (4096 * p' + 4 * i) = of_nat (4096 * (k + i)) OR 3"
    and "only m m' W" "W \<inter> {..< 256} = {}" "k + 2 \<le> 256"
    and va: "unat va < 0x800000"
  shows "translate m' (of_nat (4096 * p')) va = translate m (of_nat (4096 * p)) va"
proof -
  define i where "i = unat va div 4194304"
  have i: "i < 2" using va by (simp add: i_def less_mult_imp_div_less)
  have pde: "get_entry m (of_nat (4096 * p)) (drop_bit 22 va) = of_nat (4096 * (k + i)) OR 3"
    "get_entry m' (of_nat (4096 * p')) (drop_bit 22 va) = of_nat (4096 * (k + i)) OR 3"
    using assms(1,2) i unfolding va_index i_def[symmetric] get_entry_ld by blast+
  have "ld m' (4096 * (k + i) + 4 * (unat va div 4096 mod 1024)) =
      ld m (4096 * (k + i) + 4 * (unat va div 4096 mod 1024))"
    using assms(3-5) i by (intro ld_only[of m m' W]) auto
  then have "get_entry m' (of_nat (4096 * (k + i))) (drop_bit 12 va AND 0x3FF) =
      get_entry m (of_nat (4096 * (k + i))) (drop_bit 12 va AND 0x3FF)"
    unfolding va_index get_entry_ld .
  then show ?thesis unfolding translate_def Let_def pde kernel_entry(1) by simp
qed

section \<open>Destroying an address space\<close>

lemma free_frame_spec:
  assumes "pmm_inv (frames s)" "256 \<le> f" "f < 8192"
  shows "pmm_inv (frames (free_frame (of_nat (4096 * f)) s))"
    "free_set (frames (free_frame (of_nat (4096 * f)) s)) = insert f (free_set (frames s))"
    "\<exists>q. free_frame (of_nat (4096 * f)) s = s\<lparr>frames := q\<rparr>"
proof -
  have "unat (of_nat (4096 * f) :: u32) div 4096 = f" using assms(3) by (subst unat_frame_addr) simp_all
  then show "pmm_inv (frames (free_frame (of_nat (4096 * f)) s))"
    "free_set (frames (free_frame (of_nat (4096 * f)) s)) = insert f (free_set (frames s))"
    using fa.release_frame[OF assms(1), of "of_nat (4096 * f)"] assms(2,3)
    by (simp_all add: free_frame_def del: of_nat_mult)
  show "\<exists>q. free_frame (of_nat (4096 * f)) s = s\<lparr>frames := q\<rparr>" by (auto simp: free_frame_def)
qed

text \<open>
  \<open>released s F s'\<close>: from \<open>s\<close> to \<open>s'\<close> the frames \<open>F\<close> were returned, and nothing else happened but perhaps a fault.
\<close>

definition released :: "mm \<Rightarrow> nat set \<Rightarrow> mm \<Rightarrow> bool" where
  "released s F s' \<longleftrightarrow> pmm_inv (frames s') \<and> free_set (frames s') = free_set (frames s) \<union> F \<and>
     memory s' = memory s \<and> page_directory s' = page_directory s \<and> page_tables s' = page_tables s \<and>
     cr0 s' = cr0 s \<and> cr3 s' = cr3 s"

lemma released_refl: "pmm_inv (frames s) \<Longrightarrow> released s {} s"
  by (simp add: released_def)

lemma released_touch: "pmm_inv (frames s) \<Longrightarrow> released s {} (touch a n s)"
  by (simp add: released_def)

lemma released_trans: "released s F s1 \<Longrightarrow> released s1 G s2 \<Longrightarrow> released s (F \<union> G) s2"
  by (auto simp: released_def)

lemma released_free:
  "pmm_inv (frames s) \<Longrightarrow> 256 \<le> f \<Longrightarrow> f < 8192 \<Longrightarrow> released s {f} (free_frame (of_nat (4096 * f)) s)"
  using free_frame_spec[of s f] by (auto simp: released_def)

lemma released_memory: "released s F s' \<Longrightarrow> memory s' = memory s"
  by (auto simp: released_def)

lemma released_inv: "released s F s' \<Longrightarrow> pmm_inv (frames s')"
  by (simp add: released_def)

lemma destroy_pt_spec:
  assumes inv: "pmm_inv (frames s)" and t: "256 \<le> t" "t < 8192"
    and ent: "\<And>j. j < 1024 \<Longrightarrow> entry_is (ld (memory s) (4096 * t + 4 * j)) (Q j)"
    and rng: "\<And>j f. Q j = Some f \<Longrightarrow> 256 \<le> f \<and> f < 8192"
  shows "released s (insert t {f. \<exists>j < 1024. Q j = Some f}) (destroy_pt (of_nat (4096 * t)) s)"
proof -
  let ?body = "\<lambda>j s. if get_entry (memory s) (of_nat (4096 * t)) j AND PAGE_PRESENT \<noteq> 0
    then free_frame (get_entry (memory s) (of_nat (4096 * t)) j AND NOT 0xFFF) s else s"
  let ?R = "\<lambda>n. {f. \<exists>j < n. Q j = Some f}"
  let ?s = "touch (of_nat (4096 * t)) 4096 s"
  have "released s (?R (unat (1024 :: u32))) (for_range 0 1024 ?body ?s)"
  proof (rule for_range_invariant[where P = "\<lambda>n s'. released s (?R n) s'"])
    fix j s'
    assume j: "j < unat (1024 :: u32)" and R: "released s (?R j) s'"
    have step: "released s' (set_option (Q j)) (?body (of_nat j) s')"
    proof (cases "Q j")
      case None
      then have "ld (memory s') (4096 * t + 4 * j) AND 1 = 0" using ent[of j] j R by (simp add: released_memory)
      then show ?thesis using None released_refl[OF released_inv[OF R]]
        by (simp add: get_entry_ld PAGE_PRESENT_def del: of_nat_mult)
    next
      case (Some f)
      then have "ld (memory s') (4096 * t + 4 * j) = of_nat (4096 * f) OR 7"
        using ent[of j] j R by (simp add: released_memory)
      then show ?thesis using Some released_free[OF released_inv[OF R], of f] rng[of j f]
        by (simp add: get_entry_ld PAGE_PRESENT_def user_entry user_entry_neg del: of_nat_mult)
    qed
    have "?R j \<union> set_option (Q j) = ?R (Suc j)" by (cases "Q j") (auto simp: less_Suc_eq)
    then show "released s (?R (Suc j)) (?body (of_nat j) s')" using released_trans[OF R step] by simp
  qed (use released_touch[OF inv] in simp_all)
  then have R: "released s (?R 1024) (for_range 0 PT_ENTRIES ?body ?s)" by (simp add: PT_ENTRIES_def)
  show ?thesis
    unfolding destroy_pt_def
    using released_trans[OF R released_free[OF released_inv[OF R] t]] by (simp del: of_nat_mult)
qed

lemma paging_destroy_pd_spec:
  assumes as: "aspace s p T P"
  shows "released s (owned p T P) (paging_destroy_pd (of_nat (4096 * p)) s)"
proof -
  have rep: "as_rep (memory s) (kframe s) p T P" and ok: "as_ok p T P" and inv: "pmm_inv (frames s)"
    using as by (simp_all add: aspace_def)
  have rng: "256 \<le> f \<and> f < 8192" if "f \<in> owned p T P" for f using ok that by (auto simp: as_ok_def)
  let ?body = "\<lambda>i s. if get_entry (memory s) (of_nat (4096 * p)) i AND PAGE_PRESENT = 0 then s
    else destroy_pt (get_entry (memory s) (of_nat (4096 * p)) i AND NOT 0xFFF) s"
  let ?R = "\<lambda>n. {f. \<exists>i < n. T i = Some f \<or> (\<exists>j. P (i, j) = Some f)}"
  have dom: "2 \<le> i" "i < 1024" if "T i \<noteq> None" for i using rep that by (auto simp: as_rep_def)
  have domP: "T i \<noteq> None" "j < 1024" if "P (i, j) = Some f" for i j f
    using rep that by (auto simp: as_rep_def)
  have no: "T i = None" if "i < 2" for i using dom(1)[of i] that by (cases "T i") auto
  have noP: "P (i, j) \<noteq> Some f" if "i < 2" for i j f using no[OF that] domP(1)[of i j f] by auto
  have low: "?R 2 = {}"
    unfolding Collect_empty_eq using no noP by (simp only: not_ex de_Morgan_conj de_Morgan_disj) simp
  let ?s = "touch (of_nat (4096 * p)) 4096 s"
  have base: "released s (?R 2) ?s" unfolding low by (rule released_touch[OF inv])
  have "released s (?R (unat (1024 :: u32))) (for_range 2 1024 ?body ?s)"
  proof (rule for_range_invariant[where P = "\<lambda>n s'. released s (?R n) s'"])
    fix i s'
    assume i: "unat (2 :: u32) \<le> i" "i < unat (1024 :: u32)" and R: "released s (?R i) s'"
    have ent: "entry_is (ld (memory s') (4096 * p + 4 * i)) (T i)"
      using rep i R by (simp add: released_memory as_rep_def)
    have step: "released s' {f. T i = Some f \<or> (\<exists>j. P (i, j) = Some f)} (?body (of_nat i) s')"
    proof (cases "T i")
      case None
      then have "{f. T i = Some f \<or> (\<exists>j. P (i, j) = Some f)} = {}" using domP(1)[of i] by fastforce
      then show ?thesis using None ent released_refl[OF released_inv[OF R]]
        by (simp add: get_entry_ld PAGE_PRESENT_def del: of_nat_mult)
    next
      case (Some t)
      have "released s' (insert t {f. \<exists>j < 1024. P (i, j) = Some f}) (destroy_pt (of_nat (4096 * t)) s')"
        using rng[of t] rng rep Some R
        by (intro destroy_pt_spec[OF released_inv[OF R]])
          (auto simp: as_rep_def owned_def released_memory intro: ranI)
      moreover have "insert t {f. \<exists>j < 1024. P (i, j) = Some f} = {f. T i = Some f \<or> (\<exists>j. P (i, j) = Some f)}"
        using Some domP(2)[of i] by auto
      ultimately show ?thesis using Some ent
        by (simp add: get_entry_ld PAGE_PRESENT_def user_entry user_entry_neg del: of_nat_mult)
    qed
    have "?R i \<union> {f. T i = Some f \<or> (\<exists>j. P (i, j) = Some f)} = ?R (Suc i)" by (auto simp: less_Suc_eq)
    then show "released s (?R (Suc i)) (?body (of_nat i) s')" using released_trans[OF R step] by simp
  qed (use base in simp_all)
  then have R: "released s (?R 1024) (for_range 2 PD_ENTRIES ?body ?s)" by (simp add: PD_ENTRIES_def)
  have "?R 1024 = ran T \<union> ran P"
  proof
    show "?R 1024 \<subseteq> ran T \<union> ran P" by (auto simp: ran_def)
    show "ran T \<union> ran P \<subseteq> ?R 1024"
    proof
      fix f assume "f \<in> ran T \<union> ran P"
      then consider i where "T i = Some f" | i j where "P (i, j) = Some f" by (auto simp: ran_def)
      then show "f \<in> ?R 1024" by cases (use dom domP(1) in blast)+
    qed
  qed
  then have "?R 1024 \<union> {p} = owned p T P" by (auto simp: owned_def)
  then show ?thesis
    unfolding paging_destroy_pd_def
    using released_trans[OF R released_free[OF released_inv[OF R], of p]] rng[of p]
    by (simp add: owned_def del: of_nat_mult)
qed

text \<open>Tables below 8 MB are destroyed without a fault.\<close>

lemma free_frame_keeps [simp]: "memory (free_frame a s) = memory s" "derailed (free_frame a s) = derailed s" "cr0 (free_frame a s) = cr0 s"
  by (simp_all add: free_frame_def)

lemma for_range_keeps:
  assumes "\<And>i s. g (f i s) = g s"
  shows "g (for_range a b f s) = g s"
proof -
  have "g (fold (\<lambda>i. f (of_nat i)) xs s) = g s" for xs by (induction xs arbitrary: s) (simp_all add: assms)
  then show ?thesis by (simp add: for_range_def)
qed

lemma destroy_pt_keeps [simp]:
  "memory (destroy_pt t s) = memory s" "derailed (destroy_pt t s) = derailed (touch t 4096 s)"
  unfolding destroy_pt_def free_frame_keeps
  using for_range_keeps[where g = memory] for_range_keeps[where g = derailed] by (simp_all add: for_range_keeps[where g = derailed] for_range_keeps[where g = memory])

lemma destroy_pd_memory: "memory (paging_destroy_pd pd s) = memory s"
  by (simp add: paging_destroy_pd_def for_range_keeps[where g = memory])

lemma destroy_pd_on_track:
  assumes as: "aspace s p T P" and low: "insert p (ran T) \<subseteq> {..< 2048}"
  shows "derailed (paging_destroy_pd (of_nat (4096 * p)) s) = derailed s"
proof -
  have rep: "as_rep (memory s) (kframe s) p T P" using as by (simp add: aspace_def)
  let ?body = "\<lambda>i s. if get_entry (memory s) (of_nat (4096 * p)) i AND PAGE_PRESENT = 0 then s
    else destroy_pt (get_entry (memory s) (of_nat (4096 * p)) i AND NOT 0xFFF) s"
  have page: "touch (of_nat (4096 * f)) 4096 s' = s'" if "f < 2048" for f s' using touch_frame[OF that, of 0 4096] by simp
  have "memory (for_range 2 1024 ?body s) = memory s \<and> derailed (for_range 2 1024 ?body s) = derailed s"
  proof (rule for_range_invariant[where P = "\<lambda>n s'. memory s' = memory s \<and> derailed s' = derailed s"])
    fix i and s' :: mm
    assume i: "unat (2 :: u32) \<le> i" "i < unat (1024 :: u32)" and s': "memory s' = memory s \<and> derailed s' = derailed s"
    then have ent: "entry_is (ld (memory s') (4096 * p + 4 * i)) (T i)" using rep by (simp add: as_rep_def)
    show "memory (?body (of_nat i) s') = memory s \<and> derailed (?body (of_nat i) s') = derailed s"
    proof (cases "T i")
      case None
      then show ?thesis using ent s' by (simp add: get_entry_ld PAGE_PRESENT_def del: of_nat_mult)
    next
      case (Some t)
      then have "t < 2048" using low by (auto intro: ranI)
      then show ?thesis using ent s' Some page[of t]
        by (simp add: get_entry_ld PAGE_PRESENT_def user_entry user_entry_neg del: of_nat_mult)
    qed
  qed simp_all
  then show ?thesis using page[of p] low by (simp add: paging_destroy_pd_def PD_ENTRIES_def del: of_nat_mult)
qed

section \<open>The kernel's own page tables\<close>

text \<open>
  Link-time layout: the directory and the two page tables are page aligned, do not
  overlap and lie in the first megabyte.
\<close>

definition kernel_layout :: "mm \<Rightarrow> bool" where
  "kernel_layout s \<longleftrightarrow> (let d = unat (page_directory s) div 4096; k = kframe s in
     page_directory s = of_nat (4096 * d) \<and> page_tables s = of_nat (4096 * k) \<and>
     d < 256 \<and> k + 2 \<le> 256 \<and> d \<noteq> k \<and> d \<noteq> k + 1)"

definition kdir :: "mm \<Rightarrow> nat" where
  "kdir s = unat (page_directory s) div 4096"

lemma pt_fill_spec:
  assumes "page_tables s = of_nat (4096 * k)" "k + t < 2048" "t < 2"
  shows "\<exists>m. pt_fill (of_nat t) s = s\<lparr>memory := m\<rparr> \<and> only (memory s) m {k + t} \<and>
    (\<forall>j < 1024. ld m (4096 * (k + t) + 4 * j) = of_nat (4096 * (1024 * t + j)) OR 3)"
proof -
  let ?body = "\<lambda>i s. let phys = of_nat t * (4 * 1024 * 1024) + i * PAGE_SIZE
    in set_entry (page_tables s + 4096 * of_nat t) i (phys OR PAGE_PRESENT OR PAGE_WRITABLE) s"
  let ?Q = "\<lambda>n s'. \<exists>m. s' = s\<lparr>memory := m\<rparr> \<and> only (memory s) m {k + t} \<and>
    (\<forall>j < n. ld m (4096 * (k + t) + 4 * j) = of_nat (4096 * (1024 * t + j)) OR 3)"
  have "?Q (unat (1024 :: u32)) (for_range 0 1024 ?body s)"
  proof (rule for_range_invariant[where P = ?Q])
    show "?Q (unat (0 :: u32)) s" by (rule exI[of _ "memory s"]) simp
    fix n s'
    assume n: "n < unat (1024 :: u32)" and "?Q n s'"
    then obtain m where m: "s' = s\<lparr>memory := m\<rparr>" "only (memory s) m {k + t}"
        "\<forall>j < n. ld m (4096 * (k + t) + 4 * j) = of_nat (4096 * (1024 * t + j)) OR 3"
      by blast
    let ?m = "st m (4096 * (k + t) + 4 * n) (of_nat (4096 * (1024 * t + n)) OR 3)"
    have addr: "page_tables s + 4096 * of_nat t = of_nat (4096 * (k + t))"
      "of_nat t * (4 * 1024 * 1024) + of_nat n * PAGE_SIZE = (of_nat (4096 * (1024 * t + n)) :: u32)"
      by (simp_all add: assms(1) algebra_simps PAGE_SIZE_def)
    then have pt: "page_tables s' + 4096 * of_nat t = of_nat (4096 * (k + t))" by (simp add: m(1))
    have "?body (of_nat n) s' = s\<lparr>memory := ?m\<rparr>"
      unfolding Let_def entry_flags addr pt using n set_entry_low[OF assms(2), of n] by (simp add: m(1) del: of_nat_mult of_nat_add)
    moreover have "only (memory s) ?m {k + t}"
      using n assms(2) by (intro only_trans[OF m(2)] only_st) simp_all
    moreover have "\<forall>j < Suc n. ld ?m (4096 * (k + t) + 4 * j) = of_nat (4096 * (1024 * t + j)) OR 3"
    proof (intro allI impI)
      fix j assume "j < Suc n"
      then show "ld ?m (4096 * (k + t) + 4 * j) = of_nat (4096 * (1024 * t + j)) OR 3"
        using m(3) n assms(2) ld_st_page[of "k + t" "k + t" n j m] by (cases "j = n") auto
    qed
    ultimately show "?Q (Suc n) (?body (of_nat n) s')" by blast
  qed simp
  then show ?thesis unfolding pt_fill_def PT_ENTRIES_def by simp
qed

text \<open>
  \<open>kernel_tables m d k n\<close>: the first \<open>n\<close> page tables from frame \<open>k\<close> hold the identity map, and
  the directory in frame \<open>d\<close> has exactly these.
\<close>

definition kernel_tables :: "mem \<Rightarrow> nat \<Rightarrow> nat \<Rightarrow> nat \<Rightarrow> bool" where
  "kernel_tables m d k n \<longleftrightarrow>
     (\<forall>i < 1024. ld m (4096 * d + 4 * i) = (if i < n then of_nat (4096 * (k + i)) OR 3 else 0)) \<and>
     (\<forall>t < n. \<forall>j < 1024. ld m (4096 * (k + t) + 4 * j) = of_nat (4096 * (1024 * t + j)) OR 3)"

lemma kernel_tables_step:
  assumes kt: "kernel_tables m d k n" and L: "d < 256" "k + 2 \<le> 256" "d \<noteq> k" "d \<noteq> k + 1" and n: "n < 2"
    and m1: "only m m1 {k + n}"
      "\<forall>j < 1024. ld m1 (4096 * (k + n) + 4 * j) = of_nat (4096 * (1024 * n + j)) OR 3"
  shows "kernel_tables (st m1 (4096 * d + 4 * n) (of_nat (4096 * (k + n)) OR 3)) d k (Suc n)"
    (is "kernel_tables ?m d k _")
  unfolding kernel_tables_def
proof (intro conjI allI impI)
  have same: "ld m1 (4096 * q + 4 * j) = ld m (4096 * q + 4 * j)" if "q \<noteq> k + n" "q < 1048576" "j < 1024" for q j
    using that by (intro ld_only[OF m1(1)]) auto
  have kn: "k + n < 1048576" "d < 1048576" "n < 1024" using L n by simp_all
  have nd: "k + t \<noteq> d" if "t < 2" for t using that L(3,4) by (cases t) auto
  show "ld ?m (4096 * d + 4 * i) = (if i < Suc n then of_nat (4096 * (k + i)) OR 3 else 0)"
    if i: "i < 1024" for i
    using ld_st_page[OF kn(2,2,3) i, of m1] same[of d i] kt i nd[OF n] kn(2)
    by (cases "i = n") (auto simp: kernel_tables_def)
  show "ld ?m (4096 * (k + t) + 4 * j) = of_nat (4096 * (1024 * t + j)) OR 3"
    if t: "t < Suc n" "j < 1024" for t j
  proof -
    have "ld ?m (4096 * (k + t) + 4 * j) = ld m1 (4096 * (k + t) + 4 * j)"
      using ld_st_page[OF kn(2) _ kn(3) t(2), of "k + t" m1] nd[of t] t n kn by simp
    then show ?thesis
      using m1(2) kt same[of "k + t" j] t n kn by (cases "t = n") (auto simp: kernel_tables_def)
  qed
qed

definition identity_mapped :: "mm \<Rightarrow> bool" where
  "identity_mapped s \<longleftrightarrow> kernel_tables (memory s) (kdir s) (kframe s) 2"

lemma paging_init_spec:
  assumes "kernel_layout s"
  shows "\<exists>m. paging_init s = s\<lparr>memory := m, cr3 := page_directory s, cr0 := cr0 s OR 0x80000000\<rparr> \<and>
    identity_mapped (paging_init s) \<and> only (memory s) m {kdir s, kframe s, kframe s + 1}"
proof -
  define d k where "d = kdir s" and "k = kframe s"
  have L: "page_directory s = of_nat (4096 * d)" "page_tables s = of_nat (4096 * k)" "d < 256" "k + 2 \<le> 256"
      "d \<noteq> k" "d \<noteq> k + 1"
    using assms by (simp_all add: kernel_layout_def d_def k_def kdir_def Let_def)
  let ?W = "{d, k, k + 1}"
  let ?s0 = "s\<lparr>memory := memset (memory s) (page_directory s) 0 4096\<rparr>"
  let ?body = "\<lambda>t s. set_entry (page_directory s) t
      ((page_tables s + 4096 * t) OR PAGE_PRESENT OR PAGE_WRITABLE) (pt_fill t s)"
  let ?Q = "\<lambda>n s'. \<exists>m. s' = s\<lparr>memory := m\<rparr> \<and> only (memory s) m ?W \<and> kernel_tables m d k n"
  have "?Q (unat (2 :: u32)) (for_range 0 2 ?body ?s0)"
  proof (rule for_range_invariant[where P = ?Q])
    show "?Q (unat (0 :: u32)) ?s0"
      unfolding L(1) using L(3) ld_memset_page[of d] only_mono[OF only_memset[of d], of ?W]
      by (intro exI[of _ "memset (memory s) (of_nat (4096 * d)) 0 4096"])
        (simp add: kernel_tables_def del: of_nat_mult)
    fix n s'
    assume "n < unat (2 :: u32)" and "?Q n s'"
    then obtain m where n: "n < 2" and m: "s' = s\<lparr>memory := m\<rparr>" "only (memory s) m ?W" "kernel_tables m d k n"
      by auto
    obtain m1 where m1: "pt_fill (of_nat n) s' = s\<lparr>memory := m1\<rparr>" "only m m1 {k + n}"
        "\<forall>j < 1024. ld m1 (4096 * (k + n) + 4 * j) = of_nat (4096 * (1024 * n + j)) OR 3"
      using pt_fill_spec[of s' k n] L n m(1) by auto
    let ?m = "st m1 (4096 * d + 4 * n) (of_nat (4096 * (k + n)) OR 3)"
    have pts: "page_tables s' + 4096 * of_nat n = of_nat (4096 * (k + n))"
        "page_directory s' = of_nat (4096 * d)"
      by (simp_all add: m(1) L(1,2) algebra_simps)
    have "?body (of_nat n) s' = s\<lparr>memory := ?m\<rparr>"
      unfolding m1(1) entry_flags pts using set_entry_low[of d n] L(3) n by (simp del: of_nat_mult of_nat_add)
    moreover have "only (memory s) ?m ?W"
    proof (rule only_trans[OF only_trans[OF m(2)]])
      show "only m m1 ?W" using m1(2) n by (rule_tac only_mono) (auto simp: less_Suc_eq numeral_2_eq_2)
      show "only m1 ?m ?W" using L n by (intro only_mono[OF only_st]) auto
    qed
    ultimately show "?Q (Suc n) (?body (of_nat n) s')"
      using kernel_tables_step[OF m(3) L(3-6) n m1(2,3)] by blast
  qed simp
  then obtain m where m: "for_range 0 2 ?body ?s0 = s\<lparr>memory := m\<rparr>" "only (memory s) m ?W" "kernel_tables m d k 2"
    by auto
  have run: "paging_init s = s\<lparr>memory := m, cr3 := page_directory s, cr0 := cr0 s OR 0x80000000\<rparr>"
    unfolding paging_init_def Let_def m(1) by simp
  moreover have "identity_mapped (paging_init s)"
    using m(3) unfolding run identity_mapped_def by (simp add: d_def k_def kdir_def kframe_def)
  ultimately show ?thesis using m(2) by (auto simp: d_def k_def)
qed

lemma va_split: "of_nat (4096 * (unat va div 4096)) + (va AND 0xFFF) = (va :: u32)"
proof -
  have "unat (va AND 0xFFF) = unat va mod 4096" using unat_and_mask[of va 12] by (simp add: mask12)
  then have "va AND 0xFFF = of_nat (unat va mod 4096)" by (metis of_nat_unat ucast_id)
  then have "of_nat (4096 * (unat va div 4096)) + (va AND 0xFFF) =
      (of_nat (4096 * (unat va div 4096) + unat va mod 4096) :: u32)"
    by (simp only: of_nat_add)
  also have "\<dots> = va" by simp
  finally show ?thesis .
qed

lemma div_22_12: "unat (va :: u32) div 4096 = 1024 * (unat va div 4194304) + unat va div 4096 mod 1024"
  using div_mult2_eq[of "unat va" 4096 1024] by simp

lemma translate_identity:
  assumes "kernel_tables m d k 2"
  shows "translate m (of_nat (4096 * d)) va = (if unat va < 0x800000 then Some (va, False) else None)"
proof -
  define i j where "i = unat va div 4194304" and "j = unat va div 4096 mod 1024"
  have i: "i < 1024" "i < 2 \<longleftrightarrow> unat va < 0x800000" and j: "j < 1024"
    using unat_u32[of va] by (simp_all add: i_def j_def less_mult_imp_div_less div_less_iff_less_mult)
  have pde: "get_entry m (of_nat (4096 * d)) (drop_bit 22 va) =
      (if i < 2 then of_nat (4096 * (k + i)) OR 3 else 0)"
    using assms i(1) unfolding va_index i_def[symmetric] get_entry_ld by (simp add: kernel_tables_def)
  show ?thesis
  proof (cases "i < 2")
    case True
    have "get_entry m (of_nat (4096 * (k + i))) (drop_bit 12 va AND 0x3FF) = of_nat (4096 * (unat va div 4096)) OR 3"
    proof -
      have "ld m (4096 * (k + i) + 4 * j) = of_nat (4096 * (1024 * i + j)) OR 3"
        using assms True j unfolding kernel_tables_def by blast
      moreover have "1024 * i + j = unat va div 4096" using div_22_12[of va] by (simp only: i_def j_def)
      ultimately show ?thesis unfolding va_index j_def[symmetric] get_entry_ld by (simp only:)
    qed
    then show ?thesis
      using True i(2) unfolding translate_def Let_def pde
      by (simp only: if_True kernel_entry(1,2,3) va_split) simp
  next
    case False
    then show ?thesis using i(2) unfolding translate_def Let_def pde by (simp only: if_False) simp
  qed
qed

lemma fresh_dir:
  assumes "p < 1048576" "i < 1024"
  shows "ld (st (st (memset m (of_nat (4096 * p)) 0 4096) (4096 * p + 4 * 0) v) (4096 * p + 4 * 1) w)
    (4096 * p + 4 * i) = (if i = 0 then v else if i = 1 then w else 0)"
proof -
  have "(0 :: nat) < 1024" "(1 :: nat) < 1024" by simp_all
  then show ?thesis
    unfolding ld_st_page[OF assms(1,1) \<open>1 < 1024\<close> assms(2)] ld_st_page[OF assms(1,1) \<open>0 < 1024\<close> assms(2)]
      ld_memset_page[OF assms] by simp
qed

lemma paging_create_pd_spec:
  assumes lay: "kernel_layout s" and id: "identity_mapped s" and inv: "pmm_inv (frames s)"
    and cr: "paging_create_pd s = (s', a)"
  shows "(a = 0 \<longleftrightarrow> free_set (frames s) = {}) \<and> (a = 0 \<longrightarrow> s' = s) \<and>
    (a \<noteq> 0 \<longrightarrow> (\<exists>p \<in> free_set (frames s). a = of_nat (4096 * p) \<and>
      aspace s' p Map.empty Map.empty \<and> free_set (frames s') = free_set (frames s) - {p} \<and>
      only (memory s) (memory s') {p} \<and> page_directory s' = page_directory s \<and> page_tables s' = page_tables s \<and> cr0 s' = cr0 s \<and>
      lowfree s \<le> lowfree s' + 1 \<and> (1 \<le> lowfree s \<longrightarrow> p < 2048 \<and> derailed s' = derailed s)))"
  using inv
proof (rule alloc_frame_cases)
  assume "free_set (frames s) = {}" "alloc_frame s = (s, 0)"
  then show ?thesis using cr by (simp add: paging_create_pd_def)
next
  fix p q
  assume p: "p \<in> free_set (frames s)" "256 \<le> p" "p < 8192"
    "alloc_frame s = (s\<lparr>frames := q\<rparr>, of_nat (4096 * p))" "(of_nat (4096 * p) :: u32) \<noteq> 0"
    "pmm_inv q" "free_set q = free_set (frames s) - {p}" "\<forall>g \<in> free_set (frames s). p \<le> g"
  define d k where "d = kdir s" and "k = kframe s"
  have L: "page_directory s = of_nat (4096 * d)" "d < 256" "k + 2 \<le> 256"
    using lay by (simp_all add: kernel_layout_def d_def k_def kdir_def Let_def)
  let ?m0 = "memset (memory s) (of_nat (4096 * p)) 0 4096"
  let ?m1 = "st ?m0 (4096 * p + 4 * 0) (ld ?m0 (4096 * d + 4 * 0))"
  let ?m2 = "st ?m1 (4096 * p + 4 * 1) (ld ?m1 (4096 * d + 4 * 1))"
  have idx: "get_entry m (of_nat (4096 * b)) 0 = ld m (4096 * b + 4 * 0)"
      "get_entry m (of_nat (4096 * b)) 1 = ld m (4096 * b + 4 * 1)"
      "set_entry (of_nat (4096 * b)) 0 v t = touch (of_nat (4096 * b + 4 * 0)) 4 (t\<lparr>memory := st (memory t) (4096 * b + 4 * 0) v\<rparr>)"
      "set_entry (of_nat (4096 * b)) 1 v t = touch (of_nat (4096 * b + 4 * 1)) 4 (t\<lparr>memory := st (memory t) (4096 * b + 4 * 1) v\<rparr>)" for m b v t
    using get_entry_ld[of m b 0] get_entry_ld[of m b 1] set_entry_st[of b 0 v t] set_entry_st[of b 1 v t]
    by simp_all
  let ?s = "s\<lparr>frames := q, memory := ?m2\<rparr>"
  have run: "paging_create_pd s = (touch (of_nat (4096 * p + 4 * 1)) 4 (touch (of_nat (4096 * p + 4 * 0)) 4
      (touch (of_nat (4096 * p)) 4096 ?s)), of_nat (4096 * p))"
    using p(5) unfolding paging_create_pd_def p(4) zero_page_def PAGE_SIZE_def
    by (simp add: idx L(1) del: of_nat_mult of_nat_add)
  have pb: "p < 1048576" using p(3) by simp
  note o0 = only_memset[OF pb, of "memory s"]
  note o1 = only_trans[OF o0 only_st[OF pb, of 0]]
  note o = only_trans[OF o1[of "ld ?m0 (4096 * d + 4 * 0)"] only_st[OF pb, of 1 _ "ld ?m1 (4096 * d + 4 * 1)"]]
  have kd: "ld m (4096 * d + 4 * i) = of_nat (4096 * (k + i)) OR 3" if "only (memory s) m {p}" "i < 2" for m i
  proof -
    have "ld (memory s) (4096 * d + 4 * i) = of_nat (4096 * (k + i)) OR 3"
      using id[unfolded identity_mapped_def kernel_tables_def, folded d_def k_def, THEN conjunct1,
          rule_format, of i] that(2)
      by (simp only:) simp
    moreover have "ld m (4096 * d + 4 * i) = ld (memory s) (4096 * d + 4 * i)"
      using that(2) L p(2) by (intro ld_only[OF that(1)]) simp_all
    ultimately show ?thesis by (simp only:)
  qed
  have e0: "ld ?m0 (4096 * d + 4 * 0) = of_nat (4096 * (k + 0)) OR 3"
    and e1: "ld ?m1 (4096 * d + 4 * 1) = of_nat (4096 * (k + 1)) OR 3"
    by (rule kd[OF o0], simp, rule kd[OF o1], simp_all)
  have "ld ?m2 (4096 * p + 4 * i) = (if i < 2 then of_nat (4096 * (k + i)) OR 3 else 0)" if "i < 1024" for i
    unfolding fresh_dir[OF pb that] e1 unfolding e0
    by (cases "i = 0"; cases "i = 1") (simp_all del: of_nat_mult)
  then have "as_rep ?m2 k p Map.empty Map.empty" by (auto simp: as_rep_def)
  then have "aspace ?s p Map.empty Map.empty"
    using p L(3) by (simp add: aspace_def as_ok_def owned_def k_def kframe_def)
  moreover have s': "s' = touch (of_nat (4096 * p + 4 * 1)) 4 (touch (of_nat (4096 * p + 4 * 0)) 4 (touch (of_nat (4096 * p)) 4096 ?s))"
      and a: "a = of_nat (4096 * p)"
    using trans[OF cr[symmetric] run] by (simp_all only: prod.inject)
  ultimately have s'': "aspace s' p Map.empty Map.empty" "only (memory s) (memory s') {p}" "frames s' = q"
      "page_directory s' = page_directory s" "page_tables s' = page_tables s" "cr0 s' = cr0 s"
    using o by (simp_all del: of_nat_mult of_nat_add)
  have "p < 2048 \<longrightarrow> derailed s' = derailed s"
    unfolding s' using touch_frame[of p 0 4096] touch_frame[of p "4 * 0" 4] touch_frame[of p "4 * 1" 4]
    by (simp del: of_nat_mult of_nat_add)
  then have tr: "lowfree s \<le> lowfree s' + 1 \<and> (1 \<le> lowfree s \<longrightarrow> p < 2048 \<and> derailed s' = derailed s)"
    using lowfree_alloc[OF p(1,7,8) s''(3)] by blast
  have "a \<noteq> 0" "free_set (frames s) \<noteq> {}" using p(1,5) a by auto
  moreover have "free_set (frames s') = free_set (frames s) - {p}" using p(7) s''(3) by simp
  ultimately show ?thesis using p(1) a s'' tr by blast
qed

lemma as_rep_kernel: "as_rep m k p T P \<Longrightarrow> i < 2 \<Longrightarrow> ld m (4096 * p + 4 * i) = of_nat (4096 * (k + i)) OR 3"
  unfolding as_rep_def by blast

lemma aspace_bounds:
  assumes "aspace s p T P"
  shows "(owned p T P \<union> free_set (frames s)) \<inter> {..< 256} = {}" "kframe s + 2 \<le> 256"
  using assms by (auto simp: aspace_def as_ok_def pmm_inv_def)

section \<open>Ranges of pages\<close>

lemma unat_page_va:
  assumes "unat vb + 4096 * n \<le> 4294967296" "i < n"
  shows "unat (vb + of_nat i * PAGE_SIZE) = unat vb + 4096 * i"
proof -
  have "unat (of_nat i * PAGE_SIZE :: u32) = 4096 * i"
    using assms unat_of_nat_u32[of "4096 * i"] by (simp add: PAGE_SIZE_def mult.commute)
  then show ?thesis using assms by (subst unat_plus_u32) simp_all
qed

lemma page_in_range:
  assumes "4096 dvd unat vb" "unat vb + 4096 * n \<le> 4294967296"
  shows "page_of va \<in> (\<lambda>i. page_of (vb + of_nat i * PAGE_SIZE)) ` {0 ..< n} \<longleftrightarrow>
    unat vb \<le> unat va \<and> unat va < unat vb + 4096 * n"
proof -
  obtain b where b: "unat vb = 4096 * b" using assms(1) by auto
  have idx: "page_of va = page_of (vb + of_nat i * PAGE_SIZE) \<longleftrightarrow> unat va div 4096 = b + i" if "i < n" for i
    using unat_page_va[OF assms(2) that] unfolding page_of_eq_iff b by simp
  have "(\<exists>i < n. unat va div 4096 = b + i) \<longleftrightarrow> b \<le> unat va div 4096 \<and> unat va div 4096 < b + n"
    by (auto intro!: exI[of _ "unat va div 4096 - b"])
  also have "\<dots> \<longleftrightarrow> unat vb \<le> unat va \<and> unat va < unat vb + 4096 * n"
    using less_eq_div_iff_mult_less_eq[of 4096 b "unat va"] div_less_iff_less_mult[of 4096 "unat va" "b + n"]
    unfolding b by (simp add: algebra_simps)
  finally have "(\<exists>i < n. unat va div 4096 = b + i) \<longleftrightarrow> unat vb \<le> unat va \<and> unat va < unat vb + 4096 * n" .
  then show ?thesis using idx by (auto simp: image_iff)
qed

lemma distinct_pages:
  assumes "unat vb + 4096 * n \<le> 4294967296"
  shows "distinct (map (\<lambda>i. page_of (vb + of_nat i * PAGE_SIZE)) [0 ..< n])"
  unfolding distinct_map
proof (intro conjI inj_onI)
  fix i j
  assume "i \<in> set [0 ..< n]" "j \<in> set [0 ..< n]"
    "page_of (vb + of_nat i * PAGE_SIZE) = page_of (vb + of_nat j * PAGE_SIZE)"
  then show "i = j" using unat_page_va[OF assms] unfolding page_of_eq_iff by simp
qed simp

lemma translate_page: "as_rep m k p T P \<Longrightarrow> 0x800000 \<le> unat va \<Longrightarrow> translate m (of_nat (4096 * p)) va =
    (case P (page_of va) of None \<Rightarrow> None | Some f \<Rightarrow> Some (of_nat (4096 * f) + (va AND 0xFFF), True))"
  unfolding page_of_def by (rule translate_as_rep)

lemma as_grow_kernel_half:
  assumes "aspace s p T P" "as_grow p s T P s' T' P'" "unat va < 0x800000"
  shows "translate (memory s') (of_nat (4096 * p)) va = translate (memory s) (of_nat (4096 * p)) va"
proof (rule translate_kernel_half[OF as_rep_kernel as_rep_kernel])
  show "as_rep (memory s) (kframe s) p T P" using assms(1) by (simp add: aspace_def)
  show "as_rep (memory s') (kframe s) p T' P'"
    using assms(2) unfolding as_grow_def aspace_def kframe_def by metis
  show "only (memory s) (memory s') (owned p T P \<union> free_set (frames s))" by (rule as_grow_only[OF assms(2)])
qed (use aspace_bounds[OF assms(1)] assms(3) in auto)

text \<open>Two user addresses never share a byte of physical memory.\<close>

lemma kernel_half_not_user:
  assumes "as_rep m k p T P" "unat va < 0x800000"
  shows "translate m (of_nat (4096 * p)) va \<noteq> Some (x, True)"
proof -
  define i where "i = unat va div 4194304"
  have "i < 2" using assms(2) by (simp add: i_def less_mult_imp_div_less)
  then have pde: "get_entry m (of_nat (4096 * p)) (drop_bit 22 va) = of_nat (4096 * (k + i)) OR 3"
    using as_rep_kernel[OF assms(1)] unfolding va_index i_def[symmetric] get_entry_ld by blast
  show ?thesis unfolding translate_def Let_def pde kernel_entry(3)[of "k + i"] by simp
qed

lemma frame_offset_eq:
  assumes "f < 8192" "g < 8192" "of_nat (4096 * f) + (va AND 0xFFF) = of_nat (4096 * g) + (vc AND 0xFFF :: u32)"
  shows "f = g \<and> va AND 0xFFF = vc AND 0xFFF"
proof -
  have off: "unat (v AND 0xFFF :: u32) < 4096" for v
    using unat_and_mask[of v 12] by (simp add: mask12)
  have "unat (of_nat (4096 * h) + (v AND 0xFFF) :: u32) = 4096 * h + unat (v AND 0xFFF)" if "h < 8192" for h v
    using off[of v] unat_frame_addr[OF that] that by (subst unat_plus_u32) (simp_all del: of_nat_mult)
  then have eq: "4096 * f + unat (va AND 0xFFF) = 4096 * g + unat (vc AND 0xFFF)" using assms by metis
  then have "(4096 * f + unat (va AND 0xFFF)) div 4096 = (4096 * g + unat (vc AND 0xFFF)) div 4096" by simp
  then have "f = g" using off[of va] off[of vc] by simp
  then show ?thesis using eq by (simp add: word_unat_eq_iff)
qed

lemma translate_user_inj:
  assumes as: "aspace s p T P" and tr: "translate (memory s) (of_nat (4096 * p)) va = Some (x, True)"
    "translate (memory s) (of_nat (4096 * p)) vc = Some (x, True)"
  shows "va = vc"
proof -
  have rep: "as_rep (memory s) (kframe s) p T P" and ok: "as_ok p T P" using as by (simp_all add: aspace_def)
  have hi: "0x800000 \<le> unat va" "0x800000 \<le> unat vc"
    using kernel_half_not_user[OF rep] tr by (meson not_le)+
  obtain f g where f: "P (page_of va) = Some f" "x = of_nat (4096 * f) + (va AND 0xFFF)"
    and g: "P (page_of vc) = Some g" "x = of_nat (4096 * g) + (vc AND 0xFFF)"
    using tr translate_page[OF rep hi(1)] translate_page[OF rep hi(2)] by (auto split: option.splits)
  have "f \<in> ran P" "g \<in> ran P" using ranI[of P, OF f(1)] ranI[of P, OF g(1)] by simp_all
  then have b: "f < 8192" "g < 8192" using ok by (auto simp: as_ok_def owned_def)
  have e: "f = g" "va AND 0xFFF = vc AND 0xFFF" using frame_offset_eq[OF b] f(2) g(2) by metis+
  then have "page_of va = page_of vc" 
    using inj_onD[of P "dom P" "page_of va" "page_of vc"] f(1) g(1) ok by (simp add: as_ok_def domI)
  then have "unat va div 4096 = unat vc div 4096" by (simp add: page_of_eq_iff)
  then show ?thesis using e(2) va_split[of va] va_split[of vc] by metis
qed

section \<open>Properties of paging\<close>

text \<open>
  \<^verbatim>\<open>paging_init\<close> turns paging on with a directory under which exactly the first 8 MB are
  mapped, each address to itself and none of it open to ring 3.
\<close>
theorem paging_init_identity:
  assumes "kernel_layout s"
  shows "translate (memory (paging_init s)) (cr3 (paging_init s)) va =
      (if unat va < 0x800000 then Some (va, False) else None) \<and> bit (cr0 (paging_init s)) 31"
proof -
  obtain m where run: "paging_init s = s\<lparr>memory := m, cr3 := page_directory s, cr0 := cr0 s OR 0x80000000\<rparr>"
    and id: "identity_mapped (paging_init s)"
    using paging_init_spec[OF assms] by blast
  have "kernel_tables m (kdir s) (kframe s) 2"
    using id unfolding run identity_mapped_def by (simp add: kdir_def kframe_def)
  moreover have "page_directory s = of_nat (4096 * kdir s)"
    using assms by (simp add: kernel_layout_def kdir_def Let_def)
  moreover have "bit (cr0 s OR 0x80000000) 31" by (simp add: bit_or_iff bit_numeral_rec)
  ultimately show ?thesis using translate_identity by (simp add: run del: of_nat_mult)
qed

text \<open>A machine as the boot path leaves it before \<^verbatim>\<open>paging_init\<close>, for concrete instances.\<close>

definition mm0 :: mm where
  "mm0 = \<lparr>memory = (\<lambda>_. 0), frames = boot_pmm, cr0 = 1, cr3 = 0,
          page_directory = 0x10000, page_tables = 0x11000, derailed = False\<rparr>"

definition boot_mm :: mm where
  "boot_mm = paging_init mm0"

lemma mm0_layout: "kernel_layout mm0"
  by (simp add: kernel_layout_def mm0_def kframe_def Let_def)

theorem paging_init_identity_witness:
  "translate (memory boot_mm) (cr3 boot_mm) 0xB8000 = Some (0xB8000, False) \<and>
   translate (memory boot_mm) (cr3 boot_mm) 0x800000 = None"
  unfolding boot_mm_def
  using paging_init_identity[where va = "0xB8000", OF mm0_layout] paging_init_identity[where va = "0x800000", OF mm0_layout]
  by simp

lemma boot_mm: "kernel_layout boot_mm" "identity_mapped boot_mm" "pmm_inv (frames boot_mm)"
  "free_set (frames boot_mm) = {256 ..< 8192}" "\<not> derailed boot_mm" "lowfree boot_mm = 1792"
proof -
  obtain m where run: "boot_mm = mm0\<lparr>memory := m, cr3 := page_directory mm0, cr0 := cr0 mm0 OR 0x80000000\<rparr>"
    and id: "identity_mapped boot_mm"
    using paging_init_spec[OF mm0_layout] unfolding boot_mm_def by blast
  show "identity_mapped boot_mm" by (rule id)
  show "kernel_layout boot_mm" using mm0_layout by (simp add: kernel_layout_def run kframe_def)
  show fr: "pmm_inv (frames boot_mm)" "free_set (frames boot_mm) = {256 ..< 8192}"
    using boot_pmm by (simp_all add: run mm0_def)
  show "\<not> derailed boot_mm" by (simp add: run mm0_def)
  have "{256 ..< 8192} \<inter> {..< 2048} = {256 ..< 2048 :: nat}" by auto
  then show "lowfree boot_mm = 1792" by (simp add: lowfree_def fr(2))
qed

text \<open>
  \<^verbatim>\<open>paging_create_pd\<close> fails only when no frame is free; otherwise the new directory, in a
  frame taken from the free list, maps the first 8 MB exactly as the kernel does and
  nothing else, and memory outside that frame is untouched.
\<close>
theorem paging_create_pd_correct:
  assumes "kernel_layout s" "identity_mapped s" "pmm_inv (frames s)" "paging_create_pd s = (s', a)"
  shows "(a = 0 \<longleftrightarrow> free_set (frames s) = {}) \<and>
    (a \<noteq> 0 \<longrightarrow> unat a div 4096 \<in> free_set (frames s) \<and>
      free_set (frames s') = free_set (frames s) - {unat a div 4096} \<and> pmm_inv (frames s') \<and>
      only (memory s) (memory s') {unat a div 4096} \<and>
      (\<forall>va. translate (memory s') a va = (if unat va < 0x800000 then Some (va, False) else None)))"
proof (cases "a = 0")
  case True
  then show ?thesis using paging_create_pd_spec[OF assms] by blast
next
  case False
  obtain p where p: "p \<in> free_set (frames s)" "a = of_nat (4096 * p)" "aspace s' p Map.empty Map.empty"
      "free_set (frames s') = free_set (frames s) - {p}" "only (memory s) (memory s') {p}"
      "page_tables s' = page_tables s"
    using paging_create_pd_spec[OF assms] False by blast
  have pb: "p < 8192" "256 \<le> p" using p(1) assms(3) by (auto simp: free_set_def pmm_inv_def)
  have rep: "as_rep (memory s') (kframe s) p Map.empty Map.empty"
    using p(3,6) by (simp add: aspace_def kframe_def)
  have kt: "kernel_tables (memory s) (kdir s) (kframe s) 2" using assms(2) by (simp add: identity_mapped_def)
  have "translate (memory s') a va = (if unat va < 0x800000 then Some (va, False) else None)" for va
  proof (cases "unat va < 0x800000")
    case True
    have "translate (memory s') a va = translate (memory s) (of_nat (4096 * kdir s)) va"
      unfolding p(2)
    proof (rule translate_kernel_half[OF _ as_rep_kernel[OF rep] p(5)])
      show "ld (memory s) (4096 * kdir s + 4 * i) = of_nat (4096 * (kframe s + i)) OR 3" if "i < 2" for i
        using kt that by (simp add: kernel_tables_def del: of_nat_mult of_nat_add)
      show "kframe s + 2 \<le> 256" using assms(1) by (simp add: kernel_layout_def Let_def)
    qed (use pb True in auto)
    then show ?thesis using translate_identity[OF kt] True by simp
  qed (use translate_as_rep[OF rep] in \<open>simp add: p(2) del: of_nat_mult\<close>)
  moreover have "unat a div 4096 = p" unfolding p(2) unat_frame_addr[OF pb(1)] by simp
  ultimately show ?thesis using p False by (auto simp: aspace_def)
qed

theorem paging_create_pd_correct_witness:
  "snd (paging_create_pd boot_mm) \<noteq> 0 \<and>
   translate (memory (fst (paging_create_pd boot_mm))) (snd (paging_create_pd boot_mm)) 0xB8000 = Some (0xB8000, False)"
  using paging_create_pd_correct[OF boot_mm(1-3) prod.collapse[symmetric]] boot_mm(4) by simp

text \<open>
  C15. \<^verbatim>\<open>paging_alloc_user_pages\<close> on a well-formed address space, for an aligned range of
  unmapped pages above 8 MB. If its tables lie below 8 MB and two frames per page are free below 8 MB, every access
  stays inside the kernel's identity map and it returns 0. And unless an access faults: it returns 0 or -1, and 0 whenever two frames per page are
  free at all; on 0 every page of the range is mapped, open to ring 3, to a frame that was
  free; translation outside the range is unchanged on both outcomes; no two user addresses
  share physical memory; and no frame is lost: the frames of the address space and the
  free ones together stay the same set.
\<close>
theorem paging_alloc_user_pages_correct:
  assumes as: "aspace s p T P"
    and rng: "4096 dvd unat vb" "0x800000 \<le> unat vb" "unat vb + 4096 * unat n \<le> 4294967296"
    and new: "\<forall>va. unat vb \<le> unat va \<and> unat va < unat vb + 4096 * unat n \<longrightarrow>
      translate (memory s) (of_nat (4096 * p)) va = None"
    and run: "paging_alloc_user_pages (of_nat (4096 * p)) vb n s = (s', r)"
  shows "(insert p (ran T) \<subseteq> {..< 2048} \<and> 2 * unat n \<le> lowfree s \<and> \<not> derailed s \<longrightarrow> \<not> derailed s' \<and> r = 0) \<and>
   (\<not> derailed s' \<longrightarrow> (\<exists>T' P'. aspace s' p T' P' \<and>
    owned p T' P' \<union> free_set (frames s') = owned p T P \<union> free_set (frames s) \<and>
    (r = 0 \<or> r = -1) \<and> (2 * unat n \<le> card (free_set (frames s)) \<longrightarrow> r = 0) \<and>
    (\<forall>va. translate (memory s') (of_nat (4096 * p)) va =
      (if unat vb \<le> unat va \<and> unat va < unat vb + 4096 * unat n
       then map_option (\<lambda>f. (of_nat (4096 * f) + (va AND 0xFFF), True)) (P' (page_of va))
       else translate (memory s) (of_nat (4096 * p)) va)) \<and>
    (r = 0 \<longrightarrow> (\<forall>va. unat vb \<le> unat va \<and> unat va < unat vb + 4096 * unat n \<longrightarrow>
      (\<exists>f \<in> free_set (frames s). P' (page_of va) = Some f))) \<and>
    (\<forall>va vc x. translate (memory s') (of_nat (4096 * p)) va = Some (x, True) \<longrightarrow>
      translate (memory s') (of_nat (4096 * p)) vc = Some (x, True) \<longrightarrow> va = vc)))"
proof -
  let ?x = "\<lambda>i. page_of (vb + of_nat i * PAGE_SIZE)"
  let ?in = "\<lambda>va. unat vb \<le> unat va \<and> unat va < unat vb + 4096 * unat n"
  have rep: "as_rep (memory s) (kframe s) p T P" using as by (simp add: aspace_def)
  have va: "unat (vb + of_nat i * PAGE_SIZE) = unat vb + 4096 * i" if "i < unat n" for i
    by (rule unat_page_va[OF rng(3) that])
  have "P (?x i) = None" if "i < unat n" for i
    using new[rule_format, of "vb + of_nat i * PAGE_SIZE"] translate_page[OF rep, of "vb + of_nat i * PAGE_SIZE"]
      va[OF that] rng(2) that by (auto split: option.splits)
  then obtain T' P' where g: "as_grow p s T P s' T' P'" and r: "r = 0 \<or> r = -1"
    "2 * unat n \<le> card (free_set (frames s)) \<longrightarrow> r = 0"
    and k: "\<forall>x. x \<notin> ?x ` {0 ..< unat n} \<longrightarrow> P' x = P x"
    and h: "r = 0 \<longrightarrow> (\<forall>i \<in> {0 ..< unat n}. \<exists>f \<in> free_set (frames s). P' (?x i) = Some f)"
    and tr: "on_track (2 * unat n) p s T P s' T' P'"
    using alloc_user_pages_loop_spec[OF as run[unfolded paging_alloc_user_pages_def] _ _ distinct_pages[OF rng(3)]]
      va rng(2) by auto
  have rep': "as_rep (memory s') (kframe s') p T' P'" and as': "aspace s' p T' P'"
    using g by (simp_all add: as_grow_def aspace_def)
  have "translate (memory s') (of_nat (4096 * p)) va =
      (if ?in va then map_option (\<lambda>f. (of_nat (4096 * f) + (va AND 0xFFF), True)) (P' (page_of va))
       else translate (memory s) (of_nat (4096 * p)) va)" for va
  proof (cases "0x800000 \<le> unat va")
    case True
    then show ?thesis
      using k[rule_format, of "page_of va"] page_in_range[OF rng(1,3), of va] unfolding translate_page[OF rep True] translate_page[OF rep' True]
      by (auto split: option.splits)
  qed (use as_grow_kernel_half[OF as g] rng(2) in auto)
  moreover have "\<exists>f \<in> free_set (frames s). P' (page_of va) = Some f" if "r = 0" "?in va" for va
    using h that page_in_range[OF rng(1,3), of va] by auto
  ultimately have main: "\<exists>T' P'. aspace s' p T' P' \<and>
    owned p T' P' \<union> free_set (frames s') = owned p T P \<union> free_set (frames s) \<and>
    (r = 0 \<or> r = -1) \<and> (2 * unat n \<le> card (free_set (frames s)) \<longrightarrow> r = 0) \<and>
    (\<forall>va. translate (memory s') (of_nat (4096 * p)) va =
      (if ?in va then map_option (\<lambda>f. (of_nat (4096 * f) + (va AND 0xFFF), True)) (P' (page_of va))
       else translate (memory s) (of_nat (4096 * p)) va)) \<and>
    (r = 0 \<longrightarrow> (\<forall>va. ?in va \<longrightarrow> (\<exists>f \<in> free_set (frames s). P' (page_of va) = Some f))) \<and>
    (\<forall>va vc x. translate (memory s') (of_nat (4096 * p)) va = Some (x, True) \<longrightarrow>
      translate (memory s') (of_nat (4096 * p)) vc = Some (x, True) \<longrightarrow> va = vc)"
    using as' g r translate_user_inj[OF as'] unfolding as_grow_def by blast
  have "lowfree s \<le> card (free_set (frames s))" by (simp add: lowfree_le)
  then have "\<not> derailed s' \<and> r = 0" if "insert p (ran T) \<subseteq> {..< 2048}" "2 * unat n \<le> lowfree s" "\<not> derailed s"
    using that tr r(2) by (simp add: on_track_def)
  then show ?thesis using main by blast
qed

lemma alloc_user_pages_grow:
  assumes "aspace s p T P" "4096 dvd unat vb" "0x800000 \<le> unat vb" "unat vb + 4096 * unat n \<le> 4294967296"
    "\<And>i. i < unat n \<Longrightarrow> P (page_of (vb + of_nat i * PAGE_SIZE)) = None"
    "paging_alloc_user_pages (of_nat (4096 * p)) vb n s = (s', r)"
  obtains T' P' where "as_grow p s T P s' T' P'" "on_track (2 * unat n) p s T P s' T' P'"
  using alloc_user_pages_loop_spec[OF assms(1) assms(6)[unfolded paging_alloc_user_pages_def] _ _ distinct_pages[OF assms(4)]]
    unat_page_va[OF assms(4)] assms(3,5) by auto

lemma as_grow_others:
  assumes as: "aspace s p T P" and g: "as_grow p s T P s' T' P'" and q: "aspace s q U Q" and d: "owned p T P \<inter> owned q U Q = {}"
  shows "aspace s' q U Q \<and> owned p T' P' \<inter> owned q U Q = {} \<and>
    (\<forall>va. translate (memory s') (of_nat (4096 * q)) va = translate (memory s) (of_nat (4096 * q)) va)"
proof -
  note iso = as_grow_isolates[OF g q d]
  have "translate (memory s') (of_nat (4096 * q)) va = translate (memory s) (of_nat (4096 * q)) va" for va
  proof (cases "0x800000 \<le> unat va")
    case True
    have "as_rep (memory s') (kframe s') q U Q" "as_rep (memory s) (kframe s) q U Q"
      using iso q by (simp_all add: aspace_def)
    then show ?thesis using True by (simp add: translate_page del: of_nat_mult)
  next
    case False
    have "as_rep (memory s') (kframe s) q U Q"
      using iso g unfolding as_grow_def aspace_def kframe_def by metis
    moreover have "as_rep (memory s) (kframe s) q U Q" "only (memory s) (memory s') (owned p T P \<union> free_set (frames s))"
      using q as_grow_only[OF g] by (simp_all add: aspace_def)
    ultimately show ?thesis
      using aspace_bounds[OF as] False by (intro translate_kernel_half[OF as_rep_kernel as_rep_kernel]) auto
  qed
  then show ?thesis using iso by blast
qed

text \<open>A page directory fresh from \<^verbatim>\<open>paging_create_pd\<close> on the booted machine.\<close>

definition mm1 :: mm where
  "mm1 = fst (paging_create_pd boot_mm)"

lemma mm1:
  obtains p where "p \<in> {256 ..< 8192}" "snd (paging_create_pd boot_mm) = of_nat (4096 * p)"
    "aspace mm1 p Map.empty Map.empty" "free_set (frames mm1) = {256 ..< 8192} - {p}"
    "p < 2048" "\<not> derailed mm1" "1791 \<le> lowfree mm1" "cr0 mm1 = cr0 boot_mm"
proof -
  let ?a = "snd (paging_create_pd boot_mm)"
  have "paging_create_pd boot_mm = (mm1, ?a)" by (simp add: mm1_def)
  note c = paging_create_pd_spec[OF boot_mm(1-3) this, unfolded boot_mm(4,6)]
  then have "?a \<noteq> 0" by auto
  then obtain p where "p \<in> {256 ..< 8192}" "?a = of_nat (4096 * p)" "aspace mm1 p Map.empty Map.empty"
      "free_set (frames mm1) = {256 ..< 8192} - {p}" "cr0 mm1 = cr0 boot_mm" "1792 \<le> lowfree mm1 + 1"
      "1 \<le> (1792 :: nat) \<longrightarrow> p < 2048 \<and> derailed mm1 = derailed boot_mm"
    using c by blast
  then show thesis using boot_mm(5) by (intro that[of p]) simp_all
qed

theorem paging_alloc_user_pages_correct_witness:
  "let r = paging_alloc_user_pages (snd (paging_create_pd boot_mm)) 0x01000000 2 mm1 in \<not> derailed (fst r) \<and> snd r = 0"
proof -
  obtain p where p: "snd (paging_create_pd boot_mm) = of_nat (4096 * p)" "aspace mm1 p Map.empty Map.empty"
    "p < 2048" "\<not> derailed mm1" "1791 \<le> lowfree mm1"
    by (rule mm1)
  have "as_rep (memory mm1) (kframe mm1) p Map.empty Map.empty" using p(2) by (simp add: aspace_def)
  note tr = translate_page[OF this]
  have new: "\<forall>va. unat (0x01000000 :: u32) \<le> unat va \<and> unat va < unat (0x01000000 :: u32) + 4096 * unat (2 :: u32) \<longrightarrow>
      translate (memory mm1) (of_nat (4096 * p)) va = None"
    using tr by simp
  have rng: "4096 dvd unat (0x01000000 :: u32)" "0x800000 \<le> unat (0x01000000 :: u32)"
    "unat (0x01000000 :: u32) + 4096 * unat (2 :: u32) \<le> 4294967296" by simp_all
  show ?thesis
    unfolding p(1) Let_def using p paging_alloc_user_pages_correct[OF p(2) rng new prod.collapse[symmetric]]
    by (simp del: of_nat_mult)
qed

text \<open>
  C16. Address spaces are isolated: mapping an aligned range of unmapped pages above 8 MB into one address space, unless an access
  faults, leaves the translation of every address in any other address space as it was, keeps that one well
  formed, and the two still share no frame.
\<close>
theorem address_space_isolation:
  assumes "aspace s p T P" "aspace s q U Q" "owned p T P \<inter> owned q U Q = {}"
    and "4096 dvd unat vb" "0x800000 \<le> unat vb" "unat vb + 4096 * unat n \<le> 4294967296"
    and "\<forall>va. unat vb \<le> unat va \<and> unat va < unat vb + 4096 * unat n \<longrightarrow>
      translate (memory s) (of_nat (4096 * p)) va = None"
    and "paging_alloc_user_pages (of_nat (4096 * p)) vb n s = (s', r)" "\<not> derailed s'"
  shows "aspace s' q U Q \<and> (\<forall>va. translate (memory s') (of_nat (4096 * q)) va = translate (memory s) (of_nat (4096 * q)) va) \<and>
    (\<exists>T' P'. aspace s' p T' P' \<and> owned p T' P' \<inter> owned q U Q = {})"
proof -
  have rep: "as_rep (memory s) (kframe s) p T P" using assms(1) by (simp add: aspace_def)
  have "P (page_of (vb + of_nat i * PAGE_SIZE)) = None" if "i < unat n" for i
    using assms(7)[rule_format, of "vb + of_nat i * PAGE_SIZE"] unat_page_va[OF assms(6) that] assms(5) that
      translate_page[OF rep, of "vb + of_nat i * PAGE_SIZE"] by (auto split: option.splits)
  then obtain T' P' where g: "as_grow p s T P s' T' P'"
    using alloc_user_pages_grow[OF assms(1,4-6) _ assms(8)] by blast
  then show ?thesis using as_grow_others[OF assms(1) g assms(2,3)] unfolding as_grow_def by blast
qed

lemma kernel_tables_only:
  assumes "kernel_tables m d k 2" "only m m' W" "W \<inter> {..< 256} = {}" "d < 256" "k + 2 \<le> 256"
  shows "kernel_tables m' d k 2"
proof -
  have "ld m' (4096 * q + 4 * j) = ld m (4096 * q + 4 * j)" if "q < 256" "j < 1024" for q j
    using that assms(3) by (intro ld_only[OF assms(2)]) auto
  then have "ld m' (4096 * d + 4 * j) = ld m (4096 * d + 4 * j)"
      "t < 2 \<Longrightarrow> ld m' (4096 * (k + t) + 4 * j) = ld m (4096 * (k + t) + 4 * j)" if "j < 1024" for t j
    using that assms(4,5) by (blast, simp only: add_strict_left_mono)
  then show ?thesis using assms(1) unfolding kernel_tables_def by metis
qed

lemma create_pd_keeps:
  assumes "kernel_layout s" "identity_mapped s" "pmm_inv (frames s)" "paging_create_pd s = (s', a)" "a \<noteq> 0"
    and q: "aspace s q U Q"
  obtains p where "a = of_nat (4096 * p)" "aspace s' p Map.empty Map.empty" "aspace s' q U Q"
    "p \<notin> owned q U Q" "p \<in> free_set (frames s)" "free_set (frames s') = free_set (frames s) - {p}"
    "kernel_layout s'" "identity_mapped s'" "lowfree s \<le> lowfree s' + 1" "1 \<le> lowfree s \<longrightarrow> p < 2048 \<and> derailed s' = derailed s"
proof -
  obtain p where p: "p \<in> free_set (frames s)" "a = of_nat (4096 * p)" "aspace s' p Map.empty Map.empty"
      "free_set (frames s') = free_set (frames s) - {p}" "only (memory s) (memory s') {p}"
      "page_directory s' = page_directory s" "page_tables s' = page_tables s"
      "lowfree s \<le> lowfree s' + 1" "1 \<le> lowfree s \<longrightarrow> p < 2048 \<and> derailed s' = derailed s"
    using paging_create_pd_spec[OF assms(1-4)] assms(5) by blast
  have k: "kframe s' = kframe s" "kdir s' = kdir s" using p(6,7) by (simp_all add: kframe_def kdir_def)
  have np: "p \<notin> owned q U Q" "256 \<le> p" using q p(1) by (auto simp: aspace_def pmm_inv_def)
  have "as_rep (memory s') (kframe s) q U Q"
  proof (rule as_rep_only[OF _ p(5)])
    show "as_rep (memory s) (kframe s) q U Q" using q by (simp add: aspace_def)
    show "insert q (ran U) \<subseteq> {256 ..< 8192}" using q as_ok_bounds[of q U Q] by (simp add: aspace_def)
    show "insert q (ran U) \<inter> {p} = {}" using np by (auto simp: owned_def)
  qed
  then have "aspace s' q U Q"
    using q p(3,4) k(1) unfolding aspace_def by auto
  moreover have "kernel_layout s'" using assms(1) p(6,7) by (simp add: kernel_layout_def kframe_def)
  moreover have "identity_mapped s'"
    using assms(1,2) np(2) unfolding identity_mapped_def k
    by (intro kernel_tables_only[OF _ p(5)]) (auto simp: kernel_layout_def kdir_def Let_def)
  ultimately show thesis using that p np by blast
qed

theorem address_space_isolation_witness:
  "\<exists>p q s. p \<noteq> q \<and> aspace s p Map.empty Map.empty \<and> aspace s q Map.empty Map.empty \<and>
     aspace (fst (paging_alloc_user_pages (of_nat (4096 * p)) 0x01000000 2 s)) q Map.empty Map.empty"
proof -
  obtain q where q: "q \<in> {256 ..< 8192}" "aspace mm1 q Map.empty Map.empty" "free_set (frames mm1) = {256 ..< 8192} - {q}"
      "\<not> derailed mm1" "1791 \<le> lowfree mm1"
    by (rule mm1)
  have cr: "paging_create_pd boot_mm = (mm1, snd (paging_create_pd boot_mm))" by (simp add: mm1_def)
  have "snd (paging_create_pd boot_mm) \<noteq> 0" using paging_create_pd_spec[OF boot_mm(1-3) cr] boot_mm(4) by auto
  then have lay: "kernel_layout mm1" "identity_mapped mm1" "pmm_inv (frames mm1)"
  proof -
    obtain p where "p \<in> free_set (frames boot_mm)" "only (memory boot_mm) (memory mm1) {p}"
        "page_directory mm1 = page_directory boot_mm" "page_tables mm1 = page_tables boot_mm"
      using paging_create_pd_spec[OF boot_mm(1-3) cr] \<open>snd (paging_create_pd boot_mm) \<noteq> 0\<close> by blast
    then show "kernel_layout mm1" "identity_mapped mm1"
      using boot_mm kernel_tables_only[of "memory boot_mm" _ _ "memory mm1" "{p}"]
      by (auto simp: kernel_layout_def kframe_def identity_mapped_def kdir_def Let_def)
  qed (use q(2) in \<open>simp add: aspace_def\<close>)
  have c: "2 \<le> card (free_set (frames mm1))" unfolding q(3) using q(1) by (simp add: card_Diff_singleton)
  have "free_set (frames mm1) \<noteq> {}" using c by auto
  then have "snd (paging_create_pd mm1) \<noteq> 0" using paging_create_pd_spec[OF lay prod.collapse[symmetric]] by blast
  then obtain p where p: "aspace (fst (paging_create_pd mm1)) p Map.empty Map.empty"
      "aspace (fst (paging_create_pd mm1)) q Map.empty Map.empty" "p \<notin> owned q Map.empty Map.empty"
      "lowfree mm1 \<le> lowfree (fst (paging_create_pd mm1)) + 1" "1 \<le> lowfree mm1 \<longrightarrow> p < 2048 \<and> derailed (fst (paging_create_pd mm1)) = derailed mm1"
    using create_pd_keeps[OF lay prod.collapse[symmetric] _ q(2)] by metis
  define s where "s = fst (paging_create_pd mm1)"
  have rep: "as_rep (memory s) (kframe s) p Map.empty Map.empty" using p(1) by (simp add: aspace_def s_def)
  have s: "p < 2048" "\<not> derailed s" "4 \<le> lowfree s" using p(4,5) q(4,5) by (simp_all add: s_def)
  let ?s' = "fst (paging_alloc_user_pages (of_nat (4096 * p)) 0x01000000 2 s)"
  have "\<exists>T' P'. on_track (2 * unat (2 :: u32)) p s Map.empty Map.empty ?s' T' P'"
  proof -
    have a: "4096 dvd unat (0x01000000 :: u32)" "0x800000 \<le> unat (0x01000000 :: u32)"
        "unat (0x01000000 :: u32) + 4096 * unat (2 :: u32) \<le> 4294967296" by simp_all
    obtain T' P' where "on_track (2 * unat (2 :: u32)) p s Map.empty Map.empty ?s' T' P'"
      by (rule alloc_user_pages_grow[OF p(1)[folded s_def] a _ prod.collapse[symmetric]]) simp_all
    then show ?thesis by blast
  qed
  then have "\<not> derailed ?s'" using s by (auto simp: on_track_def simp del: of_nat_mult)
  then have "aspace (fst (paging_alloc_user_pages (of_nat (4096 * p)) 0x01000000 2 s)) q Map.empty Map.empty"
    using address_space_isolation[OF p(1,2)[folded s_def] _ _ _ _ _ prod.collapse[symmetric], of "0x01000000" 2]
      p(3) translate_page[OF rep] by (simp add: owned_def del: of_nat_mult)
  moreover have "p \<noteq> q" using p(3) by (auto simp: owned_def)
  ultimately show ?thesis using p(1,2) unfolding s_def by blast
qed

text \<open>
  C17. Destroying an address space gives back everything it took: creating a page
  directory, mapping an aligned range of pages above 8 MB into it (with success or failure) and destroying it restores
  the set of free frames and the free count and keeps the physical memory manager's invariant, unless an access faults; and none does
  when two frames per page and one more are free below 8 MB.
\<close>
theorem address_space_lifecycle:
  assumes "kernel_layout s" "identity_mapped s" "pmm_inv (frames s)" "\<not> derailed s"
    and "paging_create_pd s = (s1, pd)" "pd \<noteq> 0"
    and "4096 dvd unat vb" "0x800000 \<le> unat vb" "unat vb + 4096 * unat n \<le> 4294967296"
    and "paging_alloc_user_pages pd vb n s1 = (s2, r)" "paging_destroy_pd pd s2 = s3"
  shows "(2 * unat n + 1 \<le> lowfree s \<longrightarrow> \<not> derailed s3) \<and>
    (\<not> derailed s3 \<longrightarrow> free_set (frames s3) = free_set (frames s) \<and>
      pmm_free_frames (frames s3) = pmm_free_frames (frames s) \<and> pmm_inv (frames s3) \<and> memory s3 = memory s2)"
proof -
  obtain p where p: "p \<in> free_set (frames s)" "pd = of_nat (4096 * p)" "aspace s1 p Map.empty Map.empty"
      "free_set (frames s1) = free_set (frames s) - {p}" "lowfree s \<le> lowfree s1 + 1"
      "1 \<le> lowfree s \<longrightarrow> p < 2048 \<and> derailed s1 = derailed s"
    using paging_create_pd_spec[OF assms(1-3,5)] assms(6) by blast
  obtain T P where g: "as_grow p s1 Map.empty Map.empty s2 T P" and tr: "on_track (2 * unat n) p s1 Map.empty Map.empty s2 T P"
    using alloc_user_pages_grow[OF p(3) assms(7-9) _ assms(10)[unfolded p(2)]] by auto
  have as2: "aspace s2 p T P" using g by (simp add: as_grow_def)
  have "owned p T P \<union> free_set (frames s2) = free_set (frames s)"
    using g p(1,4) by (auto simp: as_grow_def owned_def)
  moreover have "released s2 (owned p T P) s3"
    using paging_destroy_pd_spec[OF as2] assms(11) p(2) by simp
  ultimately have "free_set (frames s3) = free_set (frames s)" "pmm_inv (frames s3)" "memory s3 = memory s2"
    by (auto simp: released_def)
  moreover have "\<not> derailed s3" if "2 * unat n + 1 \<le> lowfree s"
  proof -
    have "2 * unat n \<le> lowfree s1" "p < 2048" "\<not> derailed s1" using that p(5,6) assms(4) by simp_all
    then have "insert p (ran T) \<subseteq> {..< 2048}" "\<not> derailed s2" using tr by (simp_all add: on_track_def)
    then show ?thesis using destroy_pd_on_track[OF as2] assms(11) p(2) by simp
  qed
  ultimately show ?thesis
    using assms(3) by (simp add: pmm_free_frames_def pmm_inv_def counted_def word_unat_eq_iff)
qed

theorem address_space_lifecycle_witness:
  "let s = paging_destroy_pd (snd (paging_create_pd boot_mm))
     (fst (paging_alloc_user_pages (snd (paging_create_pd boot_mm)) 0x01000000 800 mm1))
   in \<not> derailed s \<and> free_set (frames s) = {256 ..< 8192}"
proof -
  have cr: "paging_create_pd boot_mm = (mm1, snd (paging_create_pd boot_mm))" by (simp add: mm1_def)
  have "snd (paging_create_pd boot_mm) \<noteq> 0" using paging_create_pd_spec[OF boot_mm(1-3) cr] boot_mm(4) by auto
  from address_space_lifecycle[OF boot_mm(1-3,5) cr this _ _ _ prod.collapse[symmetric] refl, of "0x01000000" 800]
  show ?thesis using boot_mm(4,6) by (simp add: Let_def)
qed

end
