(* ===== verification/Descriptors.thy ===== *)
theory Descriptors
  imports Prelude
begin

text \<open>
  The processor tables: \<^verbatim>\<open>kernel/gdt.c\<close>, \<^verbatim>\<open>kernel/tss.c\<close>, \<^verbatim>\<open>kernel/idt.c\<close> and the gate that
  \<^verbatim>\<open>kernel/syscall.c\<close> installs. Descriptors are packed bit fields; the decoders
  are what the processor reads from them. The link-time addresses of the tables and of the
  assembly stubs are fields of the state and arguments.
\<close>

section \<open>The code\<close>

record gdt_entry =
  limit_low :: u16
  base_low :: u16
  base_mid :: u8
  access :: u8
  flags_limit_high :: u8
  base_high :: u8

record idt_entry =
  offset_low :: u16
  selector :: u16
  zero :: u8
  type_attr :: u8
  offset_high :: u16

record tss =
  prev_tss :: u32
  esp0 :: u32
  ss0 :: u32
  esp1 :: u32
  ss1 :: u32
  esp2 :: u32
  ss2 :: u32
  tss_cr3 :: u32
  tss_eip :: u32
  tss_eflags :: u32
  tss_regs :: "u32 list"
  tss_segs :: "u32 list"
  ldt :: u32
  trap :: u16
  iomap_base :: u16

text \<open>
  The tables of the three files, their addresses, and the processor registers that
  \<^verbatim>\<open>lgdt\<close>, \<^verbatim>\<open>lidt\<close>, \<^verbatim>\<open>ltr\<close> and the segment loads set (limit and base for the table registers).
\<close>

record cpu_tables =
  gdt_table :: "gdt_entry list"
  gdt_addr :: u32
  idt_table :: "idt_entry list"
  idt_addr :: u32
  tss :: tss
  tss_addr :: u32
  gdtr :: "u16 \<times> u32"
  idtr :: "u16 \<times> u32"
  tr :: u16
  cs :: u16
  data_segs :: "u16 list"

definition GDT_SEL_KCODE :: u16 where [kconst]: "GDT_SEL_KCODE = 0x08"
definition GDT_SEL_KDATA :: u16 where [kconst]: "GDT_SEL_KDATA = 0x10"
definition GDT_SEL_TSS :: u16 where [kconst]: "GDT_SEL_TSS = 0x28"
definition IDT_INTERRUPT_GATE :: u8 where [kconst]: "IDT_INTERRUPT_GATE = 0x8E"
definition IDT_SYSCALL_GATE :: u8 where [kconst]: "IDT_SYSCALL_GATE = 0xEE"

definition zero_tss :: tss where
  "zero_tss = \<lparr>prev_tss = 0, esp0 = 0, ss0 = 0, esp1 = 0, ss1 = 0, esp2 = 0, ss2 = 0, tss_cr3 = 0,
     tss_eip = 0, tss_eflags = 0, tss_regs = replicate 8 0, tss_segs = replicate 6 0, ldt = 0,
     trap = 0, iomap_base = 0\<rparr>"

definition tss_init :: "u32 \<Rightarrow> cpu_tables \<Rightarrow> cpu_tables" where
  "tss_init kernel_esp s =
     s\<lparr>tss := zero_tss\<lparr>ss0 := ucast GDT_SEL_KDATA, esp0 := kernel_esp, iomap_base := 104\<rparr>\<rparr>"

definition tss_flush :: "cpu_tables \<Rightarrow> cpu_tables" where
  "tss_flush s = s\<lparr>tr := GDT_SEL_TSS\<rparr>"

definition tss_set_kernel_stack :: "u32 \<Rightarrow> cpu_tables \<Rightarrow> cpu_tables" where
  "tss_set_kernel_stack esp s = s\<lparr>tss := (tss s)\<lparr>esp0 := esp\<rparr>\<rparr>"

definition tss_get_base :: "cpu_tables \<Rightarrow> u32" where "tss_get_base s = tss_addr s"
definition tss_get_limit :: u32 where "tss_get_limit = 104 - 1"

definition gdt_entry_of :: "u32 \<Rightarrow> u32 \<Rightarrow> u8 \<Rightarrow> u8 \<Rightarrow> gdt_entry" where
  "gdt_entry_of base limit acc flags =
     \<lparr>limit_low = ucast (limit AND 0xFFFF),
      base_low = ucast (base AND 0xFFFF),
      base_mid = ucast (drop_bit 16 base AND 0xFF),
      access = acc,
      flags_limit_high = ucast (drop_bit 16 limit AND 0x0F) OR (flags AND 0xF0),
      base_high = ucast (drop_bit 24 base AND 0xFF)\<rparr>"

definition gdt_set_entry :: "nat \<Rightarrow> u32 \<Rightarrow> u32 \<Rightarrow> u8 \<Rightarrow> u8 \<Rightarrow> cpu_tables \<Rightarrow> cpu_tables" where
  "gdt_set_entry idx base limit acc flags s =
     s\<lparr>gdt_table := (gdt_table s)[idx := gdt_entry_of base limit acc flags]\<rparr>"

definition gdt_init :: "cpu_tables \<Rightarrow> cpu_tables" where
  "gdt_init s =
     (let s = gdt_set_entry 0 0 0 0x00 0x00 s;
          s = gdt_set_entry 1 0 0xFFFFF 0x9A 0xCF s;
          s = gdt_set_entry 2 0 0xFFFFF 0x92 0xCF s;
          s = gdt_set_entry 3 0 0xFFFFF 0xFA 0xCF s;
          s = gdt_set_entry 4 0 0xFFFFF 0xF2 0xCF s;
          s = gdt_set_entry 5 (tss_get_base s) tss_get_limit 0x89 0x00 s
      in s\<lparr>gdtr := (8 * 6 - 1, gdt_addr s), data_segs := replicate 5 0x10, cs := 0x08\<rparr>)"

definition idt_set_gate :: "u8 \<Rightarrow> u32 \<Rightarrow> u16 \<Rightarrow> u8 \<Rightarrow> cpu_tables \<Rightarrow> cpu_tables" where
  "idt_set_gate vector handler sel attr s =
     s\<lparr>idt_table := (idt_table s)[unat vector :=
        \<lparr>offset_low = ucast (handler AND 0xFFFF), selector = sel, zero = 0, type_attr = attr,
         offset_high = ucast (drop_bit 16 handler AND 0xFFFF)\<rparr>]\<rparr>"

text \<open>
  \<open>isr\<close> and \<open>irq\<close> are the addresses of the stubs of \<^verbatim>\<open>isr.asm\<close>; the two macro expansions
  \<^verbatim>\<open>GATE(0) .. GATE(19)\<close> and \<^verbatim>\<open>IRQGATE(0) .. IRQGATE(15)\<close> run in this order.
\<close>

definition idt_init :: "(nat \<Rightarrow> u32) \<Rightarrow> (nat \<Rightarrow> u32) \<Rightarrow> cpu_tables \<Rightarrow> cpu_tables" where
  "idt_init isr irq s =
     (let s = fold (\<lambda>n. idt_set_gate (of_nat n) (isr n) 0x08 IDT_INTERRUPT_GATE) [0 ..< 20] s;
          s = fold (\<lambda>n. idt_set_gate (of_nat (32 + n)) (irq n) 0x08 IDT_INTERRUPT_GATE) [0 ..< 16] s
      in s\<lparr>idtr := (256 * 8 - 1, idt_addr s)\<rparr>)"

definition syscall_init :: "u32 \<Rightarrow> cpu_tables \<Rightarrow> cpu_tables" where
  "syscall_init isr_syscall s = idt_set_gate 0x80 isr_syscall 0x08 IDT_SYSCALL_GATE s"

section \<open>What the processor decodes\<close>

definition desc_base :: "gdt_entry \<Rightarrow> u32" where
  "desc_base e = ucast (base_low e) OR push_bit 16 (ucast (base_mid e)) OR push_bit 24 (ucast (base_high e))"

definition desc_limit :: "gdt_entry \<Rightarrow> u32" where
  "desc_limit e = ucast (limit_low e) OR push_bit 16 (ucast (flags_limit_high e AND 0x0F))"

definition desc_dpl :: "u8 \<Rightarrow> u8" where
  "desc_dpl a = drop_bit 5 a AND 3"

definition gate_offset :: "idt_entry \<Rightarrow> u32" where
  "gate_offset g = ucast (offset_low g) OR push_bit 16 (ucast (offset_high g))"

text \<open>A ring-3 \<^verbatim>\<open>int n\<close> is admitted by a present gate whose DPL is 3.\<close>

definition user_gate :: "idt_entry \<Rightarrow> bool" where
  "user_gate g \<longleftrightarrow> bit (type_attr g) 7 \<and> desc_dpl (type_attr g) = 3"

definition kernel_gate :: "u32 \<Rightarrow> idt_entry \<Rightarrow> bool" where
  "kernel_gate handler g \<longleftrightarrow> bit (type_attr g) 7 \<and> desc_dpl (type_attr g) = 0 \<and>
     gate_offset g = handler \<and> selector g = GDT_SEL_KCODE"

lemma desc_base_encode: "desc_base (gdt_entry_of base limit acc flags) = base"
proof (rule bit_word_eqI)
  fix n assume "n < LENGTH(32)"
  then consider "n < 16" | "16 \<le> n" "n < 24" | "24 \<le> n" "n < 32" by fastforce
  then show "bit (desc_base (gdt_entry_of base limit acc flags)) n = bit base n"
    unfolding desc_base_def gdt_entry_of_def
    by cases (auto simp: bit_simps bit_masks simp del: bit_numeral_word_iff)
qed

lemma bit_F0_u8: "bit (0xF0 :: u8) n \<longleftrightarrow> 4 \<le> n \<and> n < 8"
proof -
  have "(0xF0 :: u8) = push_bit 4 (mask 4)" by (simp add: mask_eq_exp_minus_1)
  then have "bit (0xF0 :: u8) n = bit (push_bit 4 (mask 4 :: u8)) n" by (rule arg_cong)
  also have "\<dots> \<longleftrightarrow> 4 \<le> n \<and> n < 8" unfolding bit_push_bit_iff bit_mask_iff by auto
  finally show ?thesis .
qed

lemma desc_limit_encode: "desc_limit (gdt_entry_of base limit acc flags) = limit AND 0xFFFFF"
proof (rule bit_word_eqI)
  fix n assume "n < LENGTH(32)"
  then consider "n < 16" | "16 \<le> n" "n < 20" | "20 \<le> n" "n < 32" by fastforce
  then show "bit (desc_limit (gdt_entry_of base limit acc flags)) n = bit (limit AND 0xFFFFF) n"
    unfolding desc_limit_def gdt_entry_of_def
    by cases (auto simp: bit_simps bit_masks bit_F0_u8 simp del: bit_numeral_word_iff)
qed

lemma gate_offset_encode:
  "gate_offset \<lparr>offset_low = ucast (h AND 0xFFFF), selector = c, zero = z, type_attr = t,
     offset_high = ucast (drop_bit 16 h AND 0xFFFF)\<rparr> = h"
proof (rule bit_word_eqI)
  fix n assume "n < LENGTH(32)"
  then consider "n < 16" | "16 \<le> n" "n < 32" by fastforce
  then show "bit (gate_offset \<lparr>offset_low = ucast (h AND 0xFFFF), selector = c, zero = z, type_attr = t,
      offset_high = ucast (drop_bit 16 h AND 0xFFFF)\<rparr>) n = bit h n"
    unfolding gate_offset_def by cases (auto simp: bit_simps bit_masks simp del: bit_numeral_word_iff)
qed

section \<open>The installed tables\<close>

lemma gdt_init_table:
  assumes "length (gdt_table s) = 6"
  shows "gdt_table (gdt_init s) = [gdt_entry_of 0 0 0 0, gdt_entry_of 0 0xFFFFF 0x9A 0xCF,
      gdt_entry_of 0 0xFFFFF 0x92 0xCF, gdt_entry_of 0 0xFFFFF 0xFA 0xCF, gdt_entry_of 0 0xFFFFF 0xF2 0xCF,
      gdt_entry_of (tss_addr s) 103 0x89 0]"
  using assms unfolding gdt_init_def gdt_set_entry_def tss_get_base_def tss_get_limit_def
  by (simp add: Let_def eval_nat_numeral length_Suc_conv) (auto simp: eval_nat_numeral length_Suc_conv)

text \<open>
  After \<^verbatim>\<open>gdt_init\<close> the processor decodes the table as intended: a null descriptor, flat
  4 GB code and data segments for ring 0 and for ring 3, and a descriptor that points at the
  whole task state segment; the table register covers exactly these six entries.
\<close>
theorem gdt_init_segments:
  assumes "length (gdt_table s) = 6"
  shows "let t = gdt_table (gdt_init s) in
    desc_base (t ! 0) = 0 \<and> desc_limit (t ! 0) = 0 \<and> access (t ! 0) = 0 \<and>
    (\<forall>i \<in> {1, 2, 3, 4}. desc_base (t ! i) = 0 \<and> desc_limit (t ! i) = 0xFFFFF \<and>
       desc_dpl (access (t ! i)) = (if i < 3 then 0 else 3)) \<and>
    desc_base (t ! 5) = tss_addr s \<and> desc_limit (t ! 5) = 103 \<and> access (t ! 5) = 0x89 \<and>
    gdtr (gdt_init s) = (47, gdt_addr s)"
proof -
  note t = gdt_init_table[OF assms]
  have acc: "access (gdt_entry_of b l a f) = a" for b l a f by (simp add: gdt_entry_of_def)
  have "gdtr (gdt_init s) = (47, gdt_addr s)"
    by (simp add: gdt_init_def gdt_set_entry_def Let_def)
  then show ?thesis
    unfolding Let_def t by (simp add: desc_base_encode desc_limit_encode acc desc_dpl_def)
qed

definition boot_cpu :: cpu_tables where
  "boot_cpu = \<lparr>gdt_table = replicate 6 (gdt_entry_of 0 0 0 0), gdt_addr = 0x6000,
     idt_table = replicate 256 \<lparr>offset_low = 0, selector = 0, zero = 0, type_attr = 0, offset_high = 0\<rparr>,
     idt_addr = 0x7000, tss = zero_tss, tss_addr = 0x8000, gdtr = (0, 0), idtr = (0, 0), tr = 0, cs = 8,
     data_segs = replicate 5 16\<rparr>"

theorem gdt_init_segments_witness:
  "desc_base (gdt_table (gdt_init boot_cpu) ! 5) = 0x8000 \<and> desc_dpl (access (gdt_table (gdt_init boot_cpu) ! 3)) = 3"
  using gdt_init_segments[of boot_cpu] by (simp add: boot_cpu_def Let_def)

definition gate :: "u32 \<Rightarrow> u8 \<Rightarrow> idt_entry" where
  "gate h attr = \<lparr>offset_low = ucast (h AND 0xFFFF), selector = 0x08, zero = 0, type_attr = attr,
     offset_high = ucast (drop_bit 16 h AND 0xFFFF)\<rparr>"

lemma idt_set_gate_table:
  "idt_table (idt_set_gate v h 0x08 attr s) = (idt_table s)[unat v := gate h attr]"
  by (simp add: idt_set_gate_def gate_def)

lemma gates_fold:
  assumes "length (idt_table s) = 256" "b + n \<le> 256"
  shows "length (idt_table (fold (\<lambda>k. idt_set_gate (of_nat (b + k)) (h k) 0x08 attr) [0 ..< n] s)) = 256 \<and>
    (\<forall>v < 256. idt_table (fold (\<lambda>k. idt_set_gate (of_nat (b + k)) (h k) 0x08 attr) [0 ..< n] s) ! v =
      (if b \<le> v \<and> v < b + n then gate (h (v - b)) attr else idt_table s ! v))"
  using assms(2)
proof (induction n)
  case (Suc n)
  have "unat (of_nat (b + n) :: u8) = b + n" 
    using Suc.prems by (simp add: unat_of_nat take_bit_eq_mod del: of_nat_add)
  then show ?case
    using Suc by (auto simp: idt_set_gate_table nth_list_update less_Suc_eq simp del: of_nat_add)
qed (use assms(1) in auto)

lemma gate_decode: "gate_offset (gate h attr) = h" "type_attr (gate h attr) = attr" "selector (gate h attr) = 0x08"
  using gate_offset_encode[of h "0x08" 0 attr] by (simp_all add: gate_def)

lemma installed_gates:
  fixes s :: cpu_tables and v :: nat and sc :: u32 and isr irq :: "nat \<Rightarrow> u32"
  assumes "length (idt_table s) = 256" "v < 256"
  shows "idt_table (syscall_init sc (idt_init isr irq s)) ! v =
    (if v = 128 then gate sc IDT_SYSCALL_GATE else if v < 20 then gate (isr v) IDT_INTERRUPT_GATE
     else if 32 \<le> v \<and> v < 48 then gate (irq (v - 32)) IDT_INTERRUPT_GATE else idt_table s ! v)"
proof -
  let ?s1 = "fold (\<lambda>n. idt_set_gate (of_nat (0 + n)) (isr n) 0x08 IDT_INTERRUPT_GATE) [0 ..< 20] s"
  let ?s2 = "fold (\<lambda>n. idt_set_gate (of_nat (32 + n)) (irq n) 0x08 IDT_INTERRUPT_GATE) [0 ..< 16] ?s1"
  have g1: "length (idt_table ?s1) = 256" "idt_table ?s1 ! v = (if v < 20 then gate (isr v) IDT_INTERRUPT_GATE else idt_table s ! v)"
    using gates_fold[OF assms(1), of 0 20] assms(2) by simp_all
  have g2: "length (idt_table ?s2) = 256"
    "idt_table ?s2 ! v = (if 32 \<le> v \<and> v < 48 then gate (irq (v - 32)) IDT_INTERRUPT_GATE else idt_table ?s1 ! v)"
    using gates_fold[OF g1(1), of 32 16] assms(2) by simp_all
  have "idt_table (syscall_init sc (idt_init isr irq s)) = (idt_table ?s2)[128 := gate sc IDT_SYSCALL_GATE]"
    unfolding syscall_init_def idt_init_def by (simp add: Let_def idt_set_gate_table)
  then show ?thesis using g1(2) g2 assms(2) by (simp add: nth_list_update)
qed

text \<open>
  After \<^verbatim>\<open>idt_init\<close> and \<^verbatim>\<open>syscall_init\<close> on the zeroed table, vectors 0-19 and 32-47 are present
  ring-0 gates whose decoded offset is the stub of that exception or interrupt line,
  vector 0x80 leads to the system-call stub, no other vector is present, and 0x80 is the only
  one a ring-3 program may raise.
\<close>
theorem idt_gates_correct:
  fixes s :: cpu_tables and v :: nat and sc :: u32 and isr irq :: "nat \<Rightarrow> u32"
  assumes "length (idt_table s) = 256" "\<forall>g \<in> set (idt_table s). type_attr g = 0" "v < 256"
  defines "t \<equiv> idt_table (syscall_init sc (idt_init isr irq s))"
  shows "(v < 20 \<longrightarrow> kernel_gate (isr v) (t ! v)) \<and> (32 \<le> v \<and> v < 48 \<longrightarrow> kernel_gate (irq (v - 32)) (t ! v)) \<and>
    (v = 0x80 \<longrightarrow> gate_offset (t ! v) = sc \<and> selector (t ! v) = GDT_SEL_KCODE) \<and>
    (bit (type_attr (t ! v)) 7 \<longleftrightarrow> v < 20 \<or> 32 \<le> v \<and> v < 48 \<or> v = 0x80) \<and>
    (user_gate (t ! v) \<longleftrightarrow> v = 0x80)"
proof -
  have "type_attr (idt_table s ! v) = 0" using assms(1-3) by simp
  then show ?thesis unfolding t_def installed_gates[OF assms(1,3)]
    by (auto simp: kernel_gate_def user_gate_def gate_decode kconst desc_dpl_def)
qed

theorem idt_gates_correct_witness:
  "user_gate (idt_table (syscall_init 0x1234 (idt_init (\<lambda>n. 0x2000) (\<lambda>n. 0x3000) boot_cpu)) ! 128) \<and>
   kernel_gate 0x2000 (idt_table (syscall_init 0x1234 (idt_init (\<lambda>n. 0x2000) (\<lambda>n. 0x3000) boot_cpu)) ! 14)"
  using idt_gates_correct[where s = boot_cpu and v = 128 and sc = "0x1234" and isr = "\<lambda>n. 0x2000" and irq = "\<lambda>n. 0x3000"]
    idt_gates_correct[where s = boot_cpu and v = 14 and sc = "0x1234" and isr = "\<lambda>n. 0x2000" and irq = "\<lambda>n. 0x3000"]
  by (simp add: boot_cpu_def)

end
