(* ===== verification/CString.thy ===== *)
theory CString
  imports Prelude
begin

text \<open>
  The string routines of \<^verbatim>\<open>kernel/string.h\<close>. A C character pointer is the list of bytes
  from it to the end of the object it points into; running off that list reads a
  NUL, so a list without a zero byte stands for a string terminated right behind it.
  \<open>cstr\<close> is the string a pointer denotes: the bytes before the first NUL.
\<close>

section \<open>The code\<close>

fun strlen :: "u8 list \<Rightarrow> u32" where
  "strlen [] = 0"
| "strlen (c # s) = (if c \<noteq> 0 then strlen s + 1 else 0)"

fun strcmp :: "u8 list \<Rightarrow> u8 list \<Rightarrow> int" where
  "strcmp (a # as) (b # bs) =
     (if a \<noteq> 0 \<and> b \<noteq> 0 \<and> a = b then strcmp as bs else uint a - uint b)"
| "strcmp (a # as) [] = uint a"
| "strcmp [] (b # bs) = - uint b"
| "strcmp [] [] = 0"

fun strncmp :: "u8 list \<Rightarrow> u8 list \<Rightarrow> nat \<Rightarrow> int" where
  "strncmp _ _ 0 = 0"
| "strncmp (a # as) (b # bs) (Suc n) =
     (if a \<noteq> 0 \<and> b \<noteq> 0 \<and> a = b then strncmp as bs n else uint a - uint b)"
| "strncmp (a # as) [] (Suc n) = uint a"
| "strncmp [] (b # bs) (Suc n) = - uint b"
| "strncmp [] [] (Suc n) = 0"

text \<open>\<^verbatim>\<open>memcmp\<close> on two buffers of at least \<open>n\<close> bytes.\<close>

fun memcmp :: "u8 list \<Rightarrow> u8 list \<Rightarrow> nat \<Rightarrow> int" where
  "memcmp (a # as) (b # bs) (Suc n) =
     (if a \<noteq> b then uint a - uint b else memcmp as bs n)"
| "memcmp _ _ _ = 0"

text \<open>The \<open>n\<close> bytes \<^verbatim>\<open>strncpy\<close> stores: the string, cut at \<open>n\<close> bytes or padded with NULs.\<close>

fun strncpy :: "u8 list \<Rightarrow> nat \<Rightarrow> u8 list" where
  "strncpy _ 0 = []"
| "strncpy [] (Suc n) = replicate (Suc n) 0"
| "strncpy (c # s) (Suc n) = (if c \<noteq> 0 then c # strncpy s n else replicate (Suc n) 0)"

section \<open>Strings as lists without NUL\<close>

definition cstr :: "u8 list \<Rightarrow> u8 list" where
  "cstr s = takeWhile (\<lambda>c. c \<noteq> 0) s"

lemma cstr_simps [simp]:
  "cstr [] = []" "cstr (c # s) = (if c = 0 then [] else c # cstr s)"
  by (simp_all add: cstr_def)

lemma cstr_no_nul: "0 \<notin> set (cstr s)"
  by (auto simp: cstr_def dest: set_takeWhileD)

lemma cstr_id: "0 \<notin> set s \<Longrightarrow> cstr s = s"
  by (induction s) auto

lemma cstr_append_nul: "0 \<notin> set s \<Longrightarrow> cstr (s @ 0 # t) = s"
  by (induction s) auto

lemma cstr_eq_Nil: "cstr s = [] \<longleftrightarrow> s = [] \<or> hd s = 0"
  by (cases s) auto

lemma strlen_cstr: "strlen s = of_nat (length (cstr s))"
  by (induction s) auto

lemma uint_eq_0_u8: "uint (a :: u8) = 0 \<longleftrightarrow> a = 0"
  by (rule uint_0_iff)

lemma uint_inj_u8: "uint (a :: u8) = uint b \<longleftrightarrow> a = b"
  by (rule word_uint_eq_iff[symmetric])

lemma strcmp_cstr: "strcmp a b = strcmp (cstr a) (cstr b)"
  by (induction a b rule: strcmp.induct) auto

lemma strcmp_eq_iff: "strcmp a b = 0 \<longleftrightarrow> cstr a = cstr b"
  by (induction a b rule: strcmp.induct) (auto simp: uint_eq_0_u8 uint_inj_u8)

lemma strncmp_eq_iff: "strncmp a b n = 0 \<longleftrightarrow> take n (cstr a) = take n (cstr b)"
  by (induction a b n rule: strncmp.induct) (auto simp: uint_eq_0_u8 uint_inj_u8)

lemma memcmp_eq_iff:
  "n \<le> length a \<Longrightarrow> n \<le> length b \<Longrightarrow> memcmp a b n = 0 \<longleftrightarrow> take n a = take n b"
  by (induction a b n rule: memcmp.induct) (auto simp: uint_inj_u8)

lemma length_strncpy [simp]: "length (strncpy s n) = n"
  by (induction s n rule: strncpy.induct) auto

lemma cstr_replicate_0 [simp]: "cstr (replicate n 0 @ t) = (if n = 0 then cstr t else [])"
  by (cases n) auto

lemma cstr_strncpy_nul: "cstr (strncpy s n @ 0 # t) = take n (cstr s)"
  by (induction s n rule: strncpy.induct) auto

lemma strncpy_eq: "strncpy s n = take n (cstr s) @ replicate (n - length (cstr s)) 0"
  by (induction s n rule: strncpy.induct) auto

text \<open>
  The order \<^verbatim>\<open>strcmp\<close> computes: the first differing byte decides, read as unsigned, and a
  proper prefix comes first.
\<close>

fun str_less :: "u8 list \<Rightarrow> u8 list \<Rightarrow> bool" where
  "str_less _ [] = False"
| "str_less [] (b # bs) = True"
| "str_less (a # as) (b # bs) \<longleftrightarrow> a < b \<or> (a = b \<and> str_less as bs)"

lemma strcmp_less_iff: "strcmp a b < 0 \<longleftrightarrow> str_less (cstr a) (cstr b)"
  by (induction a b rule: strcmp.induct)
    (auto simp: word_less_def uint_eq_0_u8 not_less less_le[of "0 :: int"] dest: sym)

text \<open>
  \<^verbatim>\<open>strcmp\<close> compares the strings its arguments denote: the result is zero exactly when
  they are equal, negative exactly when the first comes earlier in the unsigned
  byte-wise lexicographic order and positive exactly when the second does.
\<close>
theorem strcmp_correct:
  "(strcmp a b = 0 \<longleftrightarrow> cstr a = cstr b) \<and> (strcmp a b < 0 \<longleftrightarrow> str_less (cstr a) (cstr b)) \<and>
   (strcmp a b > 0 \<longleftrightarrow> str_less (cstr b) (cstr a))"
proof -
  have "strcmp b a = - strcmp a b"
    by (induction a b rule: strcmp.induct) auto
  then have "strcmp a b > 0 \<longleftrightarrow> strcmp b a < 0" by simp
  then show ?thesis by (simp add: strcmp_eq_iff strcmp_less_iff)
qed

end
