(* ===== verification/Process.thy ===== *)
theory Process
  imports Paging Descriptors CString
begin

text \<open>
  Processes and the scheduler: \<^verbatim>\<open>kernel/process.c\<close> and the context switch
  \<^verbatim>\<open>process_yield\<close> of \<^verbatim>\<open>kernel/process.asm\<close>. The process table is a list of 16 records;
  pointers into it are slot numbers, and the kernel stacks lie in machine memory at the
  addresses the C structure gives them. \<^verbatim>\<open>process_yield\<close> is modelled down to
  the pushed and popped registers; the stack frames of the C functions it calls lie below
  the saved stack pointer and are not represented.
\<close>

section \<open>The code\<close>

definition MAX_PROCESSES :: nat where [kconst]: "MAX_PROCESSES = 16"
definition PROCESS_KSTACK_SIZE :: u32 where [kconst]: "PROCESS_KSTACK_SIZE = 8192"

datatype proc_state = PROC_UNUSED | PROC_READY | PROC_RUNNING | PROC_BLOCKED | PROC_ZOMBIE

record process =
  p_esp :: u32
  pd_phys :: u32
  p_state :: proc_state
  pid :: u32
  is_user :: bool
  user_eip :: u32
  user_esp :: u32
  p_name :: "u8 list"

text \<open>
  The state the scheduler works on: the table, \<^verbatim>\<open>current_process\<close> (None is NULL), the pid
  counter, the address of the table, the memory system, the processor tables and the
  registers a context switch saves. \<open>user_mode_addr\<close> is the address of \<^verbatim>\<open>user_mode_enter\<close>.
\<close>

record sched =
  process_table :: "process list"
  current_process :: "nat option"
  next_pid :: u32
  table_addr :: u32
  user_mode_addr :: u32
  mm :: mm
  cpu :: cpu_tables
  ebx :: u32
  esi :: u32
  edi :: u32
  ebp :: u32
  esp :: u32
  eip :: u32

definition upd_proc :: "nat \<Rightarrow> (process \<Rightarrow> process) \<Rightarrow> sched \<Rightarrow> sched" where
  "upd_proc i f s = s\<lparr>process_table := (process_table s)[i := f (process_table s ! i)]\<rparr>"

definition state_of :: "sched \<Rightarrow> nat \<Rightarrow> proc_state" where
  "state_of s i = p_state (process_table s ! i)"

definition set_state :: "nat \<Rightarrow> proc_state \<Rightarrow> sched \<Rightarrow> sched" where
  "set_state i v s = upd_proc i (p_state_update (\<lambda>_. v)) s"

definition on_mm :: "(mm \<Rightarrow> mm) \<Rightarrow> sched \<Rightarrow> sched" where
  "on_mm f s = s\<lparr>mm := f (mm s)\<rparr>"

definition store :: "u32 \<Rightarrow> u32 \<Rightarrow> sched \<Rightarrow> sched" where
  "store a v = on_mm (\<lambda>m. m\<lparr>memory := store32 (memory m) a v\<rparr>)"

text \<open>\<^verbatim>\<open>sizeof(process_t)\<close> is 60 + 8192; the kernel stack is its last field.\<close>

definition kstack_top :: "sched \<Rightarrow> nat \<Rightarrow> u32" where
  "kstack_top s i = table_addr s + 8252 * of_nat i + 60 + PROCESS_KSTACK_SIZE"

definition alloc_slot :: "sched \<Rightarrow> nat option" where
  "alloc_slot s = find (\<lambda>i. state_of s i = PROC_UNUSED) [0 ..< MAX_PROCESSES]"

definition build_initial_kstack :: "nat \<Rightarrow> u32 \<Rightarrow> sched \<Rightarrow> sched \<times> u32" where
  "build_initial_kstack i ret_addr s =
     (let stk = kstack_top s i;
          stk = stk - 4; s = store stk ret_addr s;
          stk = stk - 4; s = store stk 0 s;
          stk = stk - 4; s = store stk 0 s;
          stk = stk - 4; s = store stk 0 s;
          stk = stk - 4; s = store stk 0 s
      in (s, stk))"

definition proc_name :: "u8 list \<Rightarrow> u8 list" where
  "proc_name name = (strncpy name 31 @ [0])"

definition process_create :: "u8 list \<Rightarrow> u32 \<Rightarrow> sched \<Rightarrow> sched \<times> nat option" where
  "process_create name entry s =
     (case alloc_slot s of
        None \<Rightarrow> (s, None)
      | Some i \<Rightarrow>
          let s = s\<lparr>next_pid := next_pid s + 1\<rparr>;
              s = upd_proc i (\<lambda>p. p\<lparr>pid := next_pid s, p_state := PROC_READY, is_user := False,
                    pd_phys := 0, user_eip := 0, user_esp := 0, p_name := proc_name name\<rparr>) s;
              (s, e) = build_initial_kstack i entry s
          in (upd_proc i (p_esp_update (\<lambda>_. e)) s, Some i))"

definition process_create_user :: "u8 list \<Rightarrow> u32 \<Rightarrow> u32 \<Rightarrow> u32 \<Rightarrow> sched \<Rightarrow> sched \<times> nat option" where
  "process_create_user name u_eip u_esp pd s =
     (case alloc_slot s of
        None \<Rightarrow> (s, None)
      | Some i \<Rightarrow>
          let s = s\<lparr>next_pid := next_pid s + 1\<rparr>;
              s = upd_proc i (\<lambda>p. p\<lparr>pid := next_pid s, p_state := PROC_READY, is_user := True,
                    pd_phys := pd, user_eip := u_eip, user_esp := u_esp, p_name := proc_name name\<rparr>) s;
              (s, e) = build_initial_kstack i (user_mode_addr s) s
          in (upd_proc i (p_esp_update (\<lambda>_. e)) s, Some i))"

text \<open>\<^verbatim>\<open>process_init\<close>; \<open>idle_fn\<close> is the address of \<^verbatim>\<open>idle_process_fn\<close>.\<close>

definition process_init :: "u32 \<Rightarrow> sched \<Rightarrow> sched" where
  "process_init idle_fn s =
     (let s = s\<lparr>process_table := map (\<lambda>p. p\<lparr>p_state := PROC_UNUSED, pid := 0, pd_phys := 0, is_user := False\<rparr>)
                (process_table s), next_pid := 0\<rparr>
      in fst (process_create [0x69, 0x64, 0x6C, 0x65] idle_fn s))"

definition process_before_switch :: "nat \<Rightarrow> sched \<Rightarrow> sched" where
  "process_before_switch next s =
     (let s = s\<lparr>cpu := tss_set_kernel_stack (kstack_top s next) (cpu s)\<rparr>;
          pd = pd_phys (process_table s ! next);
          target_pd = (if pd \<noteq> 0 then pd else paging_get_kernel_pd_phys (mm s))
      in if target_pd \<noteq> paging_get_cr3 (mm s) then on_mm (paging_switch target_pd) s else s)"

text \<open>The state changes of \<^verbatim>\<open>sched_next\<close> and the slot it returns.\<close>

definition sched_next :: "sched \<Rightarrow> sched \<times> nat" where
  "sched_next s =
     (case current_process s of
        None \<Rightarrow>
          (case find (\<lambda>i. state_of s i = PROC_READY \<or> state_of s i = PROC_RUNNING) [0 ..< MAX_PROCESSES] of
             Some i \<Rightarrow> (set_state i PROC_RUNNING s, i)
           | None \<Rightarrow> (set_state 0 PROC_RUNNING s, 0))
      | Some c \<Rightarrow>
          let s = (if state_of s c = PROC_RUNNING then set_state c PROC_READY s else s)
          in (case find (\<lambda>i. state_of s i = PROC_READY)
                (map (\<lambda>i. (c + i) mod MAX_PROCESSES) [1 ..< MAX_PROCESSES + 1]) of
                Some i \<Rightarrow> (set_state i PROC_RUNNING s, i)
              | None \<Rightarrow> (set_state 0 PROC_RUNNING s, 0)))"

definition push :: "u32 \<Rightarrow> sched \<Rightarrow> sched" where
  "push v s = (let s = s\<lparr>esp := esp s - 4\<rparr> in store (esp s) v s)"

definition stack_top :: "sched \<Rightarrow> u32" where
  "stack_top s = load32 (memory (mm s)) (esp s)"

text \<open>\<^verbatim>\<open>process_yield\<close>: save, schedule, prepare, swap stacks, restore, return.\<close>

definition yield_save :: "sched \<Rightarrow> sched" where
  "yield_save s =
     (let s = push (ebx s) (push (esi s) (push (edi s) (push (ebp s) s)))
      in case current_process s of
           None \<Rightarrow> s
         | Some c \<Rightarrow> upd_proc c (p_esp_update (\<lambda>_. esp s)) s)"

definition yield_restore :: "nat \<Rightarrow> sched \<Rightarrow> sched" where
  "yield_restore n s =
     (let s = s\<lparr>esp := p_esp (process_table s ! n)\<rparr>;
          s = s\<lparr>ebx := stack_top s, esp := esp s + 4\<rparr>;
          s = s\<lparr>esi := stack_top s, esp := esp s + 4\<rparr>;
          s = s\<lparr>edi := stack_top s, esp := esp s + 4\<rparr>;
          s = s\<lparr>ebp := stack_top s, esp := esp s + 4\<rparr>
      in s\<lparr>eip := stack_top s, esp := esp s + 4\<rparr>)"

definition process_yield :: "sched \<Rightarrow> sched" where
  "process_yield s =
     (let s = yield_save s;
          (s, n) = sched_next s;
          s = s\<lparr>current_process := Some n\<rparr>;
          s = process_before_switch n s
      in yield_restore n s)"

text \<open>The release of a page directory shared by \<^verbatim>\<open>process_exit\<close> and \<^verbatim>\<open>process_kill\<close>, then the zombie mark.\<close>

definition release_pd :: "nat \<Rightarrow> sched \<Rightarrow> sched" where
  "release_pd i s =
     (let pd = pd_phys (process_table s ! i)
      in if pd \<noteq> 0 then upd_proc i (pd_phys_update (\<lambda>_. 0)) (on_mm (paging_destroy_pd pd) s) else s)"

definition process_exit :: "sched \<Rightarrow> sched" where
  "process_exit s =
     process_yield (case current_process s of
       None \<Rightarrow> s | Some c \<Rightarrow> set_state c PROC_ZOMBIE (release_pd c s))"

definition process_kill :: "u32 \<Rightarrow> sched \<Rightarrow> sched \<times> int" where
  "process_kill n s =
     (case find (\<lambda>i. pid (process_table s ! i) = n \<and> state_of s i \<noteq> PROC_UNUSED \<and>
          state_of s i \<noteq> PROC_ZOMBIE) [0 ..< MAX_PROCESSES] of
        Some i \<Rightarrow> (set_state i PROC_ZOMBIE (release_pd i s), 0)
      | None \<Rightarrow> (s, -1))"

definition process_block_mark :: "sched \<Rightarrow> sched" where
  "process_block_mark s =
     (case current_process s of None \<Rightarrow> s | Some c \<Rightarrow> set_state c PROC_BLOCKED s)"

definition process_block :: "sched \<Rightarrow> sched" where
  "process_block s = process_yield (process_block_mark s)"

definition process_wake :: "nat option \<Rightarrow> sched \<Rightarrow> sched" where
  "process_wake p s =
     (case p of None \<Rightarrow> s
      | Some i \<Rightarrow> if state_of s i = PROC_BLOCKED then set_state i PROC_READY s else s)"

definition wake_table :: "process list \<Rightarrow> process list" where
  "wake_table = map (\<lambda>p. if p_state p = PROC_BLOCKED then p\<lparr>p_state := PROC_READY\<rparr> else p)"

definition process_wake_all_blocked :: "sched \<Rightarrow> sched" where
  "process_wake_all_blocked s = s\<lparr>process_table := wake_table (process_table s)\<rparr>"

section \<open>States of the table\<close>

text \<open>The C enumeration orders the states by their codes.\<close>

fun state_code :: "proc_state \<Rightarrow> nat" where
  "state_code PROC_UNUSED = 0"
| "state_code PROC_READY = 1"
| "state_code PROC_RUNNING = 2"
| "state_code PROC_BLOCKED = 3"
| "state_code PROC_ZOMBIE = 4"

lemma state_code_inj: "state_code a = state_code b \<longleftrightarrow> a = b"
  by (cases a; cases b) simp_all

instantiation proc_state :: linorder
begin

definition less_eq_proc_state :: "proc_state \<Rightarrow> proc_state \<Rightarrow> bool" where
  "less_eq_proc_state a b \<longleftrightarrow> state_code a \<le> state_code b"

definition less_proc_state :: "proc_state \<Rightarrow> proc_state \<Rightarrow> bool" where
  "less_proc_state a b \<longleftrightarrow> state_code a < state_code b"

instance
  by standard (auto simp: less_eq_proc_state_def less_proc_state_def state_code_inj)

end

text \<open>A process that exists and has not ended.\<close>

lemma live_state_iff:
  "x \<noteq> PROC_UNUSED \<and> x \<noteq> PROC_ZOMBIE \<longleftrightarrow> PROC_UNUSED < x \<and> x < PROC_ZOMBIE"
  by (cases x) (simp_all add: less_proc_state_def)

definition procs_len :: "sched \<Rightarrow> bool" where
  "procs_len s \<longleftrightarrow> length (process_table s) = 16"

lemma upd_proc_simps [simp]:
  "length (process_table (upd_proc i f s)) = length (process_table s)"
  "current_process (upd_proc i f s) = current_process s" "next_pid (upd_proc i f s) = next_pid s"
  "table_addr (upd_proc i f s) = table_addr s" "user_mode_addr (upd_proc i f s) = user_mode_addr s"
  "mm (upd_proc i f s) = mm s" "cpu (upd_proc i f s) = cpu s" "esp (upd_proc i f s) = esp s"
  by (simp_all add: upd_proc_def)

lemma set_state_simps [simp]:
  "length (process_table (set_state i v s)) = length (process_table s)"
  "current_process (set_state i v s) = current_process s" "next_pid (set_state i v s) = next_pid s"
  "table_addr (set_state i v s) = table_addr s" "user_mode_addr (set_state i v s) = user_mode_addr s"
  "mm (set_state i v s) = mm s" "cpu (set_state i v s) = cpu s" "esp (set_state i v s) = esp s"
  by (simp_all add: set_state_def)

lemma on_mm_simps [simp]:
  "process_table (on_mm f s) = process_table s" "current_process (on_mm f s) = current_process s"
  "next_pid (on_mm f s) = next_pid s" "table_addr (on_mm f s) = table_addr s"
  "user_mode_addr (on_mm f s) = user_mode_addr s" "mm (on_mm f s) = f (mm s)" "cpu (on_mm f s) = cpu s"
  "esp (on_mm f s) = esp s"
  by (simp_all add: on_mm_def)

lemma store_simps [simp]:
  "process_table (store a v s) = process_table s" "current_process (store a v s) = current_process s"
  "next_pid (store a v s) = next_pid s" "table_addr (store a v s) = table_addr s"
  "user_mode_addr (store a v s) = user_mode_addr s" "cpu (store a v s) = cpu s" "esp (store a v s) = esp s"
  "memory (mm (store a v s)) = store32 (memory (mm s)) a v"
  by (simp_all add: store_def)

lemma process_table_upd:
  "i < length (process_table s) \<Longrightarrow>
   process_table (upd_proc i f s) ! j = (if i = j then f (process_table s ! i) else process_table s ! j)"
  by (simp add: upd_proc_def nth_list_update)

lemma state_of_set_state:
  "i < length (process_table s) \<Longrightarrow> state_of (set_state i v s) j = (if j = i then v else state_of s j)"
  by (auto simp: state_of_def set_state_def process_table_upd)

lemma proc_set_state:
  "i < length (process_table s) \<Longrightarrow> pid (process_table (set_state i v s) ! j) = pid (process_table s ! j)"
  "i < length (process_table s) \<Longrightarrow> p_esp (process_table (set_state i v s) ! j) = p_esp (process_table s ! j)"
  "i < length (process_table s) \<Longrightarrow> pd_phys (process_table (set_state i v s) ! j) = pd_phys (process_table s ! j)"
  by (auto simp: set_state_def process_table_upd)

section \<open>The scheduler's choice\<close>

definition ready_set :: "sched \<Rightarrow> nat set" where
  "ready_set s = {i. i < 16 \<and> state_of s i = PROC_READY}"

text \<open>How far slot \<open>j\<close> is ahead of slot \<open>c\<close> in round-robin order: between 1 and 16.\<close>

definition ahead :: "nat \<Rightarrow> nat \<Rightarrow> nat" where
  "ahead c j = (if j > c then j - c else j + 16 - c)"

lemma ahead_bounds: "c < 16 \<Longrightarrow> j < 16 \<Longrightarrow> 1 \<le> ahead c j \<and> ahead c j \<le> 16"
  by (auto simp: ahead_def)

lemma ahead_mod: "c < 16 \<Longrightarrow> j < 16 \<Longrightarrow> (c + ahead c j) mod 16 = j"
  by (auto simp: ahead_def)

lemma mod_ahead: "c < 16 \<Longrightarrow> 1 \<le> i \<Longrightarrow> i \<le> 16 \<Longrightarrow> ahead c ((c + i) mod 16) = i"
proof -
  assume "c < 16" "1 \<le> i" "i \<le> 16"
  then show ?thesis
    by (cases "c + i < 16") (auto simp: ahead_def mod_if)
qed

lemma ahead_chain: "c < 16 \<Longrightarrow> i < 16 \<Longrightarrow> j < 16 \<Longrightarrow> ahead c i < ahead c j \<Longrightarrow> ahead i j < ahead c j"
  by (auto simp: ahead_def split: if_splits)

lemma find_round_robin:
  assumes "c < 16"
  shows "find P (map (\<lambda>i. (c + i) mod 16) [1 ..< 16 + 1]) = Some j \<longleftrightarrow>
    j < 16 \<and> P j \<and> (\<forall>i < 16. P i \<longrightarrow> ahead c j \<le> ahead c i)" (is "?L = _ \<longleftrightarrow> _")
    "find P (map (\<lambda>i. (c + i) mod 16) [1 ..< 16 + 1]) = None \<longleftrightarrow> (\<forall>i < 16. \<not> P i)"
proof -
  have all: "(\<lambda>i. (c + i) mod 16) ` {1 ..< 17} = {..< 16}"
  proof
    show "{..< 16} \<subseteq> (\<lambda>i. (c + i) mod 16) ` {1 ..< 17}"
    proof
      fix j :: nat assume "j \<in> {..< 16}"
      then show "j \<in> (\<lambda>i. (c + i) mod 16) ` {1 ..< 17}"
        using ahead_mod[OF assms, of j] ahead_bounds[OF assms, of j] by (intro image_eqI[of _ _ "ahead c j"]) auto
    qed
  qed auto
  then show "find P (map (\<lambda>i. (c + i) mod 16) [1 ..< 16 + 1]) = None \<longleftrightarrow> (\<forall>i < 16. \<not> P i)"
    unfolding find_None_iff by (auto simp: set_eq_iff image_iff)
  show "?L = Some j \<longleftrightarrow> j < 16 \<and> P j \<and> (\<forall>i < 16. P i \<longrightarrow> ahead c j \<le> ahead c i)"
  proof
    assume "?L = Some j"
    then obtain k where k: "k < 16" "P ((c + Suc k) mod 16)" "j = (c + Suc k) mod 16"
        "\<forall>i < k. \<not> P ((c + Suc i) mod 16)"
      by (auto simp: find_Some_iff nth_append add.commute)
    have "ahead c j \<le> ahead c i" if "i < 16" "P i" for i
    proof (rule ccontr)
      assume "\<not> ahead c j \<le> ahead c i"
      then have "ahead c i - 1 < k" using k(1,3) mod_ahead[OF assms, of "Suc k"] ahead_bounds[OF assms that(1)] by auto
      then show False
        using k(4) ahead_mod[OF assms that(1)] ahead_bounds[OF assms that(1)] that(2) by auto
    qed
    then show "j < 16 \<and> P j \<and> (\<forall>i < 16. P i \<longrightarrow> ahead c j \<le> ahead c i)" using k by simp
  next
    assume j: "j < 16 \<and> P j \<and> (\<forall>i < 16. P i \<longrightarrow> ahead c j \<le> ahead c i)"
    let ?k = "ahead c j - 1"
    have k: "?k < 16" "(c + Suc ?k) mod 16 = j" using ahead_bounds[OF assms, of j] ahead_mod[OF assms, of j] j by auto
    have "\<not> P ((c + Suc i) mod 16)" if "i < ?k" for i
    proof
      assume "P ((c + Suc i) mod 16)"
      then have "ahead c j \<le> ahead c ((c + Suc i) mod 16)" using j by simp
      then show False using mod_ahead[OF assms, of "Suc i"] that k(1) by simp
    qed
    then show "?L = Some j"
      using j k by (auto simp: find_Some_iff add.commute intro!: exI[of _ ?k])
  qed
qed

definition requeue :: "nat \<Rightarrow> sched \<Rightarrow> sched" where
  "requeue c s = (if state_of s c = PROC_RUNNING then set_state c PROC_READY s else s)"

lemma requeue_simps [simp]:
  "length (process_table (requeue c s)) = length (process_table s)"
  "current_process (requeue c s) = current_process s" "next_pid (requeue c s) = next_pid s"
  "mm (requeue c s) = mm s" "cpu (requeue c s) = cpu s" "table_addr (requeue c s) = table_addr s"
  "user_mode_addr (requeue c s) = user_mode_addr s" "esp (requeue c s) = esp s"
  by (simp_all add: requeue_def)

lemma state_of_requeue:
  "c < length (process_table s) \<Longrightarrow> state_of (requeue c s) j =
     (if j = c \<and> state_of s c = PROC_RUNNING then PROC_READY else state_of s j)"
  by (auto simp: requeue_def state_of_set_state)

lemma sched_next_current:
  assumes "current_process s = Some c" "c < 16"
  shows "ready_set (requeue c s) = {} \<Longrightarrow> sched_next s = (set_state 0 PROC_RUNNING (requeue c s), 0)"
    "ready_set (requeue c s) \<noteq> {} \<Longrightarrow> \<exists>n \<in> ready_set (requeue c s).
       (\<forall>i \<in> ready_set (requeue c s). ahead c n \<le> ahead c i) \<and>
       sched_next s = (set_state n PROC_RUNNING (requeue c s), n)"
proof -
  let ?f = "find (\<lambda>i. state_of (requeue c s) i = PROC_READY) (map (\<lambda>i. (c + i) mod 16) [1 ..< 16 + 1])"
  have code: "sched_next s = (case ?f of Some i \<Rightarrow> (set_state i PROC_RUNNING (requeue c s), i)
      | None \<Rightarrow> (set_state 0 PROC_RUNNING (requeue c s), 0))"
    unfolding sched_next_def requeue_def Let_def MAX_PROCESSES_def by (simp only: assms(1) option.case)
  note rr = find_round_robin[OF assms(2), of "\<lambda>i. state_of (requeue c s) i = PROC_READY"]
  show "sched_next s = (set_state 0 PROC_RUNNING (requeue c s), 0)" if "ready_set (requeue c s) = {}"
  proof -
    have "?f = None" using that unfolding rr(2) ready_set_def by blast
    then show ?thesis unfolding code by simp
  qed
  show "\<exists>n \<in> ready_set (requeue c s). (\<forall>i \<in> ready_set (requeue c s). ahead c n \<le> ahead c i) \<and>
      sched_next s = (set_state n PROC_RUNNING (requeue c s), n)" if ne: "ready_set (requeue c s) \<noteq> {}"
  proof (cases ?f)
    case None
    then show ?thesis using ne unfolding rr(2) ready_set_def by blast
  next
    case (Some n)
    then have "sched_next s = (set_state n PROC_RUNNING (requeue c s), n)" unfolding code by simp
    then show ?thesis using Some[unfolded rr(1)] unfolding ready_set_def by blast
  qed
qed

lemma sched_next_boot:
  assumes "current_process s = None"
  obtains n where "sched_next s = (set_state n PROC_RUNNING s, n)" "n < 16"
    "n = 0 \<or> state_of s n = PROC_READY \<or> state_of s n = PROC_RUNNING"
proof (cases "find (\<lambda>i. state_of s i = PROC_READY \<or> state_of s i = PROC_RUNNING) [0 ..< MAX_PROCESSES]")
  case None
  then show thesis using that[of 0] assms by (simp add: sched_next_def)
next
  case (Some n)
  then show thesis using that[of n] assms Some[unfolded find_upt_least] by (simp add: sched_next_def MAX_PROCESSES_def)
qed

text \<open>In every case one slot is set running on top of the requeued table.\<close>

lemma sched_next_cases:
  assumes "\<And>c. current_process s = Some c \<Longrightarrow> c < 16"
  obtains n s1 where "sched_next s = (set_state n PROC_RUNNING s1, n)" "n < 16"
    "s1 = (case current_process s of None \<Rightarrow> s | Some c \<Rightarrow> requeue c s)"
    "n = 0 \<or> state_of s1 n = PROC_READY \<or> current_process s = None \<and> state_of s n = PROC_RUNNING"
proof (cases "current_process s")
  case None
  then show thesis using that sched_next_boot[OF None] by (metis option.case(1))
next
  case (Some c)
  show thesis
  proof (cases "ready_set (requeue c s) = {}")
    case True
    then show thesis using that[of 0] sched_next_current(1)[OF Some assms[OF Some]] Some by simp
  next
    case False
    then obtain n where "n \<in> ready_set (requeue c s)" "sched_next s = (set_state n PROC_RUNNING (requeue c s), n)"
      using sched_next_current(2)[OF Some assms[OF Some]] by blast
    then show thesis using that[of n] Some by (simp add: ready_set_def)
  qed
qed

section \<open>The invariant of the process table\<close>

text \<open>
  Slots are handed out in order and never taken back, so the used ones are exactly the
  first \<^verbatim>\<open>next_pid\<close>, slot \<open>i\<close> has pid \<open>i + 1\<close>, the idle process exists, and a process marked
  running is the current one.
\<close>

definition sched_inv :: "sched \<Rightarrow> bool" where
  "sched_inv s \<longleftrightarrow> length (process_table s) = 16 \<and>
     1 \<le> unat (next_pid s) \<and> unat (next_pid s) \<le> 16 \<and>
     (\<forall>c. current_process s = Some c \<longrightarrow> c < unat (next_pid s)) \<and>
     (\<forall>i < 16. state_of s i = PROC_UNUSED \<longleftrightarrow> unat (next_pid s) \<le> i) \<and>
     (\<forall>i < unat (next_pid s). pid (process_table s ! i) = of_nat (Suc i)) \<and>
     (\<forall>i < 16. state_of s i = PROC_RUNNING \<longrightarrow> current_process s = Some i)"

lemma sched_invD:
  assumes "sched_inv s"
  shows "length (process_table s) = 16" "current_process s = Some c \<Longrightarrow> c < 16"
    "i < 16 \<Longrightarrow> state_of s i = PROC_UNUSED \<longleftrightarrow> unat (next_pid s) \<le> i"
    "i < unat (next_pid s) \<Longrightarrow> pid (process_table s ! i) = of_nat (Suc i)"
    "i < 16 \<Longrightarrow> state_of s i = PROC_RUNNING \<Longrightarrow> current_process s = Some i"
    "1 \<le> unat (next_pid s)" "unat (next_pid s) \<le> 16" "current_process s = Some c \<Longrightarrow> c < unat (next_pid s)"
  using assms unfolding sched_inv_def by (blast dest: less_le_trans)+

lemma sched_invI:
  assumes "length (process_table s) = 16" "1 \<le> unat (next_pid s)" "unat (next_pid s) \<le> 16"
    "\<And>c. current_process s = Some c \<Longrightarrow> c < unat (next_pid s)"
    "\<And>i. i < 16 \<Longrightarrow> state_of s i = PROC_UNUSED \<longleftrightarrow> unat (next_pid s) \<le> i"
    "\<And>i. i < unat (next_pid s) \<Longrightarrow> pid (process_table s ! i) = of_nat (Suc i)"
    "\<And>i. i < 16 \<Longrightarrow> state_of s i = PROC_RUNNING \<Longrightarrow> current_process s = Some i"
  shows "sched_inv s"
  using assms unfolding sched_inv_def by blast

text \<open>The invariant looks only at states, pids, the counter and the current slot.\<close>

lemma sched_inv_cong:
  assumes "sched_inv s" "length (process_table t) = 16" "next_pid t = next_pid s" "current_process t = current_process s"
    and "\<And>i. i < 16 \<Longrightarrow> state_of t i = state_of s i"
    and "\<And>i. i < 16 \<Longrightarrow> pid (process_table t ! i) = pid (process_table s ! i)"
  shows "sched_inv t"
proof (rule sched_invI)
  note inv = sched_invD[OF assms(1)]
  show "1 \<le> unat (next_pid t)" "unat (next_pid t) \<le> 16" using inv(6,7) assms(3) by simp_all
  show "pid (process_table t ! i) = of_nat (Suc i)" if "i < unat (next_pid t)" for i
    using that inv(4,7) assms(3) assms(6)[of i] by (simp del: of_nat_Suc)
  show "current_process t = Some i" if "i < 16" "state_of t i = PROC_RUNNING" for i
    using inv(5)[of i] assms(4) assms(5)[of i] that by simp
qed (use sched_invD(1,3,8)[OF assms(1)] assms(2-5) in simp_all)

lemma sched_inv_set_state:
  assumes "sched_inv s" "i < 16" "v \<noteq> PROC_RUNNING" "v \<noteq> PROC_UNUSED" "state_of s i \<noteq> PROC_UNUSED"
  shows "sched_inv (set_state i v s)"
proof (rule sched_invI)
  note inv = sched_invD[OF assms(1)]
  show "state_of (set_state i v s) j = PROC_UNUSED \<longleftrightarrow> unat (next_pid (set_state i v s)) \<le> j" if "j < 16" for j
    using inv(1,3) that assms(2,4,5) by (auto simp: state_of_set_state)
  show "current_process (set_state i v s) = Some j" if "j < 16" "state_of (set_state i v s) j = PROC_RUNNING" for j
    using inv(1,5) that assms(2,3) by (auto simp: state_of_set_state split: if_splits)
  show "pid (process_table (set_state i v s) ! j) = of_nat (Suc j)" if "j < unat (next_pid (set_state i v s))" for j
    using inv(1,4) that assms(2) by (simp add: proc_set_state del: of_nat_Suc)
qed (use sched_invD(1,6,7,8)[OF assms(1)] in simp_all)

lemma push_simps [simp]:
  "process_table (push v s) = process_table s" "current_process (push v s) = current_process s"
  "next_pid (push v s) = next_pid s" "table_addr (push v s) = table_addr s"
  "user_mode_addr (push v s) = user_mode_addr s" "cpu (push v s) = cpu s" "esp (push v s) = esp s - 4"
  "memory (mm (push v s)) = store32 (memory (mm s)) (esp s - 4) v" "pd_phys (process_table (push v s) ! i) = pd_phys (process_table s ! i)"
  by (simp_all add: push_def Let_def)

lemma yield_save_simps [simp]:
  "length (process_table (yield_save s)) = length (process_table s)"
  "current_process (yield_save s) = current_process s" "next_pid (yield_save s) = next_pid s"
  "table_addr (yield_save s) = table_addr s" "cpu (yield_save s) = cpu s"
  by (simp_all add: yield_save_def Let_def split: option.split)

lemma yield_save_proc:
  assumes "\<And>c. current_process s = Some c \<Longrightarrow> c < length (process_table s)"
  shows "state_of (yield_save s) i = state_of s i"
    "pid (process_table (yield_save s) ! i) = pid (process_table s ! i)"
    "pd_phys (process_table (yield_save s) ! i) = pd_phys (process_table s ! i)"
  using assms unfolding yield_save_def state_of_def
  by (auto simp: Let_def process_table_upd split: option.split)

lemma before_switch_simps [simp]:
  "process_table (process_before_switch n s) = process_table s"
  "current_process (process_before_switch n s) = current_process s"
  "next_pid (process_before_switch n s) = next_pid s"
  "memory (mm (process_before_switch n s)) = memory (mm s)"
  by (simp_all add: process_before_switch_def Let_def paging_switch_def)

lemma yield_restore_simps [simp]:
  "process_table (yield_restore n s) = process_table s"
  "current_process (yield_restore n s) = current_process s" "next_pid (yield_restore n s) = next_pid s"
  "mm (yield_restore n s) = mm s" "cpu (yield_restore n s) = cpu s"
  by (simp_all add: yield_restore_def Let_def)

lemma process_yield_table:
  assumes "sched_next (yield_save s) = (s1, n)"
  shows "process_table (process_yield s) = process_table s1" "current_process (process_yield s) = Some n"
    "next_pid (process_yield s) = next_pid s1"
  using assms by (simp_all add: process_yield_def Let_def)

lemma state_of_process_yield:
  "sched_next (yield_save s) = (s1, n) \<Longrightarrow> state_of (process_yield s) i = state_of s1 i"
  by (simp add: state_of_def process_yield_table)

lemma process_yield_inv:
  assumes inv: "sched_inv s"
  shows "sched_inv (process_yield s)"
proof -
  let ?s = "yield_save s"
  have len: "length (process_table ?s) = 16" and cur: "\<And>c. current_process ?s = Some c \<Longrightarrow> c < 16"
    using sched_invD(1,2)[OF inv] by simp_all
  have same: "state_of ?s i = state_of s i" "pid (process_table ?s ! i) = pid (process_table s ! i)" for i
    using yield_save_proc sched_invD(1,2)[OF inv] by auto
  obtain n s1 where n: "sched_next ?s = (set_state n PROC_RUNNING s1, n)" "n < 16"
      "s1 = (case current_process ?s of None \<Rightarrow> ?s | Some c \<Rightarrow> requeue c ?s)"
      "n = 0 \<or> state_of s1 n = PROC_READY \<or> current_process ?s = None \<and> state_of ?s n = PROC_RUNNING"
    using sched_next_cases[OF cur] by blast
  have s1: "length (process_table s1) = 16" "next_pid s1 = next_pid s"
      "pid (process_table s1 ! i) = pid (process_table s ! i)" for i
    using len cur same by (auto simp: n(3) requeue_def proc_set_state split: option.split)
  have st: "state_of s1 i = (if state_of s i = PROC_RUNNING then PROC_READY else state_of s i)" if "i < 16" for i
    using sched_invD(5)[OF inv that] that len cur same unfolding n(3)
    by (auto simp: state_of_requeue split: option.split)
  have "state_of s n \<noteq> PROC_UNUSED \<or> n = 0"
    using n(4) st[OF n(2)] same(1)[of n] by (auto split: if_splits)
  then have used: "n < unat (next_pid s)"
    using sched_invD(3)[OF inv n(2)] sched_invD(6)[OF inv] by (auto simp: not_le)
  show ?thesis
  proof (rule sched_invI; unfold process_yield_table[OF n(1)] state_of_process_yield[OF n(1)])
    show "state_of (set_state n PROC_RUNNING s1) i = PROC_UNUSED \<longleftrightarrow> unat (next_pid (set_state n PROC_RUNNING s1)) \<le> i"
      if "i < 16" for i
      using sched_invD(3)[OF inv that] st[OF that] used s1(1,2) n(2) by (auto simp: state_of_set_state)
    show "Some n = Some i" if "i < 16" "state_of (set_state n PROC_RUNNING s1) i = PROC_RUNNING" for i
      using that st[of i] s1(1) n(2) by (auto simp: state_of_set_state split: if_splits)
    show "pid (process_table (set_state n PROC_RUNNING s1) ! i) = of_nat (Suc i)"
      if "i < unat (next_pid (set_state n PROC_RUNNING s1))" for i
      using sched_invD(4)[OF inv, of i] that s1 n(2) by (simp add: proc_set_state del: of_nat_Suc)
  qed (use sched_invD(6,7)[OF inv] s1(1,2) n(2) used in simp_all)
qed

lemma alloc_slot_inv:
  assumes "sched_inv s"
  shows "alloc_slot s = (if unat (next_pid s) < 16 then Some (unat (next_pid s)) else None)"
proof (cases "unat (next_pid s) < 16")
  case True
  then have "alloc_slot s = Some (unat (next_pid s))"
    using sched_invD(3)[OF assms] unfolding alloc_slot_def MAX_PROCESSES_def find_upt_least by auto
  then show ?thesis using True by simp
next
  case False
  then have "alloc_slot s = None"
    using sched_invD(3)[OF assms] unfolding alloc_slot_def MAX_PROCESSES_def find_None_iff by auto
  then show ?thesis using False by simp
qed

lemma build_initial_kstack_simps [simp]:
  "process_table (fst (build_initial_kstack i r s)) = process_table s"
  "current_process (fst (build_initial_kstack i r s)) = current_process s"
  "next_pid (fst (build_initial_kstack i r s)) = next_pid s"
  "table_addr (fst (build_initial_kstack i r s)) = table_addr s"
  by (simp_all add: build_initial_kstack_def Let_def)

text \<open>Filling slot \<^verbatim>\<open>next_pid\<close> and counting it, whatever else is stored.\<close>

lemma sched_inv_new_process:
  assumes inv: "sched_inv s" and free: "unat (next_pid s) < 16"
    and t: "process_table t = (process_table s)[unat (next_pid s) := p]" "next_pid t = next_pid s + 1"
      "current_process t = current_process s" "p_state p = PROC_READY" "pid p = next_pid s + 1"
  shows "sched_inv t"
proof (rule sched_invI)
  have n: "unat (next_pid t) = Suc (unat (next_pid s))"
    using free unat_plus_u32[of "next_pid s" 1] by (simp add: t(2))
  have st: "state_of t i = (if i = unat (next_pid s) then PROC_READY else state_of s i)" if "i < 16" for i
    using that sched_invD(1)[OF inv] t(1,4) by (auto simp: state_of_def nth_list_update)
  show "1 \<le> unat (next_pid t)" "unat (next_pid t) \<le> 16" using n free by simp_all
  show "state_of t i = PROC_UNUSED \<longleftrightarrow> unat (next_pid t) \<le> i" if "i < 16" for i
    using st[OF that] sched_invD(3)[OF inv that] n by auto
  show "current_process t = Some i" if "i < 16" "state_of t i = PROC_RUNNING" for i
    using sched_invD(5)[OF inv that(1)] st[OF that(1)] that(2) t(3) by (auto split: if_splits)
  show "pid (process_table t ! i) = of_nat (Suc i)" if "i < unat (next_pid t)" for i
  proof (cases "i = unat (next_pid s)")
    case True
    then have "pid (process_table t ! i) = next_pid s + 1"
      using free sched_invD(1)[OF inv] t(1,5) by simp
    then show ?thesis using True by simp
  next
    case False
    then have "i < unat (next_pid s)" using that n by simp
    then show ?thesis using sched_invD(4)[OF inv, of i] False by (simp add: t(1) del: of_nat_Suc)
  qed
  show "c < unat (next_pid t)" if "current_process t = Some c" for c
    using sched_invD(8)[OF inv, of c] that t(3) n by simp
qed (use sched_invD(1)[OF inv] t(1) in simp_all)

definition fill_slot :: "nat \<Rightarrow> (process \<Rightarrow> process) \<Rightarrow> u32 \<Rightarrow> sched \<Rightarrow> sched" where
  "fill_slot i f r s =
     (let b = build_initial_kstack i r (upd_proc i f (s\<lparr>next_pid := next_pid s + 1\<rparr>))
      in upd_proc i (p_esp_update (\<lambda>_. snd b)) (fst b))"

lemma process_create_fill:
  "process_create name entry s = (case alloc_slot s of None \<Rightarrow> (s, None) | Some i \<Rightarrow>
     (fill_slot i (\<lambda>p. p\<lparr>pid := next_pid s + 1, p_state := PROC_READY, is_user := False, pd_phys := 0,
        user_eip := 0, user_esp := 0, p_name := proc_name name\<rparr>) entry s, Some i))"
  by (simp add: process_create_def fill_slot_def Let_def case_prod_beta split: option.split)

lemma process_create_user_fill:
  "process_create_user name ue us pd s = (case alloc_slot s of None \<Rightarrow> (s, None) | Some i \<Rightarrow>
     (fill_slot i (\<lambda>p. p\<lparr>pid := next_pid s + 1, p_state := PROC_READY, is_user := True, pd_phys := pd,
        user_eip := ue, user_esp := us, p_name := proc_name name\<rparr>) (user_mode_addr s) s, Some i))"
  by (simp add: process_create_user_def fill_slot_def Let_def case_prod_beta split: option.split)

lemma fill_slot_table:
  "process_table (fill_slot i f r s) = (process_table s)[i := (f (process_table s ! i))\<lparr>p_esp := kstack_top s i - 20\<rparr>]"
  "next_pid (fill_slot i f r s) = next_pid s + 1" "current_process (fill_slot i f r s) = current_process s"
proof -
  have e: "snd (build_initial_kstack i r t) = kstack_top t i - 20" for t
    by (simp add: build_initial_kstack_def Let_def)
  have k: "kstack_top (upd_proc i f (s\<lparr>next_pid := v\<rparr>)) i = kstack_top s i" for v by (simp add: kstack_top_def)
  show "process_table (fill_slot i f r s) = (process_table s)[i := (f (process_table s ! i))\<lparr>p_esp := kstack_top s i - 20\<rparr>]"
    unfolding fill_slot_def Let_def e k
    by (cases "i < length (process_table s)") (simp_all add: upd_proc_def list_update_beyond not_less)
  show "next_pid (fill_slot i f r s) = next_pid s + 1" "current_process (fill_slot i f r s) = current_process s"
    by (simp_all add: fill_slot_def Let_def)
qed

lemma fill_slot_inv:
  assumes "sched_inv s" "unat (next_pid s) < 16" "\<And>p. p_state (f p) = PROC_READY" "\<And>p. pid (f p) = next_pid s + 1"
  shows "sched_inv (fill_slot (unat (next_pid s)) f r s)"
  by (rule sched_inv_new_process[OF assms(1,2) fill_slot_table]) (simp_all add: assms(3,4))

lemma process_create_inv: "sched_inv s \<Longrightarrow> sched_inv (fst (process_create name entry s))"
  unfolding process_create_fill by (simp add: alloc_slot_inv fill_slot_inv)

lemma process_create_user_inv: "sched_inv s \<Longrightarrow> sched_inv (fst (process_create_user name ue us pd s))"
  unfolding process_create_user_fill by (simp add: alloc_slot_inv fill_slot_inv)

lemma release_pd_simps [simp]:
  "length (process_table (release_pd i s)) = length (process_table s)"
  "current_process (release_pd i s) = current_process s" "next_pid (release_pd i s) = next_pid s"
  by (simp_all add: release_pd_def Let_def)

lemma release_pd_proc:
  assumes "i < length (process_table s)"
  shows "state_of (release_pd i s) j = state_of s j"
    "pid (process_table (release_pd i s) ! j) = pid (process_table s ! j)"
  using assms by (auto simp: release_pd_def Let_def state_of_def process_table_upd)

lemma release_pd_inv: "sched_inv s \<Longrightarrow> i < 16 \<Longrightarrow> sched_inv (release_pd i s)"
  by (rule sched_inv_cong[of s]) (simp_all add: release_pd_proc sched_invD(1))

lemma make_zombie_inv:
  assumes "sched_inv s" "i < 16" "state_of s i \<noteq> PROC_UNUSED"
  shows "sched_inv (set_state i PROC_ZOMBIE (release_pd i s))"
  using assms sched_invD(1)[OF assms(1)] by (intro sched_inv_set_state release_pd_inv) (simp_all add: release_pd_proc)

lemma current_used: "sched_inv s \<Longrightarrow> current_process s = Some c \<Longrightarrow> state_of s c \<noteq> PROC_UNUSED"
  using sched_invD(3)[of s c] sched_invD(2,8)[of s c] by auto

lemma process_exit_inv: "sched_inv s \<Longrightarrow> sched_inv (process_exit s)"
  unfolding process_exit_def
  by (intro process_yield_inv) (auto split: option.split intro!: make_zombie_inv simp: sched_invD(2) dest: current_used)

lemma process_block_inv: "sched_inv s \<Longrightarrow> sched_inv (process_block s)"
  unfolding process_block_def process_block_mark_def
  by (intro process_yield_inv) (auto split: option.split intro!: sched_inv_set_state simp: sched_invD(2) dest: current_used)

lemma process_kill_inv: "sched_inv s \<Longrightarrow> sched_inv (fst (process_kill n s))"
  unfolding process_kill_def
  by (auto split: option.split intro!: make_zombie_inv simp: find_upt_least MAX_PROCESSES_def)

lemma process_wake_inv: "sched_inv s \<Longrightarrow> (\<And>i. p = Some i \<Longrightarrow> i < 16) \<Longrightarrow> sched_inv (process_wake p s)"
  unfolding process_wake_def by (auto split: option.split intro!: sched_inv_set_state)

lemma state_of_wake_all:
  "i < length (process_table s) \<Longrightarrow> state_of (process_wake_all_blocked s) i =
     (if state_of s i = PROC_BLOCKED then PROC_READY else state_of s i)"
  by (simp add: process_wake_all_blocked_def wake_table_def state_of_def)

lemma process_wake_all_inv:
  assumes "sched_inv s"
  shows "sched_inv (process_wake_all_blocked s)"
proof (rule sched_invI)
  let ?t = "process_wake_all_blocked s"
  have f: "length (process_table ?t) = 16" "next_pid ?t = next_pid s" "current_process ?t = current_process s"
    using sched_invD(1)[OF assms] by (simp_all add: process_wake_all_blocked_def wake_table_def)
  have st: "state_of ?t i = (if state_of s i = PROC_BLOCKED then PROC_READY else state_of s i)" if "i < 16" for i
    using that sched_invD(1)[OF assms] by (simp add: state_of_wake_all)
  show "state_of ?t i = PROC_UNUSED \<longleftrightarrow> unat (next_pid ?t) \<le> i" if "i < 16" for i
    using st[OF that] sched_invD(3)[OF assms that] f by auto
  show "current_process ?t = Some i" if "i < 16" "state_of ?t i = PROC_RUNNING" for i
    using st[OF that(1)] sched_invD(5)[OF assms that(1)] that(2) f by (simp split: if_splits)
  show "pid (process_table ?t ! i) = of_nat (Suc i)" if "i < unat (next_pid ?t)" for i
    using sched_invD(4)[OF assms, of i] sched_invD(1,7)[OF assms] that f
    by (simp add: process_wake_all_blocked_def wake_table_def del: of_nat_Suc)
  show "length (process_table ?t) = 16" "1 \<le> unat (next_pid ?t)" "unat (next_pid ?t) \<le> 16"
    "\<And>c. current_process ?t = Some c \<Longrightarrow> c < unat (next_pid ?t)"
    using f sched_invD(6,7,8)[OF assms] by simp_all
qed

lemma process_init_inv:
  assumes "length (process_table s) = 16" "current_process s = None"
  shows "sched_inv (process_init idle s)"
proof -
  let ?s = "s\<lparr>process_table := map (\<lambda>p. p\<lparr>p_state := PROC_UNUSED, pid := 0, pd_phys := 0, is_user := False\<rparr>)
      (process_table s), next_pid := 0\<rparr>"
  have un: "state_of ?s i = PROC_UNUSED" if "i < 16" for i using that assms(1) by (simp add: state_of_def)
  have "alloc_slot ?s = Some 0"
    unfolding alloc_slot_def MAX_PROCESSES_def find_upt_least using un[of 0] by simp
  then obtain f where t: "process_init idle s = fill_slot 0 f idle ?s"
      "\<And>p. p_state (f p) = PROC_READY" "\<And>p. pid (f p) = 1"
    unfolding process_init_def process_create_fill Let_def by auto
  have st: "state_of (process_init idle s) i = (if i = 0 then PROC_READY else PROC_UNUSED)" if "i < 16" for i
    using un[OF that] that assms(1) t(2) unfolding state_of_def t(1) fill_slot_table by (auto simp: nth_list_update)
  have n: "unat (next_pid (process_init idle s)) = 1" by (simp add: t(1) fill_slot_table)
  show ?thesis
  proof (rule sched_invI)
    show "state_of (process_init idle s) i = PROC_UNUSED \<longleftrightarrow> unat (next_pid (process_init idle s)) \<le> i" if "i < 16" for i
      using st[OF that] n by auto
    show "pid (process_table (process_init idle s) ! i) = of_nat (Suc i)" if "i < unat (next_pid (process_init idle s))" for i
      using that n assms(1) t(3) unfolding t(1) fill_slot_table by (simp add: nth_list_update)
  qed (use st n assms in \<open>auto simp: t(1) fill_slot_table split: if_splits\<close>)
qed

section \<open>Reachable scheduler states\<close>

text \<open>The operations on the scheduler, as the drivers, system calls and the shell issue them.\<close>

datatype kop =
    Create "u8 list" u32
  | CreateUser "u8 list" u32 u32 u32
  | Kill u32
  | Exit
  | Block
  | Yield
  | Wake nat
  | WakeAll

inductive kstep :: "sched \<Rightarrow> kop \<Rightarrow> sched \<Rightarrow> bool" where
  create: "kstep s (Create n e) (fst (process_create n e s))"
| create_user: "kstep s (CreateUser n ue us pd) (fst (process_create_user n ue us pd s))"
| kill: "kstep s (Kill p) (fst (process_kill p s))"
| exit: "kstep s Exit (process_exit s)"
| block: "kstep s Block (process_block s)"
| yield: "kstep s Yield (process_yield s)"
| wake: "i < 16 \<Longrightarrow> kstep s (Wake i) (process_wake (Some i) s)"
| wake_all: "kstep s WakeAll (process_wake_all_blocked s)"

inductive_cases kstepE: "kstep s op t"

inductive reachable :: "sched \<Rightarrow> bool" where
  boot: "length (process_table s) = 16 \<Longrightarrow> current_process s = None \<Longrightarrow> reachable (process_init idle s)"
| step: "reachable s \<Longrightarrow> kstep s op t \<Longrightarrow> reachable t"

lemma kstep_inv: "kstep s op t \<Longrightarrow> sched_inv s \<Longrightarrow> sched_inv t"
  by (erule kstepE)
    (auto intro: process_create_inv process_create_user_inv process_kill_inv process_exit_inv
      process_block_inv process_yield_inv process_wake_inv process_wake_all_inv)

lemma reachable_inv: "reachable s \<Longrightarrow> sched_inv s"
  by (induction rule: reachable.induct) (auto intro: process_init_inv kstep_inv)

text \<open>
  C20. In every state reachable from \<^verbatim>\<open>process_init\<close> by the scheduler's operations, at most one
  process is marked running and it is the current one, live pids are unique, the current
  slot is in use, and no slot is ever reused: the slots in use are the first
  \<^verbatim>\<open>next_pid\<close> ones and slot \<open>i\<close> carries pid \<open>i + 1\<close>.
\<close>
theorem sched_reachable_invariant:
  assumes "reachable s"
  shows "(\<forall>i < 16. \<forall>j < 16. state_of s i = PROC_RUNNING \<and> state_of s j = PROC_RUNNING \<longrightarrow> i = j) \<and>
    (\<forall>i < 16. state_of s i = PROC_RUNNING \<longrightarrow> current_process s = Some i) \<and>
    (\<forall>i < 16. \<forall>j < 16. state_of s i \<noteq> PROC_UNUSED \<and> state_of s j \<noteq> PROC_UNUSED \<and>
       pid (process_table s ! i) = pid (process_table s ! j) \<longrightarrow> i = j) \<and>
    (\<forall>c. current_process s = Some c \<longrightarrow> c < 16 \<and> state_of s c \<noteq> PROC_UNUSED) \<and>
    (\<forall>i < 16. state_of s i \<noteq> PROC_UNUSED \<longleftrightarrow> i < unat (next_pid s)) \<and> unat (next_pid s) \<le> 16"
proof -
  note inv = reachable_inv[OF assms]
  have pids: "i = j" if "i < 16" "j < 16" "state_of s i \<noteq> PROC_UNUSED" "state_of s j \<noteq> PROC_UNUSED"
      "pid (process_table s ! i) = pid (process_table s ! j)" for i j
  proof -
    have "i < unat (next_pid s)" "j < unat (next_pid s)"
      using sched_invD(3)[OF inv, of i] sched_invD(3)[OF inv, of j] that by auto
    then have "(of_nat (Suc i) :: u32) = of_nat (Suc j)" using sched_invD(4)[OF inv] that(5) by metis
    then have "unat (of_nat (Suc i) :: u32) = unat (of_nat (Suc j) :: u32)" by (rule arg_cong)
    then show ?thesis using that(1,2) unat_of_nat_u32[of "Suc i"] unat_of_nat_u32[of "Suc j"] by (simp del: of_nat_Suc)
  qed
  have running: "i = j" if "i < 16" "j < 16" "state_of s i = PROC_RUNNING" "state_of s j = PROC_RUNNING" for i j
    using sched_invD(5)[OF inv that(1,3)] sched_invD(5)[OF inv that(2,4)] by simp
  show ?thesis
  proof (intro conjI allI impI)
    show "i = j" if "i < 16" "j < 16" "state_of s i = PROC_RUNNING \<and> state_of s j = PROC_RUNNING" for i j
      using running that by simp
    show "i = j" if "i < 16" "j < 16" "state_of s i \<noteq> PROC_UNUSED \<and> state_of s j \<noteq> PROC_UNUSED \<and>
        pid (process_table s ! i) = pid (process_table s ! j)" for i j
      using pids that by simp
    show "state_of s i \<noteq> PROC_UNUSED \<longleftrightarrow> i < unat (next_pid s)" if "i < 16" for i
      using sched_invD(3)[OF inv that] by auto
    show "current_process s = Some i" if "i < 16" "state_of s i = PROC_RUNNING" for i
      by (rule sched_invD(5)[OF inv that])
    show "c < 16" "state_of s c \<noteq> PROC_UNUSED" if "current_process s = Some c" for c
      by (rule sched_invD(2)[OF inv that], rule current_used[OF inv that])
    show "unat (next_pid s) \<le> 16" by (rule sched_invD(7)[OF inv])
  qed
qed

text \<open>A booted scheduler on a machine with paging, for the concrete instances.\<close>

definition no_proc :: process where
  "no_proc = \<lparr>p_esp = 0, pd_phys = 0, p_state = PROC_UNUSED, pid = 0, is_user = False, user_eip = 0,
     user_esp = 0, p_name = replicate 32 0\<rparr>"

definition sched0 :: sched where
  "sched0 = \<lparr>process_table = replicate 16 no_proc, current_process = None, next_pid = 0, table_addr = 0x20000,
     user_mode_addr = 0x1234, mm = boot_mm, cpu = boot_cpu, ebx = 0, esi = 0, edi = 0, ebp = 0,
     esp = 0x90000, eip = 0\<rparr>"

definition boot_sched :: sched where
  "boot_sched = process_init 0x1500 sched0"

lemma boot_sched_reachable: "reachable boot_sched"
  unfolding boot_sched_def by (rule reachable.boot) (simp_all add: sched0_def)

theorem sched_reachable_invariant_witness:
  "unat (next_pid (process_yield (fst (process_create [0x61] 0x4000 boot_sched)))) \<le> 16 \<and>
   {i. i < 16 \<and> state_of (process_yield (fst (process_create [0x61] 0x4000 boot_sched))) i = PROC_RUNNING} \<subseteq>
     set_option (current_process (process_yield (fst (process_create [0x61] 0x4000 boot_sched))))"
proof -
  define t where "t = process_yield (fst (process_create [0x61] 0x4000 boot_sched))"
  have "reachable t"
    unfolding t_def by (rule reachable.step[OF reachable.step[OF boot_sched_reachable kstep.create] kstep.yield])
  note inv = sched_reachable_invariant[OF this]
  have "state_of t i = PROC_RUNNING \<Longrightarrow> i < 16 \<Longrightarrow> i \<in> set_option (current_process t)" for i
    using conjunct1[OF conjunct2[OF inv]] by (simp add: elem_set)
  moreover have "unat (next_pid t) \<le> 16" using inv by (elim conjE)
  ultimately have "unat (next_pid t) \<le> 16 \<and> {i. i < 16 \<and> state_of t i = PROC_RUNNING} \<subseteq> set_option (current_process t)"
    by (intro conjI subsetI) (assumption, simp only: mem_Collect_eq)
  then show ?thesis by (simp only: t_def)
qed

section \<open>Context switches\<close>

text \<open>
  \<open>switch_frame m e (b, si, di, bp, ra)\<close>: the five words a suspended process keeps on its stack, from the
  saved stack pointer upwards.
\<close>

fun switch_frame :: "mem \<Rightarrow> nat \<Rightarrow> u32 \<times> u32 \<times> u32 \<times> u32 \<times> u32 \<Rightarrow> bool" where
  "switch_frame m e (b, si, di, bp, ra) \<longleftrightarrow> ld m e = b \<and> ld m (e + 4) = si \<and> ld m (e + 8) = di \<and>
     ld m (e + 12) = bp \<and> ld m (e + 16) = ra"

lemma switch_frame_cong:
  assumes "switch_frame m e r" "\<And>x. e \<le> unat x \<Longrightarrow> unat x < e + 20 \<Longrightarrow> m' x = m x" "e + 20 \<le> 4294967296"
  shows "switch_frame m' e r"
proof -
  have "ld m' (e + k) = ld m (e + k)" if "k + 4 \<le> 20" for k
    using assms(2,3) that by (intro ld_cong) simp_all
  from this[of 0] this[of 4] this[of 8] this[of 12] this[of 16]
  show ?thesis using assms(1) by (cases r) simp
qed

lemma yield_save_memory:
  assumes "esp s = of_nat (e + 16)"
  shows "memory (mm (yield_save s)) =
    st (st (st (st (memory (mm s)) (e + 12) (ebp s)) (e + 8) (edi s)) (e + 4) (esi s)) e (ebx s)"
proof -
  have a: "esp s - 4 = of_nat (e + 12)" "(of_nat (e + 12) :: u32) - 4 = of_nat (e + 8)"
      "(of_nat (e + 8) :: u32) - 4 = of_nat (e + 4)" "(of_nat (e + 4) :: u32) - 4 = of_nat e"
    by (simp_all add: assms)
  have r: "edi (push v t) = edi t" "esi (push v t) = esi t" "ebx (push v t) = ebx t" for v t
    by (simp_all add: push_def store_def on_mm_def Let_def)
  show ?thesis
    unfolding yield_save_def Let_def st_def
    by (simp add: a r del: of_nat_add split: option.split)
qed

lemma yield_save_frame:
  assumes "esp s = of_nat (e + 16)" "e + 20 \<le> 4294967296"
  shows "switch_frame (memory (mm (yield_save s))) e (ebx s, esi s, edi s, ebp s, load32 (memory (mm s)) (esp s))"
proof -
  have "load32 (memory (mm s)) (esp s) = ld (memory (mm s)) (e + 16)" by (simp only: ld_def assms(1))
  then show ?thesis
    unfolding yield_save_memory[OF assms(1)] switch_frame.simps using assms(2) by (simp add: ld_st_other)
qed

lemma yield_save_outside:
  assumes "esp s = of_nat (e + 16)" "e + 20 \<le> 4294967296" "unat x < e \<or> e + 16 \<le> unat x"
  shows "memory (mm (yield_save s)) x = memory (mm s) x"
  unfolding yield_save_memory[OF assms(1)] using assms(2,3) by (subst st_frame; auto)+

lemma yield_restore_frame:
  assumes "switch_frame (memory (mm s)) e (b, si, di, bp, ra)" "p_esp (process_table s ! n) = of_nat e"
  shows "ebx (yield_restore n s) = b \<and> esi (yield_restore n s) = si \<and> edi (yield_restore n s) = di \<and>
    ebp (yield_restore n s) = bp \<and> eip (yield_restore n s) = ra \<and> esp (yield_restore n s) = of_nat (e + 20)"
  using assms by (simp add: yield_restore_def stack_top_def ld_def Let_def algebra_simps)

text \<open>A yield that picks slot \<open>n\<close> resumes the frame that slot saved.\<close>

lemma process_yield_resumes:
  assumes "sched_next (yield_save t) = (t1, n)" "n < length (process_table t)"
    and "\<And>c. current_process t = Some c \<Longrightarrow> c < 16" "length (process_table t) = 16"
    and fr: "switch_frame (memory (mm (yield_save t))) e (b, si, di, bp, ra)"
    and e: "p_esp (process_table (yield_save t) ! n) = of_nat e"
  shows "ebx (process_yield t) = b \<and> esi (process_yield t) = si \<and> edi (process_yield t) = di \<and>
    ebp (process_yield t) = bp \<and> eip (process_yield t) = ra \<and> esp (process_yield t) = of_nat (e + 20)"
proof -
  obtain n' s1 where n': "sched_next (yield_save t) = (set_state n' PROC_RUNNING s1, n')" "n' < 16"
      "s1 = (case current_process t of None \<Rightarrow> yield_save t | Some c \<Rightarrow> requeue c (yield_save t))"
  proof (rule sched_next_cases[of "yield_save t"])
    show "c < 16" if "current_process (yield_save t) = Some c" for c using assms(3) that by simp
  qed simp
  have t1: "t1 = set_state n PROC_RUNNING s1" "n < 16" using n' assms(1) by simp_all
  have s1: "mm s1 = mm (yield_save t)" "p_esp (process_table s1 ! n) = of_nat e" "length (process_table s1) = 16"
    using e assms(3,4) unfolding n'(3) by (auto simp: requeue_def proc_set_state split: option.split)
  let ?u = "process_before_switch n (t1\<lparr>current_process := Some n\<rparr>)"
  have "process_yield t = yield_restore n ?u" unfolding process_yield_def Let_def assms(1) by simp
  moreover have "p_esp (process_table ?u ! n) = of_nat e" "memory (mm ?u) = memory (mm (yield_save t))"
    using s1 t1 by (simp_all add: proc_set_state)
  ultimately show ?thesis using yield_restore_frame[of ?u e b si di bp ra n] fr by simp
qed

text \<open>Slot \<open>c\<close> is suspended: its saved stack pointer leads to the frame \<open>r\<close>.\<close>

definition suspended :: "sched \<Rightarrow> nat \<Rightarrow> nat \<Rightarrow> u32 \<times> u32 \<times> u32 \<times> u32 \<times> u32 \<Rightarrow> bool" where
  "suspended u c e r \<longleftrightarrow> p_esp (process_table u ! c) = of_nat e \<and> switch_frame (memory (mm u)) e r \<and>
     e + 20 \<le> 4294967296"

text \<open>
  The situation in which a suspended process is resumed: another process yields, from a
  stack that does not overlap the suspended frame, and the scheduler picks \<open>c\<close>.
\<close>

definition picks :: "sched \<Rightarrow> nat \<Rightarrow> nat \<Rightarrow> bool" where
  "picks u c e \<longleftrightarrow> length (process_table u) = 16 \<and> (\<forall>d. current_process u = Some d \<longrightarrow> d < 16 \<and> d \<noteq> c) \<and>
     16 \<le> unat (esp u) \<and> unat (esp u) + 4 \<le> 4294967296 \<and> (unat (esp u) \<le> e \<or> e + 20 \<le> unat (esp u) - 16) \<and>
     snd (sched_next (yield_save u)) = c"

lemma esp_nat: "16 \<le> unat (esp u) \<Longrightarrow> esp u = of_nat ((unat (esp u) - 16) + 16)"
  by simp

lemma suspended_resumes:
  assumes "suspended u c e (b, si, di, bp, ra)" "picks u c e"
  shows "ebx (process_yield u) = b \<and> esi (process_yield u) = si \<and> edi (process_yield u) = di \<and>
    ebp (process_yield u) = bp \<and> eip (process_yield u) = ra \<and> esp (process_yield u) = of_nat (e + 20)"
proof -
  let ?k = "unat (esp u) - 16"
  have u: "length (process_table u) = 16" "\<And>d. current_process u = Some d \<Longrightarrow> d < 16 \<and> d \<noteq> c"
      "16 \<le> unat (esp u)" "unat (esp u) + 4 \<le> 4294967296" "unat (esp u) \<le> e \<or> e + 20 \<le> ?k"
      "snd (sched_next (yield_save u)) = c"
    using assms(2) by (simp_all add: picks_def)
  have pick: "sched_next (yield_save u) = (fst (sched_next (yield_save u)), c)" by (simp flip: u(6))
  have "c < 16"
  proof (rule sched_next_cases[of "yield_save u"])
    show "d < 16" if "current_process (yield_save u) = Some d" for d using u(2) that by simp
  qed (use u(6) in auto)
  have "switch_frame (memory (mm (yield_save u))) e (b, si, di, bp, ra)"
  proof (rule switch_frame_cong[of "memory (mm u)"])
    fix x :: u32 assume "e \<le> unat x" "unat x < e + 20"
    then show "memory (mm (yield_save u)) x = memory (mm u) x"
      using u(3-5) by (intro yield_save_outside[OF esp_nat]) auto
  qed (use assms(1) in \<open>simp_all add: suspended_def\<close>)
  moreover have "p_esp (process_table (yield_save u) ! c) = of_nat e"
    using assms(1) u(1,2) unfolding yield_save_def suspended_def
    by (auto simp: Let_def process_table_upd split: option.split)
  ultimately show ?thesis
    using \<open>c < 16\<close> u(1,2) by (intro process_yield_resumes[OF pick]) auto
qed

lemma suspended_cong:
  assumes "suspended t c e r" "p_esp (process_table u ! c) = p_esp (process_table t ! c)"
    and "\<And>x. e \<le> unat x \<Longrightarrow> unat x < e + 20 \<Longrightarrow> memory (mm u) x = memory (mm t) x"
  shows "suspended u c e r"
proof -
  have t: "p_esp (process_table t ! c) = of_nat e" "switch_frame (memory (mm t)) e r" "e + 20 \<le> 4294967296"
    using assms(1) unfolding suspended_def by blast+
  have "switch_frame (memory (mm u)) e r" by (rule switch_frame_cong[OF t(2) assms(3) t(3)])
  then show ?thesis using t assms(2) unfolding suspended_def by simp
qed

lemma yield_suspends:
  assumes "current_process s = Some c" "c < 16" "length (process_table s) = 16"
    and "16 \<le> unat (esp s)" "unat (esp s) + 4 \<le> 4294967296"
  shows "suspended (process_yield s) c (unat (esp s) - 16)
    (ebx s, esi s, edi s, ebp s, load32 (memory (mm s)) (esp s))"
proof -
  let ?k = "unat (esp s) - 16"
  note k = esp_nat[OF assms(4)]
  obtain n s1 where n: "sched_next (yield_save s) = (set_state n PROC_RUNNING s1, n)" "n < 16"
      "s1 = requeue c (yield_save s)"
  proof (rule sched_next_cases[of "yield_save s"])
    show "d < 16" if "current_process (yield_save s) = Some d" for d using assms(1,2) that by simp
  qed (use assms(1) in simp)
  have "p_esp (process_table (yield_save s) ! c) = of_nat ?k"
    using assms unfolding yield_save_def by (simp add: Let_def process_table_upd)
  then have "p_esp (process_table (process_yield s) ! c) = of_nat ?k"
    unfolding process_yield_table[OF n(1)] n(3) using assms(2,3) n(2) by (simp add: proc_set_state requeue_def)
  moreover have "memory (mm (process_yield s)) = memory (mm (yield_save s))"
    unfolding process_yield_def Let_def n(1) by (simp add: n(3))
  moreover have "switch_frame (memory (mm (yield_save s))) ?k (ebx s, esi s, edi s, ebp s, load32 (memory (mm s)) (esp s))"
    by (rule yield_save_frame[OF k]) (use assms(4,5) in simp)
  ultimately show ?thesis using assms(4,5) by (simp add: suspended_def)
qed

text \<open>
  C18. A context switch is transparent to the process that yields: when a later yield of some
  other process picks it again, and its saved stack pointer and the 20 bytes of its
  saved frame are still there, execution continues at the return address of the original
  call with the callee-saved registers and the stack pointer it had.
\<close>
theorem context_switch_roundtrip:
  assumes "current_process s = Some c" "c < 16" "length (process_table s) = 16"
    and "16 \<le> unat (esp s)" "unat (esp s) + 4 \<le> 4294967296"
    and "p_esp (process_table t ! c) = p_esp (process_table (process_yield s) ! c)"
    and "\<forall>x. unat (esp s) - 16 \<le> unat x \<and> unat x < unat (esp s) + 4 \<longrightarrow>
      memory (mm t) x = memory (mm (process_yield s)) x"
    and "picks t c (unat (esp s) - 16)"
  shows "ebx (process_yield t) = ebx s \<and> esi (process_yield t) = esi s \<and> edi (process_yield t) = edi s \<and>
    ebp (process_yield t) = ebp s \<and> eip (process_yield t) = load32 (memory (mm s)) (esp s) \<and>
    esp (process_yield t) = esp s + 4"
proof -
  let ?k = "unat (esp s) - 16"
  have sus: "suspended (process_yield s) c ?k (ebx s, esi s, edi s, ebp s, load32 (memory (mm s)) (esp s))"
    by (rule yield_suspends[OF assms(1-5)])
  have "suspended t c ?k (ebx s, esi s, edi s, ebp s, load32 (memory (mm s)) (esp s))"
    by (rule suspended_cong[OF sus assms(6)]) (use assms(4,7) in simp)
  moreover have "of_nat (?k + 20) = esp s + 4" using esp_nat[OF assms(4)] by (simp add: algebra_simps)
  ultimately show ?thesis using suspended_resumes[OF _ assms(8)] by metis
qed

lemma fill_slot_memory:
  assumes "kstack_top s i = of_nat (e + 20)"
  shows "memory (mm (fill_slot i f r s)) =
    st (st (st (st (st (memory (mm s)) (e + 16) r) (e + 12) 0) (e + 8) 0) (e + 4) 0) e 0"
proof -
  have k: "kstack_top (upd_proc i f (s\<lparr>next_pid := v\<rparr>)) i = of_nat (e + 20)" for v
    using assms by (simp add: kstack_top_def)
  have a: "(of_nat (e + 20) :: u32) - 4 = of_nat (e + 16)" "(of_nat (e + 16) :: u32) - 4 = of_nat (e + 12)"
      "(of_nat (e + 12) :: u32) - 4 = of_nat (e + 8)" "(of_nat (e + 8) :: u32) - 4 = of_nat (e + 4)"
      "(of_nat (e + 4) :: u32) - 4 = of_nat e"
    by simp_all
  show ?thesis
    unfolding fill_slot_def build_initial_kstack_def Let_def k a st_def by (simp add: upd_proc_def)
qed

lemma fill_slot_suspended:
  assumes "i < length (process_table s)" "20 \<le> unat (kstack_top s i)"
  shows "suspended (fill_slot i f r s) i (unat (kstack_top s i) - 20) (0, 0, 0, 0, r)"
proof -
  let ?e = "unat (kstack_top s i) - 20"
  have k: "kstack_top s i = of_nat (?e + 20)" using assms(2) by simp
  have b: "?e + 20 \<le> 4294967296" using assms(2) unat_u32[of "kstack_top s i"] by simp
  have "p_esp (process_table (fill_slot i f r s) ! i) = of_nat ?e"
    using assms by (simp add: fill_slot_table)
  moreover have "switch_frame (memory (mm (fill_slot i f r s))) ?e (0, 0, 0, 0, r)"
    unfolding fill_slot_memory[OF k] switch_frame.simps using b by (simp add: ld_st_other)
  ultimately show ?thesis using b by (simp add: suspended_def)
qed

text \<open>
  \<^verbatim>\<open>process_create\<close> prepares a process that starts at its entry point: it fails exactly when all
  16 slots are taken, and otherwise fills the next slot with a ready process whose pid is
  the incremented counter, such that the first yield that picks it (with the prepared
  frame still in place) continues at \<open>entry\<close> with zeroed callee-saved
  registers on an empty kernel stack.
\<close>
theorem process_create_first_run:
  assumes inv: "sched_inv s" and stk: "20 \<le> unat (kstack_top s (unat (next_pid s)))"
    and cr: "process_create name entry s = (t, r)"
  shows "(r = None \<longleftrightarrow> unat (next_pid s) = 16) \<and> (r = None \<longrightarrow> t = s) \<and>
    (\<forall>i. r = Some i \<longrightarrow> i = unat (next_pid s) \<and> state_of t i = PROC_READY \<and>
       pid (process_table t ! i) = next_pid s + 1 \<and>
       (\<forall>u. p_esp (process_table u ! i) = p_esp (process_table t ! i) \<longrightarrow>
          (\<forall>x. unat (kstack_top s i) - 20 \<le> unat x \<and> unat x < unat (kstack_top s i) \<longrightarrow>
             memory (mm u) x = memory (mm t) x) \<longrightarrow>
          picks u i (unat (kstack_top s i) - 20) \<longrightarrow>
          eip (process_yield u) = entry \<and> ebx (process_yield u) = 0 \<and> esi (process_yield u) = 0 \<and>
          edi (process_yield u) = 0 \<and> ebp (process_yield u) = 0 \<and> esp (process_yield u) = kstack_top s i))"
proof (cases "unat (next_pid s) < 16")
  case False
  then show ?thesis
    using cr sched_invD(7)[OF inv] unfolding process_create_fill alloc_slot_inv[OF inv] by auto
next
  case True
  define i where "i = unat (next_pid s)"
  obtain f where f: "t = fill_slot i f entry s" "r = Some i" "\<And>p. p_state (f p) = PROC_READY"
      "\<And>p. pid (f p) = next_pid s + 1"
    using cr True unfolding process_create_fill alloc_slot_inv[OF inv] i_def by auto
  have i: "i < length (process_table s)" using True sched_invD(1)[OF inv] by (simp add: i_def)
  let ?e = "unat (kstack_top s i) - 20"
  have e: "?e + 20 = unat (kstack_top s i)" using stk by (simp add: i_def)
  have sus: "suspended t i ?e (0, 0, 0, 0, entry)"
    unfolding f(1) using fill_slot_suspended[OF i] stk by (simp add: i_def)
  have run: "eip (process_yield u) = entry \<and> ebx (process_yield u) = 0 \<and> esi (process_yield u) = 0 \<and>
      edi (process_yield u) = 0 \<and> ebp (process_yield u) = 0 \<and> esp (process_yield u) = kstack_top s i"
    if u: "p_esp (process_table u ! i) = p_esp (process_table t ! i)" "picks u i ?e"
      "\<forall>x. ?e \<le> unat x \<and> unat x < unat (kstack_top s i) \<longrightarrow> memory (mm u) x = memory (mm t) x" for u
  proof -
    have "suspended u i ?e (0, 0, 0, 0, entry)"
      by (rule suspended_cong[OF sus u(1)]) (use u(3) e in simp)
    from suspended_resumes[OF this u(2)] show ?thesis by (simp add: e)
  qed
  have "state_of t i = PROC_READY" "pid (process_table t ! i) = next_pid s + 1"
    using i by (simp_all add: f state_of_def fill_slot_table)
  then show ?thesis using run f(2) True by (auto simp: i_def)
qed

text \<open>
  A concrete run: the idle process and one thread created next to it; the idle process yields
  to the thread, which yields back.
\<close>

definition demo1 :: sched where
  "demo1 = (fst (process_create [0x61] 0x4000 boot_sched))\<lparr>current_process := Some 0, esp := 0x80000\<rparr>"

lemma boot_sched_facts:
  "sched_inv boot_sched" "next_pid boot_sched = 1" "table_addr boot_sched = 0x20000" "current_process boot_sched = None"
proof -
  show "sched_inv boot_sched" by (rule reachable_inv[OF boot_sched_reachable])
  have "alloc_slot (sched0\<lparr>process_table := map (\<lambda>p. p\<lparr>p_state := PROC_UNUSED, pid := 0, pd_phys := 0,
      is_user := False\<rparr>) (process_table sched0), next_pid := 0\<rparr>) = Some 0"
    unfolding alloc_slot_def MAX_PROCESSES_def find_upt_least by (simp add: state_of_def sched0_def)
  then show "next_pid boot_sched = 1" "table_addr boot_sched = 0x20000" "current_process boot_sched = None"
    unfolding boot_sched_def process_init_def process_create_fill Let_def
    by (simp_all add: fill_slot_table) (simp_all add: fill_slot_def sched0_def Let_def)
qed

lemma boot_kstack: "unat (kstack_top boot_sched 1) = 147576"
  by (simp add: kstack_top_def boot_sched_facts PROCESS_KSTACK_SIZE_def)

lemma demo1_facts:
  "sched_inv (fst (process_create [0x61] 0x4000 boot_sched))"
  "process_create [0x61] 0x4000 boot_sched = (fst (process_create [0x61] 0x4000 boot_sched), Some 1)"
  "length (process_table demo1) = 16" "current_process demo1 = Some 0" "esp demo1 = 0x80000"
  "i < 16 \<Longrightarrow> state_of demo1 i = (if i < 2 then PROC_READY else PROC_UNUSED)"
proof -
  let ?t = "fst (process_create [0x61] 0x4000 boot_sched)"
  show inv: "sched_inv ?t" by (rule process_create_inv[OF boot_sched_facts(1)])
  show cr: "process_create [0x61] 0x4000 boot_sched = (?t, Some 1)"
    unfolding process_create_fill alloc_slot_inv[OF boot_sched_facts(1)] by (simp add: boot_sched_facts)
  show "length (process_table demo1) = 16" "current_process demo1 = Some 0" "esp demo1 = 0x80000"
    using sched_invD(1)[OF inv] by (simp_all add: demo1_def)
  have "state_of boot_sched 0 = PROC_READY"
    unfolding boot_sched_def process_init_def process_create_fill Let_def alloc_slot_def MAX_PROCESSES_def
    by (simp add: sched0_def state_of_def fill_slot_table find_upt_least upt_rec[of 0 16])
  moreover have "state_of boot_sched i = PROC_UNUSED" if "i < 16" "1 \<le> i" for i
    using sched_invD(3)[OF boot_sched_facts(1), of i] that by (simp add: boot_sched_facts)
  moreover have "state_of demo1 i = (if i = 1 then PROC_READY else state_of boot_sched i)" if "i < 16" for i
    using that sched_invD(1)[OF boot_sched_facts(1)]
    unfolding demo1_def process_create_fill alloc_slot_inv[OF boot_sched_facts(1)]
    by (simp add: boot_sched_facts state_of_def fill_slot_table nth_list_update)
  ultimately show "state_of demo1 i = (if i < 2 then PROC_READY else PROC_UNUSED)" if "i < 16"
    using that by (cases "i = 0"; cases "i = 1") auto
qed

lemma sched_next_first:
  assumes "current_process u = Some c" "c < 16" "n \<in> ready_set (requeue c u)"
    and "\<And>i. i \<in> ready_set (requeue c u) \<Longrightarrow> i \<noteq> n \<Longrightarrow> ahead c n < ahead c i"
  shows "sched_next u = (set_state n PROC_RUNNING (requeue c u), n)"
  using sched_next_current(2)[OF assms(1,2)] assms(3,4) by (metis empty_iff not_le)

lemma demo1_save: "state_of (yield_save demo1) i = state_of demo1 i"
  by (rule yield_save_proc) (auto simp: demo1_facts)

lemma demo1_pick: "sched_next (yield_save demo1) = (set_state 1 PROC_RUNNING (requeue 0 (yield_save demo1)), 1)"
proof -
  have st: "state_of (requeue 0 (yield_save demo1)) i = (if i < 2 then PROC_READY else PROC_UNUSED)" if "i < 16" for i
    using that by (simp add: state_of_requeue demo1_save demo1_facts)
  then have "ready_set (requeue 0 (yield_save demo1)) = {0, 1}"
    unfolding ready_set_def set_eq_iff by (auto split: if_splits)
  then show ?thesis by (intro sched_next_first) (auto simp: demo1_facts ahead_def)
qed

lemma demo1_picks: "picks demo1 1 (unat (kstack_top boot_sched 1) - 20)"
  unfolding picks_def boot_kstack by (simp add: demo1_facts demo1_pick)

lemma demo1_esp: "esp (process_yield demo1) = 0x24078"
proof -
  let ?e = "unat (kstack_top boot_sched 1) - 20"
  obtain f where f: "fst (process_create [0x61] 0x4000 boot_sched) = fill_slot 1 f 0x4000 boot_sched"
    unfolding process_create_fill alloc_slot_inv[OF boot_sched_facts(1)] by (simp add: boot_sched_facts)
  have "suspended (fill_slot 1 f 0x4000 boot_sched) 1 ?e (0, 0, 0, 0, 0x4000)"
    using sched_invD(1)[OF boot_sched_facts(1)] boot_kstack by (intro fill_slot_suspended) simp_all
  then have "suspended demo1 1 ?e (0, 0, 0, 0, 0x4000)"
    by (rule suspended_cong) (simp_all add: demo1_def f)
  from suspended_resumes[OF this demo1_picks] show ?thesis unfolding boot_kstack by simp
qed

theorem process_create_first_run_witness:
  "eip (process_yield demo1) = 0x4000 \<and> esp (process_yield demo1) = kstack_top boot_sched 1 \<and>
   kstack_top boot_sched 1 = 0x24078"
proof -
  note demo1_picks
  moreover have "kstack_top boot_sched 1 = 0x24078"
    using boot_kstack by (simp add: kstack_top_def boot_sched_facts PROCESS_KSTACK_SIZE_def)
  ultimately show ?thesis
    using process_create_first_run[OF boot_sched_facts(1) _ demo1_facts(2)] boot_kstack
    by (simp add: boot_sched_facts) (simp add: demo1_def)
qed

lemma demo2_pick:
  "sched_next (yield_save (process_yield demo1)) =
    (set_state 0 PROC_RUNNING (requeue 1 (yield_save (process_yield demo1))), 0)"
proof -
  note t = process_yield_table[OF demo1_pick] state_of_process_yield[OF demo1_pick]
  have len: "length (process_table (process_yield demo1)) = 16" by (simp add: t demo1_facts)
  have sv: "state_of (yield_save (process_yield demo1)) i = state_of (process_yield demo1) i" for i
    by (rule yield_save_proc) (auto simp: t(2) len)
  have "state_of (process_yield demo1) i = (if i = 1 then PROC_RUNNING else if i = 0 then PROC_READY else PROC_UNUSED)"
    if "i < 16" for i
    using that unfolding t by (simp add: state_of_set_state state_of_requeue demo1_save demo1_facts)
  then have st: "state_of (requeue 1 (yield_save (process_yield demo1))) i = (if i < 2 then PROC_READY else PROC_UNUSED)"
    if "i < 16" for i
    using that len sv by (auto simp: state_of_requeue)
  then have "ready_set (requeue 1 (yield_save (process_yield demo1))) = {0, 1}"
    unfolding ready_set_def set_eq_iff by (auto split: if_splits)
  then show ?thesis by (intro sched_next_first) (auto simp: t(2) ahead_def)
qed

theorem context_switch_roundtrip_witness:
  "eip (process_yield (process_yield demo1)) = load32 (memory (mm demo1)) 0x80000 \<and>
   esp (process_yield (process_yield demo1)) = 0x80004"
proof -
  note demo1_esp
  then have "picks (process_yield demo1) 0 (unat (esp demo1) - 16)"
    unfolding picks_def
    by (simp add: demo2_pick process_yield_table[OF demo1_pick] demo1_facts)
  then show ?thesis
    using context_switch_roundtrip[of demo1 0 "process_yield demo1"] by (simp add: demo1_facts)
qed

section \<open>Fairness\<close>

text \<open>
  The slots picked by successive context switches, with an arbitrary environment step (whatever
  the processes, drivers and system calls do) before each of them.
\<close>

fun sched_run :: "(sched \<Rightarrow> sched) list \<Rightarrow> sched \<Rightarrow> nat list" where
  "sched_run [] s = []"
| "sched_run (f # fs) s = (let (s', n) = sched_next (f s) in n # sched_run fs (s'\<lparr>current_process := Some n\<rparr>))"

text \<open>An environment step that leaves the current slot and the readiness of slot \<open>j\<close> alone.\<close>

definition keeps_ready :: "nat \<Rightarrow> (sched \<Rightarrow> sched) \<Rightarrow> bool" where
  "keeps_ready j f \<longleftrightarrow> (\<forall>s. length (process_table (f s)) = length (process_table s) \<and>
     current_process (f s) = current_process s \<and> (state_of s j = PROC_READY \<longrightarrow> state_of (f s) j = PROC_READY))"

lemma sched_next_progress:
  assumes "current_process s = Some c" "c < 16" "length (process_table s) = 16" "j < 16" "state_of s j = PROC_READY"
    and "sched_next s = (s', n)"
  shows "n < 16 \<and> (n = j \<or> ahead n j < ahead c j \<and> state_of s' j = PROC_READY) \<and> length (process_table s') = 16"
proof -
  have j: "j \<in> ready_set (requeue c s)" using assms(2-5) by (simp add: ready_set_def state_of_requeue)
  then obtain n' where n: "n' \<in> ready_set (requeue c s)" "ahead c n' \<le> ahead c j"
      "sched_next s = (set_state n' PROC_RUNNING (requeue c s), n')"
    using sched_next_current(2)[OF assms(1,2)] by blast
  have n16: "n' < 16" using n(1) by (simp add: ready_set_def)
  have "ahead c n' < ahead c j" if "n' \<noteq> j"
  proof -
    have "ahead c n' \<noteq> ahead c j"
      using ahead_mod[OF assms(2) n16] ahead_mod[OF assms(2,4)] that by metis
    then show ?thesis using n(2) by simp
  qed
  then show ?thesis
    using n assms(2-6) n16 ahead_chain[OF assms(2) n16 assms(4)] j
    by (auto simp: state_of_set_state ready_set_def)
qed

lemma sched_run_picks:
  assumes "current_process s = Some c" "c < 16" "length (process_table s) = 16" "j < 16" "state_of s j = PROC_READY"
    and "\<And>f. f \<in> set fs \<Longrightarrow> keeps_ready j f" "ahead c j \<le> length fs"
  shows "j \<in> set (take (ahead c j) (sched_run fs s))"
  using assms
proof (induction fs arbitrary: s c)
  case Nil
  then show ?case using ahead_bounds[of c j] by simp
next
  case (Cons f fs)
  have f: "length (process_table (f s)) = 16" "current_process (f s) = Some c" "state_of (f s) j = PROC_READY"
    using Cons.prems(1,3,5) Cons.prems(6)[of f] by (simp_all add: keeps_ready_def)
  obtain s' n where n: "sched_next (f s) = (s', n)" by fastforce
  note pr = sched_next_progress[OF f(2) Cons.prems(2) f(1) Cons.prems(4) f(3) n]
  have run: "sched_run (f # fs) s = n # sched_run fs (s'\<lparr>current_process := Some n\<rparr>)" by (simp add: n)
  obtain d where d: "ahead c j = Suc d" using ahead_bounds[OF Cons.prems(2,4)] by (cases "ahead c j") auto
  show ?case
  proof (cases "n = j")
    case True
    then show ?thesis unfolding run d by simp
  next
    case False
    let ?t = "s'\<lparr>current_process := Some n\<rparr>"
    have le: "ahead n j \<le> d" using pr False d by simp
    have "j \<in> set (take (ahead n j) (sched_run fs ?t))"
    proof (rule Cons.IH)
      show "state_of ?t j = PROC_READY" using pr False by (simp add: state_of_def)
      show "ahead n j \<le> length fs" using le d Cons.prems(7) by simp
    qed (use pr Cons.prems(4,6) in auto)
    then have "j \<in> set (take d (sched_run fs ?t))"
      by (rule subsetD[OF set_take_subset_set_take[OF le]])
    then show ?thesis unfolding run d by simp
  qed
qed

text \<open>
  C19. Round-robin scheduling is fair: a process that stays ready is picked within the
  next 16 context switches, whatever happens to the other processes in between; more
  exactly, after at most as many switches as it is slots ahead of the current one.
\<close>
theorem round_robin_fairness:
  assumes "sched_inv s" "current_process s = Some c" "j < 16" "state_of s j = PROC_READY"
    and "\<forall>f \<in> set fs. keeps_ready j f" "16 \<le> length fs"
  shows "j \<in> set (take (ahead c j) (sched_run fs s)) \<and> ahead c j \<le> 16"
proof -
  have c: "c < 16" by (rule sched_invD(2)[OF assms(1,2)])
  have "ahead c j \<le> 16" using ahead_bounds[OF c assms(3)] by simp
  then show ?thesis
    using sched_run_picks[OF assms(2) c sched_invD(1)[OF assms(1)] assms(3,4)] assms(5,6) by auto
qed

theorem round_robin_fairness_witness:
  "1 \<in> set (take 1 (sched_run (replicate 16 id) demo1))"
proof -
  let ?t = "fst (process_create [0x61] 0x4000 boot_sched)"
  note inv = sched_invD[OF demo1_facts(1)]
  have same: "process_table demo1 = process_table ?t" "next_pid demo1 = next_pid ?t" by (simp_all add: demo1_def)
  have "sched_inv demo1"
  proof (rule sched_invI; (unfold same)?)
    show "state_of demo1 i = PROC_UNUSED \<longleftrightarrow> unat (next_pid ?t) \<le> i" if "i < 16" for i
      using inv(3)[OF that] by (simp add: state_of_def same)
    show "pid (process_table ?t ! i) = of_nat (Suc i)" if "i < unat (next_pid ?t)" for i by (rule inv(4)[OF that])
    show "current_process demo1 = Some i" if "i < 16" "state_of demo1 i = PROC_RUNNING" for i
      using demo1_facts(6)[OF that(1)] that(2) by (simp split: if_splits)
    show "c < unat (next_pid ?t)" if "current_process demo1 = Some c" for c
      using inv(6) that by (simp add: demo1_facts(4))
  qed (rule inv(1) inv(6) inv(7))+
  moreover have "keeps_ready 1 id" by (simp add: keeps_ready_def)
  ultimately show ?thesis
    using round_robin_fairness[of demo1 0 1 "replicate 16 id"] by (simp add: demo1_facts ahead_def)
qed

text \<open>
  After a context switch the processor is set up for the process that runs: CR3 holds its page
  directory, or the kernel's when it has none of its own, and the task state segment holds the top of its
  kernel stack for the next entry from ring 3.
\<close>
theorem yield_switches_context:
  assumes "current_process (process_yield s) = Some n"
  shows "cr3 (mm (process_yield s)) =
      (if pd_phys (process_table (process_yield s) ! n) \<noteq> 0 then pd_phys (process_table (process_yield s) ! n)
       else page_directory (mm (process_yield s))) \<and>
    esp0 (tss (cpu (process_yield s))) = kstack_top (process_yield s) n"
proof -
  obtain s1 n' where n': "sched_next (yield_save s) = (s1, n')" by fastforce
  then have "n' = n" using assms process_yield_table(2) by simp
  let ?t = "s1\<lparr>current_process := Some n\<rparr>"
  have y: "process_yield s = yield_restore n (process_before_switch n ?t)"
    unfolding process_yield_def Let_def n' \<open>n' = n\<close> by simp
  have k: "kstack_top (yield_restore n u) i = kstack_top u i" "kstack_top (process_before_switch n u) i = kstack_top u i" for u i
    by (simp_all add: kstack_top_def yield_restore_def process_before_switch_def Let_def)
  show ?thesis
    unfolding y k
    by (auto simp: process_before_switch_def Let_def paging_switch_def paging_get_cr3_def
        paging_get_kernel_pd_phys_def tss_set_kernel_stack_def kstack_top_def)
qed

theorem yield_switches_context_witness:
  "cr3 (mm (process_yield demo1)) = page_directory (mm (process_yield demo1)) \<and>
   esp0 (tss (cpu (process_yield demo1))) = kstack_top (process_yield demo1) 1"
proof -
  obtain f where f: "fst (process_create [0x61] 0x4000 boot_sched) = fill_slot 1 f 0x4000 boot_sched" "\<And>p. pd_phys (f p) = 0"
    unfolding process_create_fill alloc_slot_inv[OF boot_sched_facts(1)] by (simp add: boot_sched_facts)
  have "pd_phys (process_table demo1 ! 1) = 0"
    using sched_invD(1)[OF boot_sched_facts(1)] by (simp add: demo1_def f fill_slot_table)
  moreover have "pd_phys (process_table (yield_save demo1) ! 1) = pd_phys (process_table demo1 ! 1)"
    by (rule yield_save_proc(3)) (auto simp: demo1_facts)
  ultimately have "pd_phys (process_table (process_yield demo1) ! 1) = 0"
    unfolding process_yield_table[OF demo1_pick] by (simp add: proc_set_state requeue_def demo1_facts)
  then show ?thesis
    using yield_switches_context[of demo1 1] process_yield_table(2)[OF demo1_pick] by simp
qed

end
