(* ===== verification/Irq.thy ===== *)
theory Irq
  imports Devices Process
begin

text \<open>
  Hardware interrupts: the handler table and dispatcher of \<^verbatim>\<open>kernel/isr.c\<close> and the timer of
  \<^verbatim>\<open>kernel/timer.c\<close>. The state of the drivers is one record: the machine behind the ports, the
  scheduler, the handler table, the tick counter and the variables of the keyboard driver, whose
  operations follow in the next theory.
\<close>

section \<open>The state of the drivers\<close>

text \<open>The two handlers the kernel ever registers stand for the function pointers of the table.\<close>

datatype irq_fn = Timer_irq | Keyboard_irq

record 'd drv =
  dev :: 'd
  dsched :: sched
  irq_handlers :: "irq_fn option list"
  ticks :: u32
  kb_buf :: "u8 list"
  kb_head :: u8
  kb_tail :: u8
  shift_pressed :: bool
  extended_code :: bool

definition irq_register_handler :: "u8 \<Rightarrow> irq_fn option \<Rightarrow> 'd drv \<Rightarrow> 'd drv" where
  "irq_register_handler irq handler s =
     (if irq < 16 then s\<lparr>irq_handlers := (irq_handlers s)[unat irq := handler]\<rparr> else s)"

section \<open>The timer\<close>

definition TIMER_HZ :: u32 where [kconst]: "TIMER_HZ = 100"
definition SCHED_SLICE :: u32 where [kconst]: "SCHED_SLICE = 5"
definition PIT_FREQ :: u32 where [kconst]: "PIT_FREQ = 1193182"
definition PIT_DIVISOR :: u32 where [kconst]: "PIT_DIVISOR = PIT_FREQ div TIMER_HZ"

text \<open>
  A handler that switches to another process does not come back to its caller before it is
  scheduled again; the flag says that the switch happened.
\<close>

definition timer_irq_handler :: "'d io \<Rightarrow> 'd drv \<Rightarrow> 'd drv \<times> bool" where
  "timer_irq_handler io s =
     (let s = s\<lparr>ticks := ticks s + 1\<rparr>
      in if ticks s mod SCHED_SLICE = 0 \<and> current_process (dsched s) \<noteq> None
         then (s\<lparr>dev := pic_send_eoi io 0 (dev s), dsched := process_yield (dsched s)\<rparr>, True)
         else (s, False))"

definition timer_init :: "'d io \<Rightarrow> 'd drv \<Rightarrow> 'd drv" where
  "timer_init io s =
     (let s = s\<lparr>ticks := 0\<rparr>;
          s = s\<lparr>dev := outb io 0x43 0x34 (dev s)\<rparr>;
          s = s\<lparr>dev := outb io 0x40 (ucast (PIT_DIVISOR AND 0xFF)) (dev s)\<rparr>;
          s = s\<lparr>dev := outb io 0x40 (ucast (drop_bit 8 PIT_DIVISOR AND 0xFF)) (dev s)\<rparr>;
          s = irq_register_handler 0 (Some Timer_irq) s
      in s\<lparr>dev := pic_unmask_irq io 0 (dev s)\<rparr>)"

definition timer_get_ticks :: "'d drv \<Rightarrow> u32" where
  "timer_get_ticks s = ticks s"

definition timer_get_uptime_sec :: "'d drv \<Rightarrow> u32" where
  "timer_get_uptime_sec s = ticks s div TIMER_HZ"

end
