(* ===== verification/Fifo.thy ===== *)
theory Fifo
  imports Prelude
begin

text \<open>
  The interface of a bounded first-in first-out buffer, which the pipe ring
  buffers and the keyboard ring buffer both provide, with the lemmas about circular
  arrays that their interpretations share. What clients rely on is proved once: any
  interleaving of writes and reads behaves as on a list.
\<close>

section \<open>The specification\<close>

datatype 'a fifo_op = Put 'a | Get

text \<open>
  Operations on a list with a capacity: the final contents, the values read, and the values
  that were accepted (a write to a full buffer is dropped).
\<close>

fun q_run :: "nat \<Rightarrow> 'a fifo_op list \<Rightarrow> 'a list \<Rightarrow> 'a list \<times> 'a list \<times> 'a list" where
  "q_run cap [] q = (q, [], [])"
| "q_run cap (Put x # ops) q =
     (if length q < cap then let (q', out, acc) = q_run cap ops (q @ [x]) in (q', out, x # acc)
      else q_run cap ops q)"
| "q_run cap (Get # ops) q =
     (case q of [] \<Rightarrow> q_run cap ops []
      | x # xs \<Rightarrow> let (q', out, acc) = q_run cap ops xs in (q', x # out, acc))"

lemma q_run_order: "q_run cap ops q = (q', out, acc) \<Longrightarrow> q @ acc = out @ q'"
  by (induction cap ops q arbitrary: q' out acc rule: q_run.induct)
    (auto split: if_splits list.splits prod.splits)

text \<open>The same operations on an implementation.\<close>

fun fifo_run :: "('a \<Rightarrow> 's \<Rightarrow> 's) \<Rightarrow> ('s \<Rightarrow> ('a \<times> 's) option) \<Rightarrow> 'a fifo_op list \<Rightarrow> 's \<Rightarrow> 's \<times> 'a list" where
  "fifo_run put get [] s = (s, [])"
| "fifo_run put get (Put x # ops) s = fifo_run put get ops (put x s)"
| "fifo_run put get (Get # ops) s =
     (case get s of None \<Rightarrow> fifo_run put get ops s
      | Some (x, s) \<Rightarrow> let (s, out) = fifo_run put get ops s in (s, x # out))"

locale bounded_fifo =
  fixes inv :: "'s \<Rightarrow> bool"
    and contents :: "'s \<Rightarrow> 'a list"
    and cap :: nat
    and put :: "'a \<Rightarrow> 's \<Rightarrow> 's"
    and get :: "'s \<Rightarrow> ('a \<times> 's) option"
  assumes put_room: "inv s \<Longrightarrow> length (contents s) < cap \<Longrightarrow> inv (put x s) \<and> contents (put x s) = contents s @ [x]"
    and put_full: "inv s \<Longrightarrow> \<not> length (contents s) < cap \<Longrightarrow> inv (put x s) \<and> contents (put x s) = contents s"
    and get_some: "inv s \<Longrightarrow> contents s = x # xs \<Longrightarrow> \<exists>s'. get s = Some (x, s') \<and> inv s' \<and> contents s' = xs"
    and get_none: "inv s \<Longrightarrow> contents s = [] \<Longrightarrow> get s = None"
begin

lemma run_refines:
  assumes "inv s" "fifo_run put get ops s = (s', out)"
  shows "inv s' \<and> (\<exists>acc. q_run cap ops (contents s) = (contents s', out, acc))"
  using assms
proof (induction ops arbitrary: s out)
  case (Cons op ops)
  show ?case
  proof (cases op)
    case (Put x)
    then have run: "fifo_run put get ops (put x s) = (s', out)" using Cons.prems(2) by simp
    show ?thesis
    proof (cases "length (contents s) < cap")
      case True
      with put_room[OF Cons.prems(1) True, of x] Cons.IH[OF _ run] Put show ?thesis by fastforce
    next
      case False
      with put_full[OF Cons.prems(1) False, of x] Cons.IH[OF _ run] Put show ?thesis by simp
    qed
  next
    case Get
    show ?thesis
    proof (cases "contents s")
      case Nil
      then show ?thesis
        using Cons.prems get_none[OF Cons.prems(1) Nil] Cons.IH[of s out] Get by simp
    next
      case (Cons x xs)
      obtain t where t: "get s = Some (x, t)" "inv t" "contents t = xs"
        using get_some[OF Cons.prems(1) Cons] by blast
      obtain o' where o': "fifo_run put get ops t = (s', o')" "out = x # o'"
        using Cons.prems(2) Get t(1) by (auto split: prod.splits)
      then show ?thesis using Cons.IH[OF t(2) o'(1)] t(3) Get Cons by auto
    qed
  qed
qed simp

text \<open>What was in the buffer and what was accepted comes out in order; the rest is still there.\<close>

lemma run_fifo:
  assumes "inv s" "fifo_run put get ops s = (s', out)"
  obtains acc where "inv s'" "contents s @ acc = out @ contents s'"
    "q_run cap ops (contents s) = (contents s', out, acc)"
  using run_refines[OF assms] q_run_order by metis

lemma put_all:
  assumes "inv s"
  shows "inv (fold put xs s) \<and> contents (fold put xs s) = contents s @ take (cap - length (contents s)) xs"
  using assms
proof (induction xs arbitrary: s)
  case (Cons x xs)
  show ?case
  proof (cases "length (contents s) < cap")
    case True
    note p = put_room[OF Cons.prems True, of x]
    obtain d where d: "cap - length (contents s) = Suc d" using True by (cases "cap - length (contents s)") auto
    then have "cap - Suc (length (contents s)) = d" by simp
    then show ?thesis using Cons.IH[of "put x s"] p d by simp
  next
    case False
    then show ?thesis using Cons.IH[of "put x s"] put_full[OF Cons.prems False, of x] by simp
  qed
qed simp

end

section \<open>Circular arrays\<close>

definition ring_list :: "nat \<Rightarrow> 'a list \<Rightarrow> nat \<Rightarrow> nat \<Rightarrow> 'a list" where
  "ring_list n buf h c = map (\<lambda>i. buf ! ((h + i) mod n)) [0 ..< c]"

lemma length_ring_list [simp]: "length (ring_list n buf h c) = c"
  by (simp add: ring_list_def)

lemma ring_index_inj:
  assumes "i < n" "j < n" "(h + i) mod n = (h + j) mod (n :: nat)"
  shows "i = j"
proof -
  have le: "a = b" if "a \<le> b" "b < n" "(h + a) mod n = (h + b) mod n" for a b
  proof -
    have "n dvd (h + b) - (h + a)" using that mod_eq_dvd_iff_nat[of "h + a" "h + b" n] by simp
    then have "n dvd b - a" by simp
    then show ?thesis using that(1,2) by (auto dest: dvd_imp_le)
  qed
  show ?thesis using le[of i j] le[of j i] assms by (cases "i \<le> j") auto
qed

lemma ring_push:
  assumes "c < n" "length buf = n" "h < n"
  shows "ring_list n (buf[(h + c) mod n := x]) h (Suc c) = ring_list n buf h c @ [x]"
proof -
  have "buf[(h + c) mod n := x] ! ((h + i) mod n) = buf ! ((h + i) mod n)" if "i < c" for i
    using ring_index_inj[of c n i h] that assms by (auto simp: nth_list_update)
  then show ?thesis using assms by (auto simp: ring_list_def)
qed

lemma ring_pop:
  assumes "h < n"
  shows "ring_list n buf h (Suc c) = buf ! h # ring_list n buf ((h + 1) mod n) c"
proof -
  have "ring_list n buf h (Suc c) = buf ! (h mod n) # map (\<lambda>i. buf ! ((h + Suc i) mod n)) [0 ..< c]"
    unfolding ring_list_def by (simp add: upt_conv_Cons map_Suc_upt[symmetric] del: upt_Suc)
  then show ?thesis using assms by (simp add: ring_list_def mod_simps)
qed

end
