(* ===== verification/Keyboard.thy ===== *)
theory Keyboard
  imports Irq Fifo
begin

text \<open>
  The keyboard driver, \<^verbatim>\<open>kernel/keyboard.c\<close>: scancode translation, the ring buffer between the
  interrupt handler and the readers. The ring buffer refines a bounded queue of 63 characters, and the
  translation inverts the keystrokes of every character the layout has.
\<close>

section \<open>The code\<close>

definition KB_BUF_SIZE :: u32 where [kconst]: "KB_BUF_SIZE = 64"
definition KEY_UP :: u8 where [kconst]: "KEY_UP = 0x80"
definition KEY_DOWN :: u8 where [kconst]: "KEY_DOWN = 0x81"
definition KEY_LEFT :: u8 where [kconst]: "KEY_LEFT = 0x82"
definition KEY_RIGHT :: u8 where [kconst]: "KEY_RIGHT = 0x83"

text \<open>Rows 0x00, 0x10, 0x1E and 0x2A of the two tables start a line each; 39, 96 and 92 are \<^verbatim>\<open>' ` \\<close>.\<close>

definition scancode_ascii :: "u8 list" where
  "scancode_ascii =
     [0, 0] @ chars ''1234567890-='' @ [8, 9] @
     chars ''qwertyuiop[]'' @ [10, 0] @
     chars ''asdfghjkl;'' @ [39, 96] @
     [0, 92] @ chars ''zxcvbnm,./'' @ [0] @ chars ''*'' @ [0] @ chars '' ''"

definition scancode_ascii_shift :: "u8 list" where
  "scancode_ascii_shift =
     [0, 0] @ chars ''!@#$%^&*()_+'' @ [8, 9] @
     chars ''QWERTYUIOP{}'' @ [10, 0] @
     chars ''ASDFGHJKL:'' @ [34, 126] @
     [0, 124] @ chars ''ZXCVBNM<>?'' @ [0] @ chars ''*'' @ [0] @ chars '' ''"

definition kb_next :: "u8 \<Rightarrow> u8" where
  "kb_next i = ucast ((ucast i + 1 :: u32) mod KB_BUF_SIZE)"

definition kb_push :: "u8 \<Rightarrow> 'd drv \<Rightarrow> 'd drv" where
  "kb_push c s =
     (let next = kb_next (kb_tail s);
          s = (if next \<noteq> kb_head s
               then s\<lparr>kb_buf := (kb_buf s)[unat (kb_tail s) := c], kb_tail := next\<rparr> else s)
      in s\<lparr>dsched := process_wake_all_blocked (dsched s)\<rparr>)"

definition keyboard_scancode :: "u8 \<Rightarrow> 'd drv \<Rightarrow> 'd drv" where
  "keyboard_scancode scancode s =
     (if scancode = 0xE0 then s\<lparr>extended_code := True\<rparr>
      else if extended_code s then
        let s = s\<lparr>extended_code := False\<rparr>
        in if scancode AND 0x80 = 0 then
             let special = (if scancode = 0x48 then KEY_UP else if scancode = 0x50 then KEY_DOWN
                            else if scancode = 0x4B then KEY_LEFT else if scancode = 0x4D then KEY_RIGHT else 0)
             in if special \<noteq> 0 then kb_push special s else s
           else s
      else if scancode AND 0x80 \<noteq> 0 then
        let released = scancode AND 0x7F
        in if released = 0x2A \<or> released = 0x36 then s\<lparr>shift_pressed := False\<rparr> else s
      else if scancode = 0x2A \<or> scancode = 0x36 then s\<lparr>shift_pressed := True\<rparr>
      else if unat scancode < length scancode_ascii then
        let c = (if shift_pressed s then scancode_ascii_shift ! unat scancode else scancode_ascii ! unat scancode)
        in if c \<noteq> 0 then kb_push c s else s
      else s)"

definition keyboard_irq_handler :: "'d io \<Rightarrow> 'd drv \<Rightarrow> 'd drv" where
  "keyboard_irq_handler io s =
     (let (scancode, d) = inb io 0x60 (dev s) in keyboard_scancode scancode (s\<lparr>dev := d\<rparr>))"

definition keyboard_init :: "'d io \<Rightarrow> 'd drv \<Rightarrow> 'd drv" where
  "keyboard_init io s =
     (let s = s\<lparr>shift_pressed := False, extended_code := False, kb_head := 0, kb_tail := 0\<rparr>;
          s = irq_register_handler 1 (Some Keyboard_irq) s
      in s\<lparr>dev := pic_unmask_irq io 1 (dev s)\<rparr>)"

text \<open>
  A reader runs until it has a character, until \<^verbatim>\<open>process_block\<close> has switched away, or until \<^verbatim>\<open>hlt\<close> waits
  for an interrupt; in the last two cases it starts over when it runs again.
\<close>

datatype getchar_result = Char_read u8 | Blocked | Halted

definition keyboard_getchar :: "'d drv \<Rightarrow> 'd drv \<times> getchar_result" where
  "keyboard_getchar s =
     (if kb_head s = kb_tail s then
        (if current_process (dsched s) \<noteq> None
         then (s\<lparr>dsched := process_block (dsched s)\<rparr>, Blocked) else (s, Halted))
      else (s\<lparr>kb_head := kb_next (kb_head s)\<rparr>, Char_read (kb_buf s ! unat (kb_head s))))"

section \<open>The ring buffer is a bounded queue\<close>

definition kb_inv :: "'d drv \<Rightarrow> bool" where
  "kb_inv s \<longleftrightarrow> length (kb_buf s) = 64 \<and> unat (kb_head s) < 64 \<and> unat (kb_tail s) < 64"

definition kb_used :: "'d drv \<Rightarrow> nat" where
  "kb_used s = (64 + unat (kb_tail s) - unat (kb_head s)) mod 64"

definition kb_contents :: "'d drv \<Rightarrow> u8 list" where
  "kb_contents s = ring_list 64 (kb_buf s) (unat (kb_head s)) (kb_used s)"

lemma length_kb_contents [simp]: "length (kb_contents s) = kb_used s"
  by (simp add: kb_contents_def)

lemma unat_kb_next: "unat i < 64 \<Longrightarrow> unat (kb_next i) = (unat i + 1) mod 64"
proof -
  assume i: "unat i < 64"
  have "unat (ucast i + 1 :: u32) = unat i + 1"
    using unat_plus_u32[of "ucast i" 1] i by (simp add: unsigned_ucast_eq take_bit_nat_eq_self)
  then have "unat ((ucast i + 1 :: u32) mod KB_BUF_SIZE) = (unat i + 1) mod 64"
    by (simp add: unat_mod KB_BUF_SIZE_def)
  then show ?thesis unfolding kb_next_def by (simp add: unsigned_ucast_eq take_bit_eq_mod)
qed

lemma ring_used:
  fixes h t :: nat
  assumes "h < 64" "t < 64"
  shows "t = (h + (64 + t - h) mod 64) mod 64" "(64 + (t + 1) mod 64 - h) mod 64 = ((64 + t - h) mod 64 + 1) mod 64"
    "(t + 1) mod 64 = h \<longleftrightarrow> (64 + t - h) mod 64 = 63" "t = h \<longleftrightarrow> (64 + t - h) mod 64 = 0"
    "t \<noteq> h \<Longrightarrow> Suc ((64 + t - (h + 1) mod 64) mod 64) = (64 + t - h) mod 64"
proof -
  have d: "(64 + t - h) mod 64 = (if h \<le> t then t - h else 64 + t - h)" if "h < 64" "t < 64" for t h :: nat
  proof (cases "h \<le> t")
    case True
    then have e: "64 + t - h = 64 + (t - h)" by simp
    show ?thesis unfolding e mod_add_self1 using True that by simp
  qed (use that in simp)
  have n: "(t + 1) mod 64 = (if t = 63 then 0 else t + 1)" if "t < 64" for t :: nat
    using that by (cases "t = 63") simp_all
  show "t = (h + (64 + t - h) mod 64) mod 64"
    unfolding d[OF assms] using assms by (auto simp: mod_if)
  show "(64 + (t + 1) mod 64 - h) mod 64 = ((64 + t - h) mod 64 + 1) mod 64"
    unfolding d[OF assms] n[OF assms(2)] using d[OF assms(1), of "t + 1"] d[OF assms(1), of 0] assms
    by (cases "h = Suc t") (auto split: if_splits)
  show "(t + 1) mod 64 = h \<longleftrightarrow> (64 + t - h) mod 64 = 63" "t = h \<longleftrightarrow> (64 + t - h) mod 64 = 0"
    unfolding d[OF assms] n[OF assms(2)] using assms by auto
  show "Suc ((64 + t - (h + 1) mod 64) mod 64) = (64 + t - h) mod 64" if "t \<noteq> h"
    unfolding d[OF assms] n[OF assms(1)] using d[of "h + 1" t] d[of 0 t] assms that by auto
qed

lemma kb_next_eq_head:
  "kb_inv s \<Longrightarrow> kb_next (kb_tail s) = kb_head s \<longleftrightarrow> kb_used s = 63"
  using unat_kb_next[of "kb_tail s"] ring_used(3)[of "unat (kb_head s)" "unat (kb_tail s)"]
  by (simp add: kb_inv_def kb_used_def word_unat_eq_iff)

lemma kb_empty_iff: "kb_inv s \<Longrightarrow> kb_head s = kb_tail s \<longleftrightarrow> kb_contents s = []"
proof -
  assume "kb_inv s"
  then have "kb_head s = kb_tail s \<longleftrightarrow> kb_used s = 0"
    using ring_used(4)[of "unat (kb_head s)" "unat (kb_tail s)"] word_unat_eq_iff[of "kb_tail s" "kb_head s"]
    unfolding kb_inv_def kb_used_def by metis
  then show ?thesis by (metis length_0_conv length_kb_contents)
qed

lemma kb_used_le: "kb_used s \<le> 63"
  using mod_less_divisor[of 64 "64 + unat (kb_tail s) - unat (kb_head s)"] by (simp add: kb_used_def)

lemma kb_push_queue:
  assumes "kb_inv s"
  shows "kb_inv (kb_push c s)"
    and "kb_contents (kb_push c s) = (if kb_used s < 63 then kb_contents s @ [c] else kb_contents s)"
proof -
  let ?h = "unat (kb_head s)" and ?t = "unat (kb_tail s)"
  have b: "?h < 64" "?t < 64" "length (kb_buf s) = 64" using assms by (simp_all add: kb_inv_def)
  have n: "unat (kb_next (kb_tail s)) = (?t + 1) mod 64" by (rule unat_kb_next[OF b(2)])
  show "kb_inv (kb_push c s)" using assms n by (simp add: kb_push_def Let_def kb_inv_def)
  show "kb_contents (kb_push c s) = (if kb_used s < 63 then kb_contents s @ [c] else kb_contents s)"
  proof (cases "kb_used s < 63")
    case True
    have u: "(64 + (?t + 1) mod 64 - ?h) mod 64 = Suc (kb_used s)"
      using ring_used(2)[OF b(1,2)] True by (simp add: kb_used_def)
    have "kb_next (kb_tail s) \<noteq> kb_head s" using kb_next_eq_head[OF assms] True by simp
    then have p: "kb_buf (kb_push c s) = (kb_buf s)[?t := c]" "kb_head (kb_push c s) = kb_head s"
      "kb_tail (kb_push c s) = kb_next (kb_tail s)" by (simp_all add: kb_push_def Let_def)
    have "kb_used (kb_push c s) = Suc (kb_used s)" unfolding kb_used_def[of "kb_push c s"] p n by (rule u)
    then have "kb_contents (kb_push c s) = ring_list 64 ((kb_buf s)[?t := c]) ?h (Suc (kb_used s))"
      unfolding kb_contents_def p by simp
    also have "?t = (?h + kb_used s) mod 64" using ring_used(1)[OF b(1,2)] by (simp add: kb_used_def)
    finally show ?thesis
      using ring_push[of "kb_used s" 64 "kb_buf s" ?h c] b True by (simp add: kb_contents_def)
  next
    case False
    then have "kb_used s = 63" using kb_used_le[of s] by simp
    then have "kb_next (kb_tail s) = kb_head s" using kb_next_eq_head[OF assms] by simp
    then show ?thesis using False by (simp add: kb_push_def Let_def kb_contents_def kb_used_def)
  qed
qed

definition kb_get :: "'d drv \<Rightarrow> (u8 \<times> 'd drv) option" where
  "kb_get s = (case keyboard_getchar s of (s', Char_read c) \<Rightarrow> Some (c, s') | _ \<Rightarrow> None)"

lemma getchar_queue:
  assumes "kb_inv s" "kb_contents s = x # xs"
  shows "\<exists>s'. keyboard_getchar s = (s', Char_read x) \<and> kb_inv s' \<and> kb_contents s' = xs \<and>
    shift_pressed s' = shift_pressed s \<and> extended_code s' = extended_code s \<and> dsched s' = dsched s"
proof -
  let ?h = "unat (kb_head s)" and ?t = "unat (kb_tail s)"
  have b: "?h < 64" "?t < 64" using assms(1) by (simp_all add: kb_inv_def)
  obtain c where c: "kb_used s = Suc c" using assms(2) length_kb_contents[of s] by (metis length_Cons)
  have n: "unat (kb_next (kb_head s)) = (?h + 1) mod 64" by (rule unat_kb_next[OF b(1)])
  have u: "(64 + ?t - (?h + 1) mod 64) mod 64 = c"
    using ring_used(5)[OF b] c ring_used(4)[OF b] by (simp add: kb_used_def)
  have "kb_contents s = kb_buf s ! ?h # ring_list 64 (kb_buf s) ((?h + 1) mod 64) c"
    unfolding kb_contents_def c by (rule ring_pop[OF b(1)])
  moreover have "kb_head s \<noteq> kb_tail s" using kb_empty_iff[OF assms(1)] assms(2) by simp
  ultimately show ?thesis using assms n u
    by (simp add: keyboard_getchar_def kb_inv_def kb_contents_def kb_used_def)
qed

lemma getchar_empty:
  assumes "kb_inv s" "kb_contents s = []"
  shows "keyboard_getchar s = (case current_process (dsched s) of
     Some _ \<Rightarrow> (s\<lparr>dsched := process_block (dsched s)\<rparr>, Blocked) | None \<Rightarrow> (s, Halted))"
  using assms kb_empty_iff[OF assms(1)] by (auto simp: keyboard_getchar_def split: option.splits)

interpretation kq: bounded_fifo kb_inv kb_contents 63 kb_push kb_get
proof unfold_locales
  fix s :: "'d drv" and x xs assume "kb_inv s" "kb_contents s = x # xs"
  then show "\<exists>s'. kb_get s = Some (x, s') \<and> kb_inv s' \<and> kb_contents s' = xs"
    using getchar_queue[of s x xs] by (auto simp: kb_get_def)
next
  fix s :: "'d drv" assume "kb_inv s" "kb_contents s = []"
  then show "kb_get s = None" using getchar_empty[of s] by (simp add: kb_get_def split: option.splits)
qed (simp_all add: kb_push_queue)

section \<open>The scancode decoder\<close>

text \<open>
  The driver as a decoder: the two flags (shift held, prefix seen) and one scancode give the new flags and the character
  the handler buffers, if any.
\<close>

definition kb_decode :: "u8 \<Rightarrow> bool \<times> bool \<Rightarrow> (bool \<times> bool) \<times> u8 option" where
  "kb_decode sc f =
     (let (shift, ext) = f; opt = (\<lambda>c. if c = 0 then None else Some c)
      in if sc = 0xE0 then ((shift, True), None)
         else if ext then
           ((shift, False), if sc AND 0x80 = 0 then map_of [(0x48, KEY_UP), (0x50, KEY_DOWN), (0x4B, KEY_LEFT),
              (0x4D, KEY_RIGHT)] sc else None)
         else if sc = 0xAA \<or> sc = 0xB6 then ((False, False), None)
         else if sc = 0x2A \<or> sc = 0x36 then ((True, False), None)
         else ((shift, False), if unat sc < 58 then opt ((if shift then scancode_ascii_shift else scancode_ascii) ! unat sc)
                 else None))"

definition kb_flags :: "'d drv \<Rightarrow> bool \<times> bool" where
  "kb_flags s = (shift_pressed s, extended_code s)"

definition set_kb_flags :: "bool \<times> bool \<Rightarrow> 'd drv \<Rightarrow> 'd drv" where
  "set_kb_flags f s = s\<lparr>shift_pressed := fst f, extended_code := snd f\<rparr>"

lemma length_scancode_ascii: "length scancode_ascii = 58"
  by (simp add: scancode_ascii_def chars_def)

lemma release_codes:
  "(sc :: u8) AND 0x80 \<noteq> 0 \<longleftrightarrow> unat sc \<ge> 128"
  "unat sc \<ge> 128 \<Longrightarrow> sc AND 0x7F = 0x2A \<longleftrightarrow> sc = 0xAA"
  "unat sc \<ge> 128 \<Longrightarrow> sc AND 0x7F = 0x36 \<longleftrightarrow> sc = 0xB6"
proof -
  have b: "unat sc < 256" by (rule unat_u8)
  have "sc AND 0x80 = sc AND 2 ^ 7" by simp
  then have "sc AND 0x80 = 0 \<longleftrightarrow> \<not> bit sc 7" by (simp only: and_exp_eq_0_iff_not_bit)
  moreover have "bit sc 7 \<longleftrightarrow> bit (unat sc) 7" by (simp add: bit_unsigned_iff)
  moreover have "bit (unat sc) 7 \<longleftrightarrow> odd (unat sc div 128)" by (simp add: bit_iff_odd)
  moreover have "odd (unat sc div 128) \<longleftrightarrow> unat sc \<ge> 128"
  proof (cases "unat sc \<ge> 128")
    case True
    then have "unat sc div 128 = 1" using b by (simp add: div_nat_eqI)
    then show ?thesis using True by simp
  qed simp
  ultimately show "sc AND 0x80 \<noteq> 0 \<longleftrightarrow> unat sc \<ge> 128" by blast
  have m: "sc AND 0x7F = x \<longleftrightarrow> unat sc mod 128 = unat x" for x
    unfolding mask_consts word_unat_eq_iff[of _ x] unat_and_mask by simp
  have e: "unat sc mod 128 = unat sc - 128" if "unat sc \<ge> 128"
    using b that by (simp add: mod_if)
  show "sc AND 0x7F = 0x2A \<longleftrightarrow> sc = 0xAA" if "unat sc \<ge> 128"
    unfolding m e[OF that] word_unat_eq_iff[of sc] using that by auto
  show "sc AND 0x7F = 0x36 \<longleftrightarrow> sc = 0xB6" if "unat sc \<ge> 128"
    unfolding m e[OF that] word_unat_eq_iff[of sc] using that by auto
qed

lemma keyboard_scancode_decode:
  "keyboard_scancode sc s =
     (let (f, c) = kb_decode sc (kb_flags s); s = set_kb_flags f s in case c of None \<Rightarrow> s | Some c \<Rightarrow> kb_push c s)"
proof -
  have l: "unat sc < length scancode_ascii \<longleftrightarrow> unat sc < 58" by (simp add: length_scancode_ascii)
  have small: "unat (0x2A :: u8) < 128" "unat (0x36 :: u8) < 128" "unat (0xAA :: u8) \<ge> 128" "unat (0xB6 :: u8) \<ge> 128" by simp_all
  show ?thesis
  proof (cases "sc = 0xE0 \<or> extended_code s \<or> unat sc \<ge> 128 \<or> sc = 0x2A \<or> sc = 0x36")
    case True
    then consider "sc = 0xE0" | "sc \<noteq> 0xE0" "extended_code s" | "sc \<noteq> 0xE0" "\<not> extended_code s" "unat sc \<ge> 128"
      | "sc \<noteq> 0xE0" "\<not> extended_code s" "sc = 0x2A \<or> sc = 0x36" by blast
    then show ?thesis
    proof cases
      case 1
      then show ?thesis by (simp add: keyboard_scancode_def kb_decode_def kb_flags_def set_kb_flags_def)
    next
      case 2
      then show ?thesis
        by (simp add: keyboard_scancode_def kb_decode_def kb_flags_def set_kb_flags_def kconst)
    next
      case 3
      then have "sc AND 0x80 \<noteq> 0" "sc \<noteq> 0x2A" "sc \<noteq> 0x36" using small release_codes(1)[of sc] by auto
      then show ?thesis using 3 release_codes(2,3)[OF 3(3)]
        by (simp add: keyboard_scancode_def kb_decode_def kb_flags_def set_kb_flags_def)
    next
      case 4
      then have "sc AND 0x80 = 0" "sc \<noteq> 0xAA" "sc \<noteq> 0xB6" by auto
      then show ?thesis using 4 by (auto simp: keyboard_scancode_def kb_decode_def kb_flags_def set_kb_flags_def)
    qed
  next
    case False
    then have "sc \<noteq> 0xAA" "sc \<noteq> 0xB6" using small by auto
    moreover have "set_kb_flags (shift_pressed s, False) s = s" using False by (simp add: set_kb_flags_def)
    ultimately show ?thesis using False release_codes(1)[of sc] l
      by (simp add: keyboard_scancode_def kb_decode_def kb_flags_def)
  qed
qed

lemma kb_scancode_queue:
  assumes "kb_inv s" "kb_decode sc (kb_flags s) = (f, c)"
  shows "kb_inv (keyboard_scancode sc s)" "kb_flags (keyboard_scancode sc s) = f"
    "kb_contents (keyboard_scancode sc s) =
       (case c of None \<Rightarrow> kb_contents s
        | Some x \<Rightarrow> if length (kb_contents s) < 63 then kb_contents s @ [x] else kb_contents s)"
proof -
  have i: "kb_inv (set_kb_flags f s)" "kb_contents (set_kb_flags f s) = kb_contents s"
      "kb_used (set_kb_flags f s) = kb_used s" "kb_flags (set_kb_flags f s) = f" "kb_flags (kb_push x (set_kb_flags f s)) = f" for x
    using assms(1)
    by (simp_all add: set_kb_flags_def kb_inv_def kb_contents_def kb_used_def kb_flags_def kb_push_def Let_def)
  have e: "keyboard_scancode sc s = (case c of None \<Rightarrow> set_kb_flags f s | Some x \<Rightarrow> kb_push x (set_kb_flags f s))"
    using assms(2) by (simp add: keyboard_scancode_decode Let_def)
  show "kb_inv (keyboard_scancode sc s)" "kb_flags (keyboard_scancode sc s) = f"
    "kb_contents (keyboard_scancode sc s) =
       (case c of None \<Rightarrow> kb_contents s
        | Some x \<Rightarrow> if length (kb_contents s) < 63 then kb_contents s @ [x] else kb_contents s)"
    unfolding e using i kb_push_queue[OF i(1)] by (simp_all split: option.splits)
qed

subsection \<open>Interrupts and readers interleaved\<close>

datatype kb_event = Scan u8 | Getc

fun kb_run :: "kb_event list \<Rightarrow> 'd drv \<Rightarrow> 'd drv \<times> u8 list" where
  "kb_run [] s = (s, [])"
| "kb_run (Scan sc # es) s = kb_run es (keyboard_scancode sc s)"
| "kb_run (Getc # es) s =
     (let (s, r) = keyboard_getchar s; (s, out) = kb_run es s
      in (s, case r of Char_read c \<Rightarrow> c # out | _ \<Rightarrow> out))"

text \<open>The queue operations a history of scancodes and reads stands for.\<close>

fun kb_ops :: "kb_event list \<Rightarrow> bool \<times> bool \<Rightarrow> u8 fifo_op list" where
  "kb_ops [] f = []"
| "kb_ops (Scan sc # es) f =
     (let (f, c) = kb_decode sc f in (case c of None \<Rightarrow> kb_ops es f | Some x \<Rightarrow> Put x # kb_ops es f))"
| "kb_ops (Getc # es) f = Get # kb_ops es f"

text \<open>
  C22. The keyboard buffer refines a queue of 63 characters: for any interleaving of keyboard interrupts with reads,
  the characters the readers get, and those still buffered, are what the queue gives when each decoded
  character is put in as it is typed; only characters that arrive at a full buffer are lost.
\<close>
theorem kb_refines_queue:
  assumes "kb_inv s" "kb_run es s = (s', out)"
  shows "kb_inv s' \<and> (\<exists>acc. q_run 63 (kb_ops es (kb_flags s)) (kb_contents s) = (kb_contents s', out, acc) \<and>
    kb_contents s @ acc = out @ kb_contents s')"
proof -
  have "kb_inv s' \<and> (\<exists>acc. q_run 63 (kb_ops es (kb_flags s)) (kb_contents s) = (kb_contents s', out, acc))"
    using assms
  proof (induction es s arbitrary: s' out rule: kb_run.induct)
    case (2 sc es s)
    obtain f c where d: "kb_decode sc (kb_flags s) = (f, c)" by fastforce
    note q = kb_scancode_queue[OF "2.prems"(1) d]
    have run: "kb_run es (keyboard_scancode sc s) = (s', out)" using "2.prems"(2) by simp
    show ?case using "2.IH"[OF q(1) run] d unfolding q(2,3) by (auto split: option.splits if_splits)
  next
    case (3 es s)
    show ?case
    proof (cases "kb_contents s")
      case Nil
      obtain t r where t: "keyboard_getchar s = (t, r)" "kb_inv t" "kb_contents t = []" "kb_flags t = kb_flags s"
          "\<And>c. r \<noteq> Char_read c"
        using getchar_empty[OF "3.prems"(1) Nil] "3.prems"(1) Nil
        by (auto simp: kb_inv_def kb_contents_def kb_used_def kb_flags_def split: option.splits)
      have "kb_run es t = (s', out)" using "3.prems"(2) t(1,5) by (auto split: prod.splits getchar_result.splits)
      then show ?thesis using "3.IH"[OF t(1)[symmetric] refl t(2)] t Nil by simp
    next
      case (Cons x xs)
      obtain t where t: "keyboard_getchar s = (t, Char_read x)" "kb_inv t" "kb_contents t = xs" "kb_flags t = kb_flags s"
        using getchar_queue[OF "3.prems"(1) Cons] by (auto simp: kb_flags_def)
      obtain o' where o': "kb_run es t = (s', o')" "out = x # o'"
        using "3.prems"(2) t(1) by (auto split: prod.splits)
      then show ?thesis using "3.IH"[OF t(1)[symmetric] refl t(2) o'(1)] t Cons by auto
    qed
  qed simp
  then show ?thesis using q_run_order by metis
qed

subsection \<open>Typing\<close>

text \<open>
  The scancodes of one character: press and release of its key, within press and release of the left shift key
  when only the shifted table has it; for an arrow, with the prefix byte.
\<close>

definition key_of :: "u8 list \<Rightarrow> u8 \<Rightarrow> u8" where
  "key_of tab c = of_nat (length (takeWhile (\<lambda>x. x \<noteq> c) tab))"

definition keystrokes :: "u8 \<Rightarrow> u8 list" where
  "keystrokes c =
     (if c = KEY_UP then [0xE0, 0x48, 0xE0, 0xC8] else if c = KEY_DOWN then [0xE0, 0x50, 0xE0, 0xD0]
      else if c = KEY_LEFT then [0xE0, 0x4B, 0xE0, 0xCB] else if c = KEY_RIGHT then [0xE0, 0x4D, 0xE0, 0xCD]
      else if c \<in> set scancode_ascii then [key_of scancode_ascii c, key_of scancode_ascii c OR 0x80]
      else let k = key_of scancode_ascii_shift c in [0x2A, k, k OR 0x80, 0xAA])"

text \<open>The characters of the layout: those of the two tables and the four arrows.\<close>

definition typable :: "u8 list" where
  "typable = [KEY_UP, KEY_DOWN, KEY_LEFT, KEY_RIGHT] @ filter (\<lambda>c. c \<noteq> 0) (scancode_ascii @ scancode_ascii_shift)"

fun decode_all :: "u8 list \<Rightarrow> bool \<times> bool \<Rightarrow> (bool \<times> bool) \<times> u8 list" where
  "decode_all [] f = (f, [])"
| "decode_all (sc # scs) f =
     (let (f, c) = kb_decode sc f; (f, ys) = decode_all scs f in (f, case c of None \<Rightarrow> ys | Some x \<Rightarrow> x # ys))"

lemma scancode_tables [code]:
  "scancode_ascii = [0, 0, 49, 50, 51, 52, 53, 54, 55, 56, 57, 48, 45, 61, 8, 9, 113, 119, 101, 114, 116, 121, 117, 105, 111, 112,
     91, 93, 10, 0, 97, 115, 100, 102, 103, 104, 106, 107, 108, 59, 39, 96, 0, 92, 122, 120, 99, 118, 98, 110,
     109, 44, 46, 47, 0, 42, 0, 32]"
  "scancode_ascii_shift = [0, 0, 33, 64, 35, 36, 37, 94, 38, 42, 40, 41, 95, 43, 8, 9, 81, 87, 69, 82, 84, 89, 85, 73, 79, 80, 123, 125,
     10, 0, 65, 83, 68, 70, 71, 72, 74, 75, 76, 58, 34, 126, 0, 124, 90, 88, 67, 86, 66, 78, 77, 60, 62, 63,
     0, 42, 0, 32]"
  by (simp_all add: scancode_ascii_def scancode_ascii_shift_def chars_def)

lemma decode_tables:
  "list_all (\<lambda>n. let c = scancode_ascii ! n; k = of_nat n in c \<noteq> 0 \<longrightarrow> c < 0x80 \<and>
     decode_all [k, k OR 0x80] (False, False) = ((False, False), [c])) [0 ..< 58]"
  "list_all (\<lambda>n. let c = scancode_ascii_shift ! n; k = of_nat n in c \<noteq> 0 \<longrightarrow> c < 0x80 \<and>
     decode_all [0x2A, k, k OR 0x80, 0xAA] (False, False) = ((False, False), [c])) [0 ..< 58]"
  by code_simp+

lemma decode_arrows:
  "c \<in> {KEY_UP, KEY_DOWN, KEY_LEFT, KEY_RIGHT} \<Longrightarrow> decode_all (keystrokes c) (False, False) = ((False, False), [c])"
  by (auto simp: keystrokes_def kb_decode_def kconst)

lemma key_of_nth:
  assumes "c \<in> set tab" "length tab = 58"
  obtains n where "n < 58" "key_of tab c = of_nat n" "tab ! n = c"
proof
  let ?n = "length (takeWhile (\<lambda>x. x \<noteq> c) tab)"
  have "?n < length tab" using assms(1) by (induction tab) auto
  then show "?n < 58" "tab ! ?n = c" using assms(2) nth_length_takeWhile[of "\<lambda>x. x \<noteq> c" tab] by simp_all
  show "key_of tab c = of_nat ?n" by (simp add: key_of_def)
qed

lemma keystrokes_decode:
  assumes "c \<in> set typable"
  shows "decode_all (keystrokes c) (False, False) = ((False, False), [c])"
proof -
  have len: "length scancode_ascii_shift = 58" by (simp add: scancode_ascii_shift_def chars_def)
  have tab: "n < 58 \<Longrightarrow> n \<in> set [0 ..< 58]" for n by (simp only: set_upt atLeastLessThan_iff le0 simp_thms)
  have plain: "c \<notin> {KEY_UP, KEY_DOWN, KEY_LEFT, KEY_RIGHT}" if "c < 0x80" using that by (auto simp: kconst)
  consider "c \<in> {KEY_UP, KEY_DOWN, KEY_LEFT, KEY_RIGHT}" | "c \<noteq> 0" "c \<in> set scancode_ascii"
    | "c \<noteq> 0" "c \<notin> set scancode_ascii" "c \<in> set scancode_ascii_shift"
    using assms by (auto simp: typable_def)
  then show ?thesis
  proof cases
    case 1
    then show ?thesis by (rule decode_arrows)
  next
    case 2
    obtain n where n: "n < 58" "key_of scancode_ascii c = of_nat n" "scancode_ascii ! n = c"
      using key_of_nth[OF 2(2) length_scancode_ascii] .
    have "c < 0x80" "decode_all [of_nat n, of_nat n OR 0x80] (False, False) = ((False, False), [c])"
      using bspec[OF decode_tables(1)[unfolded list_all_iff] tab[OF n(1)]] n(3) 2(1) unfolding Let_def by blast+
    then show ?thesis using plain 2 n(2) by (simp add: keystrokes_def del: decode_all.simps)
  next
    case 3
    obtain n where n: "n < 58" "key_of scancode_ascii_shift c = of_nat n" "scancode_ascii_shift ! n = c"
      using key_of_nth[OF 3(3) len] .
    have "c < 0x80" "decode_all [0x2A, of_nat n, of_nat n OR 0x80, 0xAA] (False, False) = ((False, False), [c])"
      using bspec[OF decode_tables(2)[unfolded list_all_iff] tab[OF n(1)]] n(3) 3(1) unfolding Let_def by blast+
    then show ?thesis using plain 3 n(2) by (simp add: keystrokes_def Let_def del: decode_all.simps)
  qed
qed

lemma scancodes_queue:
  assumes "kb_inv s" "decode_all scs (kb_flags s) = (f, ys)" "length (kb_contents s) + length ys \<le> 63"
  shows "kb_inv (fold keyboard_scancode scs s) \<and> kb_flags (fold keyboard_scancode scs s) = f \<and>
    kb_contents (fold keyboard_scancode scs s) = kb_contents s @ ys"
  using assms
proof (induction scs arbitrary: s ys)
  case (Cons sc scs)
  obtain g c where d: "kb_decode sc (kb_flags s) = (g, c)" by fastforce
  note q = kb_scancode_queue[OF Cons.prems(1) d]
  obtain ys' where ys': "decode_all scs g = (f, ys')" "ys = (case c of None \<Rightarrow> ys' | Some x \<Rightarrow> x # ys')"
    using Cons.prems(2) d by (auto split: prod.splits)
  have "kb_inv (fold keyboard_scancode scs (keyboard_scancode sc s)) \<and>
      kb_flags (fold keyboard_scancode scs (keyboard_scancode sc s)) = f \<and>
      kb_contents (fold keyboard_scancode scs (keyboard_scancode sc s)) = kb_contents (keyboard_scancode sc s) @ ys'"
    using Cons.IH[OF q(1)] ys' Cons.prems(3) q(2,3) by (auto split: option.splits)
  then show ?case using q(3) ys'(2) Cons.prems(3) by (auto split: option.splits)
qed simp

text \<open>
  What is typed is what is read: when no key is held, typing a text over the layout (letters,
  digits, punctuation, control characters and arrows) leaves exactly that text in the buffer, as far as it has room.
\<close>
theorem typing_roundtrip:
  assumes "kb_inv s" "kb_flags s = (False, False)" "set ys \<subseteq> set typable" "length (kb_contents s) + length ys \<le> 63"
  shows "kb_contents (fold keyboard_scancode (concat (map keystrokes ys)) s) = kb_contents s @ ys \<and>
    kb_flags (fold keyboard_scancode (concat (map keystrokes ys)) s) = (False, False)"
  using assms
proof (induction ys arbitrary: s)
  case (Cons c ys)
  let ?t = "fold keyboard_scancode (keystrokes c) s"
  have "decode_all (keystrokes c) (False, False) = ((False, False), [c])"
    using keystrokes_decode[of c] Cons.prems(3) by simp
  then have t: "kb_inv ?t" "kb_flags ?t = (False, False)" "kb_contents ?t = kb_contents s @ [c]"
    using scancodes_queue[OF Cons.prems(1), of "keystrokes c" "(False, False)" "[c]"] Cons.prems(2,4) by simp_all
  have "length (kb_contents ?t) + length ys \<le> 63" using Cons.prems(4) unfolding t(3) by simp
  then show ?case using Cons.IH[OF t(1,2)] Cons.prems(3) t(3) by simp
qed simp

definition drv0 :: "'d \<Rightarrow> 'd drv" where
  "drv0 d = \<lparr>dev = d, dsched = demo1, irq_handlers = replicate 16 None, ticks = 0, kb_buf = replicate 64 0, kb_head = 62,
     kb_tail = 62, shift_pressed = False, extended_code = False\<rparr>"

lemma drv0_kb: "kb_inv (drv0 d)" "kb_flags (drv0 d) = (False, False)" "kb_contents (drv0 d) = []"
  by (simp_all add: drv0_def kb_inv_def kb_flags_def kb_contents_def kb_used_def ring_list_def)

theorem kb_refines_queue_witness:
  "snd (kb_run [Scan 0x1E, Getc, Scan 0x30, Scan 0x2E] (drv0 ())) @
     kb_contents (fst (kb_run [Scan 0x1E, Getc, Scan 0x30, Scan 0x2E] (drv0 ()))) = [97, 98, 99]"
  using kb_refines_queue[of "drv0 ()" "[Scan 0x1E, Getc, Scan 0x30, Scan 0x2E]", OF drv0_kb(1) surjective_pairing]
  by (auto simp: drv0_kb kb_decode_def scancode_tables)

theorem typing_roundtrip_witness:
  "kb_contents (fold keyboard_scancode (concat (map keystrokes [72, 105, 33, KEY_UP])) (drv0 ())) = [72, 105, 33, KEY_UP]"
proof -
  have "set [72, 105, 33, KEY_UP] \<subseteq> set typable" by (simp add: typable_def scancode_tables)
  then show ?thesis using typing_roundtrip[OF drv0_kb(1,2), of "[72, 105, 33, KEY_UP]" "()"] by (simp add: drv0_kb(3))
qed

end
