(* ===== verification/Interrupts.thy ===== *)
theory Interrupts
  imports Keyboard
begin

text \<open>
  The interrupt dispatcher of \<^verbatim>\<open>kernel/isr.c\<close> with both of its handlers, and the sleep of
  \<^verbatim>\<open>kernel/timer.c\<close>, which waits for interrupts. Every interrupt is acknowledged before
  control leaves its handler, and the timer preempts within one slice.
\<close>

section \<open>The code\<close>

text \<open>As with the timer's handler, the flag says that the scheduler switched away before the end.\<close>

definition run_irq_fn :: "'d io \<Rightarrow> irq_fn \<Rightarrow> 'd drv \<Rightarrow> 'd drv \<times> bool" where
  "run_irq_fn io h s =
     (case h of Timer_irq \<Rightarrow> timer_irq_handler io s | Keyboard_irq \<Rightarrow> (keyboard_irq_handler io s, False))"

definition irq_handler :: "'d io \<Rightarrow> u32 \<Rightarrow> 'd drv \<Rightarrow> 'd drv \<times> bool" where
  "irq_handler io int_no s =
     (let irq = (ucast (int_no - 32) :: u8);
          (s, switched) =
            (if irq < 16 \<and> irq_handlers s ! unat irq \<noteq> None
             then run_irq_fn io (the (irq_handlers s ! unat irq)) s else (s, False))
      in if switched then (s, True) else (s\<lparr>dev := pic_send_eoi io irq (dev s)\<rparr>, False))"

text \<open>
  Each \<^verbatim>\<open>hlt\<close> of the sleep waits for the next interrupt, given by its vector, and runs its handler; when the handler
  switches to another process the sleeper is suspended there, which the flag of the result says. No value is left when the interrupts
  end before the sleep does.
\<close>

fun sleep_loop :: "'d io \<Rightarrow> u32 \<Rightarrow> u32 list \<Rightarrow> 'd drv \<Rightarrow> ('d drv \<times> u32 list \<times> bool) option" where
  "sleep_loop io target [] s = (if ticks s < target then None else Some (s, [], False))"
| "sleep_loop io target (v # vs) s =
     (if ticks s < target then
        let (s, switched) = irq_handler io v s
        in if switched then Some (s, vs, True) else sleep_loop io target vs s
      else Some (s, v # vs, False))"

definition timer_sleep_ms :: "'d io \<Rightarrow> u32 \<Rightarrow> u32 list \<Rightarrow> 'd drv \<Rightarrow> ('d drv \<times> u32 list \<times> bool) option" where
  "timer_sleep_ms io ms vs s =
     (let target = ticks s + (ms * TIMER_HZ + 999) div 1000 in sleep_loop io target vs s)"

section \<open>Interrupts are acknowledged\<close>

text \<open>
  The state in which a line's interrupt is delivered: only this line is in service, with
  the cascade line of the first controller when it belongs to the second.
\<close>

definition in_service_only :: "nat \<Rightarrow> i8259 \<Rightarrow> i8259 \<Rightarrow> bool" where
  "in_service_only n c1 c2 \<longleftrightarrow>
     (if n < 8 then in_service c1 = push_bit n 1 \<and> in_service c2 = 0
      else in_service c1 = push_bit 2 1 \<and> in_service c2 = push_bit (n - 8) 1)"

lemma eoi_clears: "chip_cmd 0x20 c = c\<lparr>in_service := in_service c AND (in_service c - 1)\<rparr>"
proof -
  have "\<not> bit (0x20 :: u8) 4" by (simp add: bit_numeral_rec(1) bit_numeral_rec(2) bit_1_iff numeral_eq_Suc)
  then show ?thesis by (simp add: chip_cmd_def)
qed

lemma single_bit_clear: "(push_bit n 1 :: u8) AND (push_bit n 1 - 1) = 0"
  by (rule bit_word_eqI) (auto simp: bit_simps push_bit_of_1 simp flip: mask_eq_exp_minus_1)

lemma zero_clear: "(0 :: u8) AND x = 0" by simp

lemma pic_send_eoi_service:
  assumes "pics_wired io p1 p2" "n < 16" "in_service_only n (p1 d) (p2 d)"
  shows "in_service (p1 (pic_send_eoi io (of_nat n) d)) = 0 \<and> in_service (p2 (pic_send_eoi io (of_nat n) d)) = 0"
proof -
  have "(8 :: u8) \<le> of_nat n \<longleftrightarrow> 8 \<le> n"
    using assms(2) by (simp add: word_le_nat_alt unat_of_nat take_bit_nat_eq_self)
  then show ?thesis using assms(3)
    by (simp add: pic_send_eoi_def Let_def kconst pics_wiredD[OF assms(1)] eoi_clears in_service_only_def
      single_bit_clear del: push_bit_of_1 push_bit_numeral)
qed

text \<open>
  C23. Every hardware interrupt is acknowledged: whatever handler is registered for the line, when the dispatcher is done
  or the timer has switched to another process, both controllers have been told and no line is left in
  service, so that further interrupts are delivered.
\<close>
theorem irq_acknowledged:
  assumes "pics_wired io p1 p2" "n < 16" "in_service_only n (p1 (dev s)) (p2 (dev s))"
    and "irq_handlers s ! n = Some Timer_irq \<longrightarrow> n = 0" "irq_handler io (of_nat (32 + n)) s = (s', switched)"
  shows "in_service (p1 (dev s')) = 0 \<and> in_service (p2 (dev s')) = 0"
proof -
  have irq: "(ucast (of_nat (32 + n) - 32 :: u32) :: u8) = of_nat n" using assms(2) by (simp add: of_nat_add unsigned_of_nat take_bit_nat_eq_self)
  have u: "unat (of_nat n :: u8) = n" using assms(2) by (simp add: unat_of_nat take_bit_nat_eq_self)
  have kb: "dev (kb_push c t) = dev t" for c and t :: "'a drv" by (simp add: kb_push_def Let_def)
  have kd: "dev (keyboard_scancode c t) = dev t" for c and t :: "'a drv"
    by (simp add: keyboard_scancode_decode set_kb_flags_def kb Let_def split_beta split: option.splits)
  note eoi = pic_send_eoi_service[OF assms(1,2)]
  have "\<exists>d. in_service_only n (p1 d) (p2 d) \<and> dev s' = pic_send_eoi io (of_nat n) d"
  proof (cases "irq_handlers s ! n")
    case None
    then show ?thesis using assms(3,5) unfolding irq_handler_def irq Let_def u by auto
  next
    case (Some h)
    have lt: "(of_nat n :: u8) < 16" using assms(2) u by (simp add: word_less_nat_alt)
    show ?thesis
    proof (cases h)
      case Timer_irq
      then have "n = 0" using assms(4) Some by simp
      then show ?thesis using assms(3,5) Some Timer_irq lt unfolding irq_handler_def irq Let_def u
        by (auto simp: run_irq_fn_def timer_irq_handler_def Let_def split: if_splits prod.splits)
    next
      case Keyboard_irq
      have "p1 (snd (inb io 0x60 (dev s))) = p1 (dev s)" "p2 (snd (inb io 0x60 (dev s))) = p2 (dev s)"
        using pics_wiredD[OF assms(1)] by simp_all
      then show ?thesis using assms(3,5) Some Keyboard_irq lt unfolding irq_handler_def irq Let_def u
        by (intro exI[of _ "snd (inb io 0x60 (dev s))"])
          (auto simp: run_irq_fn_def keyboard_irq_handler_def kd split: prod.splits if_splits)
    qed
  qed
  then show ?thesis using eoi by metis
qed

section \<open>Preemption and sleep\<close>

lemma ticks_hit:
  fixes t :: u32
  shows "\<exists>k < 5. (t + of_nat (Suc k)) mod SCHED_SLICE = 0"
proof (cases "unat t + 5 < 4294967296")
  case True
  define k where "k = 4 - unat t mod 5"
  have "unat (t + of_nat (Suc k)) = unat t + Suc k"
    using True unat_plus_u32[of t "of_nat (Suc k)"] unat_of_nat_u32[of "Suc k"] by (simp add: k_def)
  moreover have "(unat t + Suc k) mod 5 = 0"
  proof -
    have "unat t + Suc k = 5 * (unat t div 5) + 5"
      using mult_div_mod_eq[of 5 "unat t"] mod_less_divisor[of 5 "unat t"] unfolding k_def by linarith
    then show ?thesis by simp
  qed
  ultimately have "unat ((t + of_nat (Suc k)) mod SCHED_SLICE) = 0" by (simp add: unat_mod SCHED_SLICE_def)
  then show ?thesis by (intro exI[of _ k]) (simp add: unat_eq_0 k_def)
next
  case False
  then have "unat t \<in> {4294967291, 4294967292, 4294967293, 4294967294, 4294967295}" using unat_u32[of t] by auto
  then have "t \<in> {4294967291, 4294967292, 4294967293, 4294967294, 4294967295}"
    by (auto simp: word_unat_eq_iff)
  then consider "t = 4294967291" | "t = 4294967292" | "t = 4294967293" | "t = 4294967294" | "t = 4294967295" by blast
  then show ?thesis
  proof cases
    case 1 then show ?thesis by (intro exI[of _ 3]) (simp add: SCHED_SLICE_def)
  next
    case 2 then show ?thesis by (intro exI[of _ 2]) (simp add: SCHED_SLICE_def)
  next
    case 3 then show ?thesis by (intro exI[of _ 1]) (simp add: SCHED_SLICE_def)
  next
    case 4 then show ?thesis by (intro exI[of _ 0]) (simp add: SCHED_SLICE_def)
  next
    case 5 then show ?thesis by (intro exI[of _ 0]) (simp add: SCHED_SLICE_def)
  qed
qed

text \<open>
  C24. Preemption: while a process runs, one of any five consecutive timer interrupts takes the processor
  away from it, also across the wrap-around of the tick counter; the interrupts before it leave the scheduler alone.
\<close>
theorem timer_preempts:
  assumes "current_process (dsched s) \<noteq> None"
  shows "\<exists>k < 5. \<exists>s'. ((\<lambda>s. fst (timer_irq_handler io s)) ^^ k) s = s' \<and> dsched s' = dsched s \<and>
    snd (timer_irq_handler io s') \<and> dsched (fst (timer_irq_handler io s')) = process_yield (dsched s)"
proof -
  define P where "P k \<longleftrightarrow> (ticks s + of_nat (Suc k)) mod SCHED_SLICE = 0" for k
  define k where "k = (LEAST k. P k)"
  have "\<exists>j < 5. P j" unfolding P_def by (rule ticks_hit)
  then obtain j where j: "j < 5" "P j" by (elim exE conjE)
  have k: "P k" "k < 5" unfolding k_def
    by (rule LeastI[of P, OF j(2)], rule le_less_trans[OF Least_le[of P, OF j(2)] j(1)])
  have k3: "\<not> P i" if "i < k" for i using not_less_Least that unfolding k_def by metis
  have "((\<lambda>s. fst (timer_irq_handler io s)) ^^ i) s = s\<lparr>ticks := ticks s + of_nat i\<rparr>" if "i \<le> k" for i
    using that
  proof (induction i)
    case (Suc i)
    then have "\<not> P i" using k3 by simp
    then show ?case using Suc by (simp add: timer_irq_handler_def Let_def P_def add.commute add.left_commute)
  qed simp
  from this[of k] k(1,2) assms show ?thesis
    by (intro exI[of _ k]) (simp add: timer_irq_handler_def Let_def P_def add.commute add.left_commute)
qed

theorem timer_preempts_witness:
  "\<exists>k < 5. \<exists>s'. ((\<lambda>s. fst (timer_irq_handler pic_io s)) ^^ k) (drv0 (chip0, chip0)) = s' \<and>
     dsched s' = dsched (drv0 (chip0, chip0)) \<and> snd (timer_irq_handler pic_io s') \<and>
     dsched (fst (timer_irq_handler pic_io s')) = process_yield demo1"
  using timer_preempts[of "drv0 (chip0, chip0)" pic_io] by (simp add: drv0_def demo1_facts(4))

definition kb_pending :: "(i8259 \<times> i8259) drv" where
  "kb_pending = drv0 (chip0\<lparr>in_service := 2\<rparr>, chip0\<lparr>in_service := 0\<rparr>)"

theorem irq_acknowledged_witness: "in_service (fst (dev (fst (irq_handler pic_io 33 kb_pending)))) = 0"
proof -
  have "in_service_only 1 (fst (dev kb_pending)) (snd (dev kb_pending))"
    by (simp add: kb_pending_def drv0_def in_service_only_def)
  moreover have "irq_handlers kb_pending ! 1 = None" by (simp add: kb_pending_def drv0_def)
  ultimately show ?thesis
    using irq_acknowledged[OF pic_io_wired, of 1 kb_pending "fst (irq_handler pic_io 33 kb_pending)"
      "snd (irq_handler pic_io 33 kb_pending)"] by simp
qed

text \<open>
  \<^verbatim>\<open>timer_sleep_ms\<close> sleeps for the requested time, rounded up to whole ticks of 10 ms and no longer: when no process is
  scheduled, it returns after exactly that many timer interrupts and leaves the following ones pending. The request must stay below
  the wrap-around of the product and of the tick counter.
\<close>
theorem timer_sleep_exact:
  assumes "irq_handlers s ! 0 = Some Timer_irq" "current_process (dsched s) = None"
    and "unat ms * 100 + 999 < 4294967296" "n = (unat ms + 9) div 10" "unat (ticks s) + n < 4294967296"
  shows "\<exists>s'. timer_sleep_ms io ms (replicate n 32 @ vs) s = Some (s', vs, False) \<and> unat (ticks s') = unat (ticks s) + n"
proof -
  define target where "target = ticks s + (ms * TIMER_HZ + 999) div 1000"
  have "unat (ms * TIMER_HZ) = unat ms * 100"
    using assms(3) by (simp add: unat_word_ariths TIMER_HZ_def)
  then have "unat (ms * TIMER_HZ + 999) = unat ms * 100 + 999"
    using assms(3) unat_plus_u32[of "ms * TIMER_HZ" 999] by simp
  then have "unat ((ms * TIMER_HZ + 999) div 1000) = (unat ms * 100 + 999) div 1000" by (simp add: unat_div)
  also have "\<dots> = n" unfolding assms(4) by linarith
  finally have t: "unat target = unat (ticks s) + n"
    using assms(5) unat_plus_u32[of "ticks s" "(ms * TIMER_HZ + 999) div 1000"] by (simp add: target_def)
  have step: "\<not> snd (irq_handler io 32 s) \<and> ticks (fst (irq_handler io 32 s)) = ticks s + 1 \<and> irq_handlers (fst (irq_handler io 32 s)) = irq_handlers s \<and>
      dsched (fst (irq_handler io 32 s)) = dsched s"
    if "irq_handlers s ! 0 = Some Timer_irq" "current_process (dsched s) = None" for s :: "'a drv"
    using that by (simp add: irq_handler_def run_irq_fn_def timer_irq_handler_def Let_def)
  have "\<exists>s'. sleep_loop io target (replicate m 32 @ vs) s = Some (s', vs, False) \<and> unat (ticks s') = unat target"
    if "irq_handlers s ! 0 = Some Timer_irq" "current_process (dsched s) = None" "unat target = unat (ticks s) + m"
    for m and s :: "'a drv"
    using that
  proof (induction m arbitrary: s)
    case 0
    then show ?case by (cases vs) (simp_all add: word_less_nat_alt)
  next
    case (Suc m)
    have less: "ticks s < target" using Suc.prems(3) by (simp add: word_less_nat_alt)
    have "unat (ticks s + 1) = unat (ticks s) + 1"
      using Suc.prems(3) unat_u32[of target] unat_plus_u32[of "ticks s" 1] by simp
    then show ?case using Suc.IH[of "fst (irq_handler io 32 s)"] step[OF Suc.prems(1,2)] Suc.prems less
      by (simp add: split_beta)
  qed
  from this[OF assms(1,2) t] show ?thesis using t by (simp add: timer_sleep_ms_def Let_def target_def)
qed

theorem timer_sleep_exact_witness:
  "\<exists>s'. timer_sleep_ms pic_io 25 [32, 32, 32, 33] ((drv0 (chip0, chip0))\<lparr>irq_handlers := [Some Timer_irq],
     dsched := demo1\<lparr>current_process := None\<rparr>\<rparr>) = Some (s', [33], False) \<and> unat (ticks s') = 3"
  using timer_sleep_exact[of "(drv0 (chip0, chip0))\<lparr>irq_handlers := [Some Timer_irq],
     dsched := demo1\<lparr>current_process := None\<rparr>\<rparr>" 25 3 pic_io "[33]"]
  by (simp add: drv0_def numeral_3_eq_3)

end
