(* ===== verification/Pipe.thy ===== *)
theory Pipe
  imports Process Fifo
begin

text \<open>
  Interprocess pipes, \<^verbatim>\<open>kernel/pipe.c\<close>: eight ring buffers of 256 bytes. A read of an empty pipe
  blocks the caller inside the kernel; \<^verbatim>\<open>pipe_read\<close> is therefore split at its
  blocking point, into the entry and the loop that is re-entered after every wake-up.
  Each pipe refines a bounded queue of bytes.
\<close>

section \<open>The code\<close>

definition PIPE_BUF_SIZE :: u32 where [kconst]: "PIPE_BUF_SIZE = 256"
definition MAX_PIPES :: nat where [kconst]: "MAX_PIPES = 8"

record pipe =
  buf :: "u8 list"
  head :: u32
  tail :: u32
  pcount :: u32
  is_open :: bool

record ipc =
  pipes :: "pipe list"
  psched :: sched

definition zero_pipe :: pipe where
  "zero_pipe = \<lparr>buf = replicate 256 0, head = 0, tail = 0, pcount = 0, is_open = False\<rparr>"

definition pipe_init :: "ipc \<Rightarrow> ipc" where
  "pipe_init s = s\<lparr>pipes := replicate MAX_PIPES zero_pipe\<rparr>"

definition pipe_alloc :: "ipc \<Rightarrow> ipc \<times> int" where
  "pipe_alloc s =
     (case find (\<lambda>i. \<not> is_open (pipes s ! i)) [0 ..< MAX_PIPES] of
        Some i \<Rightarrow> (s\<lparr>pipes := (pipes s)[i := zero_pipe\<lparr>is_open := True\<rparr>]\<rparr>, int i)
      | None \<Rightarrow> (s, -1))"

text \<open>The bodies of the two copy loops.\<close>

definition put_byte :: "u8 \<Rightarrow> pipe \<Rightarrow> pipe" where
  "put_byte b p = p\<lparr>buf := (buf p)[unat (tail p) := b], tail := (tail p + 1) mod PIPE_BUF_SIZE,
     pcount := pcount p + 1\<rparr>"

definition get_byte :: "pipe \<Rightarrow> u8 \<times> pipe" where
  "get_byte p = (buf p ! unat (head p), p\<lparr>head := (head p + 1) mod PIPE_BUF_SIZE, pcount := pcount p - 1\<rparr>)"

text \<open>\<open>data\<close> are the \<^verbatim>\<open>len\<close> bytes from the caller's buffer.\<close>

fun pipe_write_loop :: "u8 list \<Rightarrow> nat \<Rightarrow> pipe \<Rightarrow> pipe \<times> nat" where
  "pipe_write_loop [] written p = (p, written)"
| "pipe_write_loop (b # bs) written p =
     (if pcount p < PIPE_BUF_SIZE then pipe_write_loop bs (written + 1) (put_byte b p) else (p, written))"

definition bad_pipe :: "int \<Rightarrow> ipc \<Rightarrow> bool" where
  "bad_pipe k s \<longleftrightarrow> k < 0 \<or> nat k \<ge> MAX_PIPES \<or> \<not> is_open (pipes s ! nat k)"

definition pipe_write :: "int \<Rightarrow> u8 list \<Rightarrow> ipc \<Rightarrow> ipc \<times> int" where
  "pipe_write k data s =
     (if bad_pipe k s then (s, -1)
      else
        let (p, written) = pipe_write_loop data 0 (pipes s ! nat k);
            s = s\<lparr>pipes := (pipes s)[nat k := p]\<rparr>;
            s = (if written > 0 then s\<lparr>psched := process_wake_all_blocked (psched s)\<rparr> else s)
        in (s, int written))"

fun pipe_read_loop :: "nat \<Rightarrow> pipe \<Rightarrow> pipe \<times> u8 list" where
  "pipe_read_loop 0 p = (p, [])"
| "pipe_read_loop (Suc n) p =
     (let (b, p) = get_byte p; (p, bs) = pipe_read_loop n p in (p, b # bs))"

text \<open>
  The outcome of running a reader until it returns or blocks: the return value with the bytes
  stored, or \<open>Blocks\<close> after \<^verbatim>\<open>process_block\<close> has switched away.
\<close>

datatype read_result = Returns int "u8 list" | Blocks

definition pipe_read_wait :: "int \<Rightarrow> u32 \<Rightarrow> ipc \<Rightarrow> ipc \<times> read_result" where
  "pipe_read_wait k len s =
     (let p = pipes s ! nat k
      in if pcount p = 0 then
           (if \<not> is_open p then (s, Returns (-1) [])
            else if current_process (psched s) = None then (s, Returns (-1) [])
            else (s\<lparr>psched := process_block (psched s)\<rparr>, Blocks))
         else
           let to_read = (if len < pcount p then len else pcount p);
               (p, bs) = pipe_read_loop (unat to_read) p
           in (s\<lparr>pipes := (pipes s)[nat k := p]\<rparr>, Returns (uint to_read) bs))"

definition pipe_read :: "int \<Rightarrow> u32 \<Rightarrow> ipc \<Rightarrow> ipc \<times> read_result" where
  "pipe_read k len s =
     (if bad_pipe k s then (s, Returns (-1) []) else pipe_read_wait k len s)"

definition pipe_close :: "int \<Rightarrow> ipc \<Rightarrow> ipc" where
  "pipe_close k s =
     (if k < 0 \<or> nat k \<ge> MAX_PIPES then s
      else s\<lparr>pipes := (pipes s)[nat k := (pipes s ! nat k)\<lparr>is_open := False\<rparr>],
             psched := process_wake_all_blocked (psched s)\<rparr>)"

section \<open>A pipe is a bounded queue\<close>

definition pipe_inv :: "pipe \<Rightarrow> bool" where
  "pipe_inv p \<longleftrightarrow> length (buf p) = 256 \<and> unat (head p) < 256 \<and> unat (pcount p) \<le> 256 \<and>
     unat (tail p) = (unat (head p) + unat (pcount p)) mod 256"

definition pipe_contents :: "pipe \<Rightarrow> u8 list" where
  "pipe_contents p = ring_list 256 (buf p) (unat (head p)) (unat (pcount p))"

lemma length_pipe_contents [simp]: "length (pipe_contents p) = unat (pcount p)"
  by (simp add: pipe_contents_def)

lemma pcount_0_iff: "pcount p = 0 \<longleftrightarrow> pipe_contents p = []"
  by (metis length_0_conv length_pipe_contents unat_eq_zero)

lemma unat_inc_mod_256: "unat x < 256 \<Longrightarrow> unat ((x + 1) mod 256 :: u32) = (unat x + 1) mod 256"
  using unat_plus_u32[of x 1] by (simp add: unat_mod)

lemma put_byte_queue:
  assumes "pipe_inv p" "unat (pcount p) < 256"
  shows "pipe_inv (put_byte b p)" "pipe_contents (put_byte b p) = pipe_contents p @ [b]"
proof -
  have c: "unat (pcount p + 1) = Suc (unat (pcount p))"
    using assms(2) unat_plus_u32[of "pcount p" 1] by simp
  have t: "unat (tail p) = (unat (head p) + unat (pcount p)) mod 256" "unat (tail p) < 256"
    using assms(1) by (simp_all add: pipe_inv_def)
  then show "pipe_inv (put_byte b p)"
    using assms c unat_inc_mod_256[OF t(2)] by (simp add: pipe_inv_def put_byte_def PIPE_BUF_SIZE_def mod_simps)
  show "pipe_contents (put_byte b p) = pipe_contents p @ [b]"
    using assms c ring_push[of "unat (pcount p)" 256 "buf p" "unat (head p)" b] t(1)
    by (simp add: pipe_contents_def put_byte_def pipe_inv_def)
qed

lemma get_byte_queue:
  assumes "pipe_inv p" "pipe_contents p = x # xs"
  shows "\<exists>p'. get_byte p = (x, p') \<and> pipe_inv p' \<and> pipe_contents p' = xs \<and> is_open p' = is_open p"
proof -
  obtain c where c: "unat (pcount p) = Suc c" using assms(2) length_pipe_contents[of p] by (metis length_Cons)
  then have "pcount p \<noteq> 0" by auto
  then have c': "unat (pcount p - 1) = c" using c by (simp add: unat_minus_one)
  have h: "unat (head p) < 256" "unat ((head p + 1) mod 256) = (unat (head p) + 1) mod 256"
    using assms(1) unat_inc_mod_256 by (simp_all add: pipe_inv_def)
  have "pipe_contents p = buf p ! unat (head p) # ring_list 256 (buf p) ((unat (head p) + 1) mod 256) c"
    unfolding pipe_contents_def c by (rule ring_pop[OF h(1)])
  then show ?thesis
    using assms c c' h by (auto simp: get_byte_def pipe_inv_def pipe_contents_def PIPE_BUF_SIZE_def mod_simps)
qed

definition pipe_put :: "u8 \<Rightarrow> pipe \<Rightarrow> pipe" where
  "pipe_put b p = (if pcount p < PIPE_BUF_SIZE then put_byte b p else p)"

definition pipe_get :: "pipe \<Rightarrow> (u8 \<times> pipe) option" where
  "pipe_get p = (if pcount p = 0 then None else Some (get_byte p))"

lemma pcount_less: "pcount p < PIPE_BUF_SIZE \<longleftrightarrow> unat (pcount p) < 256"
  by (simp add: PIPE_BUF_SIZE_def word_less_nat_alt)

interpretation pq: bounded_fifo pipe_inv pipe_contents 256 pipe_put pipe_get
proof unfold_locales
  fix s x xs assume "pipe_inv s" "pipe_contents s = x # xs"
  moreover have "pcount s \<noteq> 0"
    using calculation(2) length_pipe_contents[of s] by auto
  ultimately show "\<exists>s'. pipe_get s = Some (x, s') \<and> pipe_inv s' \<and> pipe_contents s' = xs"
    using get_byte_queue[of s x xs] by (auto simp: pipe_get_def)
next
  fix s assume "pipe_inv s" "pipe_contents s = []"
  then have "unat (pcount s) = 0" using length_pipe_contents[of s] by simp
  then show "pipe_get s = None" by (simp add: pipe_get_def unat_eq_0)
qed (auto simp: pipe_put_def pcount_less put_byte_queue)

lemma pipe_write_loop_fold:
  "pipe_inv p \<Longrightarrow> pipe_write_loop bs w p = (fold pipe_put bs p, w + min (length bs) (256 - unat (pcount p)))"
proof (induction bs arbitrary: w p)
  case (Cons b bs)
  show ?case
  proof (cases "unat (pcount p) < 256")
    case True
    then have "unat (pcount (put_byte b p)) = Suc (unat (pcount p))"
      using unat_plus_u32[of "pcount p" 1] by (simp add: put_byte_def)
    then show ?thesis using Cons.IH[of "put_byte b p" "w + 1"] put_byte_queue(1)[OF Cons.prems True] True
      by (simp add: pipe_put_def pcount_less)
  next
    case False
    then have "fold pipe_put xs p = p" for xs by (induction xs) (simp_all add: pipe_put_def pcount_less)
    then have "fold pipe_put (b # bs) p = p" .
    then show ?thesis using False by (simp add: pcount_less del: fold_simps)
  qed
qed simp

lemma pipe_read_loop_take:
  assumes "pipe_inv p" "n \<le> unat (pcount p)"
  shows "\<exists>p'. pipe_read_loop n p = (p', take n (pipe_contents p)) \<and> pipe_inv p' \<and>
    pipe_contents p' = drop n (pipe_contents p) \<and> is_open p' = is_open p"
  using assms
proof (induction n arbitrary: p)
  case (Suc n)
  obtain x xs where x: "pipe_contents p = x # xs"
    using Suc.prems(2) length_pipe_contents[of p] by (cases "pipe_contents p") auto
  obtain p1 where p1: "get_byte p = (x, p1)" "pipe_inv p1" "pipe_contents p1 = xs" "is_open p1 = is_open p"
    using get_byte_queue[OF Suc.prems(1) x] by blast
  have "n \<le> unat (pcount p1)"
    using p1(3) x Suc.prems(2) length_pipe_contents[of p1] length_pipe_contents[of p] by simp
  then show ?case using Suc.IH[OF p1(2)] p1 x by auto
qed simp

section \<open>Properties of pipes\<close>

definition pipes_inv :: "ipc \<Rightarrow> bool" where
  "pipes_inv s \<longleftrightarrow> length (pipes s) = 8 \<and> (\<forall>p \<in> set (pipes s). pipe_inv p)"

lemma pipes_inv_nth: "pipes_inv s \<Longrightarrow> i < 8 \<Longrightarrow> pipe_inv (pipes s ! i)"
  by (simp add: pipes_inv_def)

lemma pipes_inv_update: "pipes_inv s \<Longrightarrow> pipe_inv p \<Longrightarrow> pipes_inv (s\<lparr>pipes := (pipes s)[i := p]\<rparr>)"
  using set_update_subset_insert[of "pipes s" i p] by (auto simp: pipes_inv_def)

lemma zero_pipe_inv: "pipe_inv zero_pipe" "pipe_inv (zero_pipe\<lparr>is_open := True\<rparr>)" "pipe_contents zero_pipe = []"
  by (simp_all add: pipe_inv_def zero_pipe_def pipe_contents_def ring_list_def)

lemma good_pipe: "\<not> bad_pipe k s \<Longrightarrow> 0 \<le> k \<and> nat k < 8 \<and> is_open (pipes s ! nat k)"
  by (auto simp: bad_pipe_def MAX_PIPES_def)

lemma is_open_fold_put: "is_open (fold pipe_put bs p) = is_open p"
  by (induction bs arbitrary: p) (simp_all add: pipe_put_def put_byte_def)

lemma pipe_write_good:
  fixes s :: ipc and k :: int and data :: "u8 list"
  assumes "pipes_inv s" "\<not> bad_pipe k s"
  defines "p \<equiv> pipes s ! nat k"
  defines "n \<equiv> min (length data) (256 - unat (pcount p))"
  shows "\<exists>p'. pipe_write k data s = (s\<lparr>pipes := (pipes s)[nat k := p'],
      psched := (if n > 0 then process_wake_all_blocked (psched s) else psched s)\<rparr>, int n) \<and>
    pipe_inv p' \<and> pipe_contents p' = pipe_contents p @ take n data \<and> is_open p'"
proof -
  have p: "pipe_inv p" "is_open p" using assms good_pipe[OF assms(2)] pipes_inv_nth by (simp_all add: p_def)
  have loop: "pipe_write_loop data 0 p = (fold pipe_put data p, n)"
    using pipe_write_loop_fold[OF p(1), of data 0] by (simp add: n_def)
  have "take (256 - unat (pcount p)) data = take n data" by (simp add: n_def min_def)
  moreover have "pipe_write k data s = (s\<lparr>pipes := (pipes s)[nat k := fold pipe_put data p],
      psched := (if n > 0 then process_wake_all_blocked (psched s) else psched s)\<rparr>, int n)"
    using assms(2) loop unfolding pipe_write_def p_def by simp
  ultimately show ?thesis
    using pq.put_all[OF p(1), of data] p(2) by (intro exI[of _ "fold pipe_put data p"]) (simp add: is_open_fold_put)
qed

text \<open>
  \<^verbatim>\<open>pipe_write\<close> refuses an invalid or closed pipe with -1 and no effect; otherwise it appends
  as much of the data as fits to the pipe's queue and returns that number, touches no
  other pipe, and if it stored anything leaves no process blocked.
\<close>
theorem pipe_write_correct:
  assumes "pipes_inv s" "length (process_table (psched s)) = 16" "pipe_write k data s = (s', r)"
  shows "(bad_pipe k s \<longrightarrow> r = -1 \<and> s' = s) \<and>
    (\<not> bad_pipe k s \<longrightarrow> r = int (min (length data) (256 - length (pipe_contents (pipes s ! nat k)))) \<and>
       pipe_contents (pipes s' ! nat k) = pipe_contents (pipes s ! nat k) @ take (nat r) data \<and>
       (\<forall>j. j \<noteq> nat k \<longrightarrow> pipes s' ! j = pipes s ! j) \<and>
       (r > 0 \<longrightarrow> (\<forall>i < 16. state_of (psched s') i \<noteq> PROC_BLOCKED)) \<and>
       (r = 0 \<longrightarrow> psched s' = psched s)) \<and> pipes_inv s'"
proof (cases "bad_pipe k s")
  case True
  then show ?thesis using assms by (simp add: pipe_write_def)
next
  case False
  have k: "nat k < length (pipes s)" using good_pipe[OF False] assms(1) by (simp add: pipes_inv_def)
  define n where "n = min (length data) (256 - unat (pcount (pipes s ! nat k)))"
  obtain p' where p': "pipe_write k data s = (s\<lparr>pipes := (pipes s)[nat k := p'],
      psched := (if n > 0 then process_wake_all_blocked (psched s) else psched s)\<rparr>, int n)"
    "pipe_inv p'" "pipe_contents p' = pipe_contents (pipes s ! nat k) @ take n data"
    using pipe_write_good[OF assms(1) False, of data] unfolding n_def[symmetric] by blast
  have r: "r = int n" "s' = s\<lparr>pipes := (pipes s)[nat k := p'],
      psched := (if n > 0 then process_wake_all_blocked (psched s) else psched s)\<rparr>"
    using assms(3) p'(1) by simp_all
  have "pipes_inv (s\<lparr>pipes := (pipes s)[nat k := p']\<rparr>)" by (rule pipes_inv_update[OF assms(1) p'(2)])
  then have inv: "pipes_inv s'" by (simp add: r(2) pipes_inv_def)
  have "state_of (psched s') i \<noteq> PROC_BLOCKED" if "i < 16" "r > 0" for i
    using that assms(2) by (simp add: r state_of_wake_all)
  then have "r > 0 \<longrightarrow> (\<forall>i < 16. state_of (psched s') i \<noteq> PROC_BLOCKED)" by blast
  moreover have "r = 0 \<longrightarrow> psched s' = psched s" using r by simp
  moreover have "pipes s' = (pipes s)[nat k := p']" "nat r = n" by (simp_all add: r)
  moreover have "r = int (min (length data) (256 - length (pipe_contents (pipes s ! nat k))))"
    by (simp only: r(1) n_def length_pipe_contents)
  ultimately show ?thesis using False inv p'(3) k by (intro conjI impI) (blast | simp)+
qed

definition boot_ipc :: ipc where
  "boot_ipc = fst (pipe_alloc (pipe_init \<lparr>pipes = [], psched = demo1\<rparr>))"

lemma boot_ipc_eq:
  "boot_ipc = \<lparr>pipes = zero_pipe\<lparr>is_open := True\<rparr> # replicate 7 zero_pipe, psched = demo1\<rparr>"
  by (simp add: boot_ipc_def pipe_alloc_def pipe_init_def MAX_PIPES_def upt_rec eval_nat_numeral zero_pipe_def)

lemma boot_ipc_facts: "pipes_inv boot_ipc" "\<not> bad_pipe 0 boot_ipc" "pipe_contents (pipes boot_ipc ! 0) = []"
  "psched boot_ipc = demo1"
  using zero_pipe_inv by (auto simp: boot_ipc_eq pipes_inv_def bad_pipe_def MAX_PIPES_def pipe_contents_def
    ring_list_def zero_pipe_def)

theorem pipe_write_correct_witness:
  "snd (pipe_write 0 [1, 2, 3] boot_ipc) = 3 \<and>
   pipe_contents (pipes (fst (pipe_write 0 [1, 2, 3] boot_ipc)) ! 0) = [1, 2, 3]"
  using pipe_write_correct[of boot_ipc 0 "[1, 2, 3]", OF boot_ipc_facts(1) _ surjective_pairing]
  by (simp add: boot_ipc_facts demo1_facts(3))

lemma pipe_read_good:
  assumes "pipes_inv s" "\<not> bad_pipe k s" "pipe_contents (pipes s ! nat k) \<noteq> []"
  shows "\<exists>p'. pipe_read k len s = (s\<lparr>pipes := (pipes s)[nat k := p']\<rparr>,
      Returns (int (min (unat len) (length (pipe_contents (pipes s ! nat k)))))
        (take (unat len) (pipe_contents (pipes s ! nat k)))) \<and>
    pipe_inv p' \<and> pipe_contents p' = drop (unat len) (pipe_contents (pipes s ! nat k)) \<and> is_open p'"
proof -
  let ?p = "pipes s ! nat k"
  have p: "pipe_inv ?p" "is_open ?p" using good_pipe[OF assms(2)] pipes_inv_nth[OF assms(1)] by simp_all
  have c: "pcount ?p \<noteq> 0" using assms(3) by (simp add: pcount_0_iff)
  let ?r = "if len < pcount ?p then len else pcount ?p"
  have n: "unat ?r = min (unat len) (unat (pcount ?p))" by (simp add: min_def word_less_nat_alt)
  obtain p' where p': "pipe_read_loop (unat ?r) ?p = (p', take (unat ?r) (pipe_contents ?p))" "pipe_inv p'"
    "pipe_contents p' = drop (unat ?r) (pipe_contents ?p)" "is_open p' = is_open ?p"
    using pipe_read_loop_take[OF p(1), of "unat ?r"] n by auto
  have t: "take (unat ?r) (pipe_contents ?p) = take (unat len) (pipe_contents ?p)"
    "drop (unat ?r) (pipe_contents ?p) = drop (unat len) (pipe_contents ?p)"
    unfolding n by (simp_all add: min_def)
  have "uint ?r = int (unat ?r)" by simp
  then have "uint ?r = int (min (unat len) (length (pipe_contents ?p)))" unfolding n by simp
  then have "pipe_read k len s = (s\<lparr>pipes := (pipes s)[nat k := p']\<rparr>,
      Returns (int (min (unat len) (length (pipe_contents ?p)))) (take (unat len) (pipe_contents ?p)))"
    using assms(2) c p'(1) t by (simp only: pipe_read_def pipe_read_wait_def Let_def if_False split_beta fst_conv snd_conv)
  then show ?thesis using p' t p by auto
qed

text \<open>
  \<^verbatim>\<open>pipe_read\<close> on a valid pipe that holds data returns the oldest bytes, at most \<^verbatim>\<open>len\<close>, and removes exactly
  those; on an empty pipe it blocks a process that the scheduler runs and fails with -1 when there is none; no other
  pipe changes. On an invalid pipe it fails with -1 and no effect.
\<close>
theorem pipe_read_correct:
  assumes "pipes_inv s" "pipe_read k len s = (s', r)"
  shows "(bad_pipe k s \<longrightarrow> r = Returns (-1) [] \<and> s' = s) \<and>
    (\<not> bad_pipe k s \<and> pipe_contents (pipes s ! nat k) = [] \<longrightarrow> pipes s' = pipes s \<and>
       (case current_process (psched s) of None \<Rightarrow> r = Returns (-1) [] \<and> s' = s
        | Some _ \<Rightarrow> r = Blocks \<and> psched s' = process_block (psched s))) \<and>
    (\<not> bad_pipe k s \<and> pipe_contents (pipes s ! nat k) \<noteq> [] \<longrightarrow>
       (\<exists>bs. r = Returns (int (length bs)) bs \<and> length bs = min (unat len) (length (pipe_contents (pipes s ! nat k))) \<and>
          pipe_contents (pipes s ! nat k) = bs @ pipe_contents (pipes s' ! nat k)) \<and>
       (\<forall>j. j \<noteq> nat k \<longrightarrow> pipes s' ! j = pipes s ! j) \<and> psched s' = psched s) \<and> pipes_inv s'"
proof (cases "bad_pipe k s")
  case True
  then show ?thesis using assms by (simp add: pipe_read_def)
next
  case False
  have k: "nat k < length (pipes s)" using good_pipe[OF False] assms(1) by (simp add: pipes_inv_def)
  show ?thesis
  proof (cases "pipe_contents (pipes s ! nat k) = []")
    case True
    then have "pcount (pipes s ! nat k) = 0" by (simp add: pcount_0_iff)
    then show ?thesis using True False assms good_pipe[OF False]
      by (auto simp: pipe_read_def pipe_read_wait_def pipes_inv_def split: option.splits if_splits)
  next
    case ne: False
    obtain p' where p': "pipe_read k len s = (s\<lparr>pipes := (pipes s)[nat k := p']\<rparr>,
        Returns (int (min (unat len) (length (pipe_contents (pipes s ! nat k)))))
          (take (unat len) (pipe_contents (pipes s ! nat k))))" "pipe_inv p'"
      "pipe_contents p' = drop (unat len) (pipe_contents (pipes s ! nat k))"
      using pipe_read_good[OF assms(1) False ne] by blast
    have "pipes_inv s'" using pipes_inv_update[OF assms(1) p'(2)] p'(1) assms(2) by simp
    then show ?thesis using False ne p' k assms(2) by (auto simp: min.commute)
  qed
qed

theorem pipe_read_correct_witness:
  "snd (pipe_read 0 5 boot_ipc) = Blocks \<and> pipes (fst (pipe_read 0 5 boot_ipc)) = pipes boot_ipc"
  using pipe_read_correct[of boot_ipc 0 5, OF boot_ipc_facts(1) surjective_pairing]
  by (simp add: boot_ipc_facts demo1_facts(4))

subsection \<open>The byte stream through one pipe\<close>

text \<open>
  A history of reads and writes on any pipes, from any processes, with what the writes on pipe \<open>k\<close>
  accepted and what the reads of pipe \<open>k\<close> returned, in order.
\<close>

datatype pipe_op = Write_op int "u8 list" | Read_op int u32

fun pipe_history :: "int \<Rightarrow> pipe_op list \<Rightarrow> ipc \<Rightarrow> ipc \<times> u8 list \<times> u8 list" where
  "pipe_history k [] s = (s, [], [])"
| "pipe_history k (Write_op j data # ops) s =
     (let (s, r) = pipe_write j data s; (s, acc, out) = pipe_history k ops s
      in (s, (if j = k then take (nat r) data @ acc else acc), out))"
| "pipe_history k (Read_op j len # ops) s =
     (let (s, r) = pipe_read j len s; (s, acc, out) = pipe_history k ops s
      in (s, acc, (case r of Returns _ bs \<Rightarrow> if j = k then bs @ out else out | Blocks \<Rightarrow> out)))"

lemma pipe_write_step:
  assumes "pipes_inv s" "\<not> bad_pipe k s" "pipe_write j data s = (s', r)"
  shows "pipes_inv s' \<and> \<not> bad_pipe k s' \<and> pipe_contents (pipes s' ! nat k) =
    pipe_contents (pipes s ! nat k) @ (if j = k then take (nat r) data else [])"
proof (cases "bad_pipe j s")
  case True
  then show ?thesis using assms by (auto simp: pipe_write_def)
next
  case False
  obtain n q p' where p': "pipe_write j data s = (s\<lparr>pipes := (pipes s)[nat j := p'], psched := q\<rparr>, int n)"
    "pipe_inv p'" "pipe_contents p' = pipe_contents (pipes s ! nat j) @ take n data" "is_open p'"
    using pipe_write_good[OF assms(1) False, of data] by blast
  have "pipes_inv s'" using pipes_inv_update[OF assms(1) p'(2)] p'(1) assms(3) by (auto simp: pipes_inv_def)
  moreover have "nat j = nat k \<longleftrightarrow> j = k" using good_pipe[OF False] good_pipe[OF assms(2)] by auto
  moreover have "nat k < length (pipes s)" using assms(1) good_pipe[OF assms(2)] by (simp add: pipes_inv_def)
  ultimately show ?thesis using assms(2,3) p' by (auto simp: bad_pipe_def nth_list_update)
qed

lemma pipe_read_step:
  assumes "pipes_inv s" "\<not> bad_pipe k s" "pipe_read j len s = (s', r)"
  shows "pipes_inv s' \<and> \<not> bad_pipe k s' \<and> pipe_contents (pipes s ! nat k) =
    (case r of Returns _ bs \<Rightarrow> if j = k then bs else [] | Blocks \<Rightarrow> []) @ pipe_contents (pipes s' ! nat k)"
proof (cases "bad_pipe j s \<or> pipe_contents (pipes s ! nat j) = []")
  case True
  then have "bad_pipe j s \<or> pcount (pipes s ! nat j) = 0" by (auto simp: pcount_0_iff)
  then show ?thesis using assms
    by (auto simp: pipe_read_def pipe_read_wait_def pipes_inv_def bad_pipe_def split: if_splits)
next
  case False
  obtain n p' where p': "pipe_read j len s = (s\<lparr>pipes := (pipes s)[nat j := p']\<rparr>,
        Returns n (take (unat len) (pipe_contents (pipes s ! nat j))))" "pipe_inv p'"
      "pipe_contents p' = drop (unat len) (pipe_contents (pipes s ! nat j))" "is_open p'"
    using pipe_read_good[OF assms(1)] False by blast
  have "pipes_inv s'" using pipes_inv_update[OF assms(1) p'(2)] p'(1) assms(3) by simp
  moreover have "nat j = nat k \<longleftrightarrow> j = k" using good_pipe[of j s] good_pipe[OF assms(2)] False by auto
  moreover have "nat k < length (pipes s)" using assms(1) good_pipe[OF assms(2)] by (simp add: pipes_inv_def)
  ultimately show ?thesis using assms(2,3) p' by (auto simp: bad_pipe_def nth_list_update)
qed

text \<open>
  C21. A pipe is a reliable byte stream: over any history of reads and writes on all pipes, the bytes first in pipe \<open>k\<close>
  followed by those its writers were told were accepted are exactly those its readers received followed
  by what is still in it: nothing is lost, duplicated, reordered or mixed with another pipe's data.
\<close>
theorem pipe_stream:
  assumes "pipes_inv s" "\<not> bad_pipe k s" "pipe_history k ops s = (s', acc, out)"
  shows "pipe_contents (pipes s ! nat k) @ acc = out @ pipe_contents (pipes s' ! nat k) \<and> pipes_inv s'"
  using assms
proof (induction k ops s arbitrary: s' acc out rule: pipe_history.induct)
  case (2 k j data ops s)
  obtain t r where w: "pipe_write j data s = (t, r)" by fastforce
  obtain a where h: "pipe_history k ops t = (s', a, out)" "acc = (if j = k then take (nat r) data @ a else a)"
    using "2.prems"(3) w by (auto split: prod.splits)
  show ?case using "2.IH"[OF w[symmetric] refl, of s' a out] pipe_write_step[OF "2.prems"(1,2) w] h by auto
next
  case (3 k j len ops s)
  obtain t r where w: "pipe_read j len s = (t, r)" by fastforce
  obtain u where h: "pipe_history k ops t = (s', acc, u)"
      "out = (case r of Returns _ bs \<Rightarrow> if j = k then bs @ u else u | Blocks \<Rightarrow> u)"
    using "3.prems"(3) w by (auto split: prod.splits)
  show ?case using "3.IH"[OF w[symmetric] refl, of s' acc u] pipe_read_step[OF "3.prems"(1,2) w] h
    by (auto split: read_result.splits)
qed simp

theorem pipe_stream_witness:
  "fst (snd (pipe_history 0 [Write_op 0 [1, 2], Read_op 0 9] boot_ipc)) =
     snd (snd (pipe_history 0 [Write_op 0 [1, 2], Read_op 0 9] boot_ipc)) @
       pipe_contents (pipes (fst (pipe_history 0 [Write_op 0 [1, 2], Read_op 0 9] boot_ipc)) ! 0)"
  using pipe_stream[of boot_ipc 0 "[Write_op 0 [1, 2], Read_op 0 9]", OF boot_ipc_facts(1,2)]
  by (cases "pipe_history 0 [Write_op 0 [1, 2], Read_op 0 9] boot_ipc") (simp add: boot_ipc_facts)

subsection \<open>Allocation and closing\<close>

text \<open>
  \<^verbatim>\<open>pipe_alloc\<close> hands out a pipe that was closed, open and empty now, with every other pipe untouched, and
  fails only when all eight are open; after \<^verbatim>\<open>pipe_close\<close> every use of the pipe fails until it is
  allocated again, and no reader stays blocked.
\<close>
theorem pipe_alloc_close:
  assumes "pipes_inv s" "length (process_table (psched s)) = 16" "pipe_alloc s = (s', k)"
  shows "pipes_inv s' \<and>
    (k = -1 \<and> s' = s \<and> (\<forall>i < 8. is_open (pipes s ! i)) \<or>
      (bad_pipe k s \<and> \<not> bad_pipe k s' \<and> pipe_contents (pipes s' ! nat k) = [] \<and>
       (\<forall>j. j \<noteq> nat k \<longrightarrow> pipes s' ! j = pipes s ! j) \<and>
       bad_pipe k (pipe_close k s') \<and> (\<forall>i < 16. state_of (psched (pipe_close k s')) i \<noteq> PROC_BLOCKED)))"
proof (cases "find (\<lambda>i. \<not> is_open (pipes s ! i)) [0 ..< MAX_PIPES]")
  case None
  then have "\<forall>i < 8. is_open (pipes s ! i)" by (auto simp: MAX_PIPES_def find_None_iff)
  moreover have "s' = s" "k = -1" using None assms(3) by (simp_all add: pipe_alloc_def)
  ultimately show ?thesis using assms(1) by simp
next
  case (Some i)
  have i: "i < 8" "\<not> is_open (pipes s ! i)" using Some by (auto simp: find_Some_iff MAX_PIPES_def)
  have s': "s' = s\<lparr>pipes := (pipes s)[i := zero_pipe\<lparr>is_open := True\<rparr>]\<rparr>" "k = int i"
    using Some assms(3) by (simp_all add: pipe_alloc_def)
  have "length (pipes s) = 8" using assms(1) by (simp add: pipes_inv_def)
  moreover have "pipes_inv s'" unfolding s'(1) by (rule pipes_inv_update[OF assms(1) zero_pipe_inv(2)])
  moreover have "pipe_contents (zero_pipe\<lparr>is_open := True\<rparr>) = []"
    by (simp add: pipe_contents_def zero_pipe_def ring_list_def)
  ultimately show ?thesis using i assms(2) s'
    by (auto simp: bad_pipe_def pipe_close_def MAX_PIPES_def state_of_wake_all)
qed

theorem pipe_alloc_close_witness: "snd (pipe_alloc boot_ipc) = 1 \<and> pipes_inv (fst (pipe_alloc boot_ipc))"
  using pipe_alloc_close[of boot_ipc, OF boot_ipc_facts(1) _ surjective_pairing]
  by (simp add: boot_ipc_facts demo1_facts(3))
    (simp add: boot_ipc_eq pipe_alloc_def MAX_PIPES_def upt_rec eval_nat_numeral zero_pipe_def)

end
