(* ===== verification/Kmem.thy ===== *)
theory Kmem
  imports Memory
begin

text \<open>
  The kernel heap, \<^verbatim>\<open>kernel/kmem.c\<close>: a first-fit allocator over a 256 KB array.
  The block headers are linked through memory, so the model keeps the machine
  memory and walks the list by pointer, as the code does; the loops are partial
  functions, since a corrupted list could be cyclic. The second half gives the
  abstract view, an address-ordered list of blocks, and shows that every
  operation terminates, implements the operation on that list, keeps the heap
  well formed, and leaves the contents of allocated blocks alone.
\<close>

section \<open>The code\<close>

definition HEAP_SIZE :: u32 where [kconst]: "HEAP_SIZE = 256 * 1024"
definition HEAP_MAGIC :: u32 where [kconst]: "HEAP_MAGIC = 0xDEAD1337"
definition sizeof_header :: u32 where [kconst]: "sizeof_header = 16"

text \<open>
  The static state of \<^verbatim>\<open>kmem.c\<close>: the memory the array lies in, the address the
  linker gave \<^verbatim>\<open>heap_storage\<close>, and the pointer \<^verbatim>\<open>heap_head\<close> (0 is NULL).
\<close>

record kheap =
  kmem :: mem
  heap_storage :: u32
  heap_head :: u32

text \<open>The fields of \<^verbatim>\<open>struct block_header\<close> at a header address.\<close>

definition blk_size :: "mem \<Rightarrow> u32 \<Rightarrow> u32" where "blk_size m b = load32 m b"
definition blk_free :: "mem \<Rightarrow> u32 \<Rightarrow> u32" where "blk_free m b = load32 m (b + 4)"
definition blk_magic :: "mem \<Rightarrow> u32 \<Rightarrow> u32" where "blk_magic m b = load32 m (b + 8)"
definition blk_next :: "mem \<Rightarrow> u32 \<Rightarrow> u32" where "blk_next m b = load32 m (b + 12)"

definition set_size :: "mem \<Rightarrow> u32 \<Rightarrow> u32 \<Rightarrow> mem" where "set_size m b v = store32 m b v"
definition set_free :: "mem \<Rightarrow> u32 \<Rightarrow> u32 \<Rightarrow> mem" where "set_free m b v = store32 m (b + 4) v"
definition set_magic :: "mem \<Rightarrow> u32 \<Rightarrow> u32 \<Rightarrow> mem" where "set_magic m b v = store32 m (b + 8) v"
definition set_next :: "mem \<Rightarrow> u32 \<Rightarrow> u32 \<Rightarrow> mem" where "set_next m b v = store32 m (b + 12) v"

definition kmem_init :: "kheap \<Rightarrow> kheap" where
  "kmem_init h =
     (let p = heap_storage h;
          m = set_size (kmem h) p (HEAP_SIZE - sizeof_header);
          m = set_free m p 1;
          m = set_magic m p HEAP_MAGIC;
          m = set_next m p 0
      in h\<lparr>heap_head := p, kmem := m\<rparr>)"

text \<open>The body of the \<^verbatim>\<open>if\<close> that takes the block \<^verbatim>\<open>curr\<close>: split when there is room, mark, return.\<close>

definition kmalloc_split :: "mem \<Rightarrow> u32 \<Rightarrow> u32 \<Rightarrow> mem" where
  "kmalloc_split m sz cur =
     (let split = cur + sizeof_header + sz;
          m = set_size m split (blk_size m cur - sz - sizeof_header);
          m = set_free m split 1;
          m = set_magic m split HEAP_MAGIC;
          m = set_next m split (blk_next m cur);
          m = set_next m cur split
      in set_size m cur sz)"

definition kmalloc_take :: "kheap \<Rightarrow> u32 \<Rightarrow> u32 \<Rightarrow> kheap \<times> u32" where
  "kmalloc_take h sz cur =
     (let m = kmem h;
          m = (if blk_size m cur \<ge> sz + sizeof_header + 4
               then kmalloc_split m sz cur else m)
      in (h\<lparr>kmem := set_free m cur 0\<rparr>, cur + sizeof_header))"

partial_function (option) kmalloc_loop :: "kheap \<Rightarrow> u32 \<Rightarrow> u32 \<Rightarrow> (kheap \<times> u32) option" where
  "kmalloc_loop h sz cur =
     (if cur = 0 then Some (h, 0)
      else if blk_free (kmem h) cur \<noteq> 0 \<and> blk_size (kmem h) cur \<ge> sz
        then Some (kmalloc_take h sz cur)
      else kmalloc_loop h sz (blk_next (kmem h) cur))"

definition kmalloc :: "kheap \<Rightarrow> u32 \<Rightarrow> (kheap \<times> u32) option" where
  "kmalloc h sz =
     (if sz = 0 then Some (h, 0)
      else kmalloc_loop h ((sz + 3) AND NOT 3) (heap_head h))"

partial_function (option) kfree_merge :: "kheap \<Rightarrow> u32 \<Rightarrow> kheap option" where
  "kfree_merge h cur =
     (if cur = 0 \<or> blk_next (kmem h) cur = 0 then Some h
      else let m = kmem h; nx = blk_next m cur in
        if blk_free m cur \<noteq> 0 \<and> blk_free m nx \<noteq> 0
        then let m' = set_size m cur (blk_size m cur + (sizeof_header + blk_size m nx));
                 m'' = set_next m' cur (blk_next m' (blk_next m' cur))
             in kfree_merge (h\<lparr>kmem := m''\<rparr>) cur
        else kfree_merge h nx)"

definition kfree :: "kheap \<Rightarrow> u32 \<Rightarrow> kheap option" where
  "kfree h ptr =
     (if ptr = 0 then Some h
      else let block = ptr - sizeof_header in
        if blk_magic (kmem h) block \<noteq> HEAP_MAGIC \<or> blk_free (kmem h) block \<noteq> 0
        then Some h
        else kfree_merge (h\<lparr>kmem := set_free (kmem h) block 1\<rparr>) (heap_head h))"

text \<open>\<open>kmem_info\<close> returns \<^verbatim>\<open>*out_used\<close>, \<^verbatim>\<open>*out_free\<close> and \<^verbatim>\<open>*out_total\<close>.\<close>

partial_function (option) kmem_info_loop :: "kheap \<Rightarrow> u32 \<Rightarrow> u32 \<Rightarrow> u32 \<Rightarrow> (u32 \<times> u32) option" where
  "kmem_info_loop h cur used free =
     (if cur = 0 then Some (used, free)
      else if blk_free (kmem h) cur \<noteq> 0
        then kmem_info_loop h (blk_next (kmem h) cur) used (free + blk_size (kmem h) cur)
      else kmem_info_loop h (blk_next (kmem h) cur) (used + blk_size (kmem h) cur) free)"

definition kmem_info :: "kheap \<Rightarrow> (u32 \<times> u32 \<times> u32) option" where
  "kmem_info h =
     map_option (\<lambda>(used, free). (used, free, HEAP_SIZE)) (kmem_info_loop h (heap_head h) 0 0)"

section \<open>The abstract heap\<close>

text \<open>
  Abstractly the heap is the list of its blocks in address order, each with its
  usable size and whether it is free; the addresses follow from the sizes.
\<close>

type_synonym blk = "nat \<times> bool"

fun total :: "blk list \<Rightarrow> nat" where
  "total [] = 0"
| "total ((s, f) # bs) = 16 + s + total bs"

fun alloc_data :: "nat \<Rightarrow> blk list \<Rightarrow> nat set" where
  "alloc_data n [] = {}"
| "alloc_data n ((s, f) # bs) =
     (if f then {} else {n + 16 ..< n + 16 + s}) \<union> alloc_data (n + 16 + s) bs"

fun no_adjacent_free :: "blk list \<Rightarrow> bool" where
  "no_adjacent_free ((s, f) # (s', f') # bs) =
     (\<not> (f \<and> f') \<and> no_adjacent_free ((s', f') # bs))"
| "no_adjacent_free bs = True"

fun alloc_fit :: "nat \<Rightarrow> nat \<Rightarrow> blk list \<Rightarrow> (nat \<times> blk list) option" where
  "alloc_fit n sz [] = None"
| "alloc_fit n sz ((s, f) # bs) =
     (if f \<and> sz \<le> s
      then Some (n + 16, if sz + 20 \<le> s then (sz, False) # (s - sz - 16, True) # bs
                         else (s, False) # bs)
      else map_option (\<lambda>(p, bs'). (p, (s, f) # bs')) (alloc_fit (n + 16 + s) sz bs))"

fun coalesce :: "blk list \<Rightarrow> blk list" where
  "coalesce ((s, f) # (s', f') # bs) =
     (if f \<and> f' then coalesce ((s + (16 + s'), True) # bs)
      else (s, f) # coalesce ((s', f') # bs))"
| "coalesce [b] = [b]"
| "coalesce [] = []"

lemma alloc_fit_ne: "alloc_fit n sz bs = Some (p, bs') \<Longrightarrow> bs \<noteq> [] \<and> bs' \<noteq> []"
  by (cases "(n, sz, bs)" rule: alloc_fit.cases) (auto split: if_splits)

lemma alloc_fit_total: "alloc_fit n sz bs = Some (p, bs') \<Longrightarrow> total bs' = total bs"
  by (induction n sz bs arbitrary: p bs' rule: alloc_fit.induct) (auto split: if_splits)

text \<open>The block whose header is at address \<open>a\<close>, and the list with that block marked free.\<close>

fun find_blk :: "nat \<Rightarrow> blk list \<Rightarrow> nat \<Rightarrow> blk option" where
  "find_blk n [] a = None"
| "find_blk n ((s, f) # bs) a = (if a = n then Some (s, f) else find_blk (n + 16 + s) bs a)"

fun release_blk :: "nat \<Rightarrow> nat \<Rightarrow> blk list \<Rightarrow> blk list" where
  "release_blk n a [] = []"
| "release_blk n a ((s, f) # bs) =
     (if a = n then (s, True) # bs else (s, f) # release_blk (n + 16 + s) a bs)"

section \<open>Facts about block lists\<close>

lemma total_pos: "bs \<noteq> [] \<Longrightarrow> 16 \<le> total bs"
  by (cases bs) auto

lemma length_total: "16 * length bs \<le> total bs"
  by (induction bs rule: total.induct) auto

lemma alloc_data_bounds: "x \<in> alloc_data n bs \<Longrightarrow> n + 16 \<le> x \<and> x < n + total bs"
  by (induction n bs rule: alloc_data.induct) (fastforce split: if_splits)+

lemma find_blk_bounds:
  "find_blk n bs a = Some (s, f) \<Longrightarrow> n \<le> a \<and> a + 16 + s \<le> n + total bs \<and> (s, f) \<in> set bs"
  by (induction n bs a rule: find_blk.induct) (fastforce split: if_splits)+

lemma find_blk_alloc_data:
  "find_blk n bs a = Some (s, False) \<Longrightarrow> {a + 16 ..< a + 16 + s} \<subseteq> alloc_data n bs"
  by (induction n bs a rule: find_blk.induct) (fastforce split: if_splits)+

lemma find_blk_order:
  "find_blk n bs a = Some (s, f) \<Longrightarrow> find_blk n bs b = Some (t, g) \<Longrightarrow> a < b \<Longrightarrow> a + 16 + s \<le> b"
proof (induction n bs a rule: find_blk.induct)
  case (2 n u k bs a)
  then show ?case
    using find_blk_bounds[of "n + 16 + u" bs b t g] find_blk_bounds[of "n + 16 + u" bs a s f]
    by (auto split: if_splits)
qed simp

lemma find_blk_alloc_sep:
  "find_blk n bs a = Some (s, f) \<Longrightarrow> x \<in> alloc_data n bs \<Longrightarrow> x < a \<or> a + 16 \<le> x"
proof (induction n bs a rule: find_blk.induct)
  case (2 n t g bs a)
  then show ?case
    using alloc_data_bounds[of x "n + 16 + t" bs] find_blk_bounds[of "n + 16 + t" bs a s f]
    by (auto split: if_splits)
qed simp

lemma alloc_fit_spec:
  assumes "alloc_fit n sz bs = Some (p, bs')"
  shows "\<exists>s. n + 16 \<le> p \<and> find_blk n bs' (p - 16) = Some (s, False) \<and> sz \<le> s \<and>
    alloc_data n bs' = alloc_data n bs \<union> {p ..< p + s} \<and> {p ..< p + s} \<inter> alloc_data n bs = {}"
  using assms
proof (induction n sz bs arbitrary: p bs' rule: alloc_fit.induct)
  case (2 n sz s f bs)
  show ?case
  proof (cases "f \<and> sz \<le> s")
    case True
    have disj: "{n + 16 ..< n + 16 + s} \<inter> alloc_data (n + 16 + s) bs = {}"
      using alloc_data_bounds by fastforce
    show ?thesis
    proof (cases "sz + 20 \<le> s")
      case split: True
      then have "n + 16 + sz + 16 + (s - sz - 16) = n + 16 + s" by simp
      with True split "2.prems" disj show ?thesis
        by (intro exI[of _ sz]) (auto simp: ac_simps disjoint_iff)
    next
      case False
      with True "2.prems" disj show ?thesis by (intro exI[of _ s]) auto
    qed
  next
    case False
    then obtain bs1 where r: "alloc_fit (n + 16 + s) sz bs = Some (p, bs1)" "bs' = (s, f) # bs1"
      using "2.prems" by (auto split: if_splits)
    from "2.IH"[OF False r(1)] obtain t where t: "n + 16 + s + 16 \<le> p"
      "find_blk (n + 16 + s) bs1 (p - 16) = Some (t, False)" "sz \<le> t"
      "alloc_data (n + 16 + s) bs1 = alloc_data (n + 16 + s) bs \<union> {p ..< p + t}"
      "{p ..< p + t} \<inter> alloc_data (n + 16 + s) bs = {}" by blast
    then show ?thesis unfolding r(2) by (intro exI[of _ t]) auto
  qed
qed simp

lemma alloc_fit_keeps:
  assumes "alloc_fit n sz bs = Some (p, bs')" "find_blk n bs a = Some (s, False)"
  shows "find_blk n bs' a = Some (s, False)"
  using assms
proof (induction n sz bs arbitrary: p bs' rule: alloc_fit.induct)
  case (2 n sz t f bs)
  show ?case
  proof (cases "f \<and> sz \<le> t")
    case True
    then have "a \<noteq> n" and rest: "find_blk (n + 16 + t) bs a = Some (s, False)"
      using "2.prems"(2) by (auto split: if_splits)
    moreover from rest have "n + 16 + t \<le> a" using find_blk_bounds by blast
    moreover have "n + 16 + sz + 16 + (t - sz - 16) = n + 16 + t" if "sz + 20 \<le> t"
      using that by simp
    ultimately show ?thesis using "2.prems"(1) True by (auto simp: ac_simps split: if_splits)
  next
    case False
    with 2 show ?thesis by (auto split: if_splits)
  qed
qed simp

lemma alloc_fit_None: "alloc_fit n sz bs = None \<longleftrightarrow> (\<forall>(s, f) \<in> set bs. f \<longrightarrow> s < sz)"
  by (induction n sz bs rule: alloc_fit.induct) auto

lemma alloc_fit_dvd:
  assumes "alloc_fit n sz bs = Some (p, bs')" "4 dvd sz" "\<forall>b \<in> set bs. 4 dvd fst b"
  shows "\<forall>b \<in> set bs'. 4 dvd fst b"
  using assms
proof (induction n sz bs arbitrary: p bs' rule: alloc_fit.induct)
  case (2 n sz s f bs)
  have "4 dvd s - sz - 16" if "sz + 20 \<le> s"
    using that 2(3,4) by (auto intro!: dvd_diff_nat)
  with 2 show ?case by (fastforce split: if_splits)
qed simp

lemma no_adjacent_free_Cons:
  "no_adjacent_free ((s, f) # bs) \<longleftrightarrow> \<not> (f \<and> bs \<noteq> [] \<and> snd (hd bs)) \<and> no_adjacent_free bs"
  by (cases bs) auto

lemma alloc_fit_hd:
  "alloc_fit n sz bs = Some (p, bs') \<Longrightarrow> snd (hd bs') \<Longrightarrow> snd (hd bs)"
  by (cases "(n, sz, bs)" rule: alloc_fit.cases) (auto split: if_splits)

lemma alloc_fit_no_adjacent:
  "alloc_fit n sz bs = Some (p, bs') \<Longrightarrow> no_adjacent_free bs \<Longrightarrow> no_adjacent_free bs'"
proof (induction n sz bs arbitrary: p bs' rule: alloc_fit.induct)
  case (2 n sz s f bs)
  then show ?case
    using alloc_fit_hd alloc_fit_ne
    by (fastforce simp: no_adjacent_free_Cons split: if_splits)
qed simp

lemma coalesce_ne: "coalesce bs = [] \<longleftrightarrow> bs = []"
  by (induction bs rule: coalesce.induct) auto

lemma coalesce_total: "total (coalesce bs) = total bs"
  by (induction bs rule: coalesce.induct) auto

lemma coalesce_alloc_data: "alloc_data n (coalesce bs) = alloc_data n bs"
  by (induction bs arbitrary: n rule: coalesce.induct) (auto simp: ac_simps)

lemma coalesce_dvd: "\<forall>b \<in> set bs. 4 dvd fst b \<Longrightarrow> \<forall>b \<in> set (coalesce bs). 4 dvd fst b"
  by (induction bs rule: coalesce.induct) auto

lemma coalesce_hd: "bs \<noteq> [] \<Longrightarrow> snd (hd (coalesce bs)) = snd (hd bs)"
  by (induction bs rule: coalesce.induct) auto

lemma coalesce_no_adjacent: "no_adjacent_free (coalesce bs)"
  by (induction bs rule: coalesce.induct) (auto simp: no_adjacent_free_Cons coalesce_hd)

lemma coalesce_id: "no_adjacent_free bs \<Longrightarrow> coalesce bs = bs"
  by (induction bs rule: coalesce.induct) auto

lemma coalesce_find:
  "find_blk n bs a = Some (s, False) \<Longrightarrow> find_blk n (coalesce bs) a = Some (s, False)"
  by (induction bs arbitrary: n rule: coalesce.induct) (auto simp: ac_simps split: if_splits)

lemma coalesce_find_iff:
  "find_blk n (coalesce bs) a = Some (s, False) \<longleftrightarrow> find_blk n bs a = Some (s, False)"
proof (induction bs arbitrary: n rule: coalesce.induct)
  case (1 t f t' f' bs)
  have "find_blk (n + 16 + (t + (16 + t'))) bs n \<noteq> Some (s, False)"
    "find_blk (n + 16 + (t + (16 + t'))) bs (n + 16 + t) \<noteq> Some (s, False)"
    using find_blk_bounds[of "n + 16 + (t + (16 + t'))" bs] by fastforce+
  with 1 show ?case by (auto simp: ac_simps)
qed auto

lemma coalesce_Cons:
  "\<not> (f \<and> r \<noteq> [] \<and> snd (hd r)) \<Longrightarrow> coalesce ((s, f) # r) = (s, f) # coalesce r"
  by (cases r) auto

lemma release_blk_total: "total (release_blk n a bs) = total bs"
  by (induction n a bs rule: release_blk.induct) auto

lemma release_blk_ne: "release_blk n a bs = [] \<longleftrightarrow> bs = []"
  by (cases "(n, a, bs)" rule: release_blk.cases) auto

lemma release_blk_dvd: "\<forall>b \<in> set bs. 4 dvd fst b \<Longrightarrow> \<forall>b \<in> set (release_blk n a bs). 4 dvd fst b"
  by (induction n a bs rule: release_blk.induct) auto

lemma release_blk_alloc_data:
  assumes "find_blk n bs a = Some (s, False)"
  shows "alloc_data n (release_blk n a bs) = alloc_data n bs - {a + 16 ..< a + 16 + s}"
  using assms
proof (induction n bs a rule: find_blk.induct)
  case (2 n t f bs a)
  have "{n + 16 ..< n + 16 + t} \<inter> alloc_data (n + 16 + t) bs = {}"
    using alloc_data_bounds by fastforce
  moreover have "n + 16 + t \<le> a" if "a \<noteq> n"
    using that "2.prems" find_blk_bounds[of "n + 16 + t" bs a s False] by auto
  ultimately show ?case using 2 by (auto split: if_splits)
qed simp

lemma release_blk_find_other:
  "a' \<noteq> a \<Longrightarrow> find_blk n bs a' = Some (s, False) \<Longrightarrow> find_blk n (release_blk n a bs) a' = Some (s, False)"
  by (induction n bs a' rule: find_blk.induct) (auto split: if_splits)

lemma release_blk_find: "find_blk n bs a = Some (s, f) \<Longrightarrow> find_blk n (release_blk n a bs) a = Some (s, True)"
  by (induction n bs a rule: find_blk.induct) (auto split: if_splits)

lemma find_blk_dvd:
  "find_blk n bs a = Some (s, f) \<Longrightarrow> \<forall>b \<in> set bs. 4 dvd fst b \<Longrightarrow> 4 dvd a - n"
proof (induction n bs a rule: find_blk.induct)
  case (2 n t g bs a)
  show ?case
  proof (cases "a = n")
    case False
    then have "find_blk (n + 16 + t) bs a = Some (s, f)" using "2.prems"(1) by simp
    then have "4 dvd a - (n + 16 + t)" "n + 16 + t \<le> a"
      using 2 False find_blk_bounds by auto
    moreover have "4 dvd 16 + t" using "2.prems"(2) by auto
    ultimately have "4 dvd (a - (n + 16 + t)) + (16 + t)" by (rule_tac dvd_add)
    then show ?thesis using \<open>n + 16 + t \<le> a\<close> by (simp add: ac_simps)
  qed simp
qed simp

lemma alloc_release_id:
  "alloc_fit n sz bs = Some (p, bs') \<Longrightarrow> no_adjacent_free bs \<Longrightarrow>
   coalesce (release_blk n (p - 16) bs') = bs"
proof (induction n sz bs arbitrary: p bs' rule: alloc_fit.induct)
  case (2 n sz s f bs)
  show ?case
  proof (cases "f \<and> sz \<le> s")
    case True
    then have "coalesce ((s, True) # bs) = (s, f) # bs"
      using "2.prems"(2) coalesce_id[of "(s, f) # bs"] by simp
    moreover have "sz + (16 + (s - sz - 16)) = s" if "sz + 20 \<le> s" using that by simp
    ultimately show ?thesis using True "2.prems"(1) by (auto split: if_splits)
  next
    case False
    then obtain bs1 where r: "alloc_fit (n + 16 + s) sz bs = Some (p, bs1)" "bs' = (s, f) # bs1"
      using "2.prems"(1) by (auto split: if_splits)
    let ?r = "release_blk (n + 16 + s) (p - 16) bs1"
    have IH: "coalesce ?r = bs"
      using "2.IH"[OF False r(1)] "2.prems"(2) by (simp add: no_adjacent_free_Cons)
    have "n < p - 16" using alloc_fit_spec[OF r(1)] by auto
    moreover have "\<not> (f \<and> ?r \<noteq> [] \<and> snd (hd ?r))"
      using "2.prems"(2) IH coalesce_hd[of ?r] coalesce_ne[of ?r]
      by (auto simp: no_adjacent_free_Cons)
    ultimately show ?thesis unfolding r(2) using coalesce_Cons IH by simp
  qed
qed simp

section \<open>Representation in memory\<close>

fun seg :: "mem \<Rightarrow> nat \<Rightarrow> blk list \<Rightarrow> bool" where
  "seg m n [] = True"
| "seg m n ((s, f) # bs) =
     (ld m n = of_nat s \<and> ld m (n + 4) = (if f then 1 else 0) \<and> ld m (n + 8) = HEAP_MAGIC \<and>
      ld m (n + 12) = (if bs = [] then 0 else of_nat (n + 16 + s)) \<and> seg m (n + 16 + s) bs)"

lemma field_at:
  "blk_size m (of_nat n) = ld m n" "blk_free m (of_nat n) = ld m (n + 4)"
  "blk_magic m (of_nat n) = ld m (n + 8)" "blk_next m (of_nat n) = ld m (n + 12)"
  "set_size m (of_nat n) v = st m n v" "set_free m (of_nat n) v = st m (n + 4) v"
  "set_magic m (of_nat n) v = st m (n + 8) v" "set_next m (of_nat n) v = st m (n + 12) v"
  by (simp_all add: blk_size_def blk_free_def blk_magic_def blk_next_def set_size_def
      set_free_def set_magic_def set_next_def ld_def st_def)

lemma seg_cong:
  assumes "seg m n bs" "n + total bs \<le> 4294967296"
    and "\<And>x. n \<le> unat x \<Longrightarrow> unat x < n + total bs \<Longrightarrow> m x = m' x"
  shows "seg m' n bs"
  using assms
proof (induction m n bs rule: seg.induct)
  case (2 m n s f bs)
  have eq: "ld m' (n + k) = ld m (n + k)" if "k \<le> 12" for k
    by (rule ld_cong) (use that "2.prems"(2,3) in auto)
  have "seg m' (n + 16 + s) bs"
    by (rule "2.IH") (use "2.prems" in auto)
  then show ?case using "2.prems"(1) eq[of 0] eq[of 4] eq[of 8] eq[of 12] by simp
qed simp

lemma of_nat_neq_0: "0 < n \<Longrightarrow> n < 4294967296 \<Longrightarrow> of_nat n \<noteq> (0 :: u32)"
  by (metis neq0_conv unat_0 unat_of_nat_u32)

lemma of_nat_le_u32:
  "a < 4294967296 \<Longrightarrow> b < 4294967296 \<Longrightarrow> (of_nat a :: u32) \<le> of_nat b \<longleftrightarrow> a \<le> b"
  by (simp add: word_le_nat_alt unat_of_nat_u32)

section \<open>Allocation\<close>

lemma header_offset: "(of_nat n :: u32) + sizeof_header = of_nat (n + 16)"
  by (simp add: sizeof_header_def)

lemma kmalloc_take_seg:
  assumes "seg (kmem h) n ((s, True) # bs)" "n + 16 + s + total bs \<le> 4294967296" "sz \<le> s"
    "sz + 20 < 4294967296"
  shows "\<exists>m'. kmalloc_take h (of_nat sz) (of_nat n) = (h\<lparr>kmem := m'\<rparr>, of_nat (n + 16)) \<and>
    seg m' n (if sz + 20 \<le> s then (sz, False) # (s - sz - 16, True) # bs else (s, False) # bs) \<and>
    (\<forall>x. unat x < n \<or> n + 16 + s \<le> unat x \<longrightarrow> m' x = kmem h x)"
proof (cases "sz + 20 \<le> s")
  case True
  let ?m = "kmem h" and ?q = "n + 16 + sz"
  define m' where "m' = st (st (st (st (st (st (st ?m ?q (of_nat (s - sz - 16))) (?q + 4) 1)
    (?q + 8) HEAP_MAGIC) (?q + 12) (ld ?m (n + 12))) (n + 12) (of_nat ?q)) n (of_nat sz)) (n + 4) 0"
  have sz: "(of_nat s :: u32) - of_nat sz - sizeof_header = of_nat (s - sz - 16)"
    using True by (simp add: sizeof_header_def of_nat_diff)
  have room: "(of_nat sz :: u32) + sizeof_header + 4 \<le> of_nat s"
  proof -
    have "(of_nat sz :: u32) + sizeof_header + 4 = of_nat (sz + 20)"
      by (simp add: sizeof_header_def)
    then show ?thesis using True assms(2) by (simp only: of_nat_le_u32)
  qed
  have "kmalloc_take h (of_nat sz) (of_nat n) = (h\<lparr>kmem := m'\<rparr>, of_nat (n + 16))"
    using assms(1) room True assms(2)
    by (simp add: kmalloc_take_def kmalloc_split_def Let_def header_offset sz field_at m'_def
        ld_st_other del: of_nat_add of_nat_diff flip: of_nat_add)
  moreover have tail: "seg m' (n + 16 + s) bs"
    by (rule seg_cong[of ?m]) (use assms True in \<open>simp_all add: m'_def st_frame\<close>)
  have "?q + 16 + (s - sz - 16) = n + 16 + s" using True by simp
  then have "seg m' n ((sz, False) # (s - sz - 16, True) # bs)"
    using assms True tail
    by (simp add: m'_def ld_st_other ac_simps del: of_nat_add of_nat_diff)
  moreover have "\<forall>x. unat x < n \<or> n + 16 + s \<le> unat x \<longrightarrow> m' x = ?m x"
    using assms(2) True by (auto simp: m'_def st_frame)
  ultimately show ?thesis using True by auto
next
  case False
  let ?m = "kmem h"
  define m' where "m' = st ?m (n + 4) 0"
  have room: "\<not> (of_nat sz :: u32) + sizeof_header + 4 \<le> of_nat s"
  proof -
    have "(of_nat sz :: u32) + sizeof_header + 4 = of_nat (sz + 20)"
      by (simp add: sizeof_header_def)
    then show ?thesis using False assms(2-4) by (simp add: of_nat_le_u32 del: of_nat_add)
  qed
  then have "kmalloc_take h (of_nat sz) (of_nat n) = (h\<lparr>kmem := m'\<rparr>, of_nat (n + 16))"
    using assms(1)
    by (simp add: kmalloc_take_def Let_def header_offset field_at m'_def del: of_nat_add)
  moreover have "seg m' (n + 16 + s) bs"
    by (rule seg_cong[of ?m]) (use assms in \<open>simp_all add: m'_def st_frame\<close>)
  then have "seg m' n ((s, False) # bs)"
    using assms by (simp add: m'_def ld_st_other del: of_nat_add)
  moreover have "\<forall>x. unat x < n \<or> n + 16 + s \<le> unat x \<longrightarrow> m' x = ?m x"
    using assms(2) by (auto simp: m'_def st_frame)
  ultimately show ?thesis using False by auto
qed

text \<open>An operation on the segment \<open>bs\<close> at \<open>n\<close> writes no byte outside it and none of its allocated data.\<close>

definition frame :: "mem \<Rightarrow> nat \<Rightarrow> blk list \<Rightarrow> mem \<Rightarrow> bool" where
  "frame m n bs m' \<longleftrightarrow>
     (\<forall>x. unat x < n \<or> n + total bs \<le> unat x \<or> unat x \<in> alloc_data n bs \<longrightarrow> m' x = m x)"

lemma frame_Cons:
  "frame m (n + 16 + s) bs m' \<Longrightarrow> frame m n ((s, f) # bs) m'"
  by (auto simp: frame_def)

lemma frame_ld:
  assumes "frame m (n + 16 + s) bs m'" "n + 16 + s + total bs \<le> 4294967296" "k \<le> 12"
  shows "ld m' (n + k) = ld m (n + k)"
  by (rule ld_cong) (use assms in \<open>auto simp: frame_def\<close>)

lemma seg_Cons_frame:
  assumes "seg m n ((s, f) # bs)" "frame m (n + 16 + s) bs m'" "seg m' (n + 16 + s) bs'"
    and "bs' = [] \<longleftrightarrow> bs = []" "n + 16 + s + total bs \<le> 4294967296"
  shows "seg m' n ((s, f) # bs')"
  using assms frame_ld[OF assms(2,5), of 0] frame_ld[OF assms(2,5), of 4]
    frame_ld[OF assms(2,5), of 8] frame_ld[OF assms(2,5), of 12]
  by (simp del: of_nat_add)

lemma kmalloc_loop_alloc_fit:
  assumes "seg (kmem h) n bs" "n + total bs \<le> 4294967296" "0 < n" "sz < 4294967296"
    "total bs \<le> 262144"
  shows "case alloc_fit n sz bs of
      None \<Rightarrow> kmalloc_loop h (of_nat sz) (if bs = [] then 0 else of_nat n) = Some (h, 0)
    | Some (p, bs') \<Rightarrow> \<exists>m'.
        kmalloc_loop h (of_nat sz) (if bs = [] then 0 else of_nat n) =
          Some (h\<lparr>kmem := m'\<rparr>, of_nat p) \<and> seg m' n bs' \<and> frame (kmem h) n bs m'"
  using assms
proof (induction n sz bs rule: alloc_fit.induct)
  case (1 n sz)
  then show ?case by (simp add: kmalloc_loop.simps)
next
  case (2 n sz s f bs)
  have nz: "of_nat n \<noteq> (0 :: u32)" using "2.prems" by (intro of_nat_neq_0) auto
  have guard: "blk_free (kmem h) (of_nat n) \<noteq> 0 \<and> of_nat sz \<le> blk_size (kmem h) (of_nat n)
      \<longleftrightarrow> f \<and> sz \<le> s"
    using "2.prems" by (simp add: field_at of_nat_le_u32)
  show ?case
  proof (cases "f \<and> sz \<le> s")
    case True
    then obtain m' where take:
      "kmalloc_take h (of_nat sz) (of_nat n) = (h\<lparr>kmem := m'\<rparr>, of_nat (n + 16))"
      "seg m' n (if sz + 20 \<le> s then (sz, False) # (s - sz - 16, True) # bs else (s, False) # bs)"
      "\<And>x. unat x < n \<or> n + 16 + s \<le> unat x \<Longrightarrow> m' x = kmem h x"
      using kmalloc_take_seg[of h n s bs sz] "2.prems" by auto
    have "frame (kmem h) n ((s, f) # bs) m'"
      using take(3) True alloc_data_bounds[of _ "n + 16 + s" bs] by (fastforce simp: frame_def)
    with True nz guard take show ?thesis
      by (auto simp: kmalloc_loop.simps[of h _ "of_nat n"] simp del: seg.simps)
  next
    case False
    have step: "kmalloc_loop h (of_nat sz) (of_nat n) =
        kmalloc_loop h (of_nat sz) (if bs = [] then 0 else of_nat (n + 16 + s))"
    proof -
      have nx: "blk_next (kmem h) (of_nat n) = (if bs = [] then 0 else of_nat (n + 16 + s))"
        using "2.prems"(1) by (simp only: field_at seg.simps)
      have g: "\<not> (blk_free (kmem h) (of_nat n) \<noteq> 0 \<and> of_nat sz \<le> blk_size (kmem h) (of_nat n))"
        using guard False by blast
      show ?thesis
        by (subst kmalloc_loop.simps) (simp only: nx if_not_P[OF g] if_not_P[OF nz])
    qed
    have af: "alloc_fit n sz ((s, f) # bs) =
        map_option (\<lambda>(p, bs'). (p, (s, f) # bs')) (alloc_fit (n + 16 + s) sz bs)"
      by (simp only: alloc_fit.simps if_not_P[OF False])
    have IH: "case alloc_fit (n + 16 + s) sz bs of
        None \<Rightarrow> kmalloc_loop h (of_nat sz) (of_nat n) = Some (h, 0)
      | Some (p, bs') \<Rightarrow> \<exists>m'. kmalloc_loop h (of_nat sz) (of_nat n) = Some (h\<lparr>kmem := m'\<rparr>, of_nat p) \<and>
          seg m' (n + 16 + s) bs' \<and> frame (kmem h) (n + 16 + s) bs m'"
      unfolding step using False "2.prems" by (intro "2.IH") auto
    show ?thesis
    proof (cases "alloc_fit (n + 16 + s) sz bs")
      case None
      with IH show ?thesis unfolding af by simp
    next
      case (Some r)
      obtain p bs' where r: "r = (p, bs')" by (cases r)
      from IH Some r obtain m' where m':
        "kmalloc_loop h (of_nat sz) (of_nat n) = Some (h\<lparr>kmem := m'\<rparr>, of_nat p)"
        "seg m' (n + 16 + s) bs'" "frame (kmem h) (n + 16 + s) bs m'" by auto
      have "bs' = [] \<longleftrightarrow> bs = []" using alloc_fit_ne Some r by auto
      then have "seg m' n ((s, f) # bs')"
        using "2.prems"(2) by (intro seg_Cons_frame[OF "2.prems"(1) m'(3,2)]) simp_all
      with m'(1) frame_Cons[OF m'(3)] have "\<exists>m'.
          kmalloc_loop h (of_nat sz) (of_nat n) = Some (h\<lparr>kmem := m'\<rparr>, of_nat p) \<and>
          seg m' n ((s, f) # bs') \<and> frame (kmem h) n ((s, f) # bs) m'" by blast
      then show ?thesis unfolding af Some r by (simp del: seg.simps of_nat_add)
    qed
  qed
qed

section \<open>Release\<close>

lemma kfree_merge_coalesce:
  assumes "seg (kmem h) n bs" "n + total bs \<le> 4294967296" "0 < n" "bs \<noteq> []"
  shows "\<exists>m'. kfree_merge h (of_nat n) = Some (h\<lparr>kmem := m'\<rparr>) \<and>
    seg m' n (coalesce bs) \<and> frame (kmem h) n bs m'"
  using assms
proof (induction bs arbitrary: n h rule: coalesce.induct)
  case (1 s f s' f' bs)
  let ?m = "kmem h" and ?a = "n + 16 + s"
  have nz1: "of_nat n \<noteq> (0 :: u32)" by (rule of_nat_neq_0) (use "1.prems" in simp_all)
  have nz2: "of_nat ?a \<noteq> (0 :: u32)" by (rule of_nat_neq_0) (use "1.prems" in simp_all)
  note nz = nz1 nz2
  have nx: "blk_next ?m (of_nat n) = of_nat ?a" using "1.prems"(1) by (simp add: field_at)
  have free: "blk_free ?m (of_nat n) \<noteq> 0 \<longleftrightarrow> f" "blk_free ?m (of_nat ?a) \<noteq> 0 \<longleftrightarrow> f'"
    using "1.prems"(1) unfolding field_at by auto
  show ?case
  proof (cases "f \<and> f'")
    case True
    define m2 where "m2 = st (st ?m n (of_nat (s + (16 + s')))) (n + 12)
      (if bs = [] then 0 else of_nat (?a + 16 + s'))"
    have sum: "ld ?m n + (sizeof_header + ld ?m ?a) = of_nat (s + (16 + s'))"
      using "1.prems"(1) by (simp add: sizeof_header_def)
    have link: "ld ?m (?a + 12) = (if bs = [] then 0 else of_nat (?a + 16 + s'))"
      "ld ?m (n + 12) = of_nat ?a" "seg ?m (?a + 16 + s') bs" "ld ?m (n + 4) = 1"
      "ld ?m (n + 8) = HEAP_MAGIC"
      using "1.prems"(1) True by (simp_all only: seg.simps if_True list.simps if_False)
    have "kfree_merge h (of_nat n) = kfree_merge (h\<lparr>kmem := m2\<rparr>) (of_nat n)"
      using nz nx free True link(1,2) "1.prems"(2)
      by (subst kfree_merge.simps) (simp add: Let_def sum field_at m2_def ld_st_other del: of_nat_add)
    moreover have "seg m2 (?a + 16 + s') bs"
      by (rule seg_cong[OF link(3)]) (use "1.prems"(2) in \<open>auto simp: m2_def st_frame\<close>)
    then have seg2: "seg m2 n ((s + (16 + s'), True) # bs)"
      using link(4,5) "1.prems"(2) by (simp add: m2_def ld_st_other ac_simps del: of_nat_add)
    moreover have "\<exists>m'. kfree_merge (h\<lparr>kmem := m2\<rparr>) (of_nat n) = Some ((h\<lparr>kmem := m2\<rparr>)\<lparr>kmem := m'\<rparr>) \<and>
        seg m' n (coalesce ((s + (16 + s'), True) # bs)) \<and>
        frame (kmem (h\<lparr>kmem := m2\<rparr>)) n ((s + (16 + s'), True) # bs) m'"
      using seg2 "1.prems" by (intro "1.IH"(1)[OF True]) auto
    moreover have "frame ?m n ((s, f) # (s', f') # bs) m'"
      if "frame m2 n ((s + (16 + s'), True) # bs) m'" for m'
      using that True "1.prems"(2) alloc_data_bounds[of _ "?a + 16 + s'" bs]
      by (fastforce simp: frame_def m2_def st_frame ac_simps)
    ultimately show ?thesis using True by (auto simp del: seg.simps)
  next
    case False
    have step: "kfree_merge h (of_nat n) = kfree_merge h (of_nat ?a)"
      using nz nx free False by (subst kfree_merge.simps) (auto simp: Let_def)
    obtain m' where m': "kfree_merge h (of_nat ?a) = Some (h\<lparr>kmem := m'\<rparr>)"
      "seg m' ?a (coalesce ((s', f') # bs))" "frame ?m ?a ((s', f') # bs) m'"
      using "1.IH"(2)[OF False, of h ?a] "1.prems" by auto
    have seg': "seg m' n ((s, f) # coalesce ((s', f') # bs))"
      using "1.prems"(2) by (intro seg_Cons_frame[OF "1.prems"(1) m'(3,2)]) (simp_all add: coalesce_ne)
    have "coalesce ((s, f) # (s', f') # bs) = (s, f) # coalesce ((s', f') # bs)"
      by (simp only: coalesce.simps if_not_P[OF False])
    then show ?thesis unfolding step using m'(1) seg' frame_Cons[OF m'(3)] by metis
  qed
next
  case (2 b)
  obtain s f where b: "b = (s, f)" by (cases b)
  have "blk_next (kmem h) (of_nat n) = 0" using "2.prems"(1) b by (simp add: field_at)
  then have "kfree_merge h (of_nat n) = Some (h\<lparr>kmem := kmem h\<rparr>)"
    by (subst kfree_merge.simps) simp
  then show ?case using "2.prems"(1) by (fastforce simp: frame_def)
qed simp

lemma seg_release:
  assumes "seg m n bs" "n + total bs \<le> 4294967296" "find_blk n bs a = Some (s, False)"
  shows "seg (st m (a + 4) 1) n (release_blk n a bs) \<and> ld m (a + 4) = 0 \<and> ld m (a + 8) = HEAP_MAGIC"
  using assms
proof (induction n bs a rule: find_blk.induct)
  case (2 n t f bs a)
  show ?case
  proof (cases "a = n")
    case True
    have "seg (st m (n + 4) 1) (n + 16 + t) bs"
      by (rule seg_cong[of m]) (use "2.prems" in \<open>auto simp: st_frame\<close>)
    with True "2.prems" show ?thesis by (simp add: ld_st_other del: of_nat_add)
  next
    case False
    then have fb: "find_blk (n + 16 + t) bs a = Some (s, False)" using "2.prems" by simp
    then have "n + 16 + t \<le> a \<and> a + 16 + s \<le> n + 16 + t + total bs"
      using find_blk_bounds by blast
    with 2 False fb show ?thesis by (simp add: ld_st_other release_blk_ne del: of_nat_add)
  qed
qed simp

section \<open>The abstraction function and the invariant\<close>

text \<open>
  \<open>heap_blocks\<close> reads the block list back from memory. A heap of 256 KB holds at
  most \<open>HEAP_SIZE / 16\<close> headers, so that much fuel reaches the end of every
  well-formed list (\<open>read_blocks_seg\<close>).
\<close>

fun read_blocks :: "nat \<Rightarrow> mem \<Rightarrow> u32 \<Rightarrow> blk list" where
  "read_blocks 0 m c = []"
| "read_blocks (Suc k) m c =
     (if c = 0 then [] else (unat (blk_size m c), blk_free m c \<noteq> 0) # read_blocks k m (blk_next m c))"

definition heap_base :: "kheap \<Rightarrow> nat" where
  "heap_base h = unat (heap_storage h)"

definition heap_blocks :: "kheap \<Rightarrow> blk list" where
  "heap_blocks h = read_blocks (unat HEAP_SIZE div 16) (kmem h) (heap_head h)"

definition blocks_ok :: "blk list \<Rightarrow> bool" where
  "blocks_ok bs \<longleftrightarrow> bs \<noteq> [] \<and> total bs = unat HEAP_SIZE \<and> no_adjacent_free bs \<and>
     (\<forall>b \<in> set bs. 4 dvd fst b)"

definition heap_inv :: "kheap \<Rightarrow> bool" where
  "heap_inv h \<longleftrightarrow> 0 < heap_base h \<and> heap_base h + unat HEAP_SIZE \<le> 4294967296 \<and>
     heap_head h = heap_storage h \<and> seg (kmem h) (heap_base h) (heap_blocks h) \<and>
     blocks_ok (heap_blocks h)"

lemma read_blocks_seg:
  assumes "seg m n bs" "0 < n" "n + total bs \<le> 4294967296" "length bs \<le> k"
  shows "read_blocks k m (if bs = [] then 0 else of_nat n) = bs"
  using assms
proof (induction m n bs arbitrary: k rule: seg.induct)
  case (1 m n)
  then show ?case by (cases k) auto
next
  case (2 m n s f bs)
  then obtain k' where k: "k = Suc k'" by (cases k) auto
  have nz: "of_nat n \<noteq> (0 :: u32)" by (rule of_nat_neq_0) (use "2.prems" in auto)
  have fields: "unat (blk_size m (of_nat n)) = s" "(blk_free m (of_nat n) \<noteq> 0) = f"
    "blk_next m (of_nat n) = (if bs = [] then 0 else of_nat (n + 16 + s))"
    using "2.prems" unfolding field_at by (auto simp: unat_of_nat_u32 simp del: of_nat_add)
  have "read_blocks k' m (if bs = [] then 0 else of_nat (n + 16 + s)) = bs"
    by (rule "2.IH") (use "2.prems" k in auto)
  then show ?case unfolding k using nz fields by (simp del: of_nat_add)
qed

lemma heap_invI:
  assumes "seg (kmem h) (heap_base h) bs" "blocks_ok bs" "0 < heap_base h"
    "heap_base h + unat HEAP_SIZE \<le> 4294967296" "heap_head h = heap_storage h"
  shows "heap_inv h \<and> heap_blocks h = bs"
proof -
  have head: "heap_head h = (if bs = [] then 0 else of_nat (heap_base h))"
    using assms(2,5) by (simp add: heap_base_def blocks_ok_def)
  have "16 * length bs \<le> unat HEAP_SIZE"
    using assms(2) length_total[of bs] by (simp add: blocks_ok_def)
  then have "heap_blocks h = bs"
    unfolding heap_blocks_def head using assms by (intro read_blocks_seg) (auto simp: blocks_ok_def)
  with assms show ?thesis by (simp add: heap_inv_def)
qed

lemma HEAP_SIZE_nat [simp]: "unat HEAP_SIZE = 262144"
  by (simp add: HEAP_SIZE_def)

lemma unat_and_not_3: "unat (y AND NOT 3 :: u32) = unat y div 4 * 4"
  using unat_and_not_mask[of y 2] by (simp add: mask_eq_exp_minus_1)

lemma word_wrap_32: "(4294967296 :: u32) = 0"
  by simp

lemma unat_round4:
  fixes x :: u32
  assumes "unat x \<le> 4294967292"
  shows "unat ((x + 3) AND NOT 3) = (unat x + 3) div 4 * 4"
  unfolding unat_and_not_3 using assms unat_plus_u32[of x 3] by simp

lemma kmem_init_inv:
  assumes "0 < heap_base h" "heap_base h + unat HEAP_SIZE \<le> 4294967296"
  shows "heap_inv (kmem_init h) \<and> heap_blocks (kmem_init h) = [(262128, True)]"
proof (rule heap_invI)
  have base: "heap_storage h = of_nat (heap_base h)" by (simp add: heap_base_def)
  show "seg (kmem (kmem_init h)) (heap_base (kmem_init h)) [(262128, True)]"
    using assms unfolding kmem_init_def Let_def base field_at
    by (simp add: heap_base_def unat_of_nat_u32 ld_st_other HEAP_SIZE_def sizeof_header_def)
qed (use assms in \<open>simp_all add: kmem_init_def Let_def heap_base_def blocks_ok_def\<close>)

lemma kmalloc_loop_refines:
  assumes inv: "heap_inv h" and k: "k < 4294967296" "4 dvd k"
  shows "case alloc_fit (heap_base h) k (heap_blocks h) of
      None \<Rightarrow> kmalloc_loop h (of_nat k) (heap_head h) = Some (h, 0)
    | Some (p, bs') \<Rightarrow> \<exists>h'. kmalloc_loop h (of_nat k) (heap_head h) = Some (h', of_nat p) \<and>
        heap_inv h' \<and> heap_blocks h' = bs' \<and> heap_storage h' = heap_storage h \<and>
        frame (kmem h) (heap_base h) (heap_blocks h) (kmem h')"
proof -
  let ?n = "heap_base h" and ?bs = "heap_blocks h"
  have ok: "seg (kmem h) ?n ?bs" "blocks_ok ?bs" "0 < ?n" "?n + total ?bs \<le> 4294967296"
    "total ?bs \<le> 262144" "heap_head h = (if ?bs = [] then 0 else of_nat ?n)"
    using inv by (auto simp: heap_inv_def blocks_ok_def heap_base_def)
  note loop = kmalloc_loop_alloc_fit[OF ok(1,4,3) k(1) ok(5), folded ok(6)]
  show ?thesis
  proof (cases "alloc_fit ?n k ?bs")
    case None
    with loop show ?thesis by simp
  next
    case (Some r)
    obtain p bs' where r: "r = (p, bs')" by (cases r)
    from loop Some r obtain m' where m': "seg m' ?n bs'" "frame (kmem h) ?n ?bs m'"
      "kmalloc_loop h (of_nat k) (heap_head h) = Some (h\<lparr>kmem := m'\<rparr>, of_nat p)" by auto
    have "blocks_ok bs'"
      using ok(2) Some r k(2) alloc_fit_total alloc_fit_ne alloc_fit_no_adjacent alloc_fit_dvd
      by (auto simp: blocks_ok_def)
    then have "heap_inv (h\<lparr>kmem := m'\<rparr>) \<and> heap_blocks (h\<lparr>kmem := m'\<rparr>) = bs'"
      using m'(1) inv by (intro heap_invI) (auto simp: heap_inv_def heap_base_def)
    then show ?thesis using m' Some r by auto
  qed
qed

lemma kmalloc_refines:
  assumes inv: "heap_inv h" and sz: "sz \<noteq> 0" "unat sz \<le> 4294967292"
  shows "case alloc_fit (heap_base h) ((unat sz + 3) div 4 * 4) (heap_blocks h) of
      None \<Rightarrow> kmalloc h sz = Some (h, 0)
    | Some (p, bs') \<Rightarrow> \<exists>h'. kmalloc h sz = Some (h', of_nat p) \<and> heap_inv h' \<and>
        heap_blocks h' = bs' \<and> heap_storage h' = heap_storage h \<and>
        frame (kmem h) (heap_base h) (heap_blocks h) (kmem h')"
proof -
  let ?k = "(unat sz + 3) div 4 * 4"
  have "of_nat ?k = (sz + 3) AND NOT 3"
    unfolding unat_round4[OF sz(2), symmetric] by simp
  then have call: "kmalloc h sz = kmalloc_loop h (of_nat ?k) (heap_head h)"
    unfolding kmalloc_def using sz(1) by (simp only: if_False)
  show ?thesis unfolding call by (rule kmalloc_loop_refines[OF inv]) (use sz(2) in simp_all)
qed

lemma kfree_refines:
  assumes inv: "heap_inv h" and p: "16 \<le> unat p"
    and blk: "find_blk (heap_base h) (heap_blocks h) (unat p - 16) = Some (s, False)"
  shows "\<exists>h'. kfree h p = Some h' \<and> heap_inv h' \<and> heap_storage h' = heap_storage h \<and>
    heap_blocks h' = coalesce (release_blk (heap_base h) (unat p - 16) (heap_blocks h)) \<and>
    (\<forall>x. unat x \<in> alloc_data (heap_base h) (heap_blocks h) - {unat p ..< unat p + s} \<longrightarrow>
      kmem h' x = kmem h x)"
proof -
  let ?n = "heap_base h" and ?bs = "heap_blocks h" and ?a = "unat p - 16"
  let ?rs = "release_blk ?n ?a ?bs"
  let ?h1 = "h\<lparr>kmem := st (kmem h) (?a + 4) 1\<rparr>"
  have ok: "seg (kmem h) ?n ?bs" "blocks_ok ?bs" "0 < ?n" "?n + total ?bs \<le> 4294967296"
    "heap_head h = of_nat ?n" "heap_head h = heap_storage h"
    using inv by (auto simp: heap_inv_def blocks_ok_def heap_base_def)
  have bounds: "?n \<le> ?a" "?a + 16 + s \<le> ?n + total ?bs" using find_blk_bounds[OF blk] by auto
  have blk_addr: "p - sizeof_header = of_nat ?a"
    using p by (simp add: sizeof_header_def of_nat_diff)
  have rel: "seg (st (kmem h) (?a + 4) 1) ?n ?rs" "ld (kmem h) (?a + 4) = 0"
    "ld (kmem h) (?a + 8) = HEAP_MAGIC"
    using seg_release[OF ok(1,4) blk] by auto
  have "p \<noteq> 0" using p by auto
  then have call: "kfree h p = kfree_merge ?h1 (of_nat ?n)"
    unfolding kfree_def Let_def blk_addr field_at ok(5) using rel(2,3) by simp
  obtain m' where m': "kfree_merge ?h1 (of_nat ?n) = Some (?h1\<lparr>kmem := m'\<rparr>)"
    "seg m' ?n (coalesce ?rs)" "frame (kmem ?h1) ?n ?rs m'"
    using kfree_merge_coalesce[of ?h1 ?n ?rs] rel(1) ok
    by (auto simp: release_blk_total release_blk_ne blocks_ok_def)
  have "\<forall>b \<in> set (coalesce ?rs). 4 dvd fst b"
    by (intro coalesce_dvd release_blk_dvd) (use ok(2) in \<open>simp add: blocks_ok_def\<close>)
  then have "blocks_ok (coalesce ?rs)"
    using ok(2)
    by (simp add: blocks_ok_def coalesce_ne release_blk_ne coalesce_total release_blk_total
        coalesce_no_adjacent)
  then have "heap_inv (?h1\<lparr>kmem := m'\<rparr>) \<and> heap_blocks (?h1\<lparr>kmem := m'\<rparr>) = coalesce ?rs"
    using m'(2) inv by (intro heap_invI) (auto simp: heap_inv_def heap_base_def)
  moreover have "m' x = kmem h x" if x: "unat x \<in> alloc_data ?n ?bs - {unat p ..< unat p + s}" for x
  proof -
    have eq: "?a + 16 = unat p" using p by simp
    have "unat x \<in> alloc_data ?n ?rs" using x release_blk_alloc_data[OF blk] eq by simp
    then have "m' x = kmem ?h1 x" using m'(3) by (simp add: frame_def)
    also have "kmem ?h1 x = st (kmem h) (?a + 4) 1 x" by simp
    also have "\<dots> = kmem h x"
    proof (rule st_frame)
      show "unat x < ?a + 4 \<or> ?a + 4 + 4 \<le> unat x"
        using x find_blk_alloc_sep[OF blk, of "unat x"] by (simp, linarith)
    qed (use bounds ok(4) in linarith)
    finally show ?thesis .
  qed
  ultimately show ?thesis using call m'(1) by auto
qed

lemma kmem_info_loop_seg:
  assumes "seg (kmem h) n bs" "0 < n" "n + total bs \<le> 4294967296"
  shows "kmem_info_loop h (if bs = [] then 0 else of_nat n) u f =
    Some (u + of_nat (\<Sum>(s, g) \<leftarrow> bs. if g then 0 else s), f + of_nat (\<Sum>(s, g) \<leftarrow> bs. if g then s else 0))"
  using assms
proof (induction "kmem h" n bs arbitrary: u f rule: seg.induct)
  case (1 n)
  then show ?case by (simp add: kmem_info_loop.simps)
next
  case (2 n s g bs)
  have nz: "of_nat n \<noteq> (0 :: u32)" by (rule of_nat_neq_0) (use "2.prems" in auto)
  have fields: "blk_size (kmem h) (of_nat n) = of_nat s" "blk_free (kmem h) (of_nat n) \<noteq> 0 \<longleftrightarrow> g"
    "blk_next (kmem h) (of_nat n) = (if bs = [] then 0 else of_nat (n + 16 + s))"
    using "2.prems" unfolding field_at by (auto simp del: of_nat_add)
  have IH: "kmem_info_loop h (if bs = [] then 0 else of_nat (n + 16 + s)) u f =
    Some (u + of_nat (\<Sum>(s, g) \<leftarrow> bs. if g then 0 else s), f + of_nat (\<Sum>(s, g) \<leftarrow> bs. if g then s else 0))"
    for u f by (rule "2.hyps") (use "2.prems" in auto)
  have "kmem_info_loop h (of_nat n) u f =
      kmem_info_loop h (if bs = [] then 0 else of_nat (n + 16 + s))
        (if g then u else u + of_nat s) (if g then f + of_nat s else f)"
    using nz fields by (subst kmem_info_loop.simps) simp
  then show ?case unfolding IH by (simp add: add.assoc)
qed

lemma total_sum: "total bs = 16 * length bs + (\<Sum>(s, g) \<leftarrow> bs. if g then 0 else s) +
    (\<Sum>(s, g) \<leftarrow> bs. if g then s else 0)"
  by (induction bs rule: total.induct) auto

section \<open>The allocator interface\<close>

text \<open>
  What a client of an allocator may rely on. \<open>block h p\<close> is the set of byte
  addresses of the live block at pointer \<open>p\<close>, if \<open>p\<close> is live.
\<close>

locale allocator =
  fixes inv :: "'h \<Rightarrow> bool"
    and block :: "'h \<Rightarrow> u32 \<Rightarrow> nat set option"
    and byte :: "'h \<Rightarrow> u32 \<Rightarrow> u8"
    and limit :: u32
    and alloc :: "'h \<Rightarrow> u32 \<Rightarrow> ('h \<times> u32) option"
    and release :: "'h \<Rightarrow> u32 \<Rightarrow> 'h option"
  assumes alloc_returns:
      "inv h \<Longrightarrow> n \<noteq> 0 \<Longrightarrow> n \<le> limit \<Longrightarrow> \<exists>h' p. alloc h n = Some (h', p) \<and> inv h'"
    and alloc_fresh:
      "inv h \<Longrightarrow> n \<noteq> 0 \<Longrightarrow> n \<le> limit \<Longrightarrow> alloc h n = Some (h', p) \<Longrightarrow> p \<noteq> 0 \<Longrightarrow>
       \<exists>B. block h' p = Some B \<and> unat n \<le> card B \<and> (\<forall>q C. block h q = Some C \<longrightarrow> B \<inter> C = {})"
    and alloc_keeps:
      "inv h \<Longrightarrow> n \<noteq> 0 \<Longrightarrow> n \<le> limit \<Longrightarrow> alloc h n = Some (h', p) \<Longrightarrow> block h q = Some C \<Longrightarrow>
       block h' q = Some C \<and> (\<forall>x. unat x \<in> C \<longrightarrow> byte h' x = byte h x)"
    and release_returns:
      "inv h \<Longrightarrow> block h p = Some B \<Longrightarrow> \<exists>h'. release h p = Some h' \<and> inv h'"
    and release_keeps:
      "inv h \<Longrightarrow> block h p = Some B \<Longrightarrow> release h p = Some h' \<Longrightarrow> q \<noteq> p \<Longrightarrow> block h q = Some C \<Longrightarrow>
       block h' q = Some C \<and> (\<forall>x. unat x \<in> C \<longrightarrow> byte h' x = byte h x)"

text \<open>
  A client's history: a sequence of requests and releases. It is legal with respect
  to the owner of pointer \<open>q\<close> when every request is within the limit and every
  release is of a live pointer other than \<open>q\<close>.
\<close>

datatype heap_op = Alloc u32 | Release u32

fun heap_run :: "('h \<Rightarrow> u32 \<Rightarrow> ('h \<times> u32) option) \<Rightarrow> ('h \<Rightarrow> u32 \<Rightarrow> 'h option) \<Rightarrow> 'h \<Rightarrow> heap_op list \<Rightarrow> 'h option" where
  "heap_run alloc release h [] = Some h"
| "heap_run alloc release h (Alloc n # ops) =
     Option.bind (alloc h n) (\<lambda>(h', p). heap_run alloc release h' ops)"
| "heap_run alloc release h (Release p # ops) =
     Option.bind (release h p) (\<lambda>h'. heap_run alloc release h' ops)"

fun legal_run :: "('h \<Rightarrow> u32 \<Rightarrow> nat set option) \<Rightarrow> u32 \<Rightarrow> ('h \<Rightarrow> u32 \<Rightarrow> ('h \<times> u32) option) \<Rightarrow>
    ('h \<Rightarrow> u32 \<Rightarrow> 'h option) \<Rightarrow> u32 \<Rightarrow> 'h \<Rightarrow> heap_op list \<Rightarrow> bool" where
  "legal_run block limit alloc release q h [] = True"
| "legal_run block limit alloc release q h (Alloc n # ops) =
     (n \<noteq> 0 \<and> n \<le> limit \<and>
      (case alloc h n of None \<Rightarrow> True | Some (h', p) \<Rightarrow> legal_run block limit alloc release q h' ops))"
| "legal_run block limit alloc release q h (Release p # ops) =
     (p \<noteq> q \<and> block h p \<noteq> None \<and>
      (case release h p of None \<Rightarrow> True | Some h' \<Rightarrow> legal_run block limit alloc release q h' ops))"

context allocator
begin

lemma run_keeps_block:
  assumes "inv h" "block h q = Some B" "legal_run block limit alloc release q h ops"
  shows "\<exists>h'. heap_run alloc release h ops = Some h' \<and> inv h' \<and> block h' q = Some B \<and>
    (\<forall>x. unat x \<in> B \<longrightarrow> byte h' x = byte h x)"
  using assms
proof (induction ops arbitrary: h)
  case Nil
  then show ?case by simp
next
  case (Cons a ops)
  show ?case
  proof (cases a)
    case (Alloc n)
    with Cons.prems have n: "n \<noteq> 0" "n \<le> limit" by auto
    obtain h1 p where h1: "alloc h n = Some (h1, p)" "inv h1"
      using alloc_returns[OF Cons.prems(1) n] by blast
    then show ?thesis
      using Cons.IH[OF h1(2)] alloc_keeps[OF Cons.prems(1) n h1(1) Cons.prems(2)] Cons.prems(3) Alloc
      by auto
  next
    case (Release p)
    with Cons.prems obtain C where p: "p \<noteq> q" "block h p = Some C" by auto
    obtain h1 where h1: "release h p = Some h1" "inv h1"
      using release_returns[OF Cons.prems(1) p(2)] by blast
    then show ?thesis
      using Cons.IH[OF h1(2)] release_keeps[OF Cons.prems(1) p(2) h1(1) p(1)[symmetric] Cons.prems(2)]
        Cons.prems(3) Release by auto
  qed
qed

end

section \<open>The kernel heap is an allocator\<close>

definition live_block :: "kheap \<Rightarrow> u32 \<Rightarrow> nat set option" where
  "live_block h p =
     (if 16 \<le> unat p then
        (case find_blk (heap_base h) (heap_blocks h) (unat p - 16) of
           Some (s, False) \<Rightarrow> Some {unat p ..< unat p + s}
         | _ \<Rightarrow> None)
      else None)"

lemma live_block_Some:
  "live_block h p = Some B \<longleftrightarrow>
     (16 \<le> unat p \<and> (\<exists>s. find_blk (heap_base h) (heap_blocks h) (unat p - 16) = Some (s, False) \<and>
        B = {unat p ..< unat p + s}))"
  by (auto simp: live_block_def split: option.splits bool.splits)

lemma live_block_alloc_data:
  assumes "live_block h p = Some B"
  shows "B \<subseteq> alloc_data (heap_base h) (heap_blocks h)"
  using assms find_blk_alloc_data unfolding live_block_Some by fastforce

lemma heap_base_cong: "heap_storage h' = heap_storage h \<Longrightarrow> heap_base h' = heap_base h"
  by (simp add: heap_base_def)

lemma kmalloc_cases:
  assumes "heap_inv h" "n \<noteq> 0" "n \<le> 0xFFFFFFFC"
  obtains (null) "alloc_fit (heap_base h) ((unat n + 3) div 4 * 4) (heap_blocks h) = None"
      "kmalloc h n = Some (h, 0)"
  | (block) h' p s where "kmalloc h n = Some (h', p)" "heap_inv h'"
      "alloc_fit (heap_base h) ((unat n + 3) div 4 * 4) (heap_blocks h) = Some (unat p, heap_blocks h')"
      "heap_base h' = heap_base h" "frame (kmem h) (heap_base h) (heap_blocks h) (kmem h')"
      "heap_base h + 16 \<le> unat p" "unat p + s \<le> heap_base h + 262144" "unat n \<le> s"
      "find_blk (heap_base h) (heap_blocks h') (unat p - 16) = Some (s, False)"
      "alloc_data (heap_base h) (heap_blocks h') =
         alloc_data (heap_base h) (heap_blocks h) \<union> {unat p ..< unat p + s}"
      "{unat p ..< unat p + s} \<inter> alloc_data (heap_base h) (heap_blocks h) = {}"
proof -
  have n: "unat n \<le> 4294967292" using assms(3) by (simp add: word_le_nat_alt)
  note ref = kmalloc_refines[OF assms(1,2) n]
  show ?thesis
  proof (cases "alloc_fit (heap_base h) ((unat n + 3) div 4 * 4) (heap_blocks h)")
    case None
    with ref null show ?thesis by simp
  next
    case (Some r)
    obtain p bs' where r: "r = (p, bs')" by (cases r)
    from ref Some r obtain h' where h': "kmalloc h n = Some (h', of_nat p)" "heap_inv h'"
      "heap_blocks h' = bs'" "heap_storage h' = heap_storage h"
      "frame (kmem h) (heap_base h) (heap_blocks h) (kmem h')" by auto
    obtain s where s: "heap_base h + 16 \<le> p"
      "find_blk (heap_base h) bs' (p - 16) = Some (s, False)" "(unat n + 3) div 4 * 4 \<le> s"
      "alloc_data (heap_base h) bs' = alloc_data (heap_base h) (heap_blocks h) \<union> {p ..< p + s}"
      "{p ..< p + s} \<inter> alloc_data (heap_base h) (heap_blocks h) = {}"
      using alloc_fit_spec[of "heap_base h" _ _ p bs'] Some r by blast
    have tot: "total bs' = 262144" "heap_base h + 262144 \<le> 4294967296"
      using h'(2,3) assms(1) by (auto simp: heap_inv_def blocks_ok_def)
    then have fits: "p + s \<le> heap_base h + 262144" using find_blk_bounds[OF s(2)] s(1) by simp
    have n_le: "unat n \<le> s" using s(3) by linarith
    have "0 < unat n" using assms(2) by (simp add: unat_gt_0)
    then have p: "unat (of_nat p :: u32) = p"
      using fits n_le tot(2) by (intro unat_of_nat_u32) linarith
    show ?thesis
      by (rule block[of h' "of_nat p" s])
        (use h' s Some r heap_base_cong[OF h'(4)] fits n_le p in simp_all)
  qed
qed

lemma kmalloc_keeps:
  assumes "heap_inv h" "n \<noteq> 0" "n \<le> 0xFFFFFFFC" "kmalloc h n = Some (h', p)"
    and "live_block h q = Some C"
  shows "live_block h' q = Some C \<and> (\<forall>x. unat x \<in> C \<longrightarrow> kmem h' x = kmem h x)"
  using assms(1-3)
proof (cases rule: kmalloc_cases)
  case null
  with assms(4,5) show ?thesis by simp
next
  case (block h1 p1 s)
  then have eq: "h1 = h'" using assms(4) by simp
  have "C \<subseteq> alloc_data (heap_base h) (heap_blocks h)" by (rule live_block_alloc_data[OF assms(5)])
  with block(5) have "\<forall>x. unat x \<in> C \<longrightarrow> kmem h' x = kmem h x"
    unfolding eq frame_def by blast
  moreover have "live_block h' q = Some C"
    using assms(5) alloc_fit_keeps[OF block(3)] block(4) unfolding eq live_block_Some by auto
  ultimately show ?thesis by simp
qed

lemma kfree_cases:
  assumes "heap_inv h" "live_block h p = Some B"
  obtains h' where "kfree h p = Some h'" "heap_inv h'" "heap_base h' = heap_base h"
    "heap_blocks h' = coalesce (release_blk (heap_base h) (unat p - 16) (heap_blocks h))"
    "alloc_data (heap_base h) (heap_blocks h') = alloc_data (heap_base h) (heap_blocks h) - B"
    "\<And>x. unat x \<in> alloc_data (heap_base h) (heap_blocks h) - B \<Longrightarrow> kmem h' x = kmem h x"
proof -
  obtain s where s: "16 \<le> unat p" "B = {unat p ..< unat p + s}"
    "find_blk (heap_base h) (heap_blocks h) (unat p - 16) = Some (s, False)"
    using assms(2) unfolding live_block_Some by blast
  obtain h' where h': "kfree h p = Some h'" "heap_inv h'" "heap_storage h' = heap_storage h"
    "heap_blocks h' = coalesce (release_blk (heap_base h) (unat p - 16) (heap_blocks h))"
    "\<And>x. unat x \<in> alloc_data (heap_base h) (heap_blocks h) - B \<Longrightarrow> kmem h' x = kmem h x"
    using kfree_refines[OF assms(1) s(1,3)] unfolding s(2) by blast
  have "unat p - 16 + 16 = unat p" using s(1) by simp
  with release_blk_alloc_data[OF s(3)]
  have "alloc_data (heap_base h) (heap_blocks h') = alloc_data (heap_base h) (heap_blocks h) - B"
    unfolding h'(4) coalesce_alloc_data s(2) by simp
  with that[OF h'(1,2) heap_base_cong[OF h'(3)] h'(4)] h'(5) show ?thesis by blast
qed

lemma live_blocks_disjoint:
  assumes "live_block h p = Some B" "live_block h q = Some C" "p \<noteq> q"
  shows "B \<inter> C = {}"
proof -
  obtain s t where st: "16 \<le> unat p" "B = {unat p ..< unat p + s}"
    "find_blk (heap_base h) (heap_blocks h) (unat p - 16) = Some (s, False)"
    "16 \<le> unat q" "C = {unat q ..< unat q + t}"
    "find_blk (heap_base h) (heap_blocks h) (unat q - 16) = Some (t, False)"
    using assms(1,2) unfolding live_block_Some by blast
  have "unat p \<noteq> unat q" using assms(3) by (simp add: word_unat_eq_iff)
  then have "unat p - 16 < unat q - 16 \<or> unat q - 16 < unat p - 16" using st(1,4) by linarith
  then show ?thesis
    using find_blk_order[OF st(3,6)] find_blk_order[OF st(6,3)] st(1,2,4,5) by auto
qed

lemma kfree_keeps:
  assumes "heap_inv h" "live_block h p = Some B" "kfree h p = Some h'" "q \<noteq> p"
    and "live_block h q = Some C"
  shows "live_block h' q = Some C \<and> (\<forall>x. unat x \<in> C \<longrightarrow> kmem h' x = kmem h x)"
  using assms(1,2)
proof (cases rule: kfree_cases)
  case (1 h1)
  then have eq: "h1 = h'" using assms(3) by simp
  have "C \<inter> B = {}" by (rule live_blocks_disjoint[OF assms(5,2,4)])
  then have "C \<subseteq> alloc_data (heap_base h) (heap_blocks h) - B"
    using live_block_alloc_data[OF assms(5)] by blast
  then have "\<forall>x. unat x \<in> C \<longrightarrow> kmem h' x = kmem h x" using 1(6) unfolding eq by blast
  moreover have "live_block h' q = Some C"
  proof -
    have "unat q - 16 \<noteq> unat p - 16" if "16 \<le> unat q" "16 \<le> unat p"
      using that assms(4) by (auto simp: word_unat_eq_iff)
    then show ?thesis
      using assms(2,5) 1(3,4) coalesce_find[OF release_blk_find_other]
      unfolding eq live_block_Some by auto
  qed
  ultimately show ?thesis by simp
qed

interpretation kh: allocator heap_inv live_block kmem "0xFFFFFFFC" kmalloc kfree
proof
  fix h :: kheap and n :: u32
  assume a: "heap_inv h" "n \<noteq> 0" "n \<le> 0xFFFFFFFC"
  then show "\<exists>h' p. kmalloc h n = Some (h', p) \<and> heap_inv h'"
    by (cases rule: kmalloc_cases) (use a(1) in auto)
next
  fix h n h' p
  assume a: "heap_inv h" "n \<noteq> 0" "n \<le> 0xFFFFFFFC" "kmalloc h n = Some (h', p)" "p \<noteq> 0"
  from a(1-3) show "\<exists>B. live_block h' p = Some B \<and> unat n \<le> card B \<and>
      (\<forall>q C. live_block h q = Some C \<longrightarrow> B \<inter> C = {})"
  proof (cases rule: kmalloc_cases)
    case null
    with a(4,5) show ?thesis by simp
  next
    case (block h1 p1 s)
    then have eq: "h1 = h'" "p1 = p" using a(4) by auto
    have "live_block h' p = Some {unat p ..< unat p + s}"
      using block unfolding eq live_block_Some by auto
    moreover have "{unat p ..< unat p + s} \<inter> C = {}" if "live_block h q = Some C" for q C
      using live_block_alloc_data[OF that] block(11) unfolding eq by blast
    ultimately show ?thesis using block(8) by auto
  qed
next
  fix h p B
  assume "heap_inv h" "live_block h p = Some B"
  then show "\<exists>h'. kfree h p = Some h' \<and> heap_inv h'" by (cases rule: kfree_cases) auto
qed (fact kmalloc_keeps, fact kfree_keeps)

section \<open>Properties\<close>

text \<open>A heap just after \<^verbatim>\<open>kmem_init\<close>, at a concrete address, for the witnesses.\<close>

definition boot_heap :: kheap where
  "boot_heap = kmem_init \<lparr>kmem = (\<lambda>_. 0), heap_storage = 0x10000, heap_head = 0\<rparr>"

lemma boot_heap_inv: "heap_inv boot_heap" "heap_blocks boot_heap = [(262128, True)]"
    "heap_base boot_heap = 65536"
  using kmem_init_inv[of "\<lparr>kmem = (\<lambda>_. 0), heap_storage = 0x10000, heap_head = 0\<rparr>"]
  by (simp_all add: boot_heap_def heap_base_def kmem_init_def Let_def)

lemma boot_alloc:
  obtains h p B where "kmalloc boot_heap 100 = Some (h, p)" "heap_inv h" "p \<noteq> 0"
    "live_block h p = Some B" "100 \<le> card B"
proof -
  have n: "(100 :: u32) \<noteq> 0" "(100 :: u32) \<le> 0xFFFFFFFC" by simp_all
  from boot_heap_inv(1) n show ?thesis
  proof (cases rule: kmalloc_cases)
    case null
    then show ?thesis by (simp add: boot_heap_inv)
  next
    case (block h p s)
    then have "p \<noteq> 0" by auto
    with block(1,2) that kh.alloc_fresh[OF boot_heap_inv(1) n block(1)] show ?thesis by auto
  qed
qed

lemma kmalloc_positive:
  assumes "heap_inv h" "n \<noteq> 0" "n \<le> 0xFFFFFFFC"
  shows "\<exists>h' p. kmalloc h n = Some (h', p) \<and> heap_inv h' \<and>
    (p = 0 \<longleftrightarrow> (\<forall>(s, f) \<in> set (heap_blocks h). f \<longrightarrow> s < (unat n + 3) div 4 * 4)) \<and>
    (if p = 0 then h' = h
     else {unat p ..< unat p + unat n} \<subseteq> {heap_base h + 16 ..< heap_base h + unat HEAP_SIZE} \<and>
       4 dvd unat p - heap_base h \<and>
       {unat p ..< unat p + unat n} \<inter> alloc_data (heap_base h) (heap_blocks h) = {} \<and>
       alloc_data (heap_base h) (heap_blocks h) \<union> {unat p ..< unat p + unat n}
         \<subseteq> alloc_data (heap_base h) (heap_blocks h') \<and>
       (\<forall>x. unat x \<in> alloc_data (heap_base h) (heap_blocks h) \<longrightarrow> kmem h' x = kmem h x))"
  using assms
proof (cases rule: kmalloc_cases)
  case null
  with assms(1) show ?thesis by (simp add: alloc_fit_None)
next
  case (block h' p s)
  have "p \<noteq> 0" using block(6) by auto
  moreover have "\<not> (\<forall>(s, f) \<in> set (heap_blocks h). f \<longrightarrow> s < (unat n + 3) div 4 * 4)"
    unfolding alloc_fit_None[symmetric, where n = "heap_base h"] block(3) by simp
  moreover have "4 dvd unat p - heap_base h"
  proof -
    have "4 dvd unat p - 16 - heap_base h"
      using find_blk_dvd[OF block(9)] block(2) by (simp add: heap_inv_def blocks_ok_def)
    then have "4 dvd (unat p - 16 - heap_base h) + 16" by simp
    then show ?thesis using block(6) by simp
  qed
  ultimately show ?thesis using block by (auto simp: frame_def disjoint_iff)
qed

text \<open>
  C11. On a well-formed heap and for a size of at most 0xFFFFFFFC bytes \<^verbatim>\<open>kmalloc\<close> returns, and a non-NULL result is a fresh block:
  at least the requested bytes, inside the heap array, 4-byte aligned relative
  to it, disjoint from everything allocated before; the heap stays well formed and no byte
  of an existing allocation is touched. It returns NULL, with the heap unchanged,
  exactly when the size is 0 or no free block has the rounded-up size. (Above 0xFFFFFFFC the rounding wraps: lemma \<open>kmalloc_wraps\<close>.)
\<close>

theorem kmalloc_correct:
  assumes "heap_inv h" "n \<le> 0xFFFFFFFC"
  shows "\<exists>h' p. kmalloc h n = Some (h', p) \<and> heap_inv h' \<and>
    (p = 0 \<longleftrightarrow> n = 0 \<or> (\<forall>(s, f) \<in> set (heap_blocks h). f \<longrightarrow> s < (unat n + 3) div 4 * 4)) \<and>
    (if p = 0 then h' = h
     else {unat p ..< unat p + unat n} \<subseteq> {heap_base h + 16 ..< heap_base h + unat HEAP_SIZE} \<and>
       4 dvd unat p - heap_base h \<and>
       {unat p ..< unat p + unat n} \<inter> alloc_data (heap_base h) (heap_blocks h) = {} \<and>
       alloc_data (heap_base h) (heap_blocks h) \<union> {unat p ..< unat p + unat n}
         \<subseteq> alloc_data (heap_base h) (heap_blocks h') \<and>
       (\<forall>x. unat x \<in> alloc_data (heap_base h) (heap_blocks h) \<longrightarrow> kmem h' x = kmem h x))"
proof (cases "n = 0")
  case True
  then show ?thesis using assms(1) by (simp add: kmalloc_def)
next
  case False
  then show ?thesis using kmalloc_positive[OF assms(1) _ assms(2)] by simp
qed

theorem kmalloc_correct_witness:
  "\<exists>h' p. kmalloc boot_heap 100 = Some (h', p) \<and> heap_inv h' \<and> p \<noteq> 0"
  using kmalloc_correct[OF boot_heap_inv(1), of 100] by (fastforce simp: boot_heap_inv)

text \<open>
  C12. Freeing a live block always returns, gives back exactly the bytes of that block, keeps
  the heap well formed (in particular no two adjacent blocks stay free: they are coalesced),
  and changes no byte of any other allocation.
\<close>

theorem kfree_correct:
  assumes "heap_inv h" "live_block h p = Some B"
  shows "\<exists>h'. kfree h p = Some h' \<and> heap_inv h' \<and> live_block h' p = None \<and>
    alloc_data (heap_base h) (heap_blocks h') = alloc_data (heap_base h) (heap_blocks h) - B \<and>
    no_adjacent_free (heap_blocks h') \<and>
    (\<forall>x. unat x \<in> alloc_data (heap_base h) (heap_blocks h) - B \<longrightarrow> kmem h' x = kmem h x)"
  using assms
proof (cases rule: kfree_cases)
  case (1 h')
  obtain s where "find_blk (heap_base h) (heap_blocks h) (unat p - 16) = Some (s, False)"
    using assms(2) unfolding live_block_Some by blast
  note find = release_blk_find[OF this]
  have "live_block h' p \<noteq> Some C" for C
    unfolding live_block_Some 1(3,4) coalesce_find_iff find by simp
  with 1 show ?thesis by (auto simp: heap_inv_def blocks_ok_def)
qed

theorem kfree_correct_witness:
  "\<exists>h p B h'. live_block h p = Some B \<and> 100 \<le> card B \<and> kfree h p = Some h' \<and> live_block h' p = None"
proof -
  obtain h p B where h: "heap_inv h" "live_block h p = Some B" "100 \<le> card B"
    by (rule boot_alloc)
  then show ?thesis using kfree_correct[OF h(1,2)] by blast
qed

text \<open>
  \<^verbatim>\<open>kfree\<close> undoes \<^verbatim>\<open>kmalloc\<close>: allocating a block and freeing it again
  restores the block list of the heap exactly (splitting is undone by coalescing).
\<close>

theorem kmalloc_kfree_roundtrip:
  assumes "heap_inv h" "n \<noteq> 0" "n \<le> 0xFFFFFFFC" "kmalloc h n = Some (h1, p)" "p \<noteq> 0"
  shows "\<exists>h2. kfree h1 p = Some h2 \<and> heap_inv h2 \<and> heap_blocks h2 = heap_blocks h"
  using assms(1-3)
proof (cases rule: kmalloc_cases)
  case null
  with assms(4,5) show ?thesis by simp
next
  case (block h' p' s)
  then have eq: "h' = h1" "p' = p" using assms(4) by auto
  have "live_block h1 p = Some {unat p ..< unat p + s}"
    using block unfolding eq live_block_Some by auto
  then show ?thesis
  proof (rule kfree_cases[OF block(2)[unfolded eq]], goal_cases)
    case (1 h2)
    have "no_adjacent_free (heap_blocks h)" using assms(1) by (simp add: heap_inv_def blocks_ok_def)
    then have "heap_blocks h2 = heap_blocks h"
      using alloc_release_id[OF block(3)] 1(4) block(4) unfolding eq by simp
    with 1 show ?case by blast
  qed
qed

theorem kmalloc_kfree_roundtrip_witness:
  "\<exists>h1 p h2. kmalloc boot_heap 100 = Some (h1, p) \<and> kfree h1 p = Some h2 \<and>
    heap_blocks h2 = heap_blocks boot_heap"
proof -
  obtain h p where h: "kmalloc boot_heap 100 = Some (h, p)" "p \<noteq> 0" by (rule boot_alloc)
  then show ?thesis using kmalloc_kfree_roundtrip[OF boot_heap_inv(1) _ _ h] by auto
qed

text \<open>
  C13. A client's allocation is isolated from every other client: through any sequence of
  requests and releases of other live pointers, the calls all return, the block stays live
  and its contents do not change.
\<close>

theorem heap_client_isolated:
  assumes "heap_inv h" "live_block h q = Some B"
    and "legal_run live_block 0xFFFFFFFC kmalloc kfree q h ops"
  shows "\<exists>h'. heap_run kmalloc kfree h ops = Some h' \<and> heap_inv h' \<and> live_block h' q = Some B \<and>
    (\<forall>x. unat x \<in> B \<longrightarrow> kmem h' x = kmem h x)"
  using assms by (rule kh.run_keeps_block)

theorem heap_client_isolated_witness:
  "\<exists>h q B h'. live_block h q = Some B \<and> heap_run kmalloc kfree h [Alloc 8, Alloc 0x80000] = Some h' \<and>
    live_block h' q = Some B"
proof -
  obtain h q B where h: "heap_inv h" and B: "live_block h q = Some B" by (rule boot_alloc)
  have "legal_run live_block 0xFFFFFFFC kmalloc kfree q h [Alloc 8, Alloc 0x80000]"
    by (simp split: option.split)
  from heap_client_isolated[OF h B this] B show ?thesis by blast
qed

text \<open>
  \<^verbatim>\<open>kmem_info\<close> returns and its statistics are exact: used bytes, free bytes and one
  16-byte header per block add up to the heap size.
\<close>

theorem kmem_info_exact:
  assumes "heap_inv h"
  shows "\<exists>used free. kmem_info h = Some (used, free, HEAP_SIZE) \<and>
    unat used = (\<Sum>(s, f) \<leftarrow> heap_blocks h. if f then 0 else s) \<and>
    unat free = (\<Sum>(s, f) \<leftarrow> heap_blocks h. if f then s else 0) \<and>
    unat used + unat free + 16 * length (heap_blocks h) = unat HEAP_SIZE"
proof -
  let ?bs = "heap_blocks h"
  have ok: "seg (kmem h) (heap_base h) ?bs" "0 < heap_base h"
    "heap_base h + total ?bs \<le> 4294967296" "total ?bs = 262144"
    "heap_head h = (if ?bs = [] then 0 else of_nat (heap_base h))"
    using assms by (auto simp: heap_inv_def blocks_ok_def heap_base_def)
  have "kmem_info h = Some (of_nat (\<Sum>(s, f) \<leftarrow> ?bs. if f then 0 else s),
      of_nat (\<Sum>(s, f) \<leftarrow> ?bs. if f then s else 0), HEAP_SIZE)"
    unfolding kmem_info_def ok(5) kmem_info_loop_seg[OF ok(1-3)] by simp
  then show ?thesis using total_sum[of ?bs] ok(4) by (simp add: unat_of_nat_u32)
qed

theorem kmem_info_exact_witness:
  "\<exists>used free. kmem_info boot_heap = Some (used, free, HEAP_SIZE) \<and>
    unat used + unat free + 16 = unat HEAP_SIZE"
  using kmem_info_exact[OF boot_heap_inv(1)] by (auto simp: boot_heap_inv)

text \<open>
  For a request within three bytes of \<open>2^32\<close> the rounding \<^verbatim>\<open>(size + 3u) & ~3u\<close>
  wraps to 0, so a fresh heap answers a 4 GB request with a non-NULL pointer to a block of
  no bytes at all.
\<close>

theorem kmalloc_wraps:
  assumes "n > 0xFFFFFFFC" "0 < heap_base h" "heap_base h + unat HEAP_SIZE \<le> 4294967296"
  shows "\<exists>h' p. kmalloc (kmem_init h) n = Some (h', p) \<and> p \<noteq> 0 \<and> live_block h' p = Some {}"
proof -
  let ?h = "kmem_init h"
  have init: "heap_inv ?h" "heap_blocks ?h = [(262128, True)]" "heap_base ?h = heap_base h"
    using kmem_init_inv[OF assms(2,3)] by (auto simp: kmem_init_def Let_def heap_base_def)
  have "unat n > 4294967292" using assms(1) by (simp add: word_less_nat_alt)
  then have "unat n = 4294967293 \<or> unat n = 4294967294 \<or> unat n = 4294967295"
    using unat_u32[of n] by linarith
  then have "n = 4294967293 \<or> n = 4294967294 \<or> n = 4294967295"
    by (simp add: word_unat_eq_iff)
  then have call: "kmalloc ?h n = kmalloc_loop ?h (of_nat 0) (heap_head ?h)"
    by (auto simp: kmalloc_def word_wrap_32)
  from kmalloc_loop_refines[OF init(1), of 0]
  obtain h' where h': "kmalloc ?h n = Some (h', of_nat (heap_base h + 16))"
    "heap_blocks h' = [(0, False), (262112, True)]" "heap_storage h' = heap_storage ?h"
    unfolding call by (auto simp: init)
  have p: "unat (of_nat (heap_base h + 16) :: u32) = heap_base h + 16"
    using assms(3) by (intro unat_of_nat_u32) simp
  have "live_block h' (of_nat (heap_base h + 16)) = Some {}"
    unfolding live_block_Some p heap_base_cong[OF h'(3)] h'(2) init(3) by simp
  moreover have "of_nat (heap_base h + 16) \<noteq> (0 :: u32)"
    using assms(3) by (intro of_nat_neq_0) auto
  ultimately show ?thesis using h'(1) by blast
qed

theorem kmalloc_wraps_witness:
  "\<exists>h' p. kmalloc boot_heap 0xFFFFFFFF = Some (h', p) \<and> p \<noteq> 0 \<and> live_block h' p = Some {}"
  unfolding boot_heap_def by (rule kmalloc_wraps) (simp_all add: heap_base_def)

end
