(* ===== verification/Elf.thy ===== *)
theory Elf
  imports Paging
begin

text \<open>
  The ELF loader, \<^verbatim>\<open>kernel/elf.c\<close>: the checks on an image in memory, the loader for kernel threads, and the one
  that fills a user address space through the frames behind it. The structures are read field by field
  from the memory the image is in, each time the code reads them.
\<close>

section \<open>The code\<close>

definition ELF_MAGIC0 :: u8 where [kconst]: "ELF_MAGIC0 = 0x7F"
definition ELF_MAGIC1 :: u8 where [kconst]: "ELF_MAGIC1 = 0x45"
definition ELF_MAGIC2 :: u8 where [kconst]: "ELF_MAGIC2 = 0x4C"
definition ELF_MAGIC3 :: u8 where [kconst]: "ELF_MAGIC3 = 0x46"
definition ELF_CLASS32 :: u8 where [kconst]: "ELF_CLASS32 = 1"
definition ELF_DATA2LSB :: u8 where [kconst]: "ELF_DATA2LSB = 1"
definition ELF_ET_EXEC :: u16 where [kconst]: "ELF_ET_EXEC = 2"
definition ELF_EM_386 :: u16 where [kconst]: "ELF_EM_386 = 3"
definition ELF_PT_LOAD :: u32 where [kconst]: "ELF_PT_LOAD = 1"

definition e_ident :: "mem \<Rightarrow> u32 \<Rightarrow> u32 \<Rightarrow> u8" where "e_ident m eh k = m (eh + k)"
definition e_type :: "mem \<Rightarrow> u32 \<Rightarrow> u16" where "e_type m eh = load16 m (eh + 16)"
definition e_machine :: "mem \<Rightarrow> u32 \<Rightarrow> u16" where "e_machine m eh = load16 m (eh + 18)"
definition e_entry :: "mem \<Rightarrow> u32 \<Rightarrow> u32" where "e_entry m eh = load32 m (eh + 24)"
definition e_phoff :: "mem \<Rightarrow> u32 \<Rightarrow> u32" where "e_phoff m eh = load32 m (eh + 28)"
definition e_phentsize :: "mem \<Rightarrow> u32 \<Rightarrow> u16" where "e_phentsize m eh = load16 m (eh + 42)"
definition e_phnum :: "mem \<Rightarrow> u32 \<Rightarrow> u16" where "e_phnum m eh = load16 m (eh + 44)"

definition p_type :: "mem \<Rightarrow> u32 \<Rightarrow> u32" where "p_type m ph = load32 m ph"
definition p_offset :: "mem \<Rightarrow> u32 \<Rightarrow> u32" where "p_offset m ph = load32 m (ph + 4)"
definition p_vaddr :: "mem \<Rightarrow> u32 \<Rightarrow> u32" where "p_vaddr m ph = load32 m (ph + 8)"
definition p_filesz :: "mem \<Rightarrow> u32 \<Rightarrow> u32" where "p_filesz m ph = load32 m (ph + 16)"
definition p_memsz :: "mem \<Rightarrow> u32 \<Rightarrow> u32" where "p_memsz m ph = load32 m (ph + 20)"

text \<open>The tests both loaders start with; \<^verbatim>\<open>sizeof(elf32_ehdr_t)\<close> is 52 and \<^verbatim>\<open>sizeof(elf32_phdr_t)\<close> is 32.\<close>

definition elf_valid :: "mem \<Rightarrow> u32 \<Rightarrow> u32 \<Rightarrow> bool" where
  "elf_valid m data len \<longleftrightarrow>
     data \<noteq> 0 \<and> \<not> len < 52 \<and>
     e_ident m data 0 = ELF_MAGIC0 \<and> e_ident m data 1 = ELF_MAGIC1 \<and>
     e_ident m data 2 = ELF_MAGIC2 \<and> e_ident m data 3 = ELF_MAGIC3 \<and>
     e_ident m data 4 = ELF_CLASS32 \<and> e_ident m data 5 = ELF_DATA2LSB \<and>
     e_type m data = ELF_ET_EXEC \<and> e_machine m data = ELF_EM_386 \<and>
     e_phoff m data \<noteq> 0 \<and> e_phnum m data \<noteq> 0 \<and>
     \<not> e_phoff m data + ucast (e_phnum m data) * 32 > len"

text \<open>The address of program header \<open>i\<close>.\<close>

definition phdr :: "mem \<Rightarrow> u32 \<Rightarrow> u16 \<Rightarrow> u32" where
  "phdr m data i = data + e_phoff m data + ucast i * ucast (e_phentsize m data)"

lemma phnum_step: "i < (n :: u16) \<Longrightarrow> 65535 - unat (i + 1) < 65535 - unat i"
proof -
  assume "i < n"
  then have "unat i < unat n" by (simp add: word_less_nat_alt)
  moreover have "unat n < 2 ^ LENGTH(16)" by (rule unsigned_less)
  ultimately show ?thesis by (simp add: unat_word_ariths)
qed

text \<open>
  \<^verbatim>\<open>memcpy\<close> through pointers of the kernel. The segment loop of \<^verbatim>\<open>elf_load\<close> writes through the kernel's own mapping, in which
  addresses are physical ones, wherever the image says; the kernel itself lies below 1 MB, and a write there is the end of what can be said.
  The flag is False for the \<^verbatim>\<open>return 0\<close> inside the loop.
\<close>

definition copy_bytes :: "u32 \<Rightarrow> u32 \<Rightarrow> u32 \<Rightarrow> mm \<Rightarrow> mm" where
  "copy_bytes dst src n s = touch dst (unat n) (touch src (unat n) (s\<lparr>memory := memcpy (memory s) dst src n\<rparr>))"

definition zero_bytes :: "u32 \<Rightarrow> u32 \<Rightarrow> mm \<Rightarrow> mm" where
  "zero_bytes dst n s = touch dst (unat n) (s\<lparr>memory := memset (memory s) dst 0 n\<rparr>)"

definition stray :: "u32 \<Rightarrow> mm \<Rightarrow> mm" where
  "stray dst s = (if unat dst < 0x100000 then derail s else s)"

function elf_load_loop :: "u32 \<Rightarrow> u32 \<Rightarrow> u16 \<Rightarrow> mm \<Rightarrow> mm \<times> bool" where
  "elf_load_loop data len i s =
     (if i < e_phnum (memory s) data then
        let ph = phdr (memory s) data i;
            s = touch ph 4 s
        in if p_type (memory s) ph \<noteq> ELF_PT_LOAD then elf_load_loop data len (i + 1) s
           else
             let s = touch ph 20 s
             in if p_filesz (memory s) ph = 0 then elf_load_loop data len (i + 1) s
                else if p_offset (memory s) ph + p_filesz (memory s) ph > len then (s, False)
                else
                  let dst = p_vaddr (memory s) ph;
                      s = stray dst (copy_bytes dst (data + p_offset (memory s) ph) (p_filesz (memory s) ph) s);
                      s = touch ph 24 s;
                      bss = p_vaddr (memory s) ph + p_filesz (memory s) ph;
                      s = (if p_memsz (memory s) ph > p_filesz (memory s) ph
                           then stray bss (zero_bytes bss (p_memsz (memory s) ph - p_filesz (memory s) ph) s) else s)
                  in elf_load_loop data len (i + 1) s
      else (s, True))"
  by pat_completeness auto
termination
  by (relation "measure (\<lambda>(data, len, i, s). 65535 - unat i)") (auto dest: phnum_step)

declare elf_load_loop.simps [simp del]

definition elf_load :: "u32 \<Rightarrow> u32 \<Rightarrow> mm \<Rightarrow> mm \<times> u32" where
  "elf_load data len s =
     (if \<not> elf_valid (memory s) data len then (s, 0)
      else let (s, ok) = elf_load_loop data len 0 s in (s, if ok then e_entry (memory s) data else 0))"

text \<open>One page of a segment of \<^verbatim>\<open>elf_load_user\<close>, written through the frame behind it, by its physical address.\<close>

definition load_page :: "u32 \<Rightarrow> u32 \<Rightarrow> u32 \<Rightarrow> u32 \<Rightarrow> mm \<Rightarrow> mm \<times> bool" where
  "load_page data ph pd_phys virt_page s =
     (let phys_page = phys_of_virt (memory s) pd_phys virt_page;
          s = touch_walk pd_phys virt_page s
      in if phys_page = 0 then (s, False)
         else
           let s = zero_page phys_page s;
               m = memory s;
               file_start = p_vaddr m ph;
               file_end = p_vaddr m ph + p_filesz m ph;
               pg_end = virt_page + 4096
           in if virt_page \<ge> file_end \<or> pg_end \<le> file_start then (s, True)
              else
                let copy_vstart = (if virt_page > file_start then virt_page else file_start);
                    copy_vend = (if pg_end < file_end then pg_end else file_end);
                    dst_off = copy_vstart - virt_page;
                    src_off = p_offset m ph + (copy_vstart - p_vaddr m ph);
                    copy_len = copy_vend - copy_vstart
                in (copy_bytes (phys_page + dst_off) (data + src_off) copy_len s, True))"

fun load_pages_loop :: "u32 \<Rightarrow> u32 \<Rightarrow> u32 \<Rightarrow> u32 \<Rightarrow> nat list \<Rightarrow> mm \<Rightarrow> mm \<times> bool" where
  "load_pages_loop data ph pd_phys page_start [] s = (s, True)"
| "load_pages_loop data ph pd_phys page_start (pg # pgs) s =
     (let (s, ok) = load_page data ph pd_phys (page_start + of_nat pg * 4096) s
      in if ok then load_pages_loop data ph pd_phys page_start pgs s else (s, False))"

definition load_segment :: "u32 \<Rightarrow> u32 \<Rightarrow> u32 \<Rightarrow> u32 \<Rightarrow> mm \<Rightarrow> mm \<times> bool" where
  "load_segment data len pd_phys ph s =
     (let m = memory s;
          s = touch ph (if p_type m ph \<noteq> ELF_PT_LOAD then 4 else 24) s
      in if p_type m ph \<noteq> ELF_PT_LOAD \<or> p_memsz m ph = 0 then (s, True)
         else if p_offset m ph + p_filesz m ph > len then (s, False)
         else
           let page_start = p_vaddr m ph AND NOT 0xFFF;
               page_end = (p_vaddr m ph + p_memsz m ph + 0xFFF) AND NOT 0xFFF;
               n_pages = drop_bit 12 (page_end - page_start);
               (s, r) = paging_alloc_user_pages pd_phys page_start n_pages s
           in if r \<noteq> 0 then (s, False) else load_pages_loop data ph pd_phys page_start [0 ..< unat n_pages] s)"

function load_user_loop :: "u32 \<Rightarrow> u32 \<Rightarrow> u32 \<Rightarrow> u16 \<Rightarrow> mm \<Rightarrow> mm \<times> bool" where
  "load_user_loop data len pd_phys i s =
     (if i < e_phnum (memory s) data then
        let (s, ok) = load_segment data len pd_phys (phdr (memory s) data i) s
        in if ok then load_user_loop data len pd_phys (i + 1) s else (s, False)
      else (s, True))"
  by pat_completeness auto
termination
  by (relation "measure (\<lambda>(data, len, pd_phys, i, s). 65535 - unat i)") (auto dest: phnum_step)

declare load_user_loop.simps [simp del]

definition elf_load_user :: "u32 \<Rightarrow> u32 \<Rightarrow> u32 \<Rightarrow> mm \<Rightarrow> mm \<times> u32" where
  "elf_load_user data len pd_phys s =
     (if pd_phys = 0 \<or> \<not> elf_valid (memory s) data len then (s, 0)
      else let (s, ok) = load_user_loop data len pd_phys 0 s in (s, if ok then e_entry (memory s) data else 0))"

definition USER_LOAD_BASE :: u32 where [kconst]: "USER_LOAD_BASE = 0x01000000"
definition USER_STACK_TOP :: u32 where [kconst]: "USER_STACK_TOP = 0x01020000"
definition USER_STACK_PAGES :: u32 where [kconst]: "USER_STACK_PAGES = 4"

section \<open>The image is read where it was put\<close>

text \<open>The images both loaders get lie in the kernel's static data, in the first megabyte.\<close>

definition low :: "u32 \<Rightarrow> nat \<Rightarrow> bool" where
  "low a n \<longleftrightarrow> unat a + n \<le> 0x100000"

lemma only_low:
  assumes "only m m' W" "W \<inter> {..< 256} = {}" "low a n" "k < n"
  shows "m' (a + of_nat k) = m (a + of_nat k)"
proof -
  have "unat (a + of_nat k) = unat a + k"
    using assms(3,4) unat_of_nat_u32[of k] by (subst unat_plus_u32) (simp_all add: low_def)
  then have "unat (a + of_nat k) div 4096 < 256"
    using assms(3,4) by (simp add: low_def div_less_iff_less_mult)
  then show ?thesis using assms(1,2) unfolding only_def by blast
qed

lemma load_low:
  assumes "only m m' W" "W \<inter> {..< 256} = {}" "low a n"
  shows "k + 4 \<le> n \<Longrightarrow> load32 m' (a + of_nat k) = load32 m (a + of_nat k)"
    "k + 2 \<le> n \<Longrightarrow> load16 m' (a + of_nat k) = load16 m (a + of_nat k)"
  using only_low[OF assms, of k] only_low[OF assms, of "k + 1"] only_low[OF assms, of "k + 2"] only_low[OF assms, of "k + 3"]
  by (simp_all add: load32_def load16_def ac_simps)

lemma phdr_low:
  assumes "only m m' W" "W \<inter> {..< 256} = {}" "low ph 32"
  shows "p_type m' ph = p_type m ph" "p_offset m' ph = p_offset m ph" "p_vaddr m' ph = p_vaddr m ph"
    "p_filesz m' ph = p_filesz m ph" "p_memsz m' ph = p_memsz m ph"
  using load_low(1)[OF assms, of 0] load_low(1)[OF assms, of 4] load_low(1)[OF assms, of 8] load_low(1)[OF assms, of 16]
    load_low(1)[OF assms, of 20]
  by (simp_all add: p_type_def p_offset_def p_vaddr_def p_filesz_def p_memsz_def)

lemma ehdr_low:
  assumes "only m m' W" "W \<inter> {..< 256} = {}" "low eh 52"
  shows "e_entry m' eh = e_entry m eh" "e_phnum m' eh = e_phnum m eh" "phdr m' eh i = phdr m eh i"
  using load_low(1)[OF assms, of 24] load_low(1)[OF assms, of 28] load_low(2)[OF assms, of 42] load_low(2)[OF assms, of 44]
  by (simp_all add: e_entry_def e_phoff_def e_phentsize_def e_phnum_def phdr_def)

lemma elf_valid_low:
  assumes "only m m' W" "W \<inter> {..< 256} = {}" "low eh 52"
  shows "elf_valid m' eh len = elf_valid m eh len"
proof -
  have "e_ident m' eh k = e_ident m eh k" if "k < 52" for k
    using only_low[OF assms, of "unat k"] that by (simp add: e_ident_def word_less_nat_alt)
  then have "e_ident m' eh 0 = e_ident m eh 0" "e_ident m' eh 1 = e_ident m eh 1" "e_ident m' eh 2 = e_ident m eh 2"
    "e_ident m' eh 3 = e_ident m eh 3" "e_ident m' eh 4 = e_ident m eh 4" "e_ident m' eh 5 = e_ident m eh 5" by simp_all
  moreover have "e_type m' eh = e_type m eh" "e_machine m' eh = e_machine m eh" "e_phoff m' eh = e_phoff m eh"
    using load_low(2)[OF assms, of 16] load_low(2)[OF assms, of 18] load_low(1)[OF assms, of 28]
    by (simp_all add: e_type_def e_machine_def e_phoff_def)
  ultimately show ?thesis using ehdr_low(2)[OF assms] by (simp add: elf_valid_def)
qed

section \<open>One page\<close>

text \<open>The byte an address space has at a user address.\<close>

definition user_byte :: "mem \<Rightarrow> pages \<Rightarrow> u32 \<Rightarrow> u8 option" where
  "user_byte m P v = map_option (\<lambda>f. m (of_nat (4096 * f) + (v AND 0xFFF))) (P (page_of v))"

text \<open>The byte a segment puts at an address of its pages: file contents, or zero before and behind them.\<close>

definition seg_byte :: "mem \<Rightarrow> u32 \<Rightarrow> u32 \<Rightarrow> u32 \<Rightarrow> u8" where
  "seg_byte m data ph v =
     (if unat (p_vaddr m ph) \<le> unat v \<and> unat v < unat (p_vaddr m ph) + unat (p_filesz m ph)
      then m (data + p_offset m ph + (v - p_vaddr m ph)) else 0)"

lemma phys_of_virt_page:
  assumes rep: "as_rep m k p T P" and va: "0x800000 \<le> unat va" and P: "P (page_of va) = Some f"
  shows "phys_of_virt m (of_nat (4096 * p)) va = of_nat (4096 * f)"
proof -
  define i where "i = unat va div 4194304"
  define j where "j = unat va div 4096 mod 1024"
  have i: "2 \<le> i" "i < 1024" and j: "j < 1024"
    using va unat_u32[of va] by (simp_all add: i_def j_def div_le_mono less_mult_imp_div_less)
  have Pij: "P (i, j) = Some f" using P by (simp add: page_of_def i_def j_def)
  then obtain t where t: "T i = Some t" using rep unfolding as_rep_def by blast
  have pde: "get_entry m (of_nat (4096 * p)) (drop_bit 22 va) = of_nat (4096 * t) OR 7"
    using rep t i unfolding va_index i_def[symmetric] get_entry_ld as_rep_def by (metis entry_is_simps(2))
  have pte: "get_entry m (of_nat (4096 * t)) (drop_bit 12 va AND 0x3FF) = of_nat (4096 * f) OR 7"
    using rep t Pij j unfolding va_index j_def[symmetric] get_entry_ld as_rep_def by (metis entry_is_simps(2))
  show ?thesis
    unfolding phys_of_virt_def Let_def pde user_entry(1) pte PAGE_PRESENT_def
    using user_entry(2)[of t] user_entry(2)[of f] by simp
qed

lemma touch_walk_low:
  assumes rep: "as_rep (memory s) k p T P" and va: "0x800000 \<le> unat va" and P: "P (page_of va) = Some f"
    and low: "insert p (ran T) \<subseteq> {..< 2048}"
  shows "touch_walk (of_nat (4096 * p)) va s = s"
proof -
  define i where "i = unat va div 4194304"
  define j where "j = unat va div 4096 mod 1024"
  have i: "2 \<le> i" "i < 1024" and j: "j < 1024"
    using va unat_u32[of va] by (simp_all add: i_def j_def div_le_mono less_mult_imp_div_less)
  have "P (i, j) = Some f" using P by (simp add: page_of_def i_def j_def)
  then obtain t where t: "T i = Some t" using rep unfolding as_rep_def by blast
  then have lo: "t < 2048" "p < 2048" using low ranI[of T i t] by auto
  have pde: "get_entry (memory s) (of_nat (4096 * p)) (of_nat i) = of_nat (4096 * t) OR 7"
    using rep t i unfolding get_entry_ld as_rep_def by (metis entry_is_simps(2))
  show ?thesis
    unfolding touch_walk_def Let_def va_index i_def[symmetric] j_def[symmetric] pde user_entry(1)
      touch_entry[OF lo(1) j] touch_entry[OF lo(2) i(2)] by simp
qed

lemma page_offset: "unat (v AND 0xFFF :: u32) = unat v mod 4096"
  using unat_and_mask[of v 12] by (simp add: mask12)

lemma frame_byte:
  assumes "f < 8192"
  shows "unat (of_nat (4096 * f) + (v AND 0xFFF) :: u32) = 4096 * f + unat v mod 4096"
proof -
  have "unat v mod 4096 < 4096" by simp
  then show ?thesis using assms unat_frame_addr[OF assms] by (subst unat_plus_u32) (simp_all add: page_offset del: of_nat_mult)
qed

lemma copy_bytes_simps [simp]:
  "memory (copy_bytes d a n s) = memcpy (memory s) d a n" "frames (copy_bytes d a n s) = frames s"
  "cr0 (copy_bytes d a n s) = cr0 s" "cr3 (copy_bytes d a n s) = cr3 s"
  "page_directory (copy_bytes d a n s) = page_directory s" "page_tables (copy_bytes d a n s) = page_tables s"
  by (simp_all add: copy_bytes_def)

lemma touch_walk_simps [simp]:
  "memory (touch_walk pd v s) = memory s" "frames (touch_walk pd v s) = frames s" "cr0 (touch_walk pd v s) = cr0 s"
  "cr3 (touch_walk pd v s) = cr3 s" "page_directory (touch_walk pd v s) = page_directory s"
  "page_tables (touch_walk pd v s) = page_tables s"
  by (simp_all add: touch_walk_def Let_def)

lemma mm_same:
  fixes s s' :: mm
  assumes "memory s' = m'" "frames s' = frames s" "cr0 s' = cr0 s" "cr3 s' = cr3 s"
    "page_directory s' = page_directory s" "page_tables s' = page_tables s"
  shows "s' = s\<lparr>memory := m', derailed := derailed s'\<rparr>"
  using assms by (intro mm.equality) simp_all

text \<open>What the code copies into a page: the part of the file contents that overlaps it.\<close>

lemma memcpy_frame:
  assumes "256 \<le> f" "f < 8192" "a + n \<le> 4096" "low src n"
  shows "memcpy m (of_nat (4096 * f) + of_nat a) src (of_nat n) x =
    (if 4096 * f + a \<le> unat x \<and> unat x < 4096 * f + a + n then m (src + (x - (of_nat (4096 * f) + of_nat a))) else m x)"
proof -
  have un: "unat (of_nat n :: u32) = n" using assms(3) by (intro unat_of_nat_u32) simp
  have d: "unat (of_nat (4096 * f) + of_nat a :: u32) = 4096 * f + a"
    using assms(2,3) unat_of_nat_u32[of "4096 * f + a"] by simp
  have w: "within (of_nat (4096 * f) + of_nat a) n y \<longleftrightarrow> 4096 * f + a \<le> unat y \<and> unat y < 4096 * f + a + n" for y
    using assms(2,3) within_nat[of "of_nat (4096 * f) + of_nat a" n y] unfolding d by simp
  have "\<not> within (of_nat (4096 * f) + of_nat a) n (src + of_nat k)" if "k < n" for k
  proof -
    have "unat (src + of_nat k) = unat src + k"
      using assms(4) that unat_of_nat_u32[of k] by (subst unat_plus_u32) (simp_all add: low_def)
    then have "unat (src + of_nat k) < 0x100000" using assms(4) that by (simp add: low_def)
    then show ?thesis using assms(1) unfolding w by simp
  qed
  then show ?thesis unfolding memcpy_def un using assms(3) by (subst memcpy_bytes_apply) (simp_all only: w, simp_all)
qed

lemma load_page_copy:
  assumes f: "256 \<le> f" "f < 8192" "phys_of_virt (memory s) pd vp = of_nat (4096 * f)"
    and vp: "4096 dvd unat vp" "unat vp + 4096 \<le> 0xFFFFF000"
    and low: "low ph 32" "low data (unat len)"
  defines "A \<equiv> unat (p_vaddr (memory s) ph)" and "F \<equiv> unat (p_filesz (memory s) ph)"
  assumes seg: "unat (p_offset (memory s) ph) + F \<le> unat len" "A + F \<le> 0xFFFFF000"
  shows "\<exists>m' d. load_page data ph pd vp s = (s\<lparr>memory := m', derailed := d\<rparr>, True) \<and> only (memory s) m' {f} \<and>
    (f < 2048 \<longrightarrow> touch_walk pd vp s = s \<longrightarrow> d = derailed s) \<and>
    (\<forall>v. unat v div 4096 = unat vp div 4096 \<longrightarrow>
      m' (of_nat (4096 * f) + (v AND 0xFFF)) = seg_byte (memory s) data ph v)"
proof -
  let ?m = "memory s"
  let ?z = "memset ?m (of_nat (4096 * f)) 0 4096"
  define V where "V = unat vp"
  define Q where "Q = unat (p_offset ?m ph)"
  have nz: "(of_nat (4096 * f) :: u32) \<noteq> 0"
    using unat_frame_addr[OF f(2)] f(1) by (metis mult_eq_0_iff not_numeral_le_zero unat_0 zero_neq_numeral)
  have z: "only ?m ?z {f}" using f(2) by (intro only_memset) simp
  have W: "{f} \<inter> {..< 256} = {}" using f(1) by simp
  note hd = phdr_low[OF z W low(1)]
  have zf: "?z (of_nat (4096 * f) + (v AND 0xFFF)) = 0" for v
  proof -
    have "unat v mod 4096 < 4096" by simp
    then show ?thesis using unat_frame_addr[OF f(2)] f(2) frame_byte[OF f(2), of v]
      by (simp add: memset_apply within_nat del: of_nat_mult)
  qed
  have inpage: "unat v = V + unat v mod 4096 \<and> vp + (v AND 0xFFF) = v" if "unat v div 4096 = unat vp div 4096" for v
  proof -
    have "unat v = V + unat v mod 4096" using that vp(1) unfolding V_def by (metis dvd_div_mult_self div_mult_mod_eq)
    moreover have "unat (vp + (v AND 0xFFF)) = unat vp + unat v mod 4096"
      using vp(2) mod_less_divisor[of 4096 "unat v"] by (subst unat_plus_u32) (simp_all add: page_offset)
    ultimately show ?thesis by (simp add: V_def word_unat_eq_iff)
  qed
  have fe: "unat (p_vaddr ?m ph + p_filesz ?m ph) = A + F"
    using seg(2) by (subst unat_plus_u32) (simp_all add: A_def F_def)
  have pe: "unat (vp + 4096) = V + 4096"
    using vp(2) by (subst unat_plus_u32) (simp_all add: V_def)
  let ?s0 = "zero_page (of_nat (4096 * f)) (touch_walk pd vp s)"
  have ft: "unat (of_nat (4096 * f) :: u32) = 4096 * f" using unat_frame_addr[OF f(2)] .
  have d0: "derailed ?s0 = derailed s" if "f < 2048" "touch_walk pd vp s = s"
    using that ft by (simp add: zero_page_def touch_low PAGE_SIZE_def del: of_nat_mult)
  show ?thesis
  proof (cases "V \<ge> A + F \<or> V + 4096 \<le> A")
    case True
    then have "load_page data ph pd vp s = (?s0, True)"
      unfolding load_page_def f(3) Let_def zero_page_simps touch_walk_simps hd using nz fe pe
      by (simp add: word_le_nat_alt A_def V_def del: of_nat_mult)
    moreover have "?s0 = s\<lparr>memory := ?z, derailed := derailed ?s0\<rparr>" by (rule mm_same) (simp_all del: of_nat_mult)
    ultimately have "load_page data ph pd vp s = (s\<lparr>memory := ?z, derailed := derailed ?s0\<rparr>, True)" by simp
    moreover have "seg_byte ?m data ph v = 0" if "unat v div 4096 = unat vp div 4096" for v
      using True inpage[OF that] mod_less_divisor[of 4096 "unat v"] unfolding seg_byte_def A_def[symmetric] F_def[symmetric] by auto
    ultimately show ?thesis using z zf d0 by (intro exI[of _ ?z] exI[of _ "derailed ?s0"]) simp
  next
    case False
    define c where "c = (if vp > p_vaddr ?m ph then vp else p_vaddr ?m ph)"
    define e where "e = (if vp + 4096 < p_vaddr ?m ph + p_filesz ?m ph then vp + 4096 else p_vaddr ?m ph + p_filesz ?m ph)"
    define a where "a = unat c - V"
    define n where "n = unat e - unat c"
    have c: "unat c = max V A" unfolding c_def by (simp add: word_less_nat_alt A_def V_def)
    have e: "unat e = min (V + 4096) (A + F)" unfolding e_def by (simp add: word_less_nat_alt fe pe)
    have le: "vp \<le> c" "p_vaddr ?m ph \<le> c" "c \<le> e"
      using False c e by (auto simp: word_le_nat_alt A_def V_def)
    have ca: "c - vp = of_nat a" and ce: "e - c = of_nat n"
      using le by (simp_all add: word_unat_eq_iff unat_sub a_def n_def V_def unat_of_nat_u32 unat_u32 less_imp_diff_less)
    have an: "a + n \<le> 4096" using False c e unfolding a_def n_def by auto
    define src where "src = data + (p_offset ?m ph + (c - p_vaddr ?m ph))"
    have "unat (c - p_vaddr ?m ph) = unat c - A" using le(2) by (simp add: unat_sub A_def)
    then have "unat (p_offset ?m ph + (c - p_vaddr ?m ph)) = Q + (unat c - A)"
      using seg(1) c e False low(2) unfolding low_def by (subst unat_plus_u32) (auto simp: Q_def)
    then have "unat src = unat data + Q + (unat c - A)"
      unfolding src_def using seg(1) c e False low(2) unfolding low_def by (subst unat_plus_u32) (auto simp: Q_def)
    then have lsrc: "low src n" using seg(1) c e False low(2) unfolding low_def n_def Q_def by auto
    let ?c = "memcpy ?z (of_nat (4096 * f) + of_nat a) src (of_nat n)"
    let ?s1 = "copy_bytes (of_nat (4096 * f) + of_nat a) src (of_nat n) ?s0"
    have "load_page data ph pd vp s = (?s1, True)"
      using False nz
      unfolding load_page_def f(3) Let_def zero_page_simps touch_walk_simps hd c_def[symmetric] e_def[symmetric] ca ce src_def
      by (simp add: word_le_nat_alt fe pe A_def V_def del: of_nat_mult)
    moreover have "?s1 = s\<lparr>memory := ?c, derailed := derailed ?s1\<rparr>" by (rule mm_same) (simp_all del: of_nat_mult)
    ultimately have run: "load_page data ph pd vp s = (s\<lparr>memory := ?c, derailed := derailed ?s1\<rparr>, True)" by simp
    have d1: "derailed ?s1 = derailed s" if "f < 2048" "touch_walk pd vp s = s"
    proof -
      have "unat (of_nat (4096 * f) + of_nat a :: u32) = 4096 * f + a" "unat (of_nat n :: u32) = n"
        using an that(1) ft unat_of_nat_u32[of a] unat_of_nat_u32[of n] by (auto simp: unat_plus_u32 simp del: of_nat_mult)
      then show ?thesis
        using d0[OF that] that(1) an lsrc by (simp add: copy_bytes_def touch_low low_def del: of_nat_mult)
    qed
    have "?c x = ?m x" if "unat x div 4096 \<noteq> f" for x
    proof -
      have "\<not> (4096 * f + a \<le> unat x \<and> unat x < 4096 * f + a + n)" using that an page_div[of f "unat x"] by auto
      then show ?thesis using z that unfolding memcpy_frame[OF f(1,2) an lsrc] only_def by auto
    qed
    moreover have "?c (of_nat (4096 * f) + (v AND 0xFFF)) = seg_byte ?m data ph v"
      if v: "unat v div 4096 = unat vp div 4096" for v
    proof -
      let ?x = "of_nat (4096 * f) + (v AND 0xFFF) :: u32"
      note iv = inpage[OF v]
      have r: "unat v mod 4096 < 4096" by simp
      have iff: "(4096 * f + a \<le> unat ?x \<and> unat ?x < 4096 * f + a + n) \<longleftrightarrow> A \<le> unat v \<and> unat v < A + F"
        using iv r c e False unfolding frame_byte[OF f(2)] a_def n_def by auto
      have "src + (?x - (of_nat (4096 * f) + of_nat a)) = data + p_offset ?m ph + (vp + (v AND 0xFFF) - p_vaddr ?m ph)"
        unfolding src_def ca[symmetric] by (simp add: algebra_simps del: of_nat_mult)
      then have src_eq: "src + (?x - (of_nat (4096 * f) + of_nat a)) = data + p_offset ?m ph + (v - p_vaddr ?m ph)"
        using iv by simp
      have "?z (data + p_offset ?m ph + (v - p_vaddr ?m ph)) = ?m (data + p_offset ?m ph + (v - p_vaddr ?m ph))"
        if "A \<le> unat v" "unat v < A + F"
      proof -
        have "data + p_offset ?m ph + (v - p_vaddr ?m ph) = data + of_nat (Q + (unat v - A))"
          using that by (simp add: Q_def A_def of_nat_diff word_le_nat_alt)
        moreover have "Q + (unat v - A) < unat len" using that seg(1) by (simp add: Q_def)
        ultimately show ?thesis using only_low[OF z W low(2), of "Q + (unat v - A)"] by (simp only:)
      qed
      then show ?thesis
        unfolding memcpy_frame[OF f(1,2) an lsrc] iff src_eq seg_byte_def A_def[symmetric] F_def[symmetric] zf by simp
    qed
    ultimately show ?thesis using run d1 unfolding only_def by (intro exI[of _ ?c] exI[of _ "derailed ?s1"]) simp
  qed
qed

section \<open>One segment\<close>

text \<open>What the loader needs of a program header: its contents lie in the image, its pages in the user part.\<close>

definition seg_fits :: "mem \<Rightarrow> u32 \<Rightarrow> u32 \<Rightarrow> bool" where
  "seg_fits m len ph \<longleftrightarrow> unat (p_offset m ph) + unat (p_filesz m ph) \<le> unat len \<and>
     p_filesz m ph \<le> p_memsz m ph \<and> 0x800000 \<le> unat (p_vaddr m ph) \<and>
     unat (p_vaddr m ph) + unat (p_memsz m ph) \<le> 0xFFFFF000"

lemma seg_fits_low:
  assumes "only m m' W" "W \<inter> {..< 256} = {}" "low ph 32"
  shows "seg_fits m' len ph = seg_fits m len ph"
  by (simp add: seg_fits_def phdr_low[OF assms])

lemma seg_byte_low:
  assumes "only m m' W" "W \<inter> {..< 256} = {}" "low ph 32" "low data (unat len)" "seg_fits m len ph"
  shows "seg_byte m' data ph v = seg_byte m data ph v"
proof -
  have "m' (data + p_offset m ph + (v - p_vaddr m ph)) = m (data + p_offset m ph + (v - p_vaddr m ph))"
    if "unat (p_vaddr m ph) \<le> unat v" "unat v < unat (p_vaddr m ph) + unat (p_filesz m ph)"
  proof -
    let ?k = "unat (p_offset m ph) + (unat v - unat (p_vaddr m ph))"
    have "data + p_offset m ph + (v - p_vaddr m ph) = data + of_nat ?k"
      using that by (simp add: of_nat_diff word_le_nat_alt)
    moreover have "unat (p_offset m ph) + unat (p_filesz m ph) \<le> unat len" using assms(5) by (simp add: seg_fits_def)
    then have "?k < unat len" using that by linarith
    ultimately show ?thesis using only_low[OF assms(1,2,4), of ?k] by (simp only:)
  qed
  then show ?thesis by (simp add: seg_byte_def phdr_low[OF assms(1-3)])
qed

lemma user_byte_only:
  assumes "only m m' W" "as_ok p T P" "\<And>g. P (page_of v) = Some g \<Longrightarrow> g \<notin> W"
  shows "user_byte m' P v = user_byte m P v"
proof (cases "P (page_of v)")
  case (Some g)
  then have "g < 8192" using assms(2) ranI[of P, OF Some] by (auto simp: as_ok_def owned_def)
  then have "unat (of_nat (4096 * g) + (v AND 0xFFF) :: u32) div 4096 = g" by (simp only: frame_byte)
  then show ?thesis using assms(1,3) Some by (simp add: user_byte_def only_def del: of_nat_mult)
qed (simp add: user_byte_def)

lemma aspace_only:
  assumes "aspace s p T P" "only (memory s) m' W" "W \<inter> insert p (ran T) = {}"
  shows "aspace (s\<lparr>memory := m', derailed := d\<rparr>) p T P"
proof -
  have "as_rep m' (kframe s) p T P"
    using assms as_ok_bounds[of p T P] by (intro as_rep_only[OF _ assms(2)]) (auto simp: aspace_def)
  then show ?thesis using assms(1) by (simp add: aspace_def kframe_def)
qed

lemma load_page_spec:
  assumes as: "aspace s p T P" and f: "P (page_of vp) = Some f"
    and vp: "4096 dvd unat vp" "unat vp + 4096 \<le> 0xFFFFF000" "0x800000 \<le> unat vp"
    and low: "low ph 32" "low data (unat len)" and seg: "seg_fits (memory s) len ph"
  shows "\<exists>m' d. load_page data ph (of_nat (4096 * p)) vp s = (s\<lparr>memory := m', derailed := d\<rparr>, True) \<and> only (memory s) m' {f} \<and>
    aspace (s\<lparr>memory := m', derailed := d\<rparr>) p T P \<and>
    (f < 2048 \<longrightarrow> insert p (ran T) \<subseteq> {..< 2048} \<longrightarrow> d = derailed s) \<and>
    (\<forall>v. user_byte m' P v = (if page_of v = page_of vp then Some (seg_byte (memory s) data ph v) else user_byte (memory s) P v))"
proof -
  have rep: "as_rep (memory s) (kframe s) p T P" and ok: "as_ok p T P" using as by (simp_all add: aspace_def)
  have fr: "f \<in> ran P" using f by (rule ranI)
  then have fb: "256 \<le> f" "f < 8192" "f \<noteq> p" "f \<notin> ran T" using ok by (auto simp: as_ok_def owned_def)
  have fsz: "unat (p_filesz (memory s) ph) \<le> unat (p_memsz (memory s) ph)" using seg by (simp add: seg_fits_def word_le_nat_alt)
  obtain m' d where m': "load_page data ph (of_nat (4096 * p)) vp s = (s\<lparr>memory := m', derailed := d\<rparr>, True)" "only (memory s) m' {f}"
    "\<forall>v. unat v div 4096 = unat vp div 4096 \<longrightarrow> m' (of_nat (4096 * f) + (v AND 0xFFF)) = seg_byte (memory s) data ph v"
    and d: "f < 2048 \<longrightarrow> touch_walk (of_nat (4096 * p)) vp s = s \<longrightarrow> d = derailed s"
  proof -
    have "unat (p_offset (memory s) ph) + unat (p_filesz (memory s) ph) \<le> unat len"
      "unat (p_vaddr (memory s) ph) + unat (p_filesz (memory s) ph) \<le> 0xFFFFF000" using seg fsz by (auto simp: seg_fits_def)
    then show thesis
      using that load_page_copy[OF fb(1,2) phys_of_virt_page[OF rep vp(3) f] vp(1,2) low] by blast
  qed
  have "user_byte m' P v = (if page_of v = page_of vp then Some (seg_byte (memory s) data ph v) else user_byte (memory s) P v)" for v
  proof (cases "page_of v = page_of vp")
    case True
    then have "m' (of_nat (4096 * f) + (v AND 0xFFF)) = seg_byte (memory s) data ph v"
      using m'(3) by (simp only: page_of_eq_iff)
    then show ?thesis using f True by (simp add: user_byte_def del: of_nat_mult)
  next
    case False
    have "user_byte m' P v = user_byte (memory s) P v"
    proof (rule user_byte_only[OF m'(2) ok])
      fix g assume "P (page_of v) = Some g"
      then show "g \<notin> {f}" using f False inj_onD[of P "dom P" "page_of v" "page_of vp"] ok
        by (auto simp: as_ok_def dom_def)
    qed
    then show ?thesis using False by simp
  qed
  moreover have "aspace (s\<lparr>memory := m', derailed := d\<rparr>) p T P" using fb by (intro aspace_only[OF as m'(2)]) simp
  ultimately show ?thesis using m'(1,2) d touch_walk_low[OF rep vp(3) f] by blast
qed

lemma load_pages_loop_spec:
  assumes "aspace s p T P" "set pgs \<subseteq> {..< N}"
    and "\<And>i. i < N \<Longrightarrow> \<exists>f \<in> X. P (page_of (ps + of_nat i * 4096)) = Some f"
    and ps: "4096 dvd unat ps" "unat ps + 4096 * N \<le> 0xFFFFF000" "0x800000 \<le> unat ps"
    and low: "low ph 32" "low data (unat len)" and "seg_fits (memory s) len ph" and X: "X \<inter> {..< 256} = {}"
  shows "\<exists>m' d. load_pages_loop data ph (of_nat (4096 * p)) ps pgs s = (s\<lparr>memory := m', derailed := d\<rparr>, True) \<and>
    only (memory s) m' X \<and> aspace (s\<lparr>memory := m', derailed := d\<rparr>) p T P \<and>
    ((\<forall>i < N. the (P (page_of (ps + of_nat i * 4096))) < 2048) \<longrightarrow> insert p (ran T) \<subseteq> {..< 2048} \<longrightarrow> d = derailed s) \<and>
    (\<forall>v. user_byte m' P v = (if \<exists>i \<in> set pgs. page_of v = page_of (ps + of_nat i * 4096)
       then Some (seg_byte (memory s) data ph v) else user_byte (memory s) P v))"
  using assms(1-3,9)
proof (induction pgs arbitrary: s)
  case Nil
  then show ?case by (intro exI[of _ "memory s"] exI[of _ "derailed s"]) simp
next
  case (Cons i pgs)
  let ?vp = "ps + of_nat i * 4096"
  have i: "i < N" using Cons.prems(2) by simp
  obtain f where f: "f \<in> X" "P (page_of ?vp) = Some f" using Cons.prems(3)[OF i] by blast
  have u: "unat ?vp = unat ps + 4096 * i" using unat_page_va[of ps N i] ps(2) i by (simp add: PAGE_SIZE_def)
  have vp: "4096 dvd unat ?vp" "unat ?vp + 4096 \<le> 0xFFFFF000" "0x800000 \<le> unat ?vp"
    using u ps i by (simp_all add: dvd_add)
  obtain m1 d1 where m1: "load_page data ph (of_nat (4096 * p)) ?vp s = (s\<lparr>memory := m1, derailed := d1\<rparr>, True)" "only (memory s) m1 {f}"
    "aspace (s\<lparr>memory := m1, derailed := d1\<rparr>) p T P"
    "\<forall>v. user_byte m1 P v = (if page_of v = page_of ?vp then Some (seg_byte (memory s) data ph v) else user_byte (memory s) P v)"
    and d1: "f < 2048 \<longrightarrow> insert p (ran T) \<subseteq> {..< 2048} \<longrightarrow> d1 = derailed s"
    using load_page_spec[OF Cons.prems(1) f(2) vp low Cons.prems(4)] by blast
  have o1: "only (memory s) m1 X" using m1(2) by (rule only_mono) (use f(1) in simp)
  have sf: "seg_fits m1 len ph" using Cons.prems(4) by (simp add: seg_fits_low[OF o1 X low(1)])
  note sb = seg_byte_low[OF o1 X low Cons.prems(4)]
  let ?s1 = "s\<lparr>memory := m1, derailed := d1\<rparr>"
  let ?lo = "\<forall>i < N. the (P (page_of (ps + of_nat i * 4096))) < 2048"
  have "\<exists>m' d. load_pages_loop data ph (of_nat (4096 * p)) ps pgs ?s1 = (?s1\<lparr>memory := m', derailed := d\<rparr>, True) \<and>
    only (memory ?s1) m' X \<and> aspace (?s1\<lparr>memory := m', derailed := d\<rparr>) p T P \<and>
    (?lo \<longrightarrow> insert p (ran T) \<subseteq> {..< 2048} \<longrightarrow> d = derailed ?s1) \<and>
    (\<forall>v. user_byte m' P v = (if \<exists>i \<in> set pgs. page_of v = page_of (ps + of_nat i * 4096)
       then Some (seg_byte (memory ?s1) data ph v) else user_byte (memory ?s1) P v))"
    by (rule Cons.IH[OF m1(3)]) (use Cons.prems(2,3) sf in simp_all)
  then obtain m' d where m0: "load_pages_loop data ph (of_nat (4096 * p)) ps pgs ?s1 = (?s1\<lparr>memory := m', derailed := d\<rparr>, True)"
    "only (memory ?s1) m' X" "aspace (?s1\<lparr>memory := m', derailed := d\<rparr>) p T P"
    "?lo \<longrightarrow> insert p (ran T) \<subseteq> {..< 2048} \<longrightarrow> d = derailed ?s1"
    "\<forall>v. user_byte m' P v = (if \<exists>i \<in> set pgs. page_of v = page_of (ps + of_nat i * 4096)
       then Some (seg_byte (memory ?s1) data ph v) else user_byte (memory ?s1) P v)"
    by blast
  have m': "load_pages_loop data ph (of_nat (4096 * p)) ps pgs ?s1 = (s\<lparr>memory := m', derailed := d\<rparr>, True)"
    "only m1 m' X" "aspace (s\<lparr>memory := m', derailed := d\<rparr>) p T P"
    "?lo \<longrightarrow> insert p (ran T) \<subseteq> {..< 2048} \<longrightarrow> d = d1"
    "\<forall>v. user_byte m' P v = (if \<exists>i \<in> set pgs. page_of v = page_of (ps + of_nat i * 4096)
       then Some (seg_byte m1 data ph v) else user_byte m1 P v)"
    using m0 by simp_all
  have "load_pages_loop data ph (of_nat (4096 * p)) ps (i # pgs) s = (s\<lparr>memory := m', derailed := d\<rparr>, True)"
    using m1(1) m'(1) by simp
  moreover have "only (memory s) m' X" using o1 m'(2) by (rule only_trans)
  moreover have "?lo \<longrightarrow> f < 2048" using f(2) i by (metis option.sel)
  ultimately show ?case using m'(3-5) m1(4) d1 by (intro exI[of _ m'] exI[of _ d]) (simp add: sb)
qed

definition loadable :: "mem \<Rightarrow> u32 \<Rightarrow> bool" where
  "loadable m ph \<longleftrightarrow> p_type m ph = ELF_PT_LOAD \<and> p_memsz m ph \<noteq> 0"

text \<open>The numbers of the pages a segment touches.\<close>

definition seg_pages :: "mem \<Rightarrow> u32 \<Rightarrow> nat set" where
  "seg_pages m ph = {unat (p_vaddr m ph) div 4096 ..< (unat (p_vaddr m ph) + unat (p_memsz m ph) + 4095) div 4096}"

lemma seg_range:
  fixes va msz :: u32
  assumes "unat va + unat msz \<le> 0xFFFFF000"
  defines "ps \<equiv> va AND NOT 0xFFF" and "n \<equiv> drop_bit 12 (((va + msz + 0xFFF) AND NOT 0xFFF) - (va AND NOT 0xFFF))"
  shows "unat ps = 4096 * (unat va div 4096)"
    "unat n = (unat va + unat msz + 4095) div 4096 - unat va div 4096"
    "unat ps + 4096 * unat n \<le> 0xFFFFF000"
proof -
  let ?e = "(unat va + unat msz + 4095) div 4096"
  show u: "unat ps = 4096 * (unat va div 4096)" unfolding ps_def mask12 by (simp add: unat_and_not_mask)
  have "unat (va + msz) = unat va + unat msz" using assms(1) by (intro unat_plus_u32) simp
  then have "unat (va + msz + 0xFFF) = unat va + unat msz + 4095" using assms(1) by (subst unat_plus_u32) simp_all
  then have ue: "unat ((va + msz + 0xFFF) AND NOT 0xFFF) = 4096 * ?e" unfolding mask12 by (simp add: unat_and_not_mask)
  have le: "unat va div 4096 \<le> ?e" by (intro div_le_mono) simp
  then have "ps \<le> (va + msz + 0xFFF) AND NOT 0xFFF" using u ue by (simp add: word_le_nat_alt)
  then have "unat (((va + msz + 0xFFF) AND NOT 0xFFF) - ps) = 4096 * ?e - 4096 * (unat va div 4096)"
    using u ue by (simp only: unat_sub)
  then show n: "unat n = ?e - unat va div 4096"
    unfolding n_def ps_def[symmetric] unat_drop_bit by (simp add: diff_mult_distrib2[symmetric])
  have "4096 * ?e \<le> 0xFFFFF000"
  proof -
    have "?e \<le> (0xFFFFF000 + 4095) div 4096" using assms(1) by (intro div_le_mono) simp
    then show ?thesis by simp
  qed
  then show "unat ps + 4096 * unat n \<le> 0xFFFFF000"
    unfolding u n add_mult_distrib2[symmetric] le_add_diff_inverse[OF le] .
qed

lemma page_number:
  assumes "4096 dvd unat ps" "unat ps + 4096 * N \<le> 4294967296" "i < N"
  shows "page_of v = page_of (ps + of_nat i * 4096) \<longleftrightarrow> unat v div 4096 = unat ps div 4096 + i"
  using unat_page_va[OF assms(2,3)] assms(1) by (auto simp: page_of_eq_iff PAGE_SIZE_def)

lemma load_segment_spec:
  assumes as: "aspace s p T P" and low: "low ph 32" "low data (unat len)"
    and seg: "loadable (memory s) ph" "seg_fits (memory s) len ph"
    and new: "\<And>v. unat v div 4096 \<in> seg_pages (memory s) ph \<Longrightarrow> P (page_of v) = None"
    and room: "2 * card (seg_pages (memory s) ph) \<le> card (free_set (frames s))"
    and run: "load_segment data len (of_nat (4096 * p)) ph s = (s', ok)"
  shows "ok \<and> (\<exists>T' P'. as_grow p s T P s' T' P' \<and>
    card (free_set (frames s)) \<le> card (free_set (frames s')) + 2 * card (seg_pages (memory s) ph) \<and>
    on_track (2 * card (seg_pages (memory s) ph)) p s T P s' T' P' \<and>
    (\<forall>v. unat v div 4096 \<notin> seg_pages (memory s) ph \<longrightarrow> P' (page_of v) = P (page_of v)) \<and>
    (\<forall>v. user_byte (memory s') P' v = (if unat v div 4096 \<in> seg_pages (memory s) ph
       then Some (seg_byte (memory s) data ph v) else user_byte (memory s) P v)))"
proof -
  let ?m = "memory s"
  define ps where "ps = p_vaddr ?m ph AND NOT 0xFFF"
  define n where "n = drop_bit 12 (((p_vaddr ?m ph + p_memsz ?m ph + 0xFFF) AND NOT 0xFFF) - ps)"
  note sf = seg(2)[unfolded seg_fits_def]
  have rng: "unat ps = 4096 * (unat (p_vaddr ?m ph) div 4096)"
    "unat n = (unat (p_vaddr ?m ph) + unat (p_memsz ?m ph) + 4095) div 4096 - unat (p_vaddr ?m ph) div 4096"
    "unat ps + 4096 * unat n \<le> 0xFFFFF000"
    using seg_range[of "p_vaddr ?m ph" "p_memsz ?m ph"] sf unfolding ps_def n_def by simp_all
  have dv: "4096 dvd unat ps" by (simp add: rng(1))
  have hi: "0x800000 \<le> unat ps" using sf div_le_mono[of "0x800000" "unat (p_vaddr ?m ph)" 4096] by (simp add: rng(1))
  have N: "unat ps + 4096 * unat n \<le> 4294967296" using rng(3) by simp
  have pg: "seg_pages ?m ph = (\<lambda>i. unat ps div 4096 + i) ` {0 ..< unat n}" "card (seg_pages ?m ph) = unat n"
    unfolding seg_pages_def rng(1,2) by (simp_all add: image_add_atLeastLessThan)
  have in_pages: "unat v div 4096 \<in> seg_pages ?m ph \<longleftrightarrow> (\<exists>i \<in> {0 ..< unat n}. page_of v = page_of (ps + of_nat i * 4096))" for v
    unfolding pg(1) image_iff by (intro bex_cong) (simp_all add: page_number[OF dv N])
  have newi: "P (page_of (ps + of_nat i * PAGE_SIZE)) = None" if "i \<in> set [0 ..< unat n]" for i
    using that by (intro new) (auto simp: in_pages PAGE_SIZE_def)
  obtain s1 r where al: "paging_alloc_user_pages (of_nat (4096 * p)) ps n s = (s1, r)" by fastforce
  obtain T' P' where g: "as_grow p s T P s1 T' P'" and r: "2 * unat n \<le> card (free_set (frames s)) \<longrightarrow> r = 0"
    and cf: "card (free_set (frames s)) \<le> card (free_set (frames s1)) + 2 * unat n"
    and k: "\<forall>x. x \<notin> (\<lambda>i. page_of (ps + of_nat i * PAGE_SIZE)) ` {0 ..< unat n} \<longrightarrow> P' x = P x"
    and h: "r = 0 \<longrightarrow> (\<forall>i \<in> {0 ..< unat n}. \<exists>f \<in> free_set (frames s). P' (page_of (ps + of_nat i * PAGE_SIZE)) = Some f)"
    and tr: "on_track (2 * unat n) p s T P s1 T' P'"
    using alloc_user_pages_loop_spec[OF as al[unfolded paging_alloc_user_pages_def] _ newi distinct_pages[OF N]]
      unat_page_va[OF N] hi by auto
  have r0: "r = 0" using r room pg(2) by simp
  have as1: "aspace s1 p T' P'" using g by (simp add: as_grow_def)
  have W: "(insert p (ran T) \<union> free_set (frames s)) \<inter> {..< 256} = {}" "free_set (frames s) \<inter> {..< 256} = {}"
    using aspace_bounds(1)[OF as] by (auto simp: owned_def)
  have o1: "only ?m (memory s1) (insert p (ran T) \<union> free_set (frames s))" using g by (simp add: as_grow_def)
  have sf1: "seg_fits (memory s1) len ph" using seg(2) by (simp add: seg_fits_low[OF o1 W(1) low(1)])
  have fs: "\<exists>f \<in> free_set (frames s). P' (page_of (ps + of_nat i * 4096)) = Some f" if "i < unat n" for i
    using h r0 that by (simp add: PAGE_SIZE_def)
  obtain m' d where m': "load_pages_loop data ph (of_nat (4096 * p)) ps [0 ..< unat n] s1 = (s1\<lparr>memory := m', derailed := d\<rparr>, True)"
    "only (memory s1) m' (free_set (frames s))" "aspace (s1\<lparr>memory := m', derailed := d\<rparr>) p T' P'"
    "(\<forall>i < unat n. the (P' (page_of (ps + of_nat i * 4096))) < 2048) \<longrightarrow> insert p (ran T') \<subseteq> {..< 2048} \<longrightarrow> d = derailed s1"
    "\<forall>v. user_byte m' P' v = (if \<exists>i \<in> {0 ..< unat n}. page_of v = page_of (ps + of_nat i * 4096)
       then Some (seg_byte (memory s1) data ph v) else user_byte (memory s1) P' v)"
  proof -
    have "set [0 ..< unat n] \<subseteq> {..< unat n}" by auto
    then show thesis using that load_pages_loop_spec[OF as1 _ fs dv rng(3) hi low sf1 W(2), of "[0 ..< unat n]"]
      by (simp only: set_upt) blast
  qed
  have "unat (p_offset ?m ph + p_filesz ?m ph) = unat (p_offset ?m ph) + unat (p_filesz ?m ph)"
    using sf unat_u32[of len] by (intro unat_plus_u32) simp
  then have fits: "\<not> p_offset ?m ph + p_filesz ?m ph > len" using sf by (simp add: word_less_nat_alt)
  have "touch ph 24 s = s" using low(1) by (intro touch_low) (simp add: low_def)
  then have "load_segment data len (of_nat (4096 * p)) ph s = (s1\<lparr>memory := m', derailed := d\<rparr>, True)"
    using seg(1) fits al r0 m'(1) unfolding load_segment_def Let_def ps_def[symmetric] n_def[symmetric] loadable_def
    by (simp del: of_nat_mult)
  then have s': "s' = s1\<lparr>memory := m', derailed := d\<rparr>" "ok" using run by simp_all
  have otr: "on_track (2 * unat n) p s T P s' T' P'"
  proof -
    have "the (P' (page_of (ps + of_nat i * 4096))) < 2048" if "i < unat n" "ran P' \<subseteq> ran P \<union> {..< 2048}" for i
    proof -
      obtain f where f: "f \<in> free_set (frames s)" "P' (page_of (ps + of_nat i * 4096)) = Some f" using fs[OF \<open>i < unat n\<close>] by blast
      have "f \<in> ran P'" using f(2) by (rule ranI)
      moreover have "f \<notin> ran P" using f(1) as by (auto simp: aspace_def owned_def)
      ultimately show ?thesis using f(2) that(2) by auto
    qed
    then show ?thesis using tr m'(4) by (auto simp: on_track_def lowfree_def s'(1))
  qed
  have "only ?m m' (insert p (ran T) \<union> free_set (frames s))"
    by (rule only_trans[OF o1 only_mono[OF m'(2)]]) auto
  then have "as_grow p s T P s' T' P'" using g m'(3) by (simp add: as_grow_def s')
  moreover have "P' (page_of v) = P (page_of v)" if "unat v div 4096 \<notin> seg_pages ?m ph" for v
    using k[rule_format, of "page_of v"] that unfolding in_pages by (auto simp: PAGE_SIZE_def)
  moreover have "user_byte (memory s1) P' v = user_byte ?m P v" if v: "unat v div 4096 \<notin> seg_pages ?m ph" for v
  proof -
    have P': "P' (page_of v) = P (page_of v)" using k[rule_format, of "page_of v"] v unfolding in_pages by (auto simp: PAGE_SIZE_def)
    have "user_byte (memory s1) P v = user_byte ?m P v"
    proof (rule user_byte_only[OF o1])
      show "as_ok p T P" using as by (simp add: aspace_def)
      fix f assume "P (page_of v) = Some f"
      then have "f \<in> ran P" by (rule ranI)
      then show "f \<notin> insert p (ran T) \<union> free_set (frames s)" using as by (auto simp: aspace_def as_ok_def owned_def)
    qed
    then show ?thesis by (simp add: user_byte_def P')
  qed
  moreover have "seg_byte (memory s1) data ph v = seg_byte ?m data ph v" for v
    by (rule seg_byte_low[OF o1 W(1) low seg(2)])
  ultimately show ?thesis
    using s'(2) cf m'(5) otr unfolding in_pages[symmetric] pg(2) by (intro conjI exI[of _ T'] exI[of _ P']) (simp_all add: s'(1))
qed

section \<open>The whole image\<close>

text \<open>
  An image that can be loaded: it passes the loader's checks, its program headers lie inside it, its loadable segments
  fit and share no page.
\<close>

definition hdr :: "mem \<Rightarrow> u32 \<Rightarrow> nat \<Rightarrow> u32" where
  "hdr m data i = phdr m data (of_nat i)"

definition nhdr :: "mem \<Rightarrow> u32 \<Rightarrow> nat" where
  "nhdr m data = unat (e_phnum m data)"

definition image_ok :: "mem \<Rightarrow> u32 \<Rightarrow> u32 \<Rightarrow> bool" where
  "image_ok m data len \<longleftrightarrow> low data (unat len) \<and> elf_valid m data len \<and>
     (\<forall>i < nhdr m data. unat (e_phoff m data) + i * unat (e_phentsize m data) + 32 \<le> unat len) \<and>
     (\<forall>i < nhdr m data. loadable m (hdr m data i) \<longrightarrow> seg_fits m len (hdr m data i)) \<and>
     (\<forall>i < nhdr m data. \<forall>j < nhdr m data. i \<noteq> j \<longrightarrow> loadable m (hdr m data i) \<longrightarrow> loadable m (hdr m data j) \<longrightarrow>
        seg_pages m (hdr m data i) \<inter> seg_pages m (hdr m data j) = {})"

text \<open>The pages of all loadable segments from header \<open>i\<close> on.\<close>

definition pages_needed :: "mem \<Rightarrow> u32 \<Rightarrow> nat \<Rightarrow> nat" where
  "pages_needed m data i = (\<Sum>j \<in> {i ..< nhdr m data}. if loadable m (hdr m data j) then card (seg_pages m (hdr m data j)) else 0)"

lemma nhdr_less: "nhdr m data < 65536"
proof -
  have "unat (e_phnum m data) < 2 ^ LENGTH(16)" by (rule unsigned_less)
  then show ?thesis by (simp add: nhdr_def)
qed

lemma unat_of_nat_u16: "i < 65536 \<Longrightarrow> unat (of_nat i :: u16) = i"
  by (simp add: unat_of_nat take_bit_eq_mod)

lemma hdr_low:
  assumes "image_ok m data len" "i < nhdr m data"
  shows "low (hdr m data i) 32" "low data 52"
proof -
  have in_img: "unat (e_phoff m data) + i * unat (e_phentsize m data) + 32 \<le> unat len" and low: "low data (unat len)"
    using assms by (auto simp: image_ok_def)
  show "low data 52" using assms(1) by (simp add: image_ok_def elf_valid_def low_def word_less_nat_alt)
  have u: "unat (ucast (of_nat i :: u16) :: u32) = i" "unat (ucast (e_phentsize m data) :: u32) = unat (e_phentsize m data)"
    using unat_of_nat_u16[of i] assms(2) nhdr_less[of m data]
    by (simp_all add: unsigned_ucast_eq take_bit_nat_eq_self_iff unsigned_less less_trans[OF unsigned_less])
  have small: "i * unat (e_phentsize m data) < 4294967296" using in_img unat_u32[of len] by linarith
  have "unat (ucast (of_nat i :: u16) * ucast (e_phentsize m data) :: u32) = i * unat (e_phentsize m data)"
    using small by (simp add: unat_word_ariths u)
  moreover have "unat (data + e_phoff m data) = unat data + unat (e_phoff m data)"
    using in_img low by (intro unat_plus_u32) (simp add: low_def)
  ultimately have "unat (hdr m data i) = unat data + unat (e_phoff m data) + i * unat (e_phentsize m data)"
    unfolding hdr_def phdr_def using in_img low by (subst unat_plus_u32) (simp_all add: low_def)
  then show "low (hdr m data i) 32" using in_img low by (simp add: low_def)
qed

lemma load_user_loop_spec:
  assumes img: "image_ok m data len" and "aspace s p T P" "only m (memory s) W" and W: "W \<inter> {..< 256} = {}"
    and "i \<le> nhdr m data"
    and "\<And>j v. i \<le> j \<Longrightarrow> j < nhdr m data \<Longrightarrow> loadable m (hdr m data j) \<Longrightarrow> unat v div 4096 \<in> seg_pages m (hdr m data j) \<Longrightarrow>
      P (page_of v) = None"
    and "2 * pages_needed m data i \<le> card (free_set (frames s))"
    and "owned p T P \<union> free_set (frames s) \<subseteq> W"
  shows "\<exists>s' T' P'. load_user_loop data len (of_nat (4096 * p)) (of_nat i) s = (s', True) \<and> as_grow p s T P s' T' P' \<and>
    card (free_set (frames s)) \<le> card (free_set (frames s')) + 2 * pages_needed m data i \<and>
    on_track (2 * pages_needed m data i) p s T P s' T' P' \<and>
    (\<forall>j v. i \<le> j \<longrightarrow> j < nhdr m data \<longrightarrow> loadable m (hdr m data j) \<longrightarrow> unat v div 4096 \<in> seg_pages m (hdr m data j) \<longrightarrow>
      user_byte (memory s') P' v = Some (seg_byte m data (hdr m data j) v)) \<and>
    (\<forall>v. (\<forall>j. i \<le> j \<longrightarrow> j < nhdr m data \<longrightarrow> loadable m (hdr m data j) \<longrightarrow> unat v div 4096 \<notin> seg_pages m (hdr m data j)) \<longrightarrow>
      P' (page_of v) = P (page_of v) \<and> user_byte (memory s') P' v = user_byte (memory s) P v)"
  using assms(2,3,5-8)
proof (induction "nhdr m data - i" arbitrary: i s T P)
  case 0
  then have "i = nhdr m data" by simp
  moreover have "e_phnum (memory s) data = e_phnum m data"
  proof -
    have "low data 52" using img by (simp add: image_ok_def elf_valid_def low_def word_less_nat_alt)
    then show ?thesis by (rule ehdr_low(2)[OF "0.prems"(2) W])
  qed
  ultimately have "load_user_loop data len (of_nat (4096 * p)) (of_nat i) s = (s, True)"
    using unat_of_nat_u16[OF nhdr_less[of m data]]
    by (subst load_user_loop.simps) (simp add: word_less_nat_alt nhdr_def)
  then show ?case using as_grow_refl[OF "0.prems"(1)] \<open>i = nhdr m data\<close> by (intro exI[of _ s] exI[of _ T] exI[of _ P]) (auto simp: on_track_refl)
next
  case (Suc k)
  have i: "i < nhdr m data" using Suc.hyps(2) by simp
  let ?ph = "hdr m data i"
  note hl = hdr_low[OF img i]
  note oW = Suc.prems(2)
  have eh: "e_phnum (memory s) data = e_phnum m data" "phdr (memory s) data (of_nat i) = ?ph"
    using ehdr_low[OF oW W hl(2)] by (simp_all add: hdr_def)
  have lt: "(of_nat i :: u16) < e_phnum m data"
    using i unat_of_nat_u16[of i] nhdr_less[of m data] by (simp add: word_less_nat_alt nhdr_def)
  obtain s1 ok where seg: "load_segment data len (of_nat (4096 * p)) ?ph s = (s1, ok)" by fastforce
  have step: "load_user_loop data len (of_nat (4096 * p)) (of_nat i) s =
      (if ok then load_user_loop data len (of_nat (4096 * p)) (of_nat (Suc i)) s1 else (s1, False))"
    using lt by (subst load_user_loop.simps) (simp add: eh seg add.commute del: of_nat_mult)
  have fld: "loadable (memory s) ?ph = loadable m ?ph" "seg_pages (memory s) ?ph = seg_pages m ?ph"
    using phdr_low[OF oW W hl(1)] by (simp_all add: loadable_def seg_pages_def)
  define c where "c = (if loadable m ?ph then card (seg_pages m ?ph) else 0)"
  have need: "pages_needed m data i = c + pages_needed m data (Suc i)"
    using i by (simp add: pages_needed_def c_def sum.atLeast_Suc_lessThan)
  have "ok \<and> (\<exists>T1 P1. as_grow p s T P s1 T1 P1 \<and> card (free_set (frames s)) \<le> card (free_set (frames s1)) + 2 * c \<and>
    on_track (2 * c) p s T P s1 T1 P1 \<and>
    (\<forall>v. \<not> (loadable m ?ph \<and> unat v div 4096 \<in> seg_pages m ?ph) \<longrightarrow> P1 (page_of v) = P (page_of v)) \<and>
    (\<forall>v. user_byte (memory s1) P1 v = (if loadable m ?ph \<and> unat v div 4096 \<in> seg_pages m ?ph
       then Some (seg_byte m data ?ph v) else user_byte (memory s) P v)))"
  proof (cases "loadable m ?ph")
    case True
    then have sf: "seg_fits m len ?ph" using img i by (simp add: image_ok_def)
    then have sf': "seg_fits (memory s) len ?ph" by (simp add: seg_fits_low[OF oW W hl(1)])
    have ld: "low data (unat len)" using img by (simp add: image_ok_def)
    have sb: "seg_byte (memory s) data ?ph = seg_byte m data ?ph"
      by (rule ext) (rule seg_byte_low[OF oW W hl(1) ld sf])
    have nw: "P (page_of v) = None" if "unat v div 4096 \<in> seg_pages (memory s) ?ph" for v
      using Suc.prems(4)[of i v] i True that by (simp add: fld)
    have rm: "2 * card (seg_pages (memory s) ?ph) \<le> card (free_set (frames s))"
      using Suc.prems(5) need True by (simp add: fld c_def)
    have lo: "loadable (memory s) ?ph" using True by (simp add: fld)
    show ?thesis
      using load_segment_spec[OF Suc.prems(1) hl(1) ld lo sf' nw rm seg] unfolding fld sb c_def
      by (simp only: True if_True simp_thms)
  next
    case False
    moreover have "touch ph n s = s" if "n \<le> 32" "ph = ?ph" for n ph
      using hl(1) that by (intro touch_low) (simp add: low_def)
    ultimately have "s1 = s" "ok" using seg fld(1) by (auto simp: load_segment_def Let_def loadable_def split: if_splits)
    then show ?thesis using False as_grow_refl[OF Suc.prems(1)] on_track_refl[of 0 p s T P] unfolding c_def by auto
  qed
  then obtain T1 P1 where ok and g: "as_grow p s T P s1 T1 P1"
    and cf: "card (free_set (frames s)) \<le> card (free_set (frames s1)) + 2 * c"
    and tr: "on_track (2 * c) p s T P s1 T1 P1"
    and P1: "\<And>v. \<not> (loadable m ?ph \<and> unat v div 4096 \<in> seg_pages m ?ph) \<Longrightarrow> P1 (page_of v) = P (page_of v)"
    and ub: "\<And>v. user_byte (memory s1) P1 v = (if loadable m ?ph \<and> unat v div 4096 \<in> seg_pages m ?ph
       then Some (seg_byte m data ?ph v) else user_byte (memory s) P v)" by blast
  have disj: "seg_pages m ?ph \<inter> seg_pages m (hdr m data j) = {}"
    if "loadable m ?ph" "loadable m (hdr m data j)" "Suc i \<le> j" "j < nhdr m data" for j
    using img i that by (simp add: image_ok_def)
  have "\<exists>s' T' P'. load_user_loop data len (of_nat (4096 * p)) (of_nat (Suc i)) s1 = (s', True) \<and> as_grow p s1 T1 P1 s' T' P' \<and>
    card (free_set (frames s1)) \<le> card (free_set (frames s')) + 2 * pages_needed m data (Suc i) \<and>
    on_track (2 * pages_needed m data (Suc i)) p s1 T1 P1 s' T' P' \<and>
    (\<forall>j v. Suc i \<le> j \<longrightarrow> j < nhdr m data \<longrightarrow> loadable m (hdr m data j) \<longrightarrow> unat v div 4096 \<in> seg_pages m (hdr m data j) \<longrightarrow>
      user_byte (memory s') P' v = Some (seg_byte m data (hdr m data j) v)) \<and>
    (\<forall>v. (\<forall>j. Suc i \<le> j \<longrightarrow> j < nhdr m data \<longrightarrow> loadable m (hdr m data j) \<longrightarrow> unat v div 4096 \<notin> seg_pages m (hdr m data j)) \<longrightarrow>
      P' (page_of v) = P1 (page_of v) \<and> user_byte (memory s') P' v = user_byte (memory s1) P1 v)"
  proof (rule Suc.hyps(1))
    show "k = nhdr m data - Suc i" "Suc i \<le> nhdr m data" using Suc.hyps(2) i by simp_all
    show "aspace s1 p T1 P1" using g by (simp add: as_grow_def)
    show "only m (memory s1) W" by (rule only_trans[OF oW only_mono[OF as_grow_only[OF g] Suc.prems(6)]])
    show "owned p T1 P1 \<union> free_set (frames s1) \<subseteq> W" using g Suc.prems(6) by (simp add: as_grow_def)
    show "2 * pages_needed m data (Suc i) \<le> card (free_set (frames s1))" using need Suc.prems(5) cf by simp
    show "P1 (page_of v) = None" if "Suc i \<le> j" "j < nhdr m data" "loadable m (hdr m data j)"
      "unat v div 4096 \<in> seg_pages m (hdr m data j)" for j v
    proof -
      have "\<not> (loadable m ?ph \<and> unat v div 4096 \<in> seg_pages m ?ph)" using that disj[of j] by auto
      then show ?thesis using that Suc.prems(4)[of j v] by (simp add: P1)
    qed
  qed
  then obtain s' T' P' where r: "load_user_loop data len (of_nat (4096 * p)) (of_nat (Suc i)) s1 = (s', True)"
    and g': "as_grow p s1 T1 P1 s' T' P'"
    and cf': "card (free_set (frames s1)) \<le> card (free_set (frames s')) + 2 * pages_needed m data (Suc i)"
    and tr': "on_track (2 * pages_needed m data (Suc i)) p s1 T1 P1 s' T' P'"
    and b1: "\<And>j v. Suc i \<le> j \<Longrightarrow> j < nhdr m data \<Longrightarrow> loadable m (hdr m data j) \<Longrightarrow> unat v div 4096 \<in> seg_pages m (hdr m data j) \<Longrightarrow>
      user_byte (memory s') P' v = Some (seg_byte m data (hdr m data j) v)"
    and b2: "\<And>v. (\<forall>j. Suc i \<le> j \<longrightarrow> j < nhdr m data \<longrightarrow> loadable m (hdr m data j) \<longrightarrow> unat v div 4096 \<notin> seg_pages m (hdr m data j)) \<Longrightarrow>
      P' (page_of v) = P1 (page_of v) \<and> user_byte (memory s') P' v = user_byte (memory s1) P1 v" by blast
  have "user_byte (memory s') P' v = Some (seg_byte m data (hdr m data j) v)"
    if "i \<le> j" "j < nhdr m data" "loadable m (hdr m data j)" "unat v div 4096 \<in> seg_pages m (hdr m data j)" for j v
  proof (cases "j = i")
    case True
    then have "\<forall>j. Suc i \<le> j \<longrightarrow> j < nhdr m data \<longrightarrow> loadable m (hdr m data j) \<longrightarrow> unat v div 4096 \<notin> seg_pages m (hdr m data j)"
      using disj that by blast
    then show ?thesis using b2[of v] ub[of v] that True by simp
  qed (use b1 that in simp)
  moreover have "P' (page_of v) = P (page_of v) \<and> user_byte (memory s') P' v = user_byte (memory s) P v"
    if "\<forall>j. i \<le> j \<longrightarrow> j < nhdr m data \<longrightarrow> loadable m (hdr m data j) \<longrightarrow> unat v div 4096 \<notin> seg_pages m (hdr m data j)" for v
    using b2[of v] ub[of v] P1[of v] that i by (auto simp: Suc_le_eq)
  moreover have "card (free_set (frames s)) \<le> card (free_set (frames s')) + 2 * pages_needed m data i" using cf cf' need by simp
  moreover have "on_track (2 * pages_needed m data i) p s T P s' T' P'" using on_track_trans[OF tr tr'] need by simp
  moreover have "load_user_loop data len (of_nat (4096 * p)) (of_nat i) s = (s', True)" using step r \<open>ok\<close> by simp
  ultimately show ?case using as_grow_trans[OF g g'] by blast
qed

lemma seg_page_in:
  assumes "seg_fits m len ph" "k < unat (p_memsz m ph)"
  shows "unat (p_vaddr m ph + of_nat k) = unat (p_vaddr m ph) + k"
    "unat (p_vaddr m ph + of_nat k) div 4096 \<in> seg_pages m ph"
proof -
  show u: "unat (p_vaddr m ph + of_nat k) = unat (p_vaddr m ph) + k"
    using assms unat_of_nat_u32[of k] unat_u32[of "p_memsz m ph"] by (subst unat_plus_u32) (simp_all add: seg_fits_def)
  have "(unat (p_vaddr m ph) + k) div 4096 < (unat (p_vaddr m ph) + unat (p_memsz m ph) + 4095) div 4096"
    using assms(2) by (simp add: less_eq_div_iff_mult_less_eq Suc_le_eq[symmetric])
  then show "unat (p_vaddr m ph + of_nat k) div 4096 \<in> seg_pages m ph"
    unfolding seg_pages_def u by (simp add: div_le_mono)
qed

lemma seg_byte_at:
  assumes "seg_fits m len ph" "k < unat (p_memsz m ph)"
  shows "seg_byte m data ph (p_vaddr m ph + of_nat k) =
    (if k < unat (p_filesz m ph) then m (data + p_offset m ph + of_nat k) else 0)"
  unfolding seg_byte_def seg_page_in(1)[OF assms] by simp

lemma seg_high:
  assumes "seg_fits m len ph" "unat va div 4096 \<in> seg_pages m ph"
  shows "0x800000 \<le> unat va"
proof -
  have "0x800000 div 4096 \<le> unat (p_vaddr m ph) div 4096" using assms(1) by (intro div_le_mono) (simp add: seg_fits_def)
  then have "2048 \<le> unat va div 4096" using assms(2) by (simp add: seg_pages_def)
  then show ?thesis by (simp add: less_eq_div_iff_mult_less_eq)
qed

text \<open>The loader on a well-formed image, in terms of the address space it builds.\<close>

lemma elf_load_user_spec:
  assumes img: "image_ok m data len" and as: "aspace s p T P" and oW: "only m (memory s) W" and W: "W \<inter> {..< 256} = {}"
    and WW: "owned p T P \<union> free_set (frames s) \<subseteq> W"
    and new: "\<forall>j v. j < nhdr m data \<longrightarrow> loadable m (hdr m data j) \<longrightarrow> unat v div 4096 \<in> seg_pages m (hdr m data j) \<longrightarrow>
      P (page_of v) = None"
    and room: "2 * pages_needed m data 0 \<le> card (free_set (frames s))"
    and run: "elf_load_user data len (of_nat (4096 * p)) s = (s', entry)"
  shows "entry = e_entry m data \<and> (\<exists>T' P'. as_grow p s T P s' T' P' \<and>
    card (free_set (frames s)) \<le> card (free_set (frames s')) + 2 * pages_needed m data 0 \<and>
    on_track (2 * pages_needed m data 0) p s T P s' T' P' \<and>
    (\<forall>j v. j < nhdr m data \<longrightarrow> loadable m (hdr m data j) \<longrightarrow> unat v div 4096 \<in> seg_pages m (hdr m data j) \<longrightarrow>
      user_byte (memory s') P' v = Some (seg_byte m data (hdr m data j) v)) \<and>
    (\<forall>v. (\<forall>j < nhdr m data. loadable m (hdr m data j) \<longrightarrow> unat v div 4096 \<notin> seg_pages m (hdr m data j)) \<longrightarrow>
      P' (page_of v) = P (page_of v) \<and> user_byte (memory s') P' v = user_byte (memory s) P v))"
proof -
  from load_user_loop_spec[OF img as oW W le0 _ room WW] new
  obtain s1 T' P' where r: "load_user_loop data len (of_nat (4096 * p)) 0 s = (s1, True)" and g: "as_grow p s T P s1 T' P'"
    and rest: "card (free_set (frames s)) \<le> card (free_set (frames s1)) + 2 * pages_needed m data 0 \<and>
    on_track (2 * pages_needed m data 0) p s T P s1 T' P' \<and>
    (\<forall>j v. j < nhdr m data \<longrightarrow> loadable m (hdr m data j) \<longrightarrow> unat v div 4096 \<in> seg_pages m (hdr m data j) \<longrightarrow>
      user_byte (memory s1) P' v = Some (seg_byte m data (hdr m data j) v)) \<and>
    (\<forall>v. (\<forall>j < nhdr m data. loadable m (hdr m data j) \<longrightarrow> unat v div 4096 \<notin> seg_pages m (hdr m data j)) \<longrightarrow>
      P' (page_of v) = P (page_of v) \<and> user_byte (memory s1) P' v = user_byte (memory s) P v)"
    by (auto simp del: of_nat_mult)
  have p: "256 \<le> p" "p < 8192" using as by (auto simp: aspace_def as_ok_def owned_def)
  have nz: "(of_nat (4096 * p) :: u32) \<noteq> 0"
    using unat_frame_addr[OF p(2)] p(1) by (metis mult_eq_0_iff not_numeral_le_zero unat_0 zero_neq_numeral)
  have l52: "low data 52" and valid: "elf_valid m data len"
    using img by (auto simp: image_ok_def elf_valid_def low_def word_less_nat_alt)
  have "elf_valid (memory s) data len" using valid by (simp add: elf_valid_low[OF oW W l52])
  moreover have "only m (memory s1) W" using only_trans[OF oW only_mono[OF as_grow_only[OF g] WW]] .
  ultimately have "s' = s1" "entry = e_entry m data"
    using run r nz ehdr_low(1)[of m "memory s1" W, OF _ W l52] by (simp_all add: elf_load_user_def del: of_nat_mult)
  then show ?thesis using g rest by blast
qed

text \<open>
  C31. \<^verbatim>\<open>elf_load_user\<close> builds exactly the address space the image describes: for an image whose headers and contents lie
  inside the buffer and whose segments fit above 8 MB without sharing pages, none of them mapped before, and with two free frames
  per page: no access faults if so many are free below 8 MB and the directory and its tables lie there; and unless one faults, the
  entry point is returned, every address of every page of every segment is mapped for ring 3 and reads the byte the file has there
  and zero before and behind the file's part, every other address is translated as before, physical memory outside
  the tables and the frames that were free (the image included) is unchanged, no frame is lost, and every other address space is as it was.
\<close>

theorem elf_load_user_correct:
  assumes img: "image_ok (memory s) data len" and as: "aspace s p T P"
    and new: "\<forall>i < nhdr (memory s) data. \<forall>va. loadable (memory s) (hdr (memory s) data i) \<longrightarrow>
      unat va div 4096 \<in> seg_pages (memory s) (hdr (memory s) data i) \<longrightarrow> translate (memory s) (of_nat (4096 * p)) va = None"
    and room: "2 * pages_needed (memory s) data 0 \<le> card (free_set (frames s))"
    and run: "elf_load_user data len (of_nat (4096 * p)) s = (s', entry)"
  shows "(2 * pages_needed (memory s) data 0 \<le> lowfree s \<and> insert p (ran T) \<subseteq> {..< 2048} \<and> \<not> derailed s \<longrightarrow> \<not> derailed s') \<and>
    (\<not> derailed s' \<longrightarrow> entry = e_entry (memory s) data \<and>
      (\<forall>i va. i < nhdr (memory s) data \<longrightarrow> loadable (memory s) (hdr (memory s) data i) \<longrightarrow>
         unat va div 4096 \<in> seg_pages (memory s) (hdr (memory s) data i) \<longrightarrow>
         (\<exists>pa. translate (memory s') (of_nat (4096 * p)) va = Some (pa, True) \<and>
           memory s' pa = seg_byte (memory s) data (hdr (memory s) data i) va)) \<and>
      (\<forall>va. (\<forall>i < nhdr (memory s) data. loadable (memory s) (hdr (memory s) data i) \<longrightarrow>
           unat va div 4096 \<notin> seg_pages (memory s) (hdr (memory s) data i)) \<longrightarrow>
         translate (memory s') (of_nat (4096 * p)) va = translate (memory s) (of_nat (4096 * p)) va) \<and>
      (\<forall>x. unat x div 4096 \<notin> insert p (ran T) \<union> free_set (frames s) \<longrightarrow> memory s' x = memory s x) \<and>
      (\<forall>k < unat len. memory s' (data + of_nat k) = memory s (data + of_nat k)) \<and>
      (\<forall>q U Q. aspace s q U Q \<longrightarrow> owned p T P \<inter> owned q U Q = {} \<longrightarrow> aspace s' q U Q \<and>
         (\<forall>va. translate (memory s') (of_nat (4096 * q)) va = translate (memory s) (of_nat (4096 * q)) va)) \<and>
      (\<exists>T' P'. aspace s' p T' P' \<and>
        owned p T' P' \<union> free_set (frames s') = owned p T P \<union> free_set (frames s)))"
proof -
  let ?m = "memory s"
  have rep: "as_rep ?m (kframe s) p T P" using as by (simp add: aspace_def)
  have sf: "seg_fits ?m len (hdr ?m data i)" if "i < nhdr ?m data" "loadable ?m (hdr ?m data i)" for i
    using img that by (simp add: image_ok_def)
  have "P (page_of v) = None" if "j < nhdr ?m data" "loadable ?m (hdr ?m data j)"
    "unat v div 4096 \<in> seg_pages ?m (hdr ?m data j)" for j v
    using new that seg_high[OF sf[OF that(1,2)] that(3)] translate_page[OF rep, of v] by (auto split: option.splits)
  then have unmapped: "\<forall>j v. j < nhdr ?m data \<longrightarrow> loadable ?m (hdr ?m data j) \<longrightarrow> unat v div 4096 \<in> seg_pages ?m (hdr ?m data j) \<longrightarrow>
      P (page_of v) = None" by blast
  obtain T' P' where e: "entry = e_entry ?m data" and g: "as_grow p s T P s' T' P'"
    and tr: "on_track (2 * pages_needed ?m data 0) p s T P s' T' P'"
    and b: "\<And>j v. j < nhdr ?m data \<Longrightarrow> loadable ?m (hdr ?m data j) \<Longrightarrow> unat v div 4096 \<in> seg_pages ?m (hdr ?m data j) \<Longrightarrow>
      user_byte (memory s') P' v = Some (seg_byte ?m data (hdr ?m data j) v)"
    and out: "\<And>v. \<forall>j < nhdr ?m data. loadable ?m (hdr ?m data j) \<longrightarrow> unat v div 4096 \<notin> seg_pages ?m (hdr ?m data j) \<Longrightarrow>
      P' (page_of v) = P (page_of v)"
    using elf_load_user_spec[OF img as only_refl aspace_bounds(1)[OF as] order_refl unmapped room run] by blast
  have as': "aspace s' p T' P'" using g by (simp add: as_grow_def)
  then have rep': "as_rep (memory s') (kframe s') p T' P'" by (simp add: aspace_def)
  have "\<exists>pa. translate (memory s') (of_nat (4096 * p)) va = Some (pa, True) \<and> memory s' pa = seg_byte ?m data (hdr ?m data i) va"
    if i: "i < nhdr ?m data" "loadable ?m (hdr ?m data i)" "unat va div 4096 \<in> seg_pages ?m (hdr ?m data i)" for i va
    using b[OF i] unfolding translate_page[OF rep' seg_high[OF sf[OF i(1,2)] i(3)]] user_byte_def
    by (auto simp del: of_nat_mult)
  moreover have "translate (memory s') (of_nat (4096 * p)) va = translate ?m (of_nat (4096 * p)) va"
    if "\<forall>i < nhdr ?m data. loadable ?m (hdr ?m data i) \<longrightarrow> unat va div 4096 \<notin> seg_pages ?m (hdr ?m data i)" for va
    using out[OF that] translate_page[OF rep, of va] translate_page[OF rep', of va] as_grow_kernel_half[OF as g, of va]
    by (cases "0x800000 \<le> unat va") (simp_all del: of_nat_mult)
  moreover have "memory s' (data + of_nat k) = ?m (data + of_nat k)" if "k < unat len" for k
    using only_low[OF as_grow_only[OF g] aspace_bounds(1)[OF as] _ that] img by (simp add: image_ok_def)
  moreover have "\<not> derailed s'" if "2 * pages_needed ?m data 0 \<le> lowfree s" "insert p (ran T) \<subseteq> {..< 2048}" "\<not> derailed s"
    using tr that by (simp add: on_track_def)
  moreover have "\<forall>x. unat x div 4096 \<notin> insert p (ran T) \<union> free_set (frames s) \<longrightarrow> memory s' x = ?m x"
    using g unfolding as_grow_def only_def by blast
  moreover have "aspace s' q U Q \<and> (\<forall>va. translate (memory s') (of_nat (4096 * q)) va = translate ?m (of_nat (4096 * q)) va)"
    if "aspace s q U Q" "owned p T P \<inter> owned q U Q = {}" for q U Q
    using as_grow_others[OF as g that] by blast
  moreover have "owned p T' P' \<union> free_set (frames s') = owned p T P \<union> free_set (frames s)"
    using g by (simp add: as_grow_def)
  ultimately show ?thesis using e as' by (intro conjI impI allI) blast+
qed

text \<open>A program of four bytes of code and four zero bytes at 16 MB, in a buffer at \<open>0x20000\<close>.\<close>

definition elf_img :: "u8 list" where
  "elf_img = [0x7F, 0x45, 0x4C, 0x46, 1, 1, 1, 0, 0, 0, 0, 0, 0, 0, 0, 0,
     2, 0, 3, 0, 1, 0, 0, 0, 0, 0, 0, 1, 0x34, 0, 0, 0, 0, 0, 0, 0, 0, 0, 0, 0, 0x34, 0, 0x20, 0, 1, 0, 0, 0, 0, 0, 0, 0,
     1, 0, 0, 0, 0x54, 0, 0, 0, 0, 0, 0, 1, 0, 0, 0, 1, 4, 0, 0, 0, 8, 0, 0, 0, 5, 0, 0, 0, 0, 0x10, 0, 0,
     0xB8, 0x2A, 0xCD, 0x80]"

definition img_mem :: "mem \<Rightarrow> mem" where
  "img_mem m = (\<lambda>x. if 0x20000 \<le> unat x \<and> unat x < 0x20058 then elf_img ! (unat x - 0x20000) else m x)"

definition elf_mm :: mm where
  "elf_mm = mm1\<lparr>memory := img_mem (memory mm1)\<rparr>"

lemma img_fields:
  "e_phoff (img_mem m) 0x20000 = 52" "e_phnum (img_mem m) 0x20000 = 1" "e_phentsize (img_mem m) 0x20000 = 32"
  "e_entry (img_mem m) 0x20000 = 0x01000000" "phdr (img_mem m) 0x20000 0 = 0x20034"
  "p_type (img_mem m) 0x20034 = 1" "p_offset (img_mem m) 0x20034 = 84" "p_vaddr (img_mem m) 0x20034 = 0x01000000"
  "p_filesz (img_mem m) 0x20034 = 4" "p_memsz (img_mem m) 0x20034 = 8"
  by (simp_all add: e_phoff_def e_phnum_def e_phentsize_def e_entry_def phdr_def p_type_def p_offset_def p_vaddr_def
      p_filesz_def p_memsz_def load32_def load16_def img_mem_def elf_img_def)

lemma img_valid: "elf_valid (img_mem m) 0x20000 88"
  unfolding elf_valid_def img_fields
  by (simp add: e_ident_def e_type_def e_machine_def load16_def img_mem_def elf_img_def kconst)

lemma img_ok: "image_ok (img_mem m) 0x20000 88"
proof -
  have n: "nhdr (img_mem m) 0x20000 = 1" by (simp add: nhdr_def img_fields)
  have "seg_fits (img_mem m) 88 0x20034" unfolding seg_fits_def img_fields by simp
  then show ?thesis
    using img_valid unfolding image_ok_def n by (simp add: low_def hdr_def img_fields)
qed

theorem elf_load_user_correct_witness:
  "let r = elf_load_user 0x20000 88 (snd (paging_create_pd boot_mm)) elf_mm in \<not> derailed (fst r) \<and> snd r = 0x01000000 \<and>
     map_option (\<lambda>x. (memory (fst r) (fst x), snd x)) (translate (memory (fst r)) (snd (paging_create_pd boot_mm)) 0x01000001) =
       Some (0x2A, True)"
proof -
  obtain p where p: "p \<in> {256 ..< 8192}" "snd (paging_create_pd boot_mm) = of_nat (4096 * p)"
    "aspace mm1 p Map.empty Map.empty" "free_set (frames mm1) = {256 ..< 8192} - {p}"
    and lowp: "p < 2048" "\<not> derailed mm1" "1791 \<le> lowfree mm1"
    by (rule mm1)
  let ?m = "img_mem (memory mm1)"
  have "only (memory mm1) ?m {32}"
    unfolding only_def img_mem_def by (auto simp: div_nat_eqI)
  then have as: "aspace elf_mm p Map.empty Map.empty"
    unfolding elf_mm_def using p(1) aspace_only[OF p(3), of ?m "{32}" "derailed mm1"] by auto
  then have "as_rep (memory elf_mm) (kframe elf_mm) p Map.empty Map.empty" by (simp add: aspace_def)
  note tr = translate_page[OF this]
  have mem: "memory elf_mm = ?m" by (simp add: elf_mm_def)
  have n: "nhdr ?m 0x20000 = 1" "hdr ?m 0x20000 0 = 0x20034" by (simp_all add: nhdr_def hdr_def img_fields)
  have lo: "loadable ?m 0x20034" by (simp add: loadable_def img_fields kconst)
  have pages: "seg_pages ?m 0x20034 = {4096}" unfolding seg_pages_def img_fields by auto
  have new: "\<forall>i < nhdr (memory elf_mm) 0x20000. \<forall>va. loadable (memory elf_mm) (hdr (memory elf_mm) 0x20000 i) \<longrightarrow>
      unat va div 4096 \<in> seg_pages (memory elf_mm) (hdr (memory elf_mm) 0x20000 i) \<longrightarrow>
      translate (memory elf_mm) (of_nat (4096 * p)) va = None"
  proof (intro allI impI)
    fix i and va :: u32
    assume "i < nhdr (memory elf_mm) 0x20000" "unat va div 4096 \<in> seg_pages (memory elf_mm) (hdr (memory elf_mm) 0x20000 i)"
    then have "unat va div 4096 = 4096" by (simp add: mem n pages)
    then have "0x800000 \<le> unat va" using div_times_less_eq_dividend[of "unat va" 4096] by simp
    then show "translate (memory elf_mm) (of_nat (4096 * p)) va = None" using tr by simp
  qed
  have room: "2 * pages_needed (memory elf_mm) 0x20000 0 \<le> card (free_set (frames elf_mm))"
    unfolding pages_needed_def mem n using p(1) by (simp add: n pages lo elf_mm_def p(4) card_Diff_singleton)
  have img: "image_ok (memory elf_mm) 0x20000 88" unfolding mem by (rule img_ok)
  obtain s' e where run: "elf_load_user 0x20000 88 (of_nat (4096 * p)) elf_mm = (s', e)" by fastforce
  note th = elf_load_user_correct[OF img as new room run, unfolded mem n Let_def]
  have "2 * pages_needed ?m 0x20000 0 \<le> lowfree elf_mm"
    unfolding pages_needed_def n using lowp(3) by (simp add: n pages lo elf_mm_def lowfree_def)
  then have nd: "\<not> derailed s'" using th lowp(1,2) by (simp add: elf_mm_def)
  then have e: "e = 0x01000000" using th by (simp add: img_fields)
  from th nd have "\<exists>pa. translate (memory s') (of_nat (4096 * p)) 0x01000001 = Some (pa, True) \<and>
      memory s' pa = seg_byte ?m 0x20000 0x20034 0x01000001"
    using lo n(2) pages by (simp del: of_nat_mult)
  then obtain pa where "translate (memory s') (of_nat (4096 * p)) 0x01000001 = Some (pa, True)"
    "memory s' pa = ?m 0x20055" by (auto simp: img_fields seg_byte_def simp del: of_nat_mult)
  moreover have "?m 0x20055 = 0x2A" by (simp add: img_mem_def elf_img_def)
  ultimately show ?thesis using e run nd by (simp add: p(2) del: of_nat_mult map_option_eq_Some)
qed

end
