(* ===== verification/Bytes.thy ===== *)
theory Bytes
  imports Prelude
begin

text \<open>
  Little-endian fields in byte buffers: what C reads and writes through a packed structure laid over an
  array. A buffer is a byte list, a field is given by its offset.
\<close>

definition le16 :: "u8 list \<Rightarrow> u16" where
  "le16 b = ucast (b ! 0) OR push_bit 8 (ucast (b ! 1))"

definition bytes16 :: "u16 \<Rightarrow> u8 list" where
  "bytes16 v = [ucast v, ucast (drop_bit 8 v)]"

definition le32 :: "u8 list \<Rightarrow> u32" where
  "le32 b = ucast (b ! 0) OR push_bit 8 (ucast (b ! 1)) OR push_bit 16 (ucast (b ! 2)) OR push_bit 24 (ucast (b ! 3))"

definition bytes32 :: "u32 \<Rightarrow> u8 list" where
  "bytes32 v = [ucast v, ucast (drop_bit 8 v), ucast (drop_bit 16 v), ucast (drop_bit 24 v)]"

definition get32 :: "u8 list \<Rightarrow> nat \<Rightarrow> u32" where
  "get32 b off = le32 (drop off b)"

definition get16 :: "u8 list \<Rightarrow> nat \<Rightarrow> u16" where
  "get16 b off = le16 (drop off b)"

text \<open>\<open>put b off xs\<close> overwrites the bytes from \<open>off\<close> on with \<open>xs\<close>.\<close>

definition put :: "u8 list \<Rightarrow> nat \<Rightarrow> u8 list \<Rightarrow> u8 list" where
  "put b off xs = take off b @ xs @ drop (off + length xs) b"

lemma length_bytes [simp]: "length (bytes32 v) = 4" "length (bytes16 w) = 2"
  by (simp_all add: bytes32_def bytes16_def)

lemma le32_bytes32 [simp]: "le32 (bytes32 v @ bs) = v"
proof (rule bit_word_eqI)
  fix n assume "n < LENGTH(32)"
  then consider "n < 8" | "8 \<le> n" "n < 16" | "16 \<le> n" "n < 24" | "24 \<le> n" "n < 32" by fastforce
  then show "bit (le32 (bytes32 v @ bs)) n = bit v n"
    by cases (auto simp: le32_def bytes32_def bit_simps)
qed

lemma le16_bytes16 [simp]: "le16 (bytes16 v @ bs) = v"
proof (rule bit_word_eqI)
  fix n assume "n < LENGTH(16)"
  then consider "n < 8" | "8 \<le> n" "n < 16" by fastforce
  then show "bit (le16 (bytes16 v @ bs)) n = bit v n"
    by cases (auto simp: le16_def bytes16_def bit_simps)
qed

lemma bytes16_le16:
  "bytes16 (le16 (a # b # bs)) = [a, b]"
proof -
  have "ucast (le16 (a # b # bs)) = a"
    by (rule bit_word_eqI) (auto simp: le16_def bit_simps)
  moreover have "ucast (drop_bit 8 (le16 (a # b # bs))) = b"
    by (rule bit_word_eqI) (auto simp: le16_def bit_simps dest: bit_imp_le_length)
  ultimately show ?thesis by (simp add: bytes16_def)
qed

lemma length_put [simp]: "off + length xs \<le> length b \<Longrightarrow> length (put b off xs) = length b"
  by (simp add: put_def)

lemma nth_put:
  assumes "off + length xs \<le> length b" "i < length b"
  shows "put b off xs ! i = (if off \<le> i \<and> i < off + length xs then xs ! (i - off) else b ! i)"
proof -
  consider "i < off" | "off \<le> i" "i < off + length xs" | "off + length xs \<le> i" by linarith
  then show ?thesis using assms by cases (auto simp: put_def nth_append)
qed

text \<open>A block of \<open>n\<close> bytes of a buffer.\<close>

definition slice :: "nat \<Rightarrow> nat \<Rightarrow> 'a list \<Rightarrow> 'a list" where
  "slice off n b = take n (drop off b)"

lemma length_slice [simp]: "length (slice off n b) = min n (length b - off)"
  by (simp add: slice_def min.commute)

lemma slice_put_same: "off + length xs \<le> length b \<Longrightarrow> slice off (length xs) (put b off xs) = xs"
  by (simp add: slice_def put_def)

lemma slice_put_other:
  assumes "off + length xs \<le> length b" "o' + n \<le> off \<or> off + length xs \<le> o'" "o' + n \<le> length b"
  shows "slice o' n (put b off xs) = slice o' n b"
  by (rule nth_equalityI) (use assms in \<open>auto simp: slice_def nth_put\<close>)

lemma get32_slice: "off + 4 \<le> n \<Longrightarrow> o' + n \<le> length b \<Longrightarrow> get32 (slice o' n b) off = get32 b (o' + off)"
  by (simp add: get32_def le32_def slice_def add.assoc)

end
