(* ===== verification/Ata.thy ===== *)
theory Ata
  imports Devices Bytes
begin

text \<open>
  The disk driver, \<^verbatim>\<open>kernel/ata.c\<close>, against the port-level contract of an ATA drive in PIO mode. The
  driver provides the file system with a block device; that interface is a locale here.
\<close>

section \<open>The code\<close>

definition ATA_DATA :: u16 where [kconst]: "ATA_DATA = 0x1F0"
definition ATA_SECT_COUNT :: u16 where [kconst]: "ATA_SECT_COUNT = 0x1F2"
definition ATA_LBA_LOW :: u16 where [kconst]: "ATA_LBA_LOW = 0x1F3"
definition ATA_LBA_MID :: u16 where [kconst]: "ATA_LBA_MID = 0x1F4"
definition ATA_LBA_HIGH :: u16 where [kconst]: "ATA_LBA_HIGH = 0x1F5"
definition ATA_DRIVE_HEAD :: u16 where [kconst]: "ATA_DRIVE_HEAD = 0x1F6"
definition ATA_STATUS :: u16 where [kconst]: "ATA_STATUS = 0x1F7"
definition ATA_COMMAND :: u16 where [kconst]: "ATA_COMMAND = 0x1F7"
definition ATA_ALT_STATUS :: u16 where [kconst]: "ATA_ALT_STATUS = 0x3F6"
definition ATA_SR_BSY :: u8 where [kconst]: "ATA_SR_BSY = 0x80"
definition ATA_SR_DRQ :: u8 where [kconst]: "ATA_SR_DRQ = 0x08"
definition ATA_SR_ERR :: u8 where [kconst]: "ATA_SR_ERR = 0x01"
definition ATA_CMD_READ :: u8 where [kconst]: "ATA_CMD_READ = 0x20"
definition ATA_CMD_WRITE :: u8 where [kconst]: "ATA_CMD_WRITE = 0x30"
definition ATA_CMD_IDENT :: u8 where [kconst]: "ATA_CMD_IDENT = 0xEC"
definition ATA_SECTOR_SIZE :: u32 where [kconst]: "ATA_SECTOR_SIZE = 512"

definition ata_delay_400ns :: "'d io \<Rightarrow> 'd \<Rightarrow> 'd" where
  "ata_delay_400ns io d =
     (let d = snd (inb io ATA_ALT_STATUS d); d = snd (inb io ATA_ALT_STATUS d);
          d = snd (inb io ATA_ALT_STATUS d) in snd (inb io ATA_ALT_STATUS d))"

text \<open>The two polling loops, with the number of polls that are left.\<close>

fun wait_not_busy_loop :: "'d io \<Rightarrow> nat \<Rightarrow> 'd \<Rightarrow> int \<times> 'd" where
  "wait_not_busy_loop io n d =
     (if n = 0 then (-1, d)
      else let (s, d) = inb io ATA_STATUS d
           in if s AND ATA_SR_BSY = 0 then (0, d) else wait_not_busy_loop io (n - 1) d)"

definition ata_wait_not_busy :: "'d io \<Rightarrow> 'd \<Rightarrow> int \<times> 'd" where
  "ata_wait_not_busy io d = wait_not_busy_loop io 0x100000 d"

fun wait_drq_loop :: "'d io \<Rightarrow> nat \<Rightarrow> 'd \<Rightarrow> int \<times> 'd" where
  "wait_drq_loop io n d =
     (if n = 0 then (-1, d)
      else let (s, d) = inb io ATA_STATUS d
           in if s AND ATA_SR_ERR \<noteq> 0 then (-1, d)
              else if s AND ATA_SR_BSY = 0 \<and> s AND ATA_SR_DRQ \<noteq> 0 then (0, d)
              else wait_drq_loop io (n - 1) d)"

definition ata_wait_drq :: "'d io \<Rightarrow> 'd \<Rightarrow> int \<times> 'd" where
  "ata_wait_drq io d = wait_drq_loop io 0x100000 d"

declare wait_not_busy_loop.simps [simp del] wait_drq_loop.simps [simp del]

text \<open>The words that \<open>n\<close> reads of the data register deliver.\<close>

fun read_words :: "'d io \<Rightarrow> nat \<Rightarrow> 'd \<Rightarrow> u16 list \<times> 'd" where
  "read_words io 0 d = ([], d)"
| "read_words io (Suc n) d =
     (let (w, d) = inw io ATA_DATA d; (ws, d) = read_words io n d in (w # ws, d))"

definition ata_init :: "'d io \<Rightarrow> 'd \<Rightarrow> int \<times> 'd" where
  "ata_init io d =
     (let d = outb io ATA_DRIVE_HEAD 0xE0 d;
          d = ata_delay_400ns io d;
          d = outb io ATA_SECT_COUNT 0 d;
          d = outb io ATA_LBA_LOW 0 d;
          d = outb io ATA_LBA_MID 0 d;
          d = outb io ATA_LBA_HIGH 0 d;
          d = outb io ATA_COMMAND ATA_CMD_IDENT d;
          (status, d) = inb io ATA_STATUS d
      in if status = 0x00 then (0, d)
         else let (r, d) = ata_wait_not_busy io d
         in if r \<noteq> 0 then (0, d)
         else let (mid, d) = inb io ATA_LBA_MID d
         in if mid \<noteq> 0 then (0, d)
         else let (high, d) = inb io ATA_LBA_HIGH d
         in if high \<noteq> 0 then (0, d)
         else let (r, d) = ata_wait_drq io d
         in if r \<noteq> 0 then (0, d)
         else let (_, d) = read_words io 256 d in (1, d))"

text \<open>
  The register writes that address a transfer, and the command; then one sector at a time. The result of a read
  is the return value with the bytes stored so far.
\<close>

definition ata_issue :: "'d io \<Rightarrow> u8 \<Rightarrow> u32 \<Rightarrow> u8 \<Rightarrow> 'd \<Rightarrow> 'd" where
  "ata_issue io cmd lba count d =
     (let d = outb io ATA_DRIVE_HEAD (ucast (0xE0 OR (drop_bit 24 lba AND 0x0F))) d;
          d = outb io ATA_SECT_COUNT count d;
          d = outb io ATA_LBA_LOW (ucast (lba AND 0xFF)) d;
          d = outb io ATA_LBA_MID (ucast (drop_bit 8 lba AND 0xFF)) d;
          d = outb io ATA_LBA_HIGH (ucast (drop_bit 16 lba AND 0xFF)) d
      in outb io ATA_COMMAND cmd d)"

fun read_sectors_loop :: "'d io \<Rightarrow> nat \<Rightarrow> 'd \<Rightarrow> int \<times> u8 list \<times> 'd" where
  "read_sectors_loop io 0 d = (0, [], d)"
| "read_sectors_loop io (Suc n) d =
     (let (r, d) = ata_wait_drq io d
      in if r \<noteq> 0 then (-1, [], d)
         else let (ws, d) = read_words io 256 d;
                  d = ata_delay_400ns io d;
                  (r, bs, d) = read_sectors_loop io n d
              in (r, concat (map bytes16 ws) @ bs, d))"

definition ata_read_sectors :: "'d io \<Rightarrow> u32 \<Rightarrow> u8 \<Rightarrow> 'd \<Rightarrow> int \<times> u8 list \<times> 'd" where
  "ata_read_sectors io lba count d =
     (if count = 0 then (0, [], d)
      else let (r, d) = ata_wait_not_busy io d
      in if r \<noteq> 0 then (-1, [], d)
      else read_sectors_loop io (unat count) (ata_issue io ATA_CMD_READ lba count d))"

text \<open>The words of a buffer; the write loop consumes 256 of them per sector.\<close>

fun words_of :: "u8 list \<Rightarrow> u16 list" where
  "words_of (a # b # bs) = le16 [a, b] # words_of bs"
| "words_of _ = []"

fun write_sectors_loop :: "'d io \<Rightarrow> nat \<Rightarrow> u16 list \<Rightarrow> 'd \<Rightarrow> int \<times> 'd" where
  "write_sectors_loop io 0 ws d = (0, d)"
| "write_sectors_loop io (Suc n) ws d =
     (let (r, d) = ata_wait_drq io d
      in if r \<noteq> 0 then (-1, d)
         else write_sectors_loop io n (drop 256 ws)
                (ata_delay_400ns io (fold (outw io ATA_DATA) (take 256 ws) d)))"

definition ata_write_sectors :: "'d io \<Rightarrow> u32 \<Rightarrow> u8 \<Rightarrow> u8 list \<Rightarrow> 'd \<Rightarrow> int \<times> 'd" where
  "ata_write_sectors io lba count buf d =
     (if count = 0 then (0, d)
      else let (r, d) = ata_wait_not_busy io d
      in if r \<noteq> 0 then (-1, d)
      else write_sectors_loop io (unat count) (words_of buf) (ata_issue io ATA_CMD_WRITE lba count d))"

section \<open>The drive\<close>

text \<open>
  The state of a drive as the ATA standard describes it for PIO transfers: its contents, the
  task-file registers, the transfer in progress (the address, the sectors left, and the words left to read or
  received so far), and the number of status polls for which it will still report busy.
\<close>

datatype phase = Idle | Reading nat nat "u16 list" | Writing nat nat "u16 list"

record drive =
  sectors :: "nat \<Rightarrow> u8 list"
  capacity :: nat
  r_count :: u8
  r_low :: u8
  r_mid :: u8
  r_high :: u8
  r_head :: u8
  phase :: phase
  busy :: nat

definition drive_lba :: "drive \<Rightarrow> nat" where
  "drive_lba v = unat (r_low v) + 256 * unat (r_mid v) + 65536 * unat (r_high v) + 16777216 * (unat (r_head v) mod 16)"

definition drive_count :: "drive \<Rightarrow> nat" where
  "drive_count v = (if r_count v = 0 then 256 else unat (r_count v))"

definition start_read :: "drive \<Rightarrow> drive" where
  "start_read v = v\<lparr>phase := Reading (drive_lba v) (drive_count v) (words_of (sectors v (drive_lba v)))\<rparr>"

definition start_write :: "drive \<Rightarrow> drive" where
  "start_write v = v\<lparr>phase := Writing (drive_lba v) (drive_count v) []\<rparr>"

text \<open>The phase after a whole sector has been transferred.\<close>

definition after_read :: "nat \<Rightarrow> nat \<Rightarrow> drive \<Rightarrow> drive" where
  "after_read L n v = v\<lparr>phase := (if n \<le> 1 then Idle else Reading (Suc L) (n - 1) (words_of (sectors v (Suc L))))\<rparr>"

definition after_write :: "nat \<Rightarrow> nat \<Rightarrow> u16 list \<Rightarrow> drive \<Rightarrow> drive" where
  "after_write L n ws v = v\<lparr>sectors := (sectors v)(L := concat (map bytes16 ws)),
     phase := (if n \<le> 1 then Idle else Writing (Suc L) (n - 1) [])\<rparr>"

text \<open>The drive may then be busy for some polls, fewer than the driver is willing to wait.\<close>

definition settles :: "drive \<Rightarrow> drive \<Rightarrow> bool" where
  "settles v v' \<longleftrightarrow> busy v' < 0x100000 \<and> v' = v\<lparr>busy := busy v'\<rparr>"

text \<open>What writes to the registers, polls of the status, and transfers of words do to the drive.\<close>

definition regs_wired :: "'d io \<Rightarrow> ('d \<Rightarrow> drive) \<Rightarrow> bool" where
  "regs_wired io view \<longleftrightarrow>
     (\<forall>x d. view (outb io 0x1F2 x d) = (view d)\<lparr>r_count := x\<rparr> \<and> view (outb io 0x1F3 x d) = (view d)\<lparr>r_low := x\<rparr> \<and>
        view (outb io 0x1F4 x d) = (view d)\<lparr>r_mid := x\<rparr> \<and> view (outb io 0x1F5 x d) = (view d)\<lparr>r_high := x\<rparr> \<and>
        view (outb io 0x1F6 x d) = (view d)\<lparr>r_head := x\<rparr>) \<and>
     (\<forall>d. phase (view d) = Idle \<and> drive_lba (view d) + drive_count (view d) \<le> capacity (view d) \<longrightarrow>
        settles (start_read (view d)) (view (outb io 0x1F7 0x20 d)) \<and>
        settles (start_write (view d)) (view (outb io 0x1F7 0x30 d)))"

definition status_wired :: "'d io \<Rightarrow> ('d \<Rightarrow> drive) \<Rightarrow> bool" where
  "status_wired io view \<longleftrightarrow>
     (\<forall>d. view (snd (inb io 0x3F6 d)) = view d) \<and>
     (\<forall>d. let (s, d') = inb io 0x1F7 d; v = view d
        in view d' = v\<lparr>busy := busy v - 1\<rparr> \<and> (s AND 0x80 = 0 \<longleftrightarrow> busy v = 0) \<and>
           (busy v = 0 \<longrightarrow> s AND 0x01 = 0 \<and> (s AND 0x08 \<noteq> 0 \<longleftrightarrow> phase v \<noteq> Idle)))"

definition data_wired :: "'d io \<Rightarrow> ('d \<Rightarrow> drive) \<Rightarrow> bool" where
  "data_wired io view \<longleftrightarrow>
     (\<forall>d L n w ws. phase (view d) = Reading L n (w # ws) \<and> busy (view d) = 0 \<longrightarrow>
        (let (x, d') = inw io 0x1F0 d
         in x = w \<and> (if ws = [] then settles (after_read L n (view d)) (view d')
                      else view d' = (view d)\<lparr>phase := Reading L n ws\<rparr>))) \<and>
     (\<forall>d L n w ws. phase (view d) = Writing L n ws \<and> busy (view d) = 0 \<longrightarrow>
        (if length ws = 255 then settles (after_write L n (ws @ [w]) (view d)) (view (outw io 0x1F0 w d))
         else view (outw io 0x1F0 w d) = (view d)\<lparr>phase := Writing L n (ws @ [w])\<rparr>))"

definition ata_protocol :: "'d io \<Rightarrow> ('d \<Rightarrow> drive) \<Rightarrow> bool" where
  "ata_protocol io view \<longleftrightarrow> regs_wired io view \<and> status_wired io view \<and> data_wired io view"

text \<open>
  While the drive is busy the standard leaves the other status bits undefined, and \<^verbatim>\<open>ata_wait_drq\<close> looks at the error bit all the
  same. Many drives keep it clear; what else relies on the driver's success asks for one of them.
\<close>

definition err_quiet :: "'d io \<Rightarrow> ('d \<Rightarrow> drive) \<Rightarrow> bool" where
  "err_quiet io view \<longleftrightarrow> (\<forall>d. busy (view d) \<noteq> 0 \<longrightarrow> fst (inb io 0x1F7 d) AND 0x01 = 0)"

definition ata_wired :: "'d io \<Rightarrow> ('d \<Rightarrow> drive) \<Rightarrow> bool" where
  "ata_wired io view \<longleftrightarrow> ata_protocol io view \<and> err_quiet io view"

text \<open>A drive between transfers, with sectors of the standard size.\<close>

definition drive_ready :: "drive \<Rightarrow> bool" where
  "drive_ready v \<longleftrightarrow> phase v = Idle \<and> busy v < 0x100000 \<and> (\<forall>n. length (sectors v n) = 512) \<and> capacity v \<le> 0x10000000"

subsection \<open>Polling and transferring\<close>

lemma wired_status:
  assumes "ata_protocol io view" "inb io 0x1F7 d = (s, d')"
  shows "view d' = (view d)\<lparr>busy := busy (view d) - 1\<rparr>" "s AND 0x80 = 0 \<longleftrightarrow> busy (view d) = 0"
    "busy (view d) = 0 \<Longrightarrow> s AND 0x01 = 0" "busy (view d) = 0 \<Longrightarrow> s AND 0x08 \<noteq> 0 \<longleftrightarrow> phase (view d) \<noteq> Idle"
    "err_quiet io view \<Longrightarrow> s AND 0x01 = 0"
proof -
  have "let (s, d') = inb io 0x1F7 d; v = view d
        in view d' = v\<lparr>busy := busy v - 1\<rparr> \<and> (s AND 0x80 = 0 \<longleftrightarrow> busy v = 0) \<and>
           (busy v = 0 \<longrightarrow> s AND 0x01 = 0 \<and> (s AND 0x08 \<noteq> 0 \<longleftrightarrow> phase v \<noteq> Idle))"
    using assms(1) unfolding ata_protocol_def status_wired_def by blast
  then show "view d' = (view d)\<lparr>busy := busy (view d) - 1\<rparr>" "s AND 0x80 = 0 \<longleftrightarrow> busy (view d) = 0"
    and e: "busy (view d) = 0 \<Longrightarrow> s AND 0x01 = 0" and "busy (view d) = 0 \<Longrightarrow> s AND 0x08 \<noteq> 0 \<longleftrightarrow> phase (view d) \<noteq> Idle"
    using assms(2) by (auto simp: Let_def)
  show "s AND 0x01 = 0" if "err_quiet io view"
    using that e assms(2) unfolding err_quiet_def by (metis fst_conv)
qed

lemma wired_alt: "ata_protocol io view \<Longrightarrow> view (ata_delay_400ns io d) = view d"
  by (simp add: ata_protocol_def status_wired_def ata_delay_400ns_def ATA_ALT_STATUS_def Let_def)

lemma wait_not_busy:
  assumes "ata_protocol io view" "busy (view d) < n"
  shows "\<exists>d'. wait_not_busy_loop io n d = (0, d') \<and> view d' = (view d)\<lparr>busy := 0\<rparr>"
  using assms(2)
proof (induction n arbitrary: d)
  case (Suc n)
  obtain s d1 where p: "inb io 0x1F7 d = (s, d1)" by fastforce
  note w = wired_status[OF assms(1) p]
  show ?case
  proof (cases "busy (view d) = 0")
    case True
    then show ?thesis using w p by (simp add: wait_not_busy_loop.simps[of io "Suc n"] kconst)
  next
    case False
    then have "busy (view d1) < n" using w(1) Suc.prems by simp
    then show ?thesis using Suc.IH[of d1] w p False
      by (simp add: wait_not_busy_loop.simps[of io "Suc n"] kconst)
  qed
qed simp

text \<open>Whatever the status says while the drive is busy, the wait for data ends at the data or gives up with the drive where it was.\<close>

lemma wait_drq:
  assumes "ata_protocol io view" "busy (view d) < n" "phase (view d) \<noteq> Idle"
  shows "\<exists>r d' b. wait_drq_loop io n d = (r, d') \<and> view d' = (view d)\<lparr>busy := b\<rparr> \<and> (r = 0 \<longrightarrow> b = 0) \<and> (err_quiet io view \<longrightarrow> r = 0)"
  using assms(2,3)
proof (induction n arbitrary: d)
  case (Suc n)
  obtain s d1 where p: "inb io 0x1F7 d = (s, d1)" by fastforce
  note w = wired_status[OF assms(1) p]
  consider "busy (view d) = 0" | "busy (view d) \<noteq> 0" "s AND 0x01 \<noteq> 0" | "busy (view d) \<noteq> 0" "s AND 0x01 = 0" by blast
  then show ?case
  proof cases
    case 1
    then show ?thesis using w p Suc.prems(2)
      by (intro exI[of _ 0] exI[of _ d1]) (simp add: wait_drq_loop.simps[of io "Suc n"] kconst)
  next
    case 2
    then show ?thesis using w p
      by (intro exI[of _ "-1"] exI[of _ d1] exI[of _ "busy (view d) - 1"]) (simp add: wait_drq_loop.simps[of io "Suc n"] kconst, blast)
  next
    case 3
    then have "busy (view d1) < n" "phase (view d1) \<noteq> Idle" using w(1) Suc.prems by simp_all
    from Suc.IH[OF this] obtain r d' b where "wait_drq_loop io n d1 = (r, d')" "view d' = (view d1)\<lparr>busy := b\<rparr>" "r = 0 \<longrightarrow> b = 0"
      "err_quiet io view \<longrightarrow> r = 0" by blast
    then show ?thesis using w(1,2) p 3
      by (intro exI[of _ r] exI[of _ d'] exI[of _ b]) (simp add: wait_drq_loop.simps[of io "Suc n"] kconst)
  qed
qed simp

lemma ata_wait_drq:
  assumes "ata_protocol io view" "busy (view d) < 0x100000" "phase (view d) \<noteq> Idle"
  obtains r d' b where "ata_wait_drq io d = (r, d')" "view d' = (view d)\<lparr>busy := b\<rparr>" "r = 0 \<longrightarrow> b = 0" "err_quiet io view \<longrightarrow> r = 0"
  using wait_drq[OF assms] unfolding ata_wait_drq_def by blast

lemma read_sector_words:
  assumes "ata_protocol io view" "phase (view d) = Reading L n ws" "busy (view d) = 0" "ws \<noteq> []"
  shows "\<exists>d'. read_words io (length ws) d = (ws, d') \<and> settles (after_read L n (view d)) (view d')"
  using assms(2-4)
proof (induction ws arbitrary: d)
  case (Cons w ws)
  obtain x d1 where p: "inw io 0x1F0 d = (x, d1)" by fastforce
  have w: "x = w" "if ws = [] then settles (after_read L n (view d)) (view d1)
      else view d1 = (view d)\<lparr>phase := Reading L n ws\<rparr>"
    using assms(1) Cons.prems p unfolding ata_protocol_def data_wired_def by fastforce+
  show ?case
  proof (cases "ws = []")
    case True
    then show ?thesis using p w by (simp add: ATA_DATA_def)
  next
    case False
    then have v1: "view d1 = (view d)\<lparr>phase := Reading L n ws\<rparr>" using w(2) by simp
    then obtain d' where d': "read_words io (length ws) d1 = (ws, d')" "settles (after_read L n (view d1)) (view d')"
      using Cons.IH[of d1] Cons.prems(2) False by auto
    have "after_read L n (view d1) = after_read L n (view d)" by (simp add: v1 after_read_def)
    then show ?thesis using d' p w(1) by (simp add: ATA_DATA_def)
  qed
qed simp

lemma length_words_of: "length bs = 2 * k \<Longrightarrow> length (words_of bs) = k"
  by (induction k arbitrary: bs) (auto simp: length_Suc_conv)

lemma words_of_bytes: "length bs = 2 * k \<Longrightarrow> concat (map bytes16 (words_of bs)) = bs"
  by (induction k arbitrary: bs) (auto simp: length_Suc_conv bytes16_le16)

lemma words_of_take_drop:
  "take k (words_of bs) = words_of (take (2 * k) bs)" "drop k (words_of bs) = words_of (drop (2 * k) bs)"
proof -
  have "take k (words_of bs) = words_of (take (2 * k) bs) \<and> drop k (words_of bs) = words_of (drop (2 * k) bs)"
  proof (induction bs arbitrary: k rule: words_of.induct)
    case (1 a b bs)
    then show ?case by (cases k) simp_all
  qed (simp_all add: take_Cons' drop_Cons')
  then show "take k (words_of bs) = words_of (take (2 * k) bs)" "drop k (words_of bs) = words_of (drop (2 * k) bs)" by simp_all
qed

lemma write_sector_words:
  assumes "ata_protocol io view" "phase (view d) = Writing L n pre" "busy (view d) = 0" "length pre + length ws = 256" "ws \<noteq> []"
  shows "settles (after_write L n (pre @ ws) (view d)) (view (fold (outw io ATA_DATA) ws d))"
  using assms(2-5)
proof (induction ws arbitrary: d pre)
  case (Cons w ws)
  have w: "if length pre = 255 then settles (after_write L n (pre @ [w]) (view d)) (view (outw io 0x1F0 w d))
         else view (outw io 0x1F0 w d) = (view d)\<lparr>phase := Writing L n (pre @ [w])\<rparr>"
    using assms(1) Cons.prems unfolding ata_protocol_def data_wired_def by blast
  show ?case
  proof (cases "ws = []")
    case True
    then show ?thesis using w Cons.prems(3) by (simp add: ATA_DATA_def)
  next
    case False
    then have "length pre \<noteq> 255" using Cons.prems(3) by (cases ws) auto
    then have v1: "view (outw io 0x1F0 w d) = (view d)\<lparr>phase := Writing L n (pre @ [w])\<rparr>" using w by simp
    have "settles (after_write L n ((pre @ [w]) @ ws) (view (outw io 0x1F0 w d)))
        (view (fold (outw io ATA_DATA) ws (outw io 0x1F0 w d)))"
      by (rule Cons.IH) (use v1 Cons.prems False in simp_all)
    moreover have "after_write L n x (view (outw io 0x1F0 w d)) = after_write L n x (view d)" for x
      by (simp add: v1 after_write_def)
    ultimately show ?thesis by (simp add: ATA_DATA_def)
  qed
qed simp

text \<open>The contents after sectors from \<open>L\<close> on have been overwritten with the bytes of a buffer.\<close>

definition write_range :: "nat \<Rightarrow> u8 list \<Rightarrow> (nat \<Rightarrow> u8 list) \<Rightarrow> nat \<Rightarrow> u8 list" where
  "write_range L buf f k = (if L \<le> k \<and> k < L + length buf div 512 then slice (512 * (k - L)) 512 buf else f k)"

lemma write_range_step:
  assumes "length buf = 512 * Suc n"
  shows "write_range (Suc L) (drop 512 buf) (f(L := take 512 buf)) = write_range L buf f"
proof
  fix k
  have len: "length (drop 512 buf) div 512 = n" "length buf div 512 = Suc n" using assms by simp_all
  show "write_range (Suc L) (drop 512 buf) (f(L := take 512 buf)) k = write_range L buf f k"
  proof (cases "k = L")
    case True
    then show ?thesis using len by (simp add: write_range_def slice_def)
  next
    case False
    have "slice (512 * (k - Suc L)) 512 (drop 512 buf) = slice (512 * (k - L)) 512 buf" if "Suc L \<le> k"
    proof -
      have "512 * (k - Suc L) + 512 = 512 * (k - L)" using that by (simp add: algebra_simps Suc_diff_Suc)
      then show ?thesis by (simp add: slice_def)
    qed
    then show ?thesis using False len by (auto simp: write_range_def)
  qed
qed

lemma write_range_concat: "length buf = 512 * n \<Longrightarrow> concat (map (write_range L buf f) [L ..< L + n]) = buf"
proof (induction n arbitrary: L buf f)
  case (Suc n)
  have "write_range L buf f L = take 512 buf" using Suc.prems by (simp add: write_range_def slice_def)
  moreover have "concat (map (write_range L buf f) [Suc L ..< Suc L + n]) = drop 512 buf"
    using Suc.IH[of "drop 512 buf" "Suc L" "f(L := take 512 buf)"] Suc.prems
    unfolding write_range_step[OF Suc.prems, of L f] by (simp del: upt_Suc)
  moreover have "[L ..< L + Suc n] = L # [Suc L ..< Suc L + n]" using upt_conv_Cons[of L "L + Suc n"] by simp
  ultimately show ?case by (simp del: upt_Suc)
qed simp

lemma settlesD: "settles v v' \<Longrightarrow> busy v' < 0x100000" "settles v v' \<Longrightarrow> phase v' = phase v"
  "settles v v' \<Longrightarrow> sectors v' = sectors v" "settles v v' \<Longrightarrow> capacity v' = capacity v"
  by (auto simp: settles_def) (metis drive.select_convs drive.surjective drive.update_convs(9))+

text \<open>
  The sector loops on a drive that keeps to the protocol. If they return 0 they have transferred everything; a read changes no sector
  whatever it returns, a write replaces the sectors of a prefix of the buffer; and on a quiet drive they return 0.
\<close>

lemma read_loop:
  assumes "ata_protocol io view" "\<forall>k. length (sectors (view d) k) = 512" "busy (view d) < 0x100000"
    and "n \<noteq> 0 \<longrightarrow> phase (view d) = Reading L n (words_of (sectors (view d) L))" "n = 0 \<longrightarrow> phase (view d) = Idle"
  shows "\<exists>r bs d'. read_sectors_loop io n d = (r, bs, d') \<and> (err_quiet io view \<longrightarrow> r = 0) \<and>
    sectors (view d') = sectors (view d) \<and> capacity (view d') = capacity (view d) \<and>
    (r = 0 \<longrightarrow> bs = concat (map (sectors (view d)) [L ..< L + n]) \<and> phase (view d') = Idle \<and> busy (view d') < 0x100000)"
  using assms(2-5)
proof (induction n arbitrary: d L)
  case (Suc n d L)
  let ?ws = "words_of (sectors (view d) L)"
  have ws: "length ?ws = 256" "concat (map bytes16 ?ws) = sectors (view d) L"
    using Suc.prems(1) length_words_of[of _ 256] words_of_bytes[of _ 256] by simp_all
  then have ne: "?ws \<noteq> []" by auto
  have ph: "phase (view d) = Reading L (Suc n) ?ws" using Suc.prems(3) by simp
  then have ni: "phase (view d) \<noteq> Idle" by simp
  obtain r1 d1 b1 where d1: "ata_wait_drq io d = (r1, d1)" "view d1 = (view d)\<lparr>busy := b1\<rparr>" "r1 = 0 \<longrightarrow> b1 = 0"
      "err_quiet io view \<longrightarrow> r1 = 0"
    by (rule ata_wait_drq[OF assms(1) Suc.prems(2) ni])
  show ?case
  proof (cases "r1 = 0")
    case False
    then show ?thesis using d1 by auto
  next
    case True
    obtain d2 where d2: "read_words io 256 d1 = (?ws, d2)" "settles (after_read L (Suc n) (view d1)) (view d2)"
      using read_sector_words[OF assms(1), of d1 L "Suc n" ?ws] d1(2,3) True ph ws(1) ne by auto
    let ?d3 = "ata_delay_400ns io d2"
    have v3: "view ?d3 = view d2" by (rule wired_alt[OF assms(1)])
    have s: "sectors (view ?d3) = sectors (view d)" "capacity (view ?d3) = capacity (view d)" "busy (view ?d3) < 0x100000"
      "n \<noteq> 0 \<longrightarrow> phase (view ?d3) = Reading (Suc L) n (words_of (sectors (view d) (Suc L)))" "n = 0 \<longrightarrow> phase (view ?d3) = Idle"
      using settlesD[OF d2(2)] d1(2) unfolding v3 by (simp_all add: after_read_def)
    have "\<forall>k. length (sectors (view ?d3) k) = 512" using s(1) Suc.prems(1) by simp
    from Suc.IH[OF this s(3) _ s(5), of "Suc L"] obtain r bs d' where d': "read_sectors_loop io n ?d3 = (r, bs, d')"
        "err_quiet io view \<longrightarrow> r = 0" "sectors (view d') = sectors (view d)" "capacity (view d') = capacity (view d)"
        "r = 0 \<longrightarrow> bs = concat (map (sectors (view d)) [Suc L ..< Suc L + n]) \<and> phase (view d') = Idle \<and> busy (view d') < 0x100000"
      using s by auto
    have "[L ..< L + Suc n] = L # [Suc L ..< Suc L + n]" using upt_conv_Cons[of L "L + Suc n"] by simp
    then show ?thesis using True d1(1) d2(1) ws d' by (simp del: upt_Suc)
  qed
qed simp

lemma write_loop:
  assumes "ata_protocol io view" "\<forall>k. length (sectors (view d) k) = 512" "busy (view d) < 0x100000"
    and "n \<noteq> 0 \<longrightarrow> phase (view d) = Writing L n []" "n = 0 \<longrightarrow> phase (view d) = Idle" "length buf = 512 * n"
  shows "\<exists>r d' j. write_sectors_loop io n (words_of buf) d = (r, d') \<and> (err_quiet io view \<longrightarrow> r = 0) \<and>
    sectors (view d') = write_range L (take (512 * j) buf) (sectors (view d)) \<and> capacity (view d') = capacity (view d) \<and>
    j \<le> n \<and> (r = 0 \<longrightarrow> j = n \<and> phase (view d') = Idle \<and> busy (view d') < 0x100000)"
  using assms(2-6)
proof (induction n arbitrary: d L buf)
  case (0 d L buf)
  then show ?case by (auto simp: write_range_def fun_eq_iff)
next
  case (Suc n d L buf)
  have b: "length (take 512 buf) = 512" "length (drop 512 buf) = 512 * n" using Suc.prems(5) by simp_all
  have ws: "take 256 (words_of buf) = words_of (take 512 buf)" "drop 256 (words_of buf) = words_of (drop 512 buf)"
    using words_of_take_drop[of 256 buf] by simp_all
  have ws': "length (words_of (take 512 buf)) = 256" "concat (map bytes16 (words_of (take 512 buf))) = take 512 buf"
    using b(1) length_words_of[of _ 256] words_of_bytes[of _ 256] by simp_all
  have ph: "phase (view d) = Writing L (Suc n) []" using Suc.prems(3) by simp
  then have ni: "phase (view d) \<noteq> Idle" by simp
  obtain r1 d1 b1 where d1: "ata_wait_drq io d = (r1, d1)" "view d1 = (view d)\<lparr>busy := b1\<rparr>" "r1 = 0 \<longrightarrow> b1 = 0"
      "err_quiet io view \<longrightarrow> r1 = 0"
    by (rule ata_wait_drq[OF assms(1) Suc.prems(2) ni])
  show ?case
  proof (cases "r1 = 0")
    case False
    then show ?thesis using d1 by (auto intro!: exI[of _ "0 :: nat"] simp: write_range_def fun_eq_iff)
  next
    case True
    let ?d2 = "fold (outw io ATA_DATA) (words_of (take 512 buf)) d1"
    have "settles (after_write L (Suc n) ([] @ words_of (take 512 buf)) (view d1)) (view ?d2)"
      by (rule write_sector_words[OF assms(1)]) (use d1(2,3) True ph ws'(1) in auto)
    note s = settlesD[OF this[simplified]]
    let ?d3 = "ata_delay_400ns io ?d2"
    have v3: "view ?d3 = view ?d2" by (rule wired_alt[OF assms(1)])
    have s3: "sectors (view ?d3) = (sectors (view d))(L := take 512 buf)" "capacity (view ?d3) = capacity (view d)"
      "busy (view ?d3) < 0x100000" "n \<noteq> 0 \<longrightarrow> phase (view ?d3) = Writing (Suc L) n []" "n = 0 \<longrightarrow> phase (view ?d3) = Idle"
      using s d1(2) ws'(2) unfolding v3 by (simp_all add: after_write_def)
    have l3: "\<forall>k. length (sectors (view ?d3) k) = 512" using Suc.prems(1) b(1) unfolding s3(1) by (simp del: length_take)
    from Suc.IH[OF l3 s3(3,4,5) b(2)] obtain r d' j where d': "write_sectors_loop io n (words_of (drop 512 buf)) ?d3 = (r, d')"
        "err_quiet io view \<longrightarrow> r = 0" "sectors (view d') = write_range (Suc L) (take (512 * j) (drop 512 buf)) (sectors (view ?d3))"
        "capacity (view d') = capacity (view ?d3)" "j \<le> n"
        "r = 0 \<longrightarrow> j = n \<and> phase (view d') = Idle \<and> busy (view d') < 0x100000" by blast
    have "length (take (512 * Suc j) buf) = 512 * Suc j" using d'(5) Suc.prems(5) by simp
    from write_range_step[OF this, of L "sectors (view d)"]
    have "sectors (view d') = write_range L (take (512 * Suc j) buf) (sectors (view d))"
      unfolding d'(3) s3(1) by (simp add: drop_take min_def)
    then show ?thesis using True d1 ws d'(1,2,4,5,6) s3(2) by (intro exI[of _ r] exI[of _ d'] exI[of _ "Suc j"]) simp
  qed
qed

lemma base256:
  "n mod 256 + 256 * (n div 256 mod 256) + 65536 * (n div 65536 mod 256) + 16777216 * (n div 16777216) = (n :: nat)"
proof -
  have "n div 65536 = n div 256 div 256" "n div 16777216 = n div 65536 div 256"
    by (simp_all flip: div_mult2_eq)
  then show ?thesis
    using mult_div_mod_eq[of 256 n] mult_div_mod_eq[of 256 "n div 256"] mult_div_mod_eq[of 256 "n div 65536"] by linarith
qed

lemma ata_issue_view:
  assumes "ata_protocol io view" "unat lba < 0x10000000" "count \<noteq> 0"
  obtains d1 where "ata_issue io cmd lba count d = outb io 0x1F7 cmd d1" "drive_lba (view d1) = unat lba"
    "drive_count (view d1) = unat count" "phase (view d1) = phase (view d)" "busy (view d1) = busy (view d)"
    "sectors (view d1) = sectors (view d)" "capacity (view d1) = capacity (view d)"
proof -
  let ?h = "ucast (0xE0 OR (drop_bit 24 lba AND 0x0F)) :: u8"
  let ?d1 = "outb io 0x1F5 (ucast (drop_bit 16 lba AND 0xFF)) (outb io 0x1F4 (ucast (drop_bit 8 lba AND 0xFF))
    (outb io 0x1F3 (ucast (lba AND 0xFF)) (outb io 0x1F2 count (outb io 0x1F6 ?h d))))"
  have v: "view ?d1 = (view d)\<lparr>r_head := ?h, r_count := count, r_low := ucast (lba AND 0xFF),
      r_mid := ucast (drop_bit 8 lba AND 0xFF), r_high := ucast (drop_bit 16 lba AND 0xFF)\<rparr>"
    using assms(1) by (simp add: ata_protocol_def regs_wired_def)
  have r: "r_low (view ?d1) = ucast (lba AND 0xFF)" "r_mid (view ?d1) = ucast (drop_bit 8 lba AND 0xFF)"
    "r_high (view ?d1) = ucast (drop_bit 16 lba AND 0xFF)" "r_head (view ?d1) = ?h"
    unfolding v by simp_all
  have u8: "unat (ucast (x AND 0xFF) :: u8) = unat x mod 256" for x :: u32
    by (simp add: unsigned_ucast_eq mask_consts unat_and_mask take_bit_eq_mod del: mask_numeral)
  have head: "unat ?h mod 16 = unat lba div 16777216"
  proof -
    have "(0xE0 :: u32) = push_bit 5 7" by simp
    then have e0: "\<not> bit (0xE0 :: u32) n" if "n < 4" for n
      using that by (simp only: bit_push_bit_iff) simp
    have "?h AND 0x0F = ucast (drop_bit 24 lba AND 0x0F)"
      by (rule bit_word_eqI) (auto simp: bit_simps bit_masks e0 simp del: bit_numeral_word_iff)
    then have "unat ?h mod 16 = unat (ucast (drop_bit 24 lba AND 0x0F) :: u8)"
      using unat_and_mask[of ?h 4] by (simp add: mask_consts del: mask_numeral)
    also have "\<dots> = unat lba div 16777216"
      using assms(2) by (simp add: unsigned_ucast_eq mask_consts unat_and_mask take_bit_eq_mod unat_drop_bit del: mask_numeral)
    finally show ?thesis .
  qed
  have "drive_lba (view ?d1) = unat lba"
  proof -
    have "drive_lba (view ?d1) = unat lba mod 256 + 256 * (unat lba div 256 mod 256) +
        65536 * (unat lba div 65536 mod 256) + 16777216 * (unat lba div 16777216)"
      unfolding drive_lba_def r u8 unat_drop_bit head by simp
    then show ?thesis by (simp only: base256)
  qed
  then show ?thesis
    using that[of ?d1] v assms(3) by (simp add: ata_issue_def Let_def kconst drive_count_def)
qed

section \<open>The driver is a block device\<close>

text \<open>
  The interface the file system uses: reads deliver the contents of consecutive sectors, writes replace them, both
  succeed within the capacity and leave the device ready.
\<close>

record 'd blk =
  rd :: "u32 \<Rightarrow> u8 \<Rightarrow> 'd \<Rightarrow> int \<times> u8 list \<times> 'd"
  wr :: "u32 \<Rightarrow> u8 \<Rightarrow> u8 list \<Rightarrow> 'd \<Rightarrow> int \<times> 'd"

definition ata_blk :: "'d io \<Rightarrow> 'd blk" where
  "ata_blk io = \<lparr>rd = ata_read_sectors io, wr = ata_write_sectors io\<rparr>"

locale block_device =
  fixes blk :: "'d blk"
    and ready :: "'d \<Rightarrow> bool"
    and disk :: "'d \<Rightarrow> nat \<Rightarrow> u8 list"
    and cap :: "'d \<Rightarrow> nat"
  assumes sector_size: "ready d \<Longrightarrow> length (disk d k) = 512"
    and cap_bound: "ready d \<Longrightarrow> cap d \<le> 0x10000000"
    and read_ok: "ready d \<Longrightarrow> count \<noteq> 0 \<Longrightarrow> unat lba + unat count \<le> cap d \<Longrightarrow>
      \<exists>d'. rd blk lba count d = (0, concat (map (disk d) [unat lba ..< unat lba + unat count]), d') \<and>
        ready d' \<and> disk d' = disk d \<and> cap d' = cap d"
    and write_ok: "ready d \<Longrightarrow> count \<noteq> 0 \<Longrightarrow> unat lba + unat count \<le> cap d \<Longrightarrow> length buf = 512 * unat count \<Longrightarrow>
      \<exists>d'. wr blk lba count buf d = (0, d') \<and> ready d' \<and> disk d' = write_range (unat lba) buf (disk d) \<and> cap d' = cap d"

lemma ata_transfer:
  assumes "ata_protocol io view" "drive_ready (view d)" "count \<noteq> 0" "unat lba + unat count \<le> capacity (view d)"
  shows "\<exists>r bs d'. ata_read_sectors io lba count d = (r, bs, d') \<and> (err_quiet io view \<longrightarrow> r = 0) \<and>
      sectors (view d') = sectors (view d) \<and> capacity (view d') = capacity (view d) \<and>
      (r = 0 \<longrightarrow> bs = concat (map (sectors (view d)) [unat lba ..< unat lba + unat count]) \<and> drive_ready (view d'))"
    and "length buf = 512 * unat count \<Longrightarrow> \<exists>r d' j. ata_write_sectors io lba count buf d = (r, d') \<and> (err_quiet io view \<longrightarrow> r = 0) \<and>
      sectors (view d') = write_range (unat lba) (take (512 * j) buf) (sectors (view d)) \<and> capacity (view d') = capacity (view d) \<and>
      j \<le> unat count \<and> (r = 0 \<longrightarrow> j = unat count \<and> drive_ready (view d'))"
proof -
  note rdy = assms(2)[unfolded drive_ready_def]
  have n: "unat count \<noteq> 0" using assms(3) by (simp add: unat_eq_0)
  have lba: "unat lba < 0x10000000" using assms(4) rdy n by simp
  obtain d0 where d0: "ata_wait_not_busy io d = (0, d0)" "view d0 = (view d)\<lparr>busy := 0\<rparr>"
    using wait_not_busy[OF assms(1), of d "0x100000"] rdy unfolding ata_wait_not_busy_def by auto
  show "\<exists>r bs d'. ata_read_sectors io lba count d = (r, bs, d') \<and> (err_quiet io view \<longrightarrow> r = 0) \<and>
      sectors (view d') = sectors (view d) \<and> capacity (view d') = capacity (view d) \<and>
      (r = 0 \<longrightarrow> bs = concat (map (sectors (view d)) [unat lba ..< unat lba + unat count]) \<and> drive_ready (view d'))"
  proof -
    obtain d1 where d1: "ata_issue io ATA_CMD_READ lba count d0 = outb io 0x1F7 ATA_CMD_READ d1" "drive_lba (view d1) = unat lba"
      "drive_count (view d1) = unat count" "phase (view d1) = phase (view d0)" "sectors (view d1) = sectors (view d0)"
      "capacity (view d1) = capacity (view d0)"
      using ata_issue_view[OF assms(1) lba assms(3), of ATA_CMD_READ d0] by metis
    let ?d2 = "outb io 0x1F7 ATA_CMD_READ d1"
    have "settles (start_read (view d1)) (view ?d2)"
      using assms(1,4) d1 d0(2) rdy unfolding ata_protocol_def regs_wired_def ATA_CMD_READ_def by simp
    note s = settlesD[OF this]
    have v2: "phase (view ?d2) = Reading (unat lba) (unat count) (words_of (sectors (view ?d2) (unat lba)))"
      "sectors (view ?d2) = sectors (view d)" "capacity (view ?d2) = capacity (view d)"
      using s d1 d0(2) by (simp_all add: start_read_def)
    have l2: "\<forall>k. length (sectors (view ?d2) k) = 512" using v2(2) rdy by simp
    from read_loop[OF assms(1) l2 s(1), of "unat count" "unat lba"]
    obtain r bs d' where "read_sectors_loop io (unat count) ?d2 = (r, bs, d')" "err_quiet io view \<longrightarrow> r = 0"
      "sectors (view d') = sectors (view d)" "capacity (view d') = capacity (view d)"
      "r = 0 \<longrightarrow> bs = concat (map (sectors (view d)) [unat lba ..< unat lba + unat count]) \<and> phase (view d') = Idle \<and> busy (view d') < 0x100000"
      using v2 n by auto
    then show ?thesis using rdy d0(1) d1(1) assms(3) unfolding ata_read_sectors_def by (simp add: drive_ready_def)
  qed
  show "\<exists>r d' j. ata_write_sectors io lba count buf d = (r, d') \<and> (err_quiet io view \<longrightarrow> r = 0) \<and>
      sectors (view d') = write_range (unat lba) (take (512 * j) buf) (sectors (view d)) \<and> capacity (view d') = capacity (view d) \<and>
      j \<le> unat count \<and> (r = 0 \<longrightarrow> j = unat count \<and> drive_ready (view d'))"
    if len: "length buf = 512 * unat count"
  proof -
    obtain d1 where d1: "ata_issue io ATA_CMD_WRITE lba count d0 = outb io 0x1F7 ATA_CMD_WRITE d1" "drive_lba (view d1) = unat lba"
      "drive_count (view d1) = unat count" "phase (view d1) = phase (view d0)" "sectors (view d1) = sectors (view d0)"
      "capacity (view d1) = capacity (view d0)"
      using ata_issue_view[OF assms(1) lba assms(3), of ATA_CMD_WRITE d0] by metis
    let ?d2 = "outb io 0x1F7 ATA_CMD_WRITE d1"
    have "settles (start_write (view d1)) (view ?d2)"
      using assms(1,4) d1 d0(2) rdy unfolding ata_protocol_def regs_wired_def ATA_CMD_WRITE_def by simp
    note s = settlesD[OF this]
    have v2: "phase (view ?d2) = Writing (unat lba) (unat count) []"
      "sectors (view ?d2) = sectors (view d)" "capacity (view ?d2) = capacity (view d)"
      using s d1 d0(2) by (simp_all add: start_write_def)
    have l2: "\<forall>k. length (sectors (view ?d2) k) = 512" using v2(2) rdy by simp
    have b: "length (slice (512 * (k - unat lba)) 512 buf) = 512" if "unat lba \<le> k" "k < unat lba + length buf div 512" for k
      using that len by (simp add: min_def) linarith
    obtain r d' j where d': "write_sectors_loop io (unat count) (words_of buf) ?d2 = (r, d')" "err_quiet io view \<longrightarrow> r = 0"
      "sectors (view d') = write_range (unat lba) (take (512 * j) buf) (sectors (view ?d2))" "capacity (view d') = capacity (view ?d2)"
      "j \<le> unat count" "r = 0 \<longrightarrow> j = unat count \<and> phase (view d') = Idle \<and> busy (view d') < 0x100000"
      using write_loop[OF assms(1) l2 s(1) _ _ len, of "unat lba"] v2(1) n by auto
    have "length (write_range (unat lba) buf (sectors (view d)) k) = 512" for k
      using b[of k] rdy by (simp add: write_range_def del: length_slice)
    then have "r = 0 \<longrightarrow> drive_ready (view d')" using d'(3,4,6) v2 rdy len by (simp add: drive_ready_def)
    then show ?thesis using d' v2 d0(1) d1(1) assms(3) unfolding ata_write_sectors_def by auto
  qed
qed

lemma ata_block_device:
  assumes "ata_wired io view"
  shows "block_device (ata_blk io) (\<lambda>d. drive_ready (view d)) (\<lambda>d. sectors (view d)) (\<lambda>d. capacity (view d))"
proof
  have w: "ata_protocol io view" "err_quiet io view" using assms by (simp_all add: ata_wired_def)
  fix d and lba :: u32 and count :: u8 and buf :: "u8 list"
  assume a: "drive_ready (view d)" "count \<noteq> 0" "unat lba + unat count \<le> capacity (view d)"
  show "\<exists>d'. rd (ata_blk io) lba count d = (0, concat (map (sectors (view d)) [unat lba ..< unat lba + unat count]), d') \<and>
      drive_ready (view d') \<and> sectors (view d') = sectors (view d) \<and> capacity (view d') = capacity (view d)"
    using ata_transfer(1)[OF w(1) a] w(2) by (auto simp: ata_blk_def)
  show "\<exists>d'. wr (ata_blk io) lba count buf d = (0, d') \<and> drive_ready (view d') \<and>
      sectors (view d') = write_range (unat lba) buf (sectors (view d)) \<and> capacity (view d') = capacity (view d)"
    if "length buf = 512 * unat count"
    using ata_transfer(2)[OF w(1) a that] w(2) that by (auto simp: ata_blk_def)
qed (simp_all add: drive_ready_def)

text \<open>
  C25. On every drive that keeps to the ATA protocol, reports no error when it is not busy and answers within the polling limit, a write
  of whole sectors within the capacity changes no other sector, and when it returns 0, a read of the same sectors that then
  returns 0 delivers exactly the bytes written. Both do return 0 when the drive also keeps the error bit clear while it is busy, which the
  standard does not promise.
\<close>
theorem ata_write_read:
  assumes "ata_protocol io view" "drive_ready (view d)" "count \<noteq> 0" "unat lba + unat count \<le> capacity (view d)"
    and "length buf = 512 * unat count"
  shows "\<exists>r d' r' bs d''. ata_write_sectors io lba count buf d = (r, d') \<and>
    (\<forall>k. k < unat lba \<or> k \<ge> unat lba + unat count \<longrightarrow> sectors (view d') k = sectors (view d) k) \<and>
    ata_read_sectors io lba count d' = (r', bs, d'') \<and>
    (r = 0 \<longrightarrow> r' = 0 \<longrightarrow> bs = buf \<and> drive_ready (view d'') \<and> sectors (view d'') = sectors (view d')) \<and>
    (err_quiet io view \<longrightarrow> r = 0 \<and> r' = 0)"
proof -
  obtain r d' j where d': "ata_write_sectors io lba count buf d = (r, d')" "err_quiet io view \<longrightarrow> r = 0"
    "sectors (view d') = write_range (unat lba) (take (512 * j) buf) (sectors (view d))" "capacity (view d') = capacity (view d)"
    "j \<le> unat count" "r = 0 \<longrightarrow> j = unat count \<and> drive_ready (view d')"
    using ata_transfer(2)[OF assms(1-4)] assms(5) by blast
  have "concat (map (write_range (unat lba) buf f) [unat lba ..< unat lba + unat count]) = buf" for f
    using assms(5) by (rule write_range_concat)
  then have "r = 0 \<longrightarrow> concat (map (sectors (view d')) [unat lba ..< unat lba + unat count]) = buf"
    using d'(3,6) assms(5) by simp
  moreover obtain r' bs d'' where rd: "ata_read_sectors io lba count d' = (r', bs, d'')" by (metis prod_cases3)
  moreover have "r = 0 \<longrightarrow> (err_quiet io view \<longrightarrow> r' = 0) \<and> sectors (view d'') = sectors (view d') \<and>
      (r' = 0 \<longrightarrow> bs = concat (map (sectors (view d')) [unat lba ..< unat lba + unat count]) \<and> drive_ready (view d''))"
    using ata_transfer(1)[OF assms(1) _ assms(3), of d' lba] rd assms(4) d'(4,6) by auto
  moreover have "sectors (view d') k = sectors (view d) k" if "k < unat lba \<or> k \<ge> unat lba + unat count" for k
    using that d'(3,5) assms(5) by (auto simp: write_range_def)
  ultimately show ?thesis using d'(1,2) by blast
qed

text \<open>A drive alone, which is busy for two polls after every command and sector.\<close>

definition ata_io :: "drive io" where
  "ata_io =
     \<lparr>inb = (\<lambda>port v.
        if port = 0x1F7 then (if busy v > 0 then 0x80 else if phase v = Idle then 0x40 else 0x48, v\<lparr>busy := busy v - 1\<rparr>)
        else (0, v)),
      outb = (\<lambda>port x v.
        if port = 0x1F2 then v\<lparr>r_count := x\<rparr> else if port = 0x1F3 then v\<lparr>r_low := x\<rparr>
        else if port = 0x1F4 then v\<lparr>r_mid := x\<rparr> else if port = 0x1F5 then v\<lparr>r_high := x\<rparr>
        else if port = 0x1F6 then v\<lparr>r_head := x\<rparr>
        else if port = 0x1F7 \<and> x = 0x20 then (start_read v)\<lparr>busy := 2\<rparr>
        else if port = 0x1F7 \<and> x = 0x30 then (start_write v)\<lparr>busy := 2\<rparr> else v),
      inw = (\<lambda>port v. case phase v of
          Reading L n (w # ws) \<Rightarrow>
            (w, if ws = [] then (after_read L n v)\<lparr>busy := 2\<rparr> else v\<lparr>phase := Reading L n ws\<rparr>)
        | _ \<Rightarrow> (0xFFFF, v)),
      outw = (\<lambda>port w v. case phase v of
          Writing L n ws \<Rightarrow>
            if length ws = 255 then (after_write L n (ws @ [w]) v)\<lparr>busy := 2\<rparr> else v\<lparr>phase := Writing L n (ws @ [w])\<rparr>
        | _ \<Rightarrow> v)\<rparr>"

lemma ata_io_wired: "ata_wired ata_io (\<lambda>d. d)"
  unfolding ata_wired_def ata_protocol_def err_quiet_def regs_wired_def status_wired_def data_wired_def ata_io_def
  by (simp add: settles_def start_read_def start_write_def after_read_def after_write_def)

interpretation ab: block_device "ata_blk ata_io" drive_ready sectors capacity
  using ata_block_device[OF ata_io_wired] by simp

definition blank_drive :: drive where
  "blank_drive = \<lparr>sectors = (\<lambda>_. replicate 512 0), capacity = 4096, r_count = 0, r_low = 0, r_mid = 0, r_high = 0,
     r_head = 0, phase = Idle, busy = 5\<rparr>"

lemma blank_drive_ready: "drive_ready blank_drive"
  by (simp add: drive_ready_def blank_drive_def)

theorem ata_write_read_witness:
  "\<exists>d' d''. ata_write_sectors ata_io 1000 2 (replicate 1024 7) blank_drive = (0, d') \<and>
     ata_read_sectors ata_io 1000 2 d' = (0, replicate 1024 7, d'')"
  using ata_write_read[of ata_io "\<lambda>d. d" blank_drive 2 1000 "replicate 1024 7"] blank_drive_ready ata_io_wired
  by (auto simp: blank_drive_def ata_wired_def)

section \<open>An error bit that means nothing\<close>

text \<open>
  The same drive with the error bit set in the status it reports while it is busy: it keeps to the protocol, has every sector, and
  the driver fails a read of it at the first poll.
\<close>

definition noisy_io :: "drive io" where
  "noisy_io = ata_io\<lparr>inb := (\<lambda>port v. if port = 0x1F7 \<and> busy v > 0 then (0x81, v\<lparr>busy := busy v - 1\<rparr>) else inb ata_io port v)\<rparr>"

lemma ata_err_while_busy:
  "ata_protocol noisy_io (\<lambda>d. d) \<and> drive_ready (blank_drive\<lparr>busy := 0\<rparr>) \<and>
   fst (ata_read_sectors noisy_io 0 1 (blank_drive\<lparr>busy := 0\<rparr>)) = -1"
proof (intro conjI)
  show "ata_protocol noisy_io (\<lambda>d. d)"
    unfolding ata_protocol_def regs_wired_def status_wired_def data_wired_def noisy_io_def ata_io_def
    by (simp add: settles_def start_read_def start_write_def after_read_def after_write_def)
  show "fst (ata_read_sectors noisy_io 0 1 (blank_drive\<lparr>busy := 0\<rparr>)) = -1"
    by (simp add: ata_read_sectors_def ata_wait_not_busy_def ata_wait_drq_def wait_not_busy_loop.simps[of _ "0x100000"] wait_drq_loop.simps[of _ "0x100000"]
        ata_issue_def noisy_io_def ata_io_def start_read_def blank_drive_def kconst Let_def)
qed (simp add: drive_ready_def blank_drive_def)

section \<open>Timeouts\<close>

lemma wait_not_busy_stuck:
  assumes "\<And>d. fst (inb io 0x1F7 d) AND 0x80 \<noteq> 0"
  shows "fst (wait_not_busy_loop io n d) = -1"
proof (induction n arbitrary: d)
  case (Suc n)
  obtain s d1 where p: "inb io 0x1F7 d = (s, d1)" by fastforce
  then have "s AND 0x80 \<noteq> 0" using assms[of d] by simp
  then show ?case using p Suc by (simp add: wait_not_busy_loop.simps[of io "Suc n"] kconst)
qed (simp add: wait_not_busy_loop.simps)

text \<open>
  A drive that never becomes ready does not hang the driver: after its bounded number of polls a read or
  write of any sectors fails with -1, and a read has stored nothing.
\<close>
theorem ata_timeout:
  assumes "\<And>d. fst (inb io 0x1F7 d) AND 0x80 \<noteq> 0" "count \<noteq> 0"
  shows "fst (ata_read_sectors io lba count d) = -1 \<and> fst (snd (ata_read_sectors io lba count d)) = [] \<and>
    fst (ata_write_sectors io lba count buf d) = -1"
  using wait_not_busy_stuck[of io "0x100000" d] assms
  by (simp add: ata_read_sectors_def ata_write_sectors_def ata_wait_not_busy_def split_beta Let_def)

theorem ata_timeout_witness:
  "fst (ata_read_sectors (ata_io\<lparr>inb := \<lambda>_ v. (0x80, v)\<rparr>) 0 1 blank_drive) = -1"
  using ata_timeout[of "ata_io\<lparr>inb := \<lambda>_ v. (0x80, v)\<rparr>" 1 0 blank_drive "[]"] by simp

end
