(* ===== verification/Fs.thy ===== *)
theory Fs
  imports Ata CString
begin

text \<open>
  The file system VesperFS, \<^verbatim>\<open>kernel/fs.c\<close>: a superblock, a directory of 64 entries and contiguous
  files, all through the two sector functions of the disk driver. On a well-formed disk the operations implement a finite
  map from names to contents.
\<close>

section \<open>The code\<close>

definition FS_START_LBA :: u32 where [kconst]: "FS_START_LBA = 129"
definition FS_DIR_SECTORS :: u32 where [kconst]: "FS_DIR_SECTORS = 8"
definition FS_MAX_FILES :: nat where [kconst]: "FS_MAX_FILES = 64"
definition FS_NAME_MAX :: nat where [kconst]: "FS_NAME_MAX = 31"
definition FS_SUPER_LBA :: u32 where [kconst]: "FS_SUPER_LBA = FS_START_LBA + 0"
definition FS_DIR_LBA :: u32 where [kconst]: "FS_DIR_LBA = FS_START_LBA + 1"
definition FS_DATA_LBA :: u32 where [kconst]: "FS_DATA_LBA = FS_START_LBA + 1 + FS_DIR_SECTORS"
definition FS_DIR_BYTES :: nat where [kconst]: "FS_DIR_BYTES = 4096"
definition FS_VERSION :: u32 where [kconst]: "FS_VERSION = 1"

text \<open>\<open>VESPERFS\<close>\<close>

definition FS_MAGIC :: "u8 list" where
  "FS_MAGIC = [0x56, 0x45, 0x53, 0x50, 0x45, 0x52, 0x46, 0x53]"

record fs_file =
  f_start_lba :: u32
  f_size :: u32
  f_pos :: u32
  f_valid :: bool

text \<open>The device and the two static buffers.\<close>

record 'd fs =
  fdev :: 'd
  dir_buf :: "u8 list"
  sector_buf :: "u8 list"

text \<open>What a read leaves in a buffer: the bytes transferred, then what was there.\<close>

definition fill :: "u8 list \<Rightarrow> u8 list \<Rightarrow> u8 list" where
  "fill bs buf = bs @ drop (length bs) buf"

text \<open>The superblock structure: magic, version, number of files and padding.\<close>

definition sb_magic :: "u8 list \<Rightarrow> u8 list" where "sb_magic sb = take 8 sb"
definition sb_version :: "u8 list \<Rightarrow> u32" where "sb_version sb = get32 sb 8"
definition sb_num_files :: "u8 list \<Rightarrow> u32" where "sb_num_files sb = get32 sb 12"
definition set_num_files :: "u32 \<Rightarrow> u8 list \<Rightarrow> u8 list" where "set_num_files n sb = put sb 12 (bytes32 n)"

definition read_super :: "'d blk \<Rightarrow> 'd fs \<Rightarrow> int \<times> u8 list \<times> 'd fs" where
  "read_super blk s =
     (let (r, sb, d) = rd blk FS_SUPER_LBA 1 (fdev s) in (if r \<noteq> 0 then -1 else 0, sb, s\<lparr>fdev := d\<rparr>))"

definition write_super :: "'d blk \<Rightarrow> u8 list \<Rightarrow> 'd fs \<Rightarrow> int \<times> 'd fs" where
  "write_super blk sb s = (let (r, d) = wr blk FS_SUPER_LBA 1 sb (fdev s) in (r, s\<lparr>fdev := d\<rparr>))"

definition read_dir :: "'d blk \<Rightarrow> 'd fs \<Rightarrow> int \<times> 'd fs" where
  "read_dir blk s =
     (let (r, bs, d) = rd blk FS_DIR_LBA (ucast FS_DIR_SECTORS) (fdev s)
      in (r, s\<lparr>fdev := d, dir_buf := fill bs (dir_buf s)\<rparr>))"

definition write_dir :: "'d blk \<Rightarrow> 'd fs \<Rightarrow> int \<times> 'd fs" where
  "write_dir blk s =
     (let (r, d) = wr blk FS_DIR_LBA (ucast FS_DIR_SECTORS) (dir_buf s) (fdev s) in (r, s\<lparr>fdev := d\<rparr>))"

text \<open>
  A directory entry is the bytes from its offset in the directory buffer on, so that reading its name
  runs on past the name field when no NUL stops it.
\<close>

definition dir_entry :: "'d fs \<Rightarrow> nat \<Rightarrow> u8 list" where
  "dir_entry s i = drop (i * 64) (dir_buf s)"

definition e_start_lba :: "u8 list \<Rightarrow> u32" where "e_start_lba e = get32 e 32"
definition e_size :: "u8 list \<Rightarrow> u32" where "e_size e = get32 e 36"
definition e_flags :: "u8 list \<Rightarrow> u32" where "e_flags e = get32 e 40"

definition e_active :: "u8 list \<Rightarrow> bool" where
  "e_active e \<longleftrightarrow> \<not> (e ! 0 = 0 \<or> e_flags e = 1)"

definition fs_format :: "'d blk \<Rightarrow> 'd fs \<Rightarrow> int \<times> 'd fs" where
  "fs_format blk s =
     (let sb = replicate 512 0;
          sb = put sb 0 FS_MAGIC;
          sb = put sb 8 (bytes32 FS_VERSION);
          sb = set_num_files 0 sb;
          (r, s) = write_super blk sb s
      in if r \<noteq> 0 then (-1, s) else write_dir blk (s\<lparr>dir_buf := replicate FS_DIR_BYTES 0\<rparr>))"

definition fs_init :: "'d blk \<Rightarrow> 'd fs \<Rightarrow> int \<times> 'd fs" where
  "fs_init blk s =
     (let (r, sb, s) = read_super blk s
      in if r \<noteq> 0 then (0, s)
         else (if memcmp (sb_magic sb) FS_MAGIC 8 = 0 \<and> sb_version sb = FS_VERSION then 1 else 0, s))"

definition fs_open :: "'d blk \<Rightarrow> fs_file \<Rightarrow> u8 list \<Rightarrow> 'd fs \<Rightarrow> int \<times> fs_file \<times> 'd fs" where
  "fs_open blk f name s =
     (let (r, s) = read_dir blk s
      in if r \<noteq> 0 then (-1, f, s)
         else case find (\<lambda>i. e_active (dir_entry s i) \<and> strcmp (dir_entry s i) name = 0) [0 ..< FS_MAX_FILES] of
             Some i \<Rightarrow> (0, \<lparr>f_start_lba = e_start_lba (dir_entry s i), f_size = e_size (dir_entry s i), f_pos = 0,
                           f_valid = True\<rparr>, s)
           | None \<Rightarrow> (-1, f, s))"

text \<open>The bytes one iteration of the read loop takes from its sector.\<close>

definition read_chunk :: "u32 \<Rightarrow> u32 \<Rightarrow> u32" where
  "read_chunk pos remaining =
     (let chunk = ATA_SECTOR_SIZE - pos mod ATA_SECTOR_SIZE in if chunk > remaining then remaining else chunk)"

text \<open>The read loop: the bytes delivered, the count that remains, the handle and the state.\<close>

function fs_read_loop :: "'d blk \<Rightarrow> u32 \<Rightarrow> fs_file \<Rightarrow> 'd fs \<Rightarrow> u8 list \<times> u32 \<times> fs_file \<times> 'd fs" where
  "fs_read_loop blk remaining f s =
     (if remaining = 0 then ([], remaining, f, s)
      else
        let file_sector = f_pos f div ATA_SECTOR_SIZE;
            sector_offset = f_pos f mod ATA_SECTOR_SIZE;
            disk_lba = f_start_lba f + file_sector;
            (r, bs, d) = rd blk disk_lba 1 (fdev s);
            s = s\<lparr>fdev := d, sector_buf := fill bs (sector_buf s)\<rparr>
        in if r \<noteq> 0 then ([], remaining, f, s)
           else
             let chunk = read_chunk (f_pos f) remaining;
                 out = take (unat chunk) (drop (unat sector_offset) (sector_buf s));
                 (rest, remaining, f, s) = fs_read_loop blk (remaining - chunk) (f\<lparr>f_pos := f_pos f + chunk\<rparr>) s
             in (out @ rest, remaining, f, s))"
  by pat_completeness auto

lemma chunk_pos: "(x :: u32) mod ATA_SECTOR_SIZE < ATA_SECTOR_SIZE"
  by (simp add: word_less_nat_alt unat_mod ATA_SECTOR_SIZE_def)

lemma read_chunk_bounds:
  assumes "remaining \<noteq> 0"
  shows "unat (read_chunk x remaining) = min (512 - unat x mod 512) (unat remaining)" "0 < unat (read_chunk x remaining)"
    "unat (remaining - read_chunk x remaining) = unat remaining - unat (read_chunk x remaining)"
proof -
  have m: "unat (x mod ATA_SECTOR_SIZE) = unat x mod 512" "unat x mod 512 < 512" by (simp_all add: unat_mod ATA_SECTOR_SIZE_def)
  have u: "unat (ATA_SECTOR_SIZE - x mod ATA_SECTOR_SIZE) = 512 - unat x mod 512"
    using less_imp_le[OF chunk_pos[of x]] m by (simp add: unat_sub ATA_SECTOR_SIZE_def)
  have r: "unat remaining > 0" using assms by (simp add: unat_gt_0)
  show c: "unat (read_chunk x remaining) = min (512 - unat x mod 512) (unat remaining)"
    using u by (simp add: read_chunk_def Let_def min_def word_less_nat_alt)
  show "0 < unat (read_chunk x remaining)" unfolding c using m r by simp
  have "read_chunk x remaining \<le> remaining" using c by (simp add: word_le_nat_alt)
  then show "unat (remaining - read_chunk x remaining) = unat remaining - unat (read_chunk x remaining)" by (simp add: unat_sub)
qed

lemma read_chunk_decreases: "remaining \<noteq> 0 \<Longrightarrow> unat (remaining - read_chunk x remaining) < unat remaining"
  using read_chunk_bounds[of remaining x] by simp

termination fs_read_loop
  by (relation "measure (\<lambda>(blk, remaining, f, s). unat remaining)") (simp_all add: read_chunk_decreases)

declare fs_read_loop.simps [simp del]

definition fs_read :: "'d blk \<Rightarrow> fs_file \<Rightarrow> u32 \<Rightarrow> 'd fs \<Rightarrow> u32 \<times> u8 list \<times> fs_file \<times> 'd fs" where
  "fs_read blk f len s =
     (if \<not> f_valid f \<or> f_pos f \<ge> f_size f then (0, [], f, s)
      else
        let len = (if len > f_size f - f_pos f then f_size f - f_pos f else len);
            (out, remaining, f, s) = fs_read_loop blk len f s
        in (len - remaining, out, f, s))"

definition fs_close :: "fs_file \<Rightarrow> fs_file" where
  "fs_close f = f\<lparr>f_valid := False\<rparr>"

text \<open>
  The scan of \<^verbatim>\<open>fs_write_new\<close> over the directory: the slot to use (negative for none), whether it
  replaces a file, and the end of the data in use.
\<close>

definition e_end :: "u8 list \<Rightarrow> u32" where
  "e_end e = e_start_lba e + (e_size e + ATA_SECTOR_SIZE - 1) div ATA_SECTOR_SIZE"

definition scan_step :: "'d fs \<Rightarrow> u8 list \<Rightarrow> nat \<Rightarrow> int \<times> bool \<times> u32 \<Rightarrow> int \<times> bool \<times> u32" where
  "scan_step s name i a =
     (let (target_slot, is_overwrite, next_data_lba) = a; e = dir_entry s i
      in if e_active e then
           let (target_slot, is_overwrite) =
                 (if strcmp e name = 0 then (int i, True) else (target_slot, is_overwrite))
           in (target_slot, is_overwrite, if e_end e > next_data_lba then e_end e else next_data_lba)
         else if target_slot < 0 then (int i, is_overwrite, next_data_lba)
         else (target_slot, is_overwrite, next_data_lba))"

text \<open>One sector's worth of data, zero-filled; and the loop that writes the file's sectors.\<close>

definition sector_of :: "u8 list \<Rightarrow> u8 list" where
  "sector_of data = take 512 data @ replicate (512 - length data) 0"

fun write_data_loop :: "'d blk \<Rightarrow> u32 \<Rightarrow> nat \<Rightarrow> u8 list \<Rightarrow> 'd fs \<Rightarrow> int \<times> 'd fs" where
  "write_data_loop blk lba 0 data s = (0, s)"
| "write_data_loop blk lba (Suc n) data s =
     (let s = s\<lparr>sector_buf := sector_of data\<rparr>;
          (r, d) = wr blk lba 1 (sector_buf s) (fdev s);
          s = s\<lparr>fdev := d\<rparr>
      in if r \<noteq> 0 then (-1, s) else write_data_loop blk (lba + 1) n (drop 512 data) s)"

text \<open>The entry the function stores: name, start, size, flags and the reserved bytes.\<close>

definition new_entry :: "u8 list \<Rightarrow> u32 \<Rightarrow> u32 \<Rightarrow> u8 list" where
  "new_entry name lba len = strncpy name FS_NAME_MAX @ [0] @ bytes32 lba @ bytes32 len @ bytes32 0 @ replicate 20 0"

text \<open>\<open>data\<close> are the \<^verbatim>\<open>len\<close> bytes of the caller's buffer.\<close>

definition empty_name :: "u8 list \<Rightarrow> bool" where
  "empty_name name \<longleftrightarrow> name = [] \<or> name ! 0 = 0"

text \<open>The second half of \<^verbatim>\<open>fs_write_new\<close>: data sectors, directory entry, superblock.\<close>

definition fs_store :: "'d blk \<Rightarrow> u8 list \<Rightarrow> u8 list \<Rightarrow> u8 list \<Rightarrow> int \<times> bool \<times> u32 \<Rightarrow> 'd fs \<Rightarrow> int \<times> 'd fs" where
  "fs_store blk name data sb found s =
     (let (target_slot, is_overwrite, next_data_lba) = found;
          len = of_nat (length data);
          sectors_needed = (len + ATA_SECTOR_SIZE - 1) div ATA_SECTOR_SIZE;
          (r, s) = write_data_loop blk next_data_lba (unat sectors_needed) data s
      in if r \<noteq> 0 then (-1, s)
      else let s = s\<lparr>dir_buf := put (dir_buf s) (nat target_slot * 64) (new_entry name next_data_lba len)\<rparr>;
               (r, s) = write_dir blk s
      in if r \<noteq> 0 then (-1, s)
      else let sb = (if \<not> is_overwrite then set_num_files (sb_num_files sb + 1) sb else sb)
      in write_super blk sb s)"

definition fs_write_new :: "'d blk \<Rightarrow> u8 list \<Rightarrow> u8 list \<Rightarrow> 'd fs \<Rightarrow> int \<times> 'd fs" where
  "fs_write_new blk name data s =
     (if empty_name name then (-1, s)
      else let (r, sb, s) = read_super blk s
      in if r \<noteq> 0 then (-1, s)
      else let (r, s) = read_dir blk s
      in if r \<noteq> 0 then (-1, s)
      else if memcmp (sb_magic sb) FS_MAGIC 8 \<noteq> 0 then (-1, s)
      else let found = fold (scan_step s name) [0 ..< FS_MAX_FILES] (-1, False, FS_DATA_LBA)
      in if fst found < 0 then (-1, s) else fs_store blk name data sb found s)"

definition fs_delete :: "'d blk \<Rightarrow> u8 list \<Rightarrow> 'd fs \<Rightarrow> int \<times> 'd fs" where
  "fs_delete blk name s =
     (if empty_name name then (-1, s)
      else let (r, s) = read_dir blk s
      in if r \<noteq> 0 then (-1, s)
      else case find (\<lambda>i. e_active (dir_entry s i) \<and> strcmp (dir_entry s i) name = 0) [0 ..< FS_MAX_FILES] of
          None \<Rightarrow> (-1, s)
        | Some i \<Rightarrow>
            let s = s\<lparr>dir_buf := put (dir_buf s) (i * 64 + 40) (bytes32 1)\<rparr>;
                (r, s) = write_dir blk s
            in if r \<noteq> 0 then (-1, s)
               else let (r, sb, s) = read_super blk s
               in if r = 0 \<and> sb_num_files sb > 0
                  then let (_, s) = write_super blk (set_num_files (sb_num_files sb - 1) sb) s in (0, s)
                  else (0, s))"

end
