(* ===== verification/Fs_Correct.thy ===== *)
theory Fs_Correct
  imports Fs
begin

text \<open>
  The abstract view of a VesperFS disk, a partial map from names to contents, and the proof that the operations of
  \<^verbatim>\<open>kernel/fs.c\<close> implement lookup, update and deletion on it. The lemmas are proved for any
  block device and instantiated with the disk driver.
\<close>

section \<open>What a disk holds\<close>

definition dir_of :: "(nat \<Rightarrow> u8 list) \<Rightarrow> u8 list" where
  "dir_of D = concat (map D [130 ..< 138])"

text \<open>Entry \<open>i\<close> of a directory of 4096 bytes.\<close>

definition bent :: "u8 list \<Rightarrow> nat \<Rightarrow> u8 list" where
  "bent B i = slice (i * 64) 64 B"

definition nsec :: "nat \<Rightarrow> nat" where
  "nsec n = (n + 511) div 512"

definition file_bytes :: "(nat \<Rightarrow> u8 list) \<Rightarrow> nat \<Rightarrow> nat \<Rightarrow> u8 list" where
  "file_bytes D L n = take n (concat (map D [L ..< L + nsec n]))"

definition e_matches :: "u8 list \<Rightarrow> u8 list \<Rightarrow> nat \<Rightarrow> bool" where
  "e_matches B n i \<longleftrightarrow> e_active (bent B i) \<and> cstr (bent B i) = n"

definition fs_view :: "(nat \<Rightarrow> u8 list) \<Rightarrow> u8 list \<Rightarrow> u8 list option" where
  "fs_view D n =
     map_option (\<lambda>i. let e = bent (dir_of D) i in file_bytes D (unat (e_start_lba e)) (unat (e_size e)))
       (find (e_matches (dir_of D) n) [0 ..< 64])"

text \<open>
  A well-formed disk: the superblock has the magic and counts the files; every file in use has a terminated
  name and lies in the data area; no two have the same name.
\<close>

definition entry_ok :: "nat \<Rightarrow> u8 list \<Rightarrow> bool" where
  "entry_ok cap e \<longleftrightarrow> e ! 31 = 0 \<and> 138 \<le> unat (e_start_lba e) \<and> unat (e_size e) + 511 < 4294967296 \<and>
     unat (e_start_lba e) + nsec (unat (e_size e)) \<le> cap"

definition dir_ok :: "nat \<Rightarrow> u8 list \<Rightarrow> bool" where
  "dir_ok cap B \<longleftrightarrow> length B = 4096 \<and> (\<forall>i < 64. e_active (bent B i) \<longrightarrow> entry_ok cap (bent B i)) \<and>
     (\<forall>i < 64. \<forall>j < 64. \<forall>n. e_matches B n i \<and> e_matches B n j \<longrightarrow> i = j)"

definition active_count :: "u8 list \<Rightarrow> nat" where
  "active_count B = length (filter (\<lambda>i. e_active (bent B i)) [0 ..< 64])"

definition super_ok :: "nat \<Rightarrow> u8 list \<Rightarrow> bool" where
  "super_ok n sb \<longleftrightarrow> length sb = 512 \<and> sb_magic sb = FS_MAGIC \<and> sb_version sb = FS_VERSION \<and> sb_num_files sb = of_nat n"

definition fs_wf :: "nat \<Rightarrow> (nat \<Rightarrow> u8 list) \<Rightarrow> bool" where
  "fs_wf cap D \<longleftrightarrow> 138 \<le> cap \<and> cap \<le> 0x10000000 \<and> super_ok (active_count (dir_of D)) (D 129) \<and> dir_ok cap (dir_of D)"

section \<open>Directory entries\<close>

lemma entry_fields:
  assumes "length B = 4096" "i < 64"
  shows "length (bent B i) = 64" "drop (i * 64) B ! 0 = bent B i ! 0"
    "e_start_lba (drop (i * 64) B) = e_start_lba (bent B i)" "e_size (drop (i * 64) B) = e_size (bent B i)"
    "e_flags (drop (i * 64) B) = e_flags (bent B i)" "e_active (drop (i * 64) B) = e_active (bent B i)"
    "bent B i ! 31 = 0 \<Longrightarrow> cstr (drop (i * 64) B) = cstr (bent B i)"
proof -
  have l: "i * 64 + 64 \<le> length B" using assms by simp
  show len: "length (bent B i) = 64" using l by (simp add: bent_def)
  show z: "drop (i * 64) B ! 0 = bent B i ! 0" using l by (simp add: bent_def slice_def)
  have g: "get32 (drop (i * 64) B) k = get32 (bent B i) k" if "k + 4 \<le> 64" for k
    using get32_slice[OF that, of "i * 64" B] l by (simp add: bent_def get32_def add.commute)
  show st: "e_start_lba (drop (i * 64) B) = e_start_lba (bent B i)" "e_size (drop (i * 64) B) = e_size (bent B i)"
    "e_flags (drop (i * 64) B) = e_flags (bent B i)"
    by (simp_all add: e_start_lba_def e_size_def e_flags_def g)
  show "e_active (drop (i * 64) B) = e_active (bent B i)" by (simp add: e_active_def z st(3))
  show "cstr (drop (i * 64) B) = cstr (bent B i)" if "bent B i ! 31 = 0"
  proof -
    have "bent B i ! 31 \<in> set (bent B i)" using len by (intro nth_mem) simp
    then have "0 \<in> set (bent B i)" using that by simp
    moreover have "drop (i * 64) B = bent B i @ drop 64 (drop (i * 64) B)"
      unfolding bent_def slice_def by (rule append_take_drop_id[symmetric])
    ultimately show ?thesis unfolding cstr_def by (metis (mono_tags, lifting) takeWhile_append1)
  qed
qed

lemma bent_put:
  assumes "length B = 4096" "i < 64" "j < 64" "length e = 64"
  shows "bent (put B (i * 64) e) j = (if j = i then e else bent B j)"
proof -
  have l: "i * 64 + length e \<le> length B" "j * 64 + 64 \<le> length B" using assms by simp_all
  show ?thesis
  proof (cases "j = i")
    case True
    then show ?thesis using slice_put_same[OF l(1)] assms(4) by (simp add: bent_def)
  next
    case False
    then have "j * 64 + 64 \<le> i * 64 \<or> i * 64 + length e \<le> j * 64" using assms(4) by auto
    then show ?thesis using slice_put_other[OF l(1) _ l(2)] False by (simp add: bent_def)
  qed
qed

text \<open>With distinct names the first match is the only one.\<close>

lemma find_matches_iff:
  assumes "dir_ok cap B"
  shows "find (e_matches B n) [0 ..< 64] = Some i \<longleftrightarrow> i < 64 \<and> e_matches B n i"
    and "find (e_matches B n) [0 ..< 64] = None \<longleftrightarrow> (\<forall>i < 64. \<not> e_matches B n i)"
proof -
  have d: "i = j" if "i < 64" "j < 64" "e_matches B n i" "e_matches B n j" for i j
    using assms that unfolding dir_ok_def by blast
  show none: "find (e_matches B n) [0 ..< 64] = None \<longleftrightarrow> (\<forall>i < 64. \<not> e_matches B n i)"
    by (simp only: find_None_iff set_upt atLeastLessThan_iff le0 simp_thms not_ex de_Morgan_conj imp_conv_disj)
  have "i < 64 \<and> e_matches B n i" if "find (e_matches B n) [0 ..< 64] = Some i" for i
    using that by (simp only: find_Some_iff length_upt) (force simp: nth_upt)
  moreover have "find (e_matches B n) [0 ..< 64] = Some i" if "i < 64" "e_matches B n i" for i
  proof (cases "find (e_matches B n) [0 ..< 64]")
    case None
    then show ?thesis using none that by blast
  next
    case (Some j)
    then show ?thesis using calculation[OF Some] d[of i j] that by simp
  qed
  ultimately show "find (e_matches B n) [0 ..< 64] = Some i \<longleftrightarrow> i < 64 \<and> e_matches B n i" by blast
qed

lemma nsec_bounds: "n \<le> 512 * nsec n" "512 * nsec n < n + 512"
  unfolding nsec_def by linarith+

lemma nsec_u32:
  assumes "unat x + 511 < 4294967296"
  shows "unat ((x + ATA_SECTOR_SIZE - 1) div ATA_SECTOR_SIZE) = nsec (unat x)"
proof -
  have "unat (x + 511) = unat x + 511" using assms unat_plus_u32[of x 511] by simp
  moreover have e: "x + ATA_SECTOR_SIZE - 1 = x + 511" by (simp add: ATA_SECTOR_SIZE_def)
  ultimately show ?thesis unfolding e unat_div nsec_def by (simp add: ATA_SECTOR_SIZE_def)
qed

lemma unat_e_end:
  assumes "entry_ok cap e" "cap \<le> 0x10000000"
  shows "unat (e_end e) = unat (e_start_lba e) + nsec (unat (e_size e))"
proof -
  have "unat ((e_size e + ATA_SECTOR_SIZE - 1) div ATA_SECTOR_SIZE) = nsec (unat (e_size e))"
    using assms by (intro nsec_u32) (simp add: entry_ok_def)
  then show ?thesis
    using assms unat_plus_u32[of "e_start_lba e" "(e_size e + ATA_SECTOR_SIZE - 1) div ATA_SECTOR_SIZE"]
    by (simp add: entry_ok_def e_end_def)
qed

text \<open>The data of a file does not depend on sectors outside it.\<close>

lemma file_bytes_cong: "(\<And>k. L \<le> k \<Longrightarrow> k < L + nsec n \<Longrightarrow> D k = D' k) \<Longrightarrow> file_bytes D L n = file_bytes D' L n"
  unfolding file_bytes_def by (metis (mono_tags, lifting) atLeastLessThan_iff map_cong set_upt)

text \<open>Sectors written one after the other hold the data.\<close>

lemma sectors_of_data:
  "length data \<le> 512 * n \<Longrightarrow> take (length data) (concat (map (\<lambda>k. sector_of (drop (512 * (k - L)) data)) [L ..< L + n])) = data"
proof (induction n arbitrary: L data)
  case (Suc n)
  have "map (\<lambda>k. sector_of (drop (512 * (k - L)) data)) [Suc L ..< Suc L + n] =
      map (\<lambda>k. sector_of (drop (512 * (k - Suc L)) (drop 512 data))) [Suc L ..< Suc L + n]"
  proof (rule map_cong[OF refl])
    fix k assume "k \<in> set [Suc L ..< Suc L + n]"
    then have "512 * (k - L) = 512 * (k - Suc L) + 512" by auto
    then show "sector_of (drop (512 * (k - L)) data) = sector_of (drop (512 * (k - Suc L)) (drop 512 data))"
      by simp
  qed
  moreover have "[L ..< L + Suc n] = L # [Suc L ..< Suc L + n]" using upt_conv_Cons[of L "L + Suc n"] by simp
  ultimately have e: "concat (map (\<lambda>k. sector_of (drop (512 * (k - L)) data)) [L ..< L + Suc n]) =
      sector_of data @ concat (map (\<lambda>k. sector_of (drop (512 * (k - Suc L)) (drop 512 data))) [Suc L ..< Suc L + n])"
    by (simp only: list.map concat.simps diff_self_eq_0 mult_0_right drop_0)
  show ?case
  proof (cases "length data \<le> 512")
    case True
    then show ?thesis unfolding e by (simp add: sector_of_def)
  next
    case False
    have "take (length data - 512) (concat (map (\<lambda>k. sector_of (drop (512 * (k - Suc L)) (drop 512 data))) [Suc L ..< Suc L + n])) =
        drop 512 data"
      using Suc.IH[of "drop 512 data" "Suc L"] Suc.prems by (simp del: upt_Suc)
    then show ?thesis unfolding e using False by (simp add: sector_of_def del: upt_Suc)
  qed
qed simp

lemma length_concat_sectors: "(\<And>k. length (D k) = 512) \<Longrightarrow> length (concat (map D [L ..< L + n])) = 512 * n"
  by (induction n) simp_all

lemma concat_sectors_drop:
  assumes "\<And>k. length (D k) = 512" "q < n" "r \<le> 512"
  shows "drop (512 * q + r) (concat (map D [L ..< L + n])) = drop r (D (L + q)) @ concat (map D [Suc (L + q) ..< L + n])"
proof -
  have "[L ..< L + n] = [L ..< L + q] @ (L + q) # [Suc (L + q) ..< L + n]"
    using upt_add_eq_append[of L "L + q" "n - q"] upt_conv_Cons[of "L + q" "L + n"] assms(2) by simp
  then have "concat (map D [L ..< L + n]) = concat (map D [L ..< L + q]) @ D (L + q) @ concat (map D [Suc (L + q) ..< L + n])"
    by simp
  moreover have "length (concat (map D [L ..< L + q])) = 512 * q" using assms(1) by (rule length_concat_sectors)
  ultimately show ?thesis using assms by simp
qed

lemma file_bytes_chunk:
  assumes "\<And>k. length (D k) = 512" "pos + c \<le> sz" "c \<le> 512 - pos mod 512" "0 < c"
  shows "take c (drop pos (file_bytes D L sz)) = take c (drop (pos mod 512) (D (L + pos div 512)))"
proof -
  have q: "pos div 512 < nsec sz" using assms(2,4) unfolding nsec_def by linarith
  have "take c (drop pos (file_bytes D L sz)) = take c (drop pos (concat (map D [L ..< L + nsec sz])))"
    using assms(2) by (simp add: file_bytes_def drop_take min_def)
  also have "drop pos (concat (map D [L ..< L + nsec sz])) =
      drop (pos mod 512) (D (L + pos div 512)) @ concat (map D [Suc (L + pos div 512) ..< L + nsec sz])"
    using concat_sectors_drop[of D "pos div 512" "nsec sz" "pos mod 512" L] assms(1) q by simp
  finally show ?thesis using assms(1,3) by simp
qed

lemma length_file_bytes: "(\<And>k. length (D k) = 512) \<Longrightarrow> length (file_bytes D L sz) = sz"
  using nsec_bounds(1)[of sz] length_concat_sectors[of D L "nsec sz"] by (simp add: file_bytes_def)

lemma write_range_single: "length sb = 512 \<Longrightarrow> write_range L sb D = D(L := sb)"
  by (auto simp: write_range_def slice_def)

lemma dir_of_cong: "(\<And>k. 130 \<le> k \<Longrightarrow> k < 138 \<Longrightarrow> D k = D' k) \<Longrightarrow> dir_of D = dir_of D'"
  unfolding dir_of_def by (metis (mono_tags, lifting) atLeastLessThan_iff map_cong set_upt)

lemma dir_of_write: "length B = 4096 \<Longrightarrow> dir_of (write_range 130 B D) = B"
  using write_range_concat[of B 8 130 D] by (simp add: dir_of_def)

lemma new_entry_facts:
  fixes lba len :: u32
  assumes "cstr name \<noteq> []" "length (cstr name) \<le> 31"
  defines "e \<equiv> new_entry name lba len"
  shows "length e = 64" "e_start_lba e = lba" "e_size e = len" "e_active e" "cstr e = cstr name" "e ! 31 = 0"
proof -
  have s: "length (strncpy name FS_NAME_MAX) = 31" by (simp add: FS_NAME_MAX_def)
  show "length e = 64" using s by (simp add: e_def new_entry_def)
  have d: "drop 32 e = bytes32 lba @ bytes32 len @ bytes32 0 @ replicate 20 0"
    "drop 36 e = bytes32 len @ bytes32 0 @ replicate 20 0" "drop 40 e = bytes32 0 @ replicate 20 0"
    using s by (simp_all add: e_def new_entry_def FS_NAME_MAX_def)
  show "e_start_lba e = lba" "e_size e = len"
    unfolding e_start_lba_def e_size_def get32_def d by simp_all
  have f: "e_flags e = 0" unfolding e_flags_def get32_def d by simp
  show c: "cstr e = cstr name"
    unfolding e_def new_entry_def append_Cons append_Nil cstr_strncpy_nul using assms(2) by (simp add: FS_NAME_MAX_def)
  have "e ! 0 \<noteq> 0" using c assms(1) by (cases e) (auto split: if_splits)
  then show "e_active e" using f by (simp add: e_active_def)
  show "e ! 31 = 0" using s by (simp add: e_def new_entry_def nth_append FS_NAME_MAX_def)
qed

text \<open>Replacing one entry of the directory, by one in use under the name \<open>n\<close> or by one not in use.\<close>

definition replaces :: "nat \<Rightarrow> u8 list \<Rightarrow> nat \<Rightarrow> u8 list \<Rightarrow> u8 list \<Rightarrow> bool" where
  "replaces cap B i e n \<longleftrightarrow> dir_ok cap B \<and> i < 64 \<and> length e = 64 \<and> (e_active e \<longrightarrow> entry_ok cap e \<and> cstr e = n) \<and>
     (\<forall>j < 64. j \<noteq> i \<longrightarrow> \<not> e_matches B n j) \<and> (e_active (bent B i) \<longrightarrow> cstr (bent B i) = n)"

lemma replacesD:
  assumes "replaces cap B i e n"
  shows "dir_ok cap B" "i < 64" "length e = 64" "e_active e \<Longrightarrow> entry_ok cap e \<and> cstr e = n"
    "j < 64 \<Longrightarrow> j \<noteq> i \<Longrightarrow> \<not> e_matches B n j" "e_active (bent B i) \<Longrightarrow> cstr (bent B i) = n" "length B = 4096"
  using assms by (auto simp: replaces_def dir_ok_def)

lemma replace_bent:
  "replaces cap B i e n \<Longrightarrow> j < 64 \<Longrightarrow> bent (put B (i * 64) e) j = (if j = i then e else bent B j)"
  using bent_put replacesD(2,3,7) by metis

lemma replace_matches:
  assumes "replaces cap B i e n" "j < 64"
  shows "e_matches (put B (i * 64) e) m j \<longleftrightarrow> (if j = i then e_active e \<and> m = n else e_matches B m j)"
  using replace_bent[OF assms] replacesD(4)[OF assms(1)] by (auto simp: e_matches_def)

lemma replace_dir:
  assumes "replaces cap B i e n"
  shows "dir_ok cap (put B (i * 64) e)"
  unfolding dir_ok_def
proof (intro conjI allI impI)
  show "length (put B (i * 64) e) = 4096" using replacesD[OF assms] by (subst length_put) simp_all
next
  fix j assume "j < 64" "e_active (bent (put B (i * 64) e) j)"
  then show "entry_ok cap (bent (put B (i * 64) e) j)"
    using replace_bent[OF assms] replacesD[OF assms] by (auto simp: dir_ok_def split: if_splits)
next
  fix j k m assume jk: "j < 64" "k < 64" "e_matches (put B (i * 64) e) m j \<and> e_matches (put B (i * 64) e) m k"
  then have "(if j = i then m = n else e_matches B m j)" "(if k = i then m = n else e_matches B m k)"
    using replace_matches[OF assms] by auto
  moreover have "j = k" if "e_matches B m j" "e_matches B m k"
    using replacesD(1)[OF assms] jk(1,2) that unfolding dir_ok_def by blast
  ultimately show "j = k" using replacesD(5)[OF assms] jk(1,2) by (auto split: if_splits)
qed

lemma replace_find:
  assumes "replaces cap B i e n" "m \<noteq> n"
  shows "find (e_matches (put B (i * 64) e) m) [0 ..< 64] = find (e_matches B m) [0 ..< 64]"
proof (rule find_cong[OF refl])
  fix j :: nat assume "j \<in> set [0 ..< 64]"
  then have j: "j < 64" by (simp only: set_upt atLeastLessThan_iff)
  have "\<not> e_matches B m i" using replacesD(6)[OF assms(1)] assms(2) by (auto simp: e_matches_def)
  then show "e_matches (put B (i * 64) e) m j = e_matches B m j" using replace_matches[OF assms(1) j] assms(2) by auto
qed

lemma replace_view:
  assumes "replaces cap (dir_of D) i e n" "dir_of D' = put (dir_of D) (i * 64) e"
    and "\<And>j. j < 64 \<Longrightarrow> j \<noteq> i \<Longrightarrow> e_active (bent (dir_of D) j) \<Longrightarrow>
      file_bytes D' (unat (e_start_lba (bent (dir_of D) j))) (unat (e_size (bent (dir_of D) j))) =
      file_bytes D (unat (e_start_lba (bent (dir_of D) j))) (unat (e_size (bent (dir_of D) j)))"
  shows "fs_view D' = (fs_view D)(n := (if e_active e then Some (file_bytes D' (unat (e_start_lba e)) (unat (e_size e))) else None))"
proof
  fix m
  note R = replacesD[OF assms(1)]
  show "fs_view D' m = ((fs_view D)(n := (if e_active e then Some (file_bytes D' (unat (e_start_lba e)) (unat (e_size e))) else None))) m"
  proof (cases "m = n")
    case True
    have "find (e_matches (put (dir_of D) (i * 64) e) n) [0 ..< 64] = (if e_active e then Some i else None)"
      using find_matches_iff[OF replace_dir[OF assms(1)]] replace_matches[OF assms(1), of _ n] R(2,5) by (auto split: if_splits)
    then show ?thesis using True assms(2) replace_bent[OF assms(1) R(2)] by (simp add: fs_view_def Let_def)
  next
    case False
    note f = replace_find[OF assms(1) False]
    show ?thesis
    proof (cases "find (e_matches (dir_of D) m) [0 ..< 64]")
      case None
      then show ?thesis using False f assms(2) by (simp add: fs_view_def)
    next
      case (Some j)
      then have j: "j < 64" "e_matches (dir_of D) m j" using find_matches_iff(1)[OF R(1)] by simp_all
      then have "j \<noteq> i" using R(6) False by (auto simp: e_matches_def)
      then show ?thesis using False f Some assms(2,3) j replace_bent[OF assms(1) j(1)]
        by (simp add: fs_view_def Let_def e_matches_def)
    qed
  qed
qed

lemma replace_count:
  assumes "replaces cap B i e n"
  shows "active_count (put B (i * 64) e) + (if e_active (bent B i) then 1 else 0) = active_count B + (if e_active e then 1 else 0)"
proof -
  note i = replacesD(2)[OF assms]
  have c: "active_count X = card {j. j < 64 \<and> j \<noteq> i \<and> e_active (bent X j)} + (if e_active (bent X i) then 1 else 0)" for X
  proof -
    have "active_count X = card ({j. e_active (bent X j)} \<inter> set [0 ..< 64])"
      unfolding active_count_def by (rule distinct_length_filter) (rule distinct_upt)
    also have "{j. e_active (bent X j)} \<inter> set [0 ..< 64] =
        {j. j < 64 \<and> j \<noteq> i \<and> e_active (bent X j)} \<union> (if e_active (bent X i) then {i} else {})"
      using i unfolding set_upt by auto
    also have "card \<dots> = card {j. j < 64 \<and> j \<noteq> i \<and> e_active (bent X j)} + (if e_active (bent X i) then 1 else 0)"
      by (simp add: card_insert_if)
    finally show ?thesis .
  qed
  have "{j. j < 64 \<and> j \<noteq> i \<and> e_active (bent (put B (i * 64) e) j)} = {j. j < 64 \<and> j \<noteq> i \<and> e_active (bent B j)}"
    using replace_bent[OF assms] by auto
  then show ?thesis using c[of B] c[of "put B (i * 64) e"] replace_bent[OF assms i] by simp
qed

lemma set_num_files_ok:
  assumes "super_ok m sb"
  shows "super_ok n (set_num_files (of_nat n) sb)"
proof -
  have l: "length sb = 512" using assms by (simp add: super_ok_def)
  have "take 8 (set_num_files (of_nat n) sb) = take 8 sb" by (simp add: set_num_files_def put_def l)
  moreover have "get32 (set_num_files (of_nat n) sb) 8 = get32 sb 8"
    unfolding get32_def le32_def set_num_files_def put_def using l by (simp add: nth_append)
  moreover have "drop 12 (set_num_files (of_nat n) sb) = bytes32 (of_nat n) @ drop 16 sb"
    using l by (simp add: set_num_files_def put_def)
  ultimately show ?thesis using assms l
    by (simp add: super_ok_def sb_magic_def sb_version_def sb_num_files_def get32_def[of _ 12] set_num_files_def)
qed

lemma commit:
  fixes D :: "nat \<Rightarrow> u8 list" and B sb :: "u8 list"
  assumes "length B = 4096"
  defines "D' \<equiv> (write_range 130 B D)(129 := sb)"
  shows "dir_of D' = B" "D' 129 = sb" "138 \<le> k \<Longrightarrow> D' k = D k"
proof -
  have "dir_of D' = dir_of (write_range 130 B D)" by (rule dir_of_cong) (simp add: D'_def)
  then show "dir_of D' = B" using dir_of_write[OF assms(1)] by simp
  show "D' 129 = sb" "138 \<le> k \<Longrightarrow> D' k = D k" using assms(1) by (simp_all add: D'_def write_range_def)
qed

text \<open>Room for a file of \<open>n\<close> bytes behind all others.\<close>

definition fs_room :: "nat \<Rightarrow> (nat \<Rightarrow> u8 list) \<Rightarrow> nat \<Rightarrow> bool" where
  "fs_room cap D n \<longleftrightarrow> 138 + nsec n \<le> cap \<and>
     (\<forall>i < 64. e_active (bent (dir_of D) i) \<longrightarrow> unat (e_end (bent (dir_of D) i)) + nsec n \<le> cap)"

definition dir_full :: "(nat \<Rightarrow> u8 list) \<Rightarrow> bool" where
  "dir_full D \<longleftrightarrow> (\<forall>i < 64. e_active (bent (dir_of D) i))"

text \<open>What the scan of the directory finds, on a directory with distinct names.\<close>

definition slot_scanned :: "u8 list \<Rightarrow> u8 list \<Rightarrow> nat \<Rightarrow> int \<Rightarrow> bool \<Rightarrow> bool" where
  "slot_scanned B n k t ov \<longleftrightarrow>
     (if ov then \<exists>i < k. e_matches B n i \<and> t = int i
      else (\<forall>i < k. \<not> e_matches B n i) \<and>
        (t = -1 \<and> (\<forall>i < k. e_active (bent B i)) \<or> (\<exists>i < k. \<not> e_active (bent B i) \<and> t = int i)))"

definition end_scanned :: "u8 list \<Rightarrow> nat \<Rightarrow> u32 \<Rightarrow> bool" where
  "end_scanned B k nx \<longleftrightarrow> 138 \<le> unat nx \<and> (\<forall>i < k. e_active (bent B i) \<longrightarrow> unat (e_end (bent B i)) \<le> unat nx) \<and>
     (unat nx = 138 \<or> (\<exists>i < k. e_active (bent B i) \<and> nx = e_end (bent B i)))"

definition scanned :: "u8 list \<Rightarrow> u8 list \<Rightarrow> nat \<Rightarrow> int \<times> bool \<times> u32 \<Rightarrow> bool" where
  "scanned B n k a \<longleftrightarrow> (case a of (t, ov, nx) \<Rightarrow> slot_scanned B n k t ov \<and> end_scanned B k nx)"

lemma slot_scanned_Suc:
  assumes "slot_scanned B n i t ov"
  shows "e_active (bent B i) \<Longrightarrow> e_matches B n i \<Longrightarrow> slot_scanned B n (Suc i) (int i) True"
    and "e_active (bent B i) \<Longrightarrow> \<not> e_matches B n i \<Longrightarrow> slot_scanned B n (Suc i) t ov"
    and "\<not> e_active (bent B i) \<Longrightarrow> t < 0 \<Longrightarrow> slot_scanned B n (Suc i) (int i) ov"
    and "\<not> e_active (bent B i) \<Longrightarrow> \<not> t < 0 \<Longrightarrow> slot_scanned B n (Suc i) t ov"
  using assms by (auto simp: slot_scanned_def less_Suc_eq e_matches_def split: if_splits)

lemma end_scanned_Suc:
  assumes "end_scanned B i nx"
  shows "e_active (bent B i) \<Longrightarrow> end_scanned B (Suc i) (if e_end (bent B i) > nx then e_end (bent B i) else nx)"
    and "\<not> e_active (bent B i) \<Longrightarrow> end_scanned B (Suc i) nx"
  using assms by (auto simp: end_scanned_def less_Suc_eq word_less_nat_alt)

lemma slot_replaces:
  assumes "dir_ok c B" "slot_scanned B n 64 t ov" "\<not> t < 0" "length e = 64" "entry_ok c e" "cstr e = n"
  shows "replaces c B (nat t) e n" "e_active (bent B (nat t)) \<longleftrightarrow> ov"
proof -
  have i: "nat t < 64" "ov \<Longrightarrow> e_matches B n (nat t)" "\<not> ov \<Longrightarrow> \<not> e_active (bent B (nat t))"
      "\<not> ov \<Longrightarrow> j < 64 \<Longrightarrow> \<not> e_matches B n j" for j
    using assms(2,3) by (auto simp: slot_scanned_def split: if_splits)
  show act: "e_active (bent B (nat t)) \<longleftrightarrow> ov" using i(2,3) by (auto simp: e_matches_def)
  show "replaces c B (nat t) e n" unfolding replaces_def
  proof (intro conjI impI allI)
    show "\<not> e_matches B n j" if "j < 64" "j \<noteq> nat t" for j
      using that assms(1) i unfolding dir_ok_def by (cases ov) blast+
    show "cstr (bent B (nat t)) = n" if "e_active (bent B (nat t))" using act that i(2) by (simp add: e_matches_def)
  qed (use assms i(1) in simp_all)
qed

lemma view_after_write:
  assumes R: "replaces c (dir_of D) i e n" "dir_of D' = put (dir_of D) (i * 64) e" and "e_active e" "c \<le> 0x10000000"
    and nx: "end_scanned (dir_of D) 64 nx" "e_start_lba e = nx" "unat (e_size e) = length data"
    and D': "\<And>k. 138 \<le> k \<Longrightarrow> D' k = (if unat nx \<le> k \<and> k < unat nx + nsec (length data)
      then sector_of (drop (512 * (k - unat nx)) data) else D k)"
  shows "fs_view D' = (fs_view D)(n \<mapsto> data)"
proof -
  have "138 \<le> unat nx" using nx(1) by (simp add: end_scanned_def)
  then have "file_bytes D' (unat nx) (length data) =
      file_bytes (\<lambda>k. sector_of (drop (512 * (k - unat nx)) data)) (unat nx) (length data)"
    by (intro file_bytes_cong) (simp add: D')
  also have "\<dots> = data" using sectors_of_data[OF nsec_bounds(1)] by (simp add: file_bytes_def)
  finally have new: "file_bytes D' (unat (e_start_lba e)) (unat (e_size e)) = data" using nx by simp
  have "fs_view D' = (fs_view D)(n := (if e_active e then Some (file_bytes D' (unat (e_start_lba e)) (unat (e_size e))) else None))"
  proof (rule replace_view[OF R])
    fix j assume j: "j < 64" "j \<noteq> i" "e_active (bent (dir_of D) j)"
    let ?f = "bent (dir_of D) j"
    have ej: "entry_ok c ?f" using replacesD(1)[OF R(1)] j by (simp add: dir_ok_def)
    have "unat (e_end ?f) \<le> unat nx" using nx(1) j by (simp add: end_scanned_def)
    then have "unat (e_start_lba ?f) + nsec (unat (e_size ?f)) \<le> unat nx" unfolding unat_e_end[OF ej assms(4)] .
    then show "file_bytes D' (unat (e_start_lba ?f)) (unat (e_size ?f)) = file_bytes D (unat (e_start_lba ?f)) (unat (e_size ?f))"
      using ej by (intro file_bytes_cong) (simp add: D' entry_ok_def)
  qed
  then show ?thesis using assms(3) new by simp
qed

text \<open>Setting the flags field of an entry in place is replacing the entry.\<close>

lemma put_in_entry:
  assumes "length B = 4096" "i < 64"
  shows "put B (i * 64 + 40) (bytes32 v) = put B (i * 64) (put (bent B i) 40 (bytes32 v))"
proof (rule nth_equalityI)
  have l: "i * 64 + 64 \<le> length B" using assms by simp
  have lb: "length (bent B i) = 64" by (rule entry_fields(1)[OF assms])
  show "length (put B (i * 64 + 40) (bytes32 v)) = length (put B (i * 64) (put (bent B i) 40 (bytes32 v)))"
    using l lb by simp
  fix k assume "k < length (put B (i * 64 + 40) (bytes32 v))"
  then have k: "k < length B" using l by simp
  have "bent B i ! (k - i * 64) = B ! k" if "i * 64 \<le> k" "k < i * 64 + 64"
    using that l by (simp add: bent_def slice_def)
  then show "put B (i * 64 + 40) (bytes32 v) ! k = put B (i * 64) (put (bent B i) 40 (bytes32 v)) ! k"
    using l lb k by (auto simp: nth_put)
qed

lemma deleted_entry:
  assumes "length e = 64"
  shows "length (put e 40 (bytes32 1)) = 64" "\<not> e_active (put e 40 (bytes32 1))"
proof -
  show "length (put e 40 (bytes32 1)) = 64" using assms by simp
  have "drop 40 (put e 40 (bytes32 1)) = bytes32 1 @ drop 44 e" using assms by (simp add: put_def)
  then show "\<not> e_active (put e 40 (bytes32 1))" by (simp add: e_active_def e_flags_def get32_def)
qed

lemma active_count_le: "active_count B \<le> 64"
  unfolding active_count_def using length_filter_le[of "\<lambda>i. e_active (bent B i)" "[0 ..< 64]"] by simp

lemma match_nonempty: "e_matches B n i \<Longrightarrow> length (bent B i) = 64 \<Longrightarrow> n \<noteq> []"
  by (cases "bent B i") (auto simp: e_matches_def e_active_def)

lemma blank_directory: "dir_ok cap (replicate 4096 0)" "active_count (replicate 4096 0) = 0"
    "i < 64 \<Longrightarrow> \<not> e_active (bent (replicate 4096 0) i)"
proof -
  show blank: "\<not> e_active (bent (replicate 4096 0) i)" if "i < 64" for i
    using that by (simp add: bent_def slice_def e_active_def)
  then show "dir_ok cap (replicate 4096 0)" by (auto simp: dir_ok_def e_matches_def)
  show "active_count (replicate 4096 0) = 0" using blank by (simp add: active_count_def filter_empty_conv)
qed

section \<open>The operations on any block device\<close>

context block_device
begin

text \<open>A device that still holds the same.\<close>

definition kept :: "'d \<Rightarrow> 'd \<Rightarrow> bool" where
  "kept d d' \<longleftrightarrow> ready d' \<and> disk d' = disk d \<and> cap d' = cap d"

definition fs_ok :: "'d fs \<Rightarrow> bool" where
  "fs_ok s \<longleftrightarrow> ready (fdev s) \<and> fs_wf (cap (fdev s)) (disk (fdev s)) \<and> length (dir_buf s) = 4096 \<and>
     length (sector_buf s) = 512"

lemma read_super_ok:
  assumes "ready (fdev s)" "138 \<le> cap (fdev s)"
  shows "\<exists>d'. read_super blk s = (0, disk (fdev s) 129, s\<lparr>fdev := d'\<rparr>) \<and> kept (fdev s) d'"
  using read_ok[OF assms(1), of 1 FS_SUPER_LBA] assms(2)
  by (auto simp: read_super_def kept_def kconst)

lemma read_dir_ok:
  assumes "ready (fdev s)" "138 \<le> cap (fdev s)" "length (dir_buf s) = 4096"
  shows "\<exists>d'. read_dir blk s = (0, s\<lparr>fdev := d', dir_buf := dir_of (disk (fdev s))\<rparr>) \<and> kept (fdev s) d'"
proof -
  have u: "unat FS_DIR_LBA = 130" "unat (ucast FS_DIR_SECTORS :: u8) = 8" "(ucast FS_DIR_SECTORS :: u8) \<noteq> 0"
    by (simp_all add: kconst)
  obtain d' where d': "rd blk FS_DIR_LBA (ucast FS_DIR_SECTORS) (fdev s) = (0, concat (map (disk (fdev s)) [130 ..< 130 + 8]), d')"
      "kept (fdev s) d'"
    using read_ok[OF assms(1) u(3), of FS_DIR_LBA] assms(2) unfolding u kept_def by auto
  have e: "concat (map (disk (fdev s)) [130 ..< 130 + 8]) = dir_of (disk (fdev s))" by (simp add: dir_of_def)
  have "length (dir_of (disk (fdev s))) = 4096"
    using length_concat_sectors[of "disk (fdev s)" 130 8] sector_size[OF assms(1)] unfolding e by simp
  then show ?thesis using d' assms(3) unfolding read_dir_def e by (intro exI[of _ d']) (simp add: fill_def)
qed

lemma write_super_ok:
  assumes "ready (fdev s)" "138 \<le> cap (fdev s)" "length sb = 512"
  shows "\<exists>d'. write_super blk sb s = (0, s\<lparr>fdev := d'\<rparr>) \<and> ready d' \<and> cap d' = cap (fdev s) \<and>
    disk d' = (disk (fdev s))(129 := sb)"
proof -
  have "unat FS_SUPER_LBA = 129" by (simp add: kconst)
  then show ?thesis using write_ok[OF assms(1), of 1 FS_SUPER_LBA sb] assms(2,3)
    by (auto simp: write_super_def write_range_single)
qed

lemma write_dir_ok:
  assumes "ready (fdev s)" "138 \<le> cap (fdev s)" "length (dir_buf s) = 4096"
  shows "\<exists>d'. write_dir blk s = (0, s\<lparr>fdev := d'\<rparr>) \<and> ready d' \<and> cap d' = cap (fdev s) \<and>
    disk d' = write_range 130 (dir_buf s) (disk (fdev s))"
proof -
  have u: "unat FS_DIR_LBA = 130" "unat (ucast FS_DIR_SECTORS :: u8) = 8" "(ucast FS_DIR_SECTORS :: u8) \<noteq> 0"
    by (simp_all add: kconst)
  show ?thesis using write_ok[OF assms(1) u(3), of FS_DIR_LBA "dir_buf s"] assms(2,3) unfolding u
    by (auto simp: write_dir_def)
qed

text \<open>The search of \<^verbatim>\<open>fs_open\<close> and \<^verbatim>\<open>fs_delete\<close>.\<close>

lemma find_entry:
  assumes "dir_ok c (dir_buf s)"
  shows "find (\<lambda>i. e_active (dir_entry s i) \<and> strcmp (dir_entry s i) name = 0) [0 ..< FS_MAX_FILES] =
    find (e_matches (dir_buf s) (cstr name)) [0 ..< 64]"
proof (unfold FS_MAX_FILES_def, rule find_cong[OF refl])
  fix i :: nat assume "i \<in> set [0 ..< 64]"
  then have i: "i < 64" by (simp only: set_upt atLeastLessThan_iff)
  have l: "length (dir_buf s) = 4096" using assms by (simp add: dir_ok_def)
  note e = entry_fields[OF l i]
  have "bent (dir_buf s) i ! 31 = 0" if "e_active (bent (dir_buf s) i)"
    using assms that i by (simp add: dir_ok_def entry_ok_def)
  then show "(e_active (dir_entry s i) \<and> strcmp (dir_entry s i) name = 0) = e_matches (dir_buf s) (cstr name) i"
    using e(6,7) by (auto simp: dir_entry_def e_matches_def strcmp_eq_iff)
qed

lemma fs_open_ok:
  assumes "fs_ok s"
  obtains d' where "kept (fdev s) d'" "fs_ok (s\<lparr>fdev := d', dir_buf := dir_of (disk (fdev s))\<rparr>)"
    "fs_open blk f name s = (case find (e_matches (dir_of (disk (fdev s))) (cstr name)) [0 ..< 64] of
       None \<Rightarrow> (-1, f, s\<lparr>fdev := d', dir_buf := dir_of (disk (fdev s))\<rparr>)
     | Some i \<Rightarrow> let e = bent (dir_of (disk (fdev s))) i
         in (0, \<lparr>f_start_lba = e_start_lba e, f_size = e_size e, f_pos = 0, f_valid = True\<rparr>,
             s\<lparr>fdev := d', dir_buf := dir_of (disk (fdev s))\<rparr>))"
proof -
  let ?D = "disk (fdev s)"
  have w: "138 \<le> cap (fdev s)" "dir_ok (cap (fdev s)) (dir_of ?D)" "ready (fdev s)" "length (dir_buf s) = 4096"
    using assms by (auto simp: fs_ok_def fs_wf_def)
  obtain d' where d': "read_dir blk s = (0, s\<lparr>fdev := d', dir_buf := dir_of ?D\<rparr>)" "kept (fdev s) d'"
    using read_dir_ok[OF w(3,1,4)] by blast
  let ?s = "s\<lparr>fdev := d', dir_buf := dir_of ?D\<rparr>"
  have l: "length (dir_of ?D) = 4096" using w(2) by (simp add: dir_ok_def)
  have ok: "fs_ok ?s" using assms d'(2) l by (simp add: fs_ok_def kept_def)
  have f: "find (\<lambda>i. e_active (dir_entry ?s i) \<and> strcmp (dir_entry ?s i) name = 0) [0 ..< FS_MAX_FILES] =
      find (e_matches (dir_of ?D) (cstr name)) [0 ..< 64]"
    using find_entry[of _ ?s name] w(2) by simp
  have "e_start_lba (dir_entry ?s i) = e_start_lba (bent (dir_of ?D) i)" "e_size (dir_entry ?s i) = e_size (bent (dir_of ?D) i)"
    if "find (e_matches (dir_of ?D) (cstr name)) [0 ..< 64] = Some i" for i
    using that entry_fields(3,4)[OF l, of i] find_matches_iff(1)[OF w(2)] by (simp_all add: dir_entry_def)
  then show ?thesis using that[OF d'(2) ok] d'(1) f unfolding fs_open_def Let_def by (auto split: option.splits)
qed

lemma fs_read_loop_ok:
  assumes "ready (fdev s)" "length (sector_buf s) = 512" "unat (f_start_lba f) + nsec (unat (f_size f)) \<le> cap (fdev s)"
    and "unat (f_pos f) + unat remaining \<le> unat (f_size f)"
  shows "\<exists>d' b'. fs_read_loop blk remaining f s =
    (take (unat remaining) (drop (unat (f_pos f)) (file_bytes (disk (fdev s)) (unat (f_start_lba f)) (unat (f_size f)))), 0,
     f\<lparr>f_pos := f_pos f + remaining\<rparr>, s\<lparr>fdev := d', sector_buf := b'\<rparr>) \<and> kept (fdev s) d' \<and> length b' = 512"
  using assms
proof (induction "unat remaining" arbitrary: remaining f s rule: less_induct)
  case less
  let ?D = "disk (fdev s)" and ?F = "file_bytes (disk (fdev s)) (unat (f_start_lba f)) (unat (f_size f))"
  let ?p = "unat (f_pos f)" and ?c = "read_chunk (f_pos f) remaining"
  show ?case
  proof (cases "remaining = 0")
    case True
    then show ?thesis using less.prems
      by (intro exI[of _ "fdev s"] exI[of _ "sector_buf s"]) (simp add: fs_read_loop.simps kept_def)
  next
    case False
    note ch = read_chunk_bounds[OF False, of "f_pos f"]
    have q: "?p div 512 < nsec (unat (f_size f))" using less.prems(4) ch(1,2) unfolding nsec_def by linarith
    have "unat (f_pos f div ATA_SECTOR_SIZE) = ?p div 512" by (simp add: unat_div ATA_SECTOR_SIZE_def)
    then have lba: "unat (f_start_lba f + f_pos f div ATA_SECTOR_SIZE) = unat (f_start_lba f) + ?p div 512"
      using unat_plus_u32[of "f_start_lba f" "f_pos f div ATA_SECTOR_SIZE"] q less.prems(3) cap_bound[OF less.prems(1)] by simp
    obtain d1 where d1: "rd blk (f_start_lba f + f_pos f div ATA_SECTOR_SIZE) 1 (fdev s) =
        (0, ?D (unat (f_start_lba f) + ?p div 512), d1)" "kept (fdev s) d1"
      using read_ok[OF less.prems(1), of 1 "f_start_lba f + f_pos f div ATA_SECTOR_SIZE"] q less.prems(3)
      unfolding lba kept_def by auto
    have sec: "length (?D k) = 512" for k by (rule sector_size[OF less.prems(1)])
    let ?s1 = "s\<lparr>fdev := d1, sector_buf := ?D (unat (f_start_lba f) + ?p div 512)\<rparr>"
    let ?f1 = "f\<lparr>f_pos := f_pos f + ?c\<rparr>"
    have p1: "unat (f_pos f + ?c) = ?p + unat ?c"
      using unat_plus_u32[of "f_pos f" ?c] less.prems(4) ch(1) unat_u32[of "f_size f"] by simp
    have "\<exists>d' b'. fs_read_loop blk (remaining - ?c) ?f1 ?s1 =
        (take (unat (remaining - ?c)) (drop (unat (f_pos ?f1)) (file_bytes (disk (fdev ?s1)) (unat (f_start_lba ?f1)) (unat (f_size ?f1)))), 0,
         ?f1\<lparr>f_pos := f_pos ?f1 + (remaining - ?c)\<rparr>, ?s1\<lparr>fdev := d', sector_buf := b'\<rparr>) \<and> kept (fdev ?s1) d' \<and> length b' = 512"
      by (rule less.hyps) (use read_chunk_decreases[OF False] d1(2) sec less.prems(3,4) p1 ch in \<open>simp_all add: kept_def\<close>)
    then obtain d' b' where IH: "fs_read_loop blk (remaining - ?c) ?f1 ?s1 =
        (take (unat (remaining - ?c)) (drop (?p + unat ?c) ?F), 0, f\<lparr>f_pos := f_pos f + remaining\<rparr>,
         s\<lparr>fdev := d', sector_buf := b'\<rparr>)" "kept (fdev s) d'" "length b' = 512"
      using d1(2) p1 by (auto simp: kept_def)
    have "take (unat ?c) (drop (unat (f_pos f mod ATA_SECTOR_SIZE)) (?D (unat (f_start_lba f) + ?p div 512))) =
        take (unat ?c) (drop ?p ?F)"
      using file_bytes_chunk[of ?D ?p "unat ?c" "unat (f_size f)" "unat (f_start_lba f)"] sec less.prems(4) ch(1,2)
      by (simp add: unat_mod ATA_SECTOR_SIZE_def)
    moreover have "take (unat remaining) (drop ?p ?F) =
        take (unat ?c) (drop ?p ?F) @ take (unat (remaining - ?c)) (drop (?p + unat ?c) ?F)"
      using take_add[of "unat ?c" "unat (remaining - ?c)" "drop ?p ?F"] ch(1,3) by (simp add: add.commute)
    moreover have "fill (?D (unat (f_start_lba f) + ?p div 512)) (sector_buf s) = ?D (unat (f_start_lba f) + ?p div 512)"
      using sec less.prems(2) by (simp add: fill_def)
    ultimately show ?thesis using IH d1(1) False
      by (intro exI[of _ d'] exI[of _ b'], subst fs_read_loop.simps) (simp add: Let_def)
  qed
qed

lemma write_data_ok:
  assumes "ready (fdev s)" "unat lba + n \<le> cap (fdev s)"
  shows "\<exists>d' b'. write_data_loop blk lba n data s = (0, s\<lparr>fdev := d', sector_buf := b'\<rparr>) \<and> ready d' \<and>
    cap d' = cap (fdev s) \<and> (length (sector_buf s) = 512 \<longrightarrow> length b' = 512) \<and>
    disk d' = (\<lambda>k. if unat lba \<le> k \<and> k < unat lba + n then sector_of (drop (512 * (k - unat lba)) data) else disk (fdev s) k)"
  using assms
proof (induction n arbitrary: lba data s)
  case 0
  then show ?case by (intro exI[of _ "fdev s"] exI[of _ "sector_buf s"]) (auto simp: fun_eq_iff)
next
  case (Suc n)
  have len: "length (sector_of data) = 512" by (simp add: sector_of_def)
  obtain d1 where d1: "wr blk lba 1 (sector_of data) (fdev s) = (0, d1)" "ready d1"
      "disk d1 = (disk (fdev s))(unat lba := sector_of data)" "cap d1 = cap (fdev s)"
    using write_ok[OF Suc.prems(1), of 1 lba "sector_of data"] Suc.prems(2) len by (auto simp: write_range_single)
  have lba: "unat (lba + 1) = Suc (unat lba)"
    using unat_plus_u32[of lba 1] Suc.prems(2) cap_bound[OF Suc.prems(1)] by simp
  let ?s1 = "s\<lparr>sector_buf := sector_of data, fdev := d1\<rparr>"
  have p: "ready (fdev ?s1)" "unat (lba + 1) + n \<le> cap (fdev ?s1)" "length (sector_buf ?s1) = 512"
    using d1(2,4) lba Suc.prems(2) len by simp_all
  obtain d' b' where IH: "write_data_loop blk (lba + 1) n (drop 512 data) ?s1 = (0, ?s1\<lparr>fdev := d', sector_buf := b'\<rparr>)" "ready d'"
      "cap d' = cap (fdev ?s1)" "length b' = 512"
      "disk d' = (\<lambda>k. if unat (lba + 1) \<le> k \<and> k < unat (lba + 1) + n
         then sector_of (drop (512 * (k - unat (lba + 1))) (drop 512 data)) else disk (fdev ?s1) k)"
    using Suc.IH[OF p(1,2), of "drop 512 data"] p(3) by blast
  have "disk d' k = (if unat lba \<le> k \<and> k < unat lba + Suc n then sector_of (drop (512 * (k - unat lba)) data) else disk (fdev s) k)" for k
  proof (cases "Suc (unat lba) \<le> k \<and> k < Suc (unat lba) + n")
    case True
    then have "512 * (k - Suc (unat lba)) + 512 = 512 * (k - unat lba)" by auto
    then show ?thesis using True by (simp add: IH(5) lba)
  next
    case False
    then show ?thesis by (auto simp: IH(5) lba d1(3))
  qed
  then have "disk d' = (\<lambda>k. if unat lba \<le> k \<and> k < unat lba + Suc n
      then sector_of (drop (512 * (k - unat lba)) data) else disk (fdev s) k)" by blast
  moreover have "write_data_loop blk lba (Suc n) data s = (0, s\<lparr>fdev := d', sector_buf := b'\<rparr>)"
    using IH(1) d1(1) by (simp add: Let_def)
  moreover have "cap d' = cap (fdev s)" using IH(3) d1(4) by simp
  ultimately show ?case using IH(2,4) by blast
qed

lemma scan_ok:
  assumes "dir_ok c (dir_buf s)"
  shows "scanned (dir_buf s) (cstr name) 64 (fold (scan_step s name) [0 ..< FS_MAX_FILES] (-1, False, FS_DATA_LBA))"
  unfolding FS_MAX_FILES_def
proof (rule fold_invariant_upt)
  show "scanned (dir_buf s) (cstr name) 0 (-1, False, FS_DATA_LBA)" by (simp add: scanned_def slot_scanned_def end_scanned_def kconst)
next
  fix i a assume "i < (64 :: nat)" and inv: "scanned (dir_buf s) (cstr name) i a"
  then have i: "i < 64" by simp
  have l: "length (dir_buf s) = 4096" using assms by (simp add: dir_ok_def)
  note e = entry_fields[OF l i]
  let ?e = "bent (dir_buf s) i"
  have act: "e_active (dir_entry s i) = e_active ?e" "e_end (dir_entry s i) = e_end ?e"
    using e by (simp_all add: dir_entry_def e_end_def)
  have "?e ! 31 = 0" if "e_active ?e" using assms that i by (simp add: dir_ok_def entry_ok_def)
  then have m: "strcmp (dir_entry s i) name = 0 \<longleftrightarrow> e_matches (dir_buf s) (cstr name) i" if "e_active ?e"
    using that e(7) by (simp add: dir_entry_def e_matches_def strcmp_eq_iff)
  have nm: "\<not> e_matches (dir_buf s) (cstr name) i" if "\<not> e_active ?e" using that by (simp add: e_matches_def)
  obtain t ov nx where a: "a = (t, ov, nx)" by (cases a)
  have sl: "slot_scanned (dir_buf s) (cstr name) i t ov" and en: "end_scanned (dir_buf s) i nx"
    using inv a by (simp_all add: scanned_def)
  show "scanned (dir_buf s) (cstr name) (Suc i) (scan_step s name i a)"
    using slot_scanned_Suc[OF sl] end_scanned_Suc[OF en] m
    by (cases "e_active ?e") (auto simp: scanned_def scan_step_def Let_def a act)
qed simp

text \<open>The first half of \<^verbatim>\<open>fs_write_new\<close>: both tables are read and the directory is scanned.\<close>

lemma fs_write_new_scan:
  assumes "fs_ok s" "cstr name \<noteq> []"
  obtains d2 t ov nx where "ready d2" "disk d2 = disk (fdev s)" "cap d2 = cap (fdev s)"
    "slot_scanned (dir_of (disk (fdev s))) (cstr name) 64 t ov" "end_scanned (dir_of (disk (fdev s))) 64 nx"
    "fs_write_new blk name data s =
      (if t < 0 then (-1, s\<lparr>fdev := d2, dir_buf := dir_of (disk (fdev s))\<rparr>)
       else fs_store blk name data (disk (fdev s) 129) (t, ov, nx) (s\<lparr>fdev := d2, dir_buf := dir_of (disk (fdev s))\<rparr>))"
proof -
  let ?D = "disk (fdev s)" and ?c = "cap (fdev s)"
  have w: "ready (fdev s)" "138 \<le> ?c" "dir_ok ?c (dir_of ?D)" "super_ok (active_count (dir_of ?D)) (?D 129)"
      "length (dir_buf s) = 4096"
    using assms(1) by (auto simp: fs_ok_def fs_wf_def)
  have ne: "\<not> empty_name name" using assms(2) by (cases name) (auto simp: empty_name_def)
  obtain d1 where d1: "read_super blk s = (0, ?D 129, s\<lparr>fdev := d1\<rparr>)" "kept (fdev s) d1"
    using read_super_ok[OF w(1,2)] by blast
  obtain d2 where "read_dir blk (s\<lparr>fdev := d1\<rparr>) = (0, s\<lparr>fdev := d1\<rparr>\<lparr>fdev := d2, dir_buf := dir_of (disk (fdev (s\<lparr>fdev := d1\<rparr>)))\<rparr>)"
      "kept d1 d2"
    using read_dir_ok[of "s\<lparr>fdev := d1\<rparr>"] d1(2) w by (auto simp: kept_def)
  then have d2: "read_dir blk (s\<lparr>fdev := d1\<rparr>) = (0, s\<lparr>fdev := d2, dir_buf := dir_of ?D\<rparr>)" "ready d2" "disk d2 = ?D" "cap d2 = ?c"
    using d1(2) by (simp_all add: kept_def)
  let ?s2 = "s\<lparr>fdev := d2, dir_buf := dir_of ?D\<rparr>"
  have magic: "memcmp (sb_magic (?D 129)) FS_MAGIC 8 = 0"
    using w(4) memcmp_eq_iff[of 8 FS_MAGIC FS_MAGIC] by (simp add: super_ok_def FS_MAGIC_def)
  obtain t ov nx where scan: "fold (scan_step ?s2 name) [0 ..< FS_MAX_FILES] (-1, False, FS_DATA_LBA) = (t, ov, nx)"
    by (metis prod_cases3)
  have "slot_scanned (dir_of ?D) (cstr name) 64 t ov" "end_scanned (dir_of ?D) 64 nx"
    using scan_ok[of ?c ?s2 name] w(3) unfolding scan by (simp_all add: scanned_def)
  then show ?thesis
    by (rule that[OF d2(2-4)]) (use ne d1(1) d2(1,3) magic scan in \<open>simp add: fs_write_new_def Let_def\<close>)
qed

lemma fs_write_new_ok:
  assumes "fs_ok s" "cstr name \<noteq> []" "length (cstr name) \<le> 31" "length data + 511 < 4294967296"
    and "fs_room (cap (fdev s)) (disk (fdev s)) (length data)"
  shows "\<exists>r s'. fs_write_new blk name data s = (r, s') \<and> fs_ok s' \<and> cap (fdev s') = cap (fdev s) \<and>
    (if fs_view (disk (fdev s)) (cstr name) = None \<and> dir_full (disk (fdev s)) then r = -1 \<and> disk (fdev s') = disk (fdev s)
     else r = 0 \<and> fs_view (disk (fdev s')) = (fs_view (disk (fdev s)))(cstr name \<mapsto> data))"
proof -
  let ?D = "disk (fdev s)" and ?c = "cap (fdev s)" and ?n = "cstr name" and ?len = "of_nat (length data) :: u32"
  have w: "138 \<le> ?c" "?c \<le> 0x10000000" "dir_ok ?c (dir_of ?D)" "super_ok (active_count (dir_of ?D)) (?D 129)"
      "length (sector_buf s) = 512"
    using assms(1) by (auto simp: fs_ok_def fs_wf_def)
  obtain d2 t ov nx where d2: "ready d2" "disk d2 = ?D" "cap d2 = ?c" and sl: "slot_scanned (dir_of ?D) ?n 64 t ov"
    and en: "end_scanned (dir_of ?D) 64 nx" and run: "fs_write_new blk name data s =
      (if t < 0 then (-1, s\<lparr>fdev := d2, dir_buf := dir_of (disk (fdev s))\<rparr>)
       else fs_store blk name data (disk (fdev s) 129) (t, ov, nx) (s\<lparr>fdev := d2, dir_buf := dir_of (disk (fdev s))\<rparr>))"
    by (rule fs_write_new_scan[OF assms(1,2), of data])
  let ?s2 = "s\<lparr>fdev := d2, dir_buf := dir_of ?D\<rparr>"
  have none: "fs_view ?D ?n = None \<longleftrightarrow> \<not> ov"
    using sl find_matches_iff[OF w(3), of ?n] unfolding fs_view_def slot_scanned_def by (cases ov) auto
  show ?thesis
  proof (cases "t < 0")
    case True
    then have "\<not> ov" "dir_full ?D" using sl by (auto simp: slot_scanned_def dir_full_def split: if_splits)
    moreover have "fs_ok ?s2" using assms(1) d2 w(3) by (simp add: fs_ok_def dir_ok_def)
    ultimately show ?thesis using none d2(2,3) run True by auto
  next
    case False
    define ns where "ns = nsec (length data)"
    have len: "unat ?len = length data" using assms(4) by (simp add: unat_of_nat_u32)
    have ns: "unat ((?len + ATA_SECTOR_SIZE - 1) div ATA_SECTOR_SIZE) = ns" using nsec_u32[of ?len] assms(4) len by (simp add: ns_def)
    have room: "unat nx + ns \<le> ?c" "138 \<le> unat nx" using en assms(5) by (auto simp: end_scanned_def fs_room_def ns_def)
    obtain d3 b3 where d3: "write_data_loop blk nx ns data ?s2 = (0, ?s2\<lparr>fdev := d3, sector_buf := b3\<rparr>)" "ready d3"
        "cap d3 = ?c" "length b3 = 512" "disk d3 = (\<lambda>k. if unat nx \<le> k \<and> k < unat nx + ns
           then sector_of (drop (512 * (k - unat nx)) data) else ?D k)"
      using write_data_ok[of ?s2 nx ns data] d2 room w(5) by (auto cong: if_cong)
    let ?e = "new_entry name nx ?len"
    let ?B = "put (dir_of ?D) (nat t * 64) ?e"
    note e = new_entry_facts[OF assms(2,3), of nx ?len]
    have "entry_ok ?c ?e" using e len assms(4) room by (simp add: entry_ok_def ns_def)
    note R = slot_replaces[OF w(3) sl False e(1) this e(5)]
    have notfull: "\<not> (fs_view ?D ?n = None \<and> dir_full ?D)" using none R replacesD(2)[OF R(1)] by (auto simp: dir_full_def)
    have lenB: "length ?B = 4096" using replace_dir[OF R(1)] by (simp add: dir_ok_def)
    let ?s3 = "s\<lparr>fdev := d3, sector_buf := b3, dir_buf := ?B\<rparr>"
    obtain d4 where d4: "write_dir blk ?s3 = (0, ?s3\<lparr>fdev := d4\<rparr>)" "ready d4" "cap d4 = ?c" "disk d4 = write_range 130 ?B (disk d3)"
      using write_dir_ok[of ?s3] d3(2,3) w(1) lenB by auto
    define sb where "sb = (if \<not> ov then set_num_files (sb_num_files (?D 129) + 1) (?D 129) else ?D 129)"
    have "active_count ?B = active_count (dir_of ?D) + (if ov then 0 else 1)"
      using replace_count[OF R(1)] e(4) R(2) by (auto split: if_splits)
    then have sb: "super_ok (active_count ?B) sb"
      using w(4) set_num_files_ok[OF w(4), of "Suc (active_count (dir_of ?D))"] unfolding sb_def
      by (auto simp: super_ok_def add.commute)
    then obtain d5 where d5: "write_super blk sb (?s3\<lparr>fdev := d4\<rparr>) = (0, ?s3\<lparr>fdev := d5\<rparr>)" "ready d5" "cap d5 = ?c"
        "disk d5 = (write_range 130 ?B (disk d3))(129 := sb)"
      using write_super_ok[of "?s3\<lparr>fdev := d4\<rparr>" sb] d4(2-4) w(1) by (auto simp: super_ok_def)
    note cm = commit[OF lenB, where D = "disk d3" and sb = sb, folded d5(4)]
    have ok: "fs_ok (?s3\<lparr>fdev := d5\<rparr>)"
      using w d5 cm sb replace_dir[OF R(1)] d3(4) lenB by (simp add: fs_ok_def fs_wf_def)
    have "fs_view (disk d5) = (fs_view ?D)(?n \<mapsto> data)"
      by (rule view_after_write[OF R(1) cm(1) e(4) w(2) en e(2)]) (use e(3) len cm(3) in \<open>simp_all add: d3(5) ns_def\<close>)
    moreover have "fs_write_new blk name data s = (0, ?s3\<lparr>fdev := d5\<rparr>)"
      using run False d3(1) d4(1) d5(1) d2(2) by (simp add: fs_store_def ns sb_def)
    ultimately show ?thesis using notfull ok d5(3) by auto
  qed
qed

lemma fs_delete_ok:
  assumes "fs_ok s"
  shows "\<exists>r s'. fs_delete blk name s = (r, s') \<and> fs_ok s' \<and> cap (fdev s') = cap (fdev s) \<and>
    (if fs_view (disk (fdev s)) (cstr name) = None then r = -1 \<and> disk (fdev s') = disk (fdev s)
     else r = 0 \<and> fs_view (disk (fdev s')) = (fs_view (disk (fdev s)))(cstr name := None))"
proof -
  let ?D = "disk (fdev s)" and ?c = "cap (fdev s)" and ?n = "cstr name"
  let ?B = "dir_of ?D"
  have w: "ready (fdev s)" "138 \<le> ?c" "?c \<le> 0x10000000" "dir_ok ?c ?B" "super_ok (active_count ?B) (?D 129)"
      "length (dir_buf s) = 4096" "length (sector_buf s) = 512" "length ?B = 4096"
    using assms by (auto simp: fs_ok_def fs_wf_def dir_ok_def)
  obtain d1 where d1: "read_dir blk s = (0, s\<lparr>fdev := d1, dir_buf := ?B\<rparr>)" "ready d1" "disk d1 = ?D" "cap d1 = ?c"
    using read_dir_ok[OF w(1,2,6)] by (auto simp: kept_def)
  let ?s1 = "s\<lparr>fdev := d1, dir_buf := ?B\<rparr>"
  have ok1: "fs_ok ?s1" using assms d1 w(8) by (simp add: fs_ok_def)
  have f: "find (\<lambda>i. e_active (dir_entry ?s1 i) \<and> strcmp (dir_entry ?s1 i) name = 0) [0 ..< FS_MAX_FILES] =
      find (e_matches ?B ?n) [0 ..< 64]"
    using find_entry[of ?c ?s1 name] w(4) by simp
  show ?thesis
  proof (cases "find (e_matches ?B ?n) [0 ..< 64]")
    case None
    have "fs_delete blk name s = (-1, s) \<or> fs_delete blk name s = (-1, ?s1)"
      using d1(1) f None by (simp add: fs_delete_def)
    then show ?thesis using None assms ok1 d1(3,4) by (auto simp: fs_view_def)
  next
    case (Some i)
    then have i: "i < 64" "e_matches ?B ?n i" using find_matches_iff(1)[OF w(4)] by simp_all
    note lb = entry_fields(1)[OF w(8) i(1)]
    have ne: "\<not> empty_name name" using match_nonempty[OF i(2) lb] by (cases name) (auto simp: empty_name_def)
    let ?e = "put (bent ?B i) 40 (bytes32 1)"
    note e = deleted_entry[OF lb]
    have R: "replaces ?c ?B i ?e ?n"
      using w(4) i e unfolding replaces_def dir_ok_def by (auto simp: e_matches_def)
    let ?B' = "put ?B (i * 64) ?e"
    have lenB: "length ?B' = 4096" using replace_dir[OF R] by (simp add: dir_ok_def)
    let ?s2 = "s\<lparr>fdev := d1, dir_buf := ?B'\<rparr>"
    obtain d2 where d2: "write_dir blk ?s2 = (0, ?s2\<lparr>fdev := d2\<rparr>)" "ready d2" "cap d2 = ?c" "disk d2 = write_range 130 ?B' ?D"
      using write_dir_ok[of ?s2] d1(2-4) w(2) lenB by auto
    have d2sb: "disk d2 129 = ?D 129" using d2(4) by (simp add: write_range_def)
    obtain d3 where d3: "read_super blk (?s2\<lparr>fdev := d2\<rparr>) = (0, ?D 129, ?s2\<lparr>fdev := d3\<rparr>)" "ready d3" "disk d3 = disk d2" "cap d3 = ?c"
      using read_super_ok[of "?s2\<lparr>fdev := d2\<rparr>"] d2(2,3) w(2) d2sb by (auto simp: kept_def)
    have cnt: "Suc (active_count ?B') = active_count ?B"
      using replace_count[OF R] e(2) i(2) by (simp add: e_matches_def)
    then have num: "sb_num_files (?D 129) = of_nat (Suc (active_count ?B'))" using w(5) by (simp add: super_ok_def)
    then have "unat (sb_num_files (?D 129)) = Suc (active_count ?B')"
      using active_count_le[of ?B] cnt by (simp add: unat_of_nat_u32 del: of_nat_Suc)
    then have pos: "sb_num_files (?D 129) > 0" by (metis unat_gt_0 word_gt_0 zero_less_Suc)
    define sb where "sb = set_num_files (sb_num_files (?D 129) - 1) (?D 129)"
    have sb: "super_ok (active_count ?B') sb"
      using set_num_files_ok[OF w(5), of "active_count ?B'"] by (simp add: sb_def num)
    obtain d4 where d4: "write_super blk sb (?s2\<lparr>fdev := d3\<rparr>) = (0, ?s2\<lparr>fdev := d4\<rparr>)" "ready d4" "cap d4 = ?c"
        "disk d4 = (write_range 130 ?B' ?D)(129 := sb)"
      using write_super_ok[of "?s2\<lparr>fdev := d3\<rparr>" sb] d3(2-4) d2(4) w(2) sb by (auto simp: super_ok_def)
    note cm = commit[OF lenB, where D = ?D and sb = sb, folded d4(4)]
    have ok: "fs_ok (?s2\<lparr>fdev := d4\<rparr>)"
      using w d4 cm sb replace_dir[OF R] lenB by (simp add: fs_ok_def fs_wf_def)
    have "fs_view (disk d4) = (fs_view ?D)(?n := (if e_active ?e then
        Some (file_bytes (disk d4) (unat (e_start_lba ?e)) (unat (e_size ?e))) else None))"
    proof (rule replace_view[OF R cm(1)])
      fix j assume "j < 64" "j \<noteq> i" "e_active (bent ?B j)"
      then have "entry_ok ?c (bent ?B j)" using w(4) by (simp add: dir_ok_def)
      then show "file_bytes (disk d4) (unat (e_start_lba (bent ?B j))) (unat (e_size (bent ?B j))) =
          file_bytes ?D (unat (e_start_lba (bent ?B j))) (unat (e_size (bent ?B j)))"
        using cm(3) by (intro file_bytes_cong) (simp add: entry_ok_def)
    qed
    moreover have "fs_delete blk name s = (0, ?s2\<lparr>fdev := d4\<rparr>)"
      using ne d1(1) f Some d2(1) d3(1) d4(1) pos put_in_entry[OF w(8) i(1), of 1]
      by (simp add: fs_delete_def sb_def Let_def)
    moreover have "fs_view ?D ?n \<noteq> None" using Some by (simp add: fs_view_def)
    ultimately show ?thesis using ok d4(3) e(2) by auto
  qed
qed

lemma fs_format_ok:
  assumes "ready (fdev s)" "138 \<le> cap (fdev s)" "length (sector_buf s) = 512"
  shows "\<exists>s'. fs_format blk s = (0, s') \<and> fs_ok s' \<and> cap (fdev s') = cap (fdev s) \<and> fs_view (disk (fdev s')) = Map.empty"
proof -
  let ?sb = "set_num_files 0 (put (put (replicate 512 0) 0 FS_MAGIC) 8 (bytes32 FS_VERSION))"
  have "put (put (replicate 512 0) 0 FS_MAGIC) 8 (bytes32 FS_VERSION) = FS_MAGIC @ bytes32 FS_VERSION @ replicate 500 0"
    by (simp add: put_def FS_MAGIC_def)
  then have e: "?sb = FS_MAGIC @ bytes32 FS_VERSION @ bytes32 0 @ replicate 496 0"
    by (simp add: set_num_files_def put_def FS_MAGIC_def)
  have sb: "super_ok 0 ?sb" unfolding e
    by (simp add: super_ok_def sb_magic_def sb_version_def sb_num_files_def get32_def FS_MAGIC_def)
  then have len: "length ?sb = 512" by (simp add: super_ok_def)
  obtain d1 where d1: "write_super blk ?sb s = (0, s\<lparr>fdev := d1\<rparr>)" "ready d1" "cap d1 = cap (fdev s)"
      "disk d1 = (disk (fdev s))(129 := ?sb)"
    using write_super_ok[OF assms(1,2) len] by blast
  let ?s1 = "s\<lparr>fdev := d1, dir_buf := replicate 4096 0\<rparr>"
  obtain d2 where d2: "write_dir blk ?s1 = (0, ?s1\<lparr>fdev := d2\<rparr>)" "ready d2" "cap d2 = cap (fdev s)"
      "disk d2 = write_range 130 (replicate 4096 0) (disk d1)"
    using write_dir_ok[of ?s1] d1(2,3) assms(2) by auto
  have dir: "dir_of (disk d2) = replicate 4096 0" unfolding d2(4) by (rule dir_of_write) simp
  have "disk d2 129 = ?sb" unfolding d2(4) d1(4) by (simp add: write_range_def)
  then have "fs_ok (?s1\<lparr>fdev := d2\<rparr>)"
    using d2 assms(2,3) cap_bound[OF d2(2)] sb blank_directory dir by (simp add: fs_ok_def fs_wf_def)
  moreover have "fs_view (disk d2) = Map.empty"
    using find_matches_iff(2)[OF blank_directory(1)[of 0]] blank_directory(3)
    by (auto simp: fs_view_def dir e_matches_def fun_eq_iff)
  moreover have "fs_format blk s = (0, ?s1\<lparr>fdev := d2\<rparr>)" using d1(1) d2(1) by (simp add: fs_format_def FS_DIR_BYTES_def)
  ultimately show ?thesis using d2(3) by auto
qed

end

section \<open>The file system on the disk driver\<close>

text \<open>
  A file system on a drive between transfers, what it holds, and an open handle on one of its files. The
  contract of the drive is \<^term>\<open>ata_wired\<close>.
\<close>

definition disk_ok :: "('d \<Rightarrow> drive) \<Rightarrow> 'd fs \<Rightarrow> bool" where
  "disk_ok view s \<longleftrightarrow> drive_ready (view (fdev s)) \<and> fs_wf (capacity (view (fdev s))) (sectors (view (fdev s))) \<and>
     length (dir_buf s) = 4096 \<and> length (sector_buf s) = 512"

definition files :: "('d \<Rightarrow> drive) \<Rightarrow> 'd fs \<Rightarrow> u8 list \<Rightarrow> u8 list option" where
  "files view s = fs_view (sectors (view (fdev s)))"

definition has_room :: "('d \<Rightarrow> drive) \<Rightarrow> 'd fs \<Rightarrow> nat \<Rightarrow> bool" where
  "has_room view s n \<longleftrightarrow> fs_room (capacity (view (fdev s))) (sectors (view (fdev s))) n"

definition handle_on :: "('d \<Rightarrow> drive) \<Rightarrow> 'd fs \<Rightarrow> fs_file \<Rightarrow> u8 list \<Rightarrow> bool" where
  "handle_on view s f c \<longleftrightarrow> f_valid f \<and> unat (f_start_lba f) + nsec (unat (f_size f)) \<le> capacity (view (fdev s)) \<and>
     file_bytes (sectors (view (fdev s))) (unat (f_start_lba f)) (unat (f_size f)) = c \<and> length c = unat (f_size f)"

lemma fs_ok_disk:
  assumes "ata_wired io view"
  shows "block_device.fs_ok (\<lambda>d. drive_ready (view d)) (\<lambda>d. sectors (view d)) (\<lambda>d. capacity (view d)) s = disk_ok view s"
  by (simp add: block_device.fs_ok_def[OF ata_block_device[OF assms]] disk_ok_def)

text \<open>
  C26. \<^verbatim>\<open>fs_write_new\<close> creates or replaces a file: with a name of 1 to 31 characters and room behind the last
  file, it returns 0 and the file system then maps the name to exactly the data, with every other file
  unchanged and the structure and the file count on disk intact; when the directory is full and has no such name it returns -1 and nothing changes.
\<close>
theorem fs_write_new_refines:
  assumes "ata_wired io view" "disk_ok view s" "cstr name \<noteq> []" "length (cstr name) \<le> 31"
    and "length data + 511 < 4294967296" "has_room view s (length data)"
  shows "\<exists>r s'. fs_write_new (ata_blk io) name data s = (r, s') \<and> disk_ok view s' \<and>
    (if files view s (cstr name) = None \<and> dir_full (sectors (view (fdev s))) then r = -1 \<and> files view s' = files view s
     else r = 0 \<and> files view s' = (files view s)(cstr name \<mapsto> data))"
  using block_device.fs_write_new_ok[OF ata_block_device[OF assms(1)], of s name data] assms(2-6)
  unfolding fs_ok_disk[OF assms(1)] by (auto simp: files_def has_room_def split: if_splits)

text \<open>
  C27. \<^verbatim>\<open>fs_delete\<close> removes exactly the named file and returns 0, or returns -1 and changes nothing when there is no such file.
\<close>
theorem fs_delete_refines:
  assumes "ata_wired io view" "disk_ok view s"
  shows "\<exists>r s'. fs_delete (ata_blk io) name s = (r, s') \<and> disk_ok view s' \<and>
    (if files view s (cstr name) = None then r = -1 \<and> files view s' = files view s
     else r = 0 \<and> files view s' = (files view s)(cstr name := None))"
  using block_device.fs_delete_ok[OF ata_block_device[OF assms(1)], of s name] assms(2)
  unfolding fs_ok_disk[OF assms(1)] by (auto simp: files_def split: if_splits)

lemma open_ok:
  assumes "ata_wired io view" "disk_ok view s"
  shows "\<exists>r f' s'. fs_open (ata_blk io) f name s = (r, f', s') \<and> disk_ok view s' \<and>
    sectors (view (fdev s')) = sectors (view (fdev s)) \<and> capacity (view (fdev s')) = capacity (view (fdev s)) \<and>
    (case files view s (cstr name) of None \<Rightarrow> r = -1 \<and> f' = f
     | Some c \<Rightarrow> r = 0 \<and> handle_on view s' f' c \<and> f_pos f' = 0)"
proof -
  note bd = ata_block_device[OF assms(1)]
  let ?D = "sectors (view (fdev s))" and ?c = "capacity (view (fdev s))"
  obtain d' where d': "block_device.kept (\<lambda>d. drive_ready (view d)) (\<lambda>d. sectors (view d)) (\<lambda>d. capacity (view d)) (fdev s) d'"
    "disk_ok view (s\<lparr>fdev := d', dir_buf := dir_of ?D\<rparr>)"
    "fs_open (ata_blk io) f name s = (case find (e_matches (dir_of ?D) (cstr name)) [0 ..< 64] of
       None \<Rightarrow> (-1, f, s\<lparr>fdev := d', dir_buf := dir_of ?D\<rparr>)
     | Some i \<Rightarrow> let e = bent (dir_of ?D) i
         in (0, \<lparr>f_start_lba = e_start_lba e, f_size = e_size e, f_pos = 0, f_valid = True\<rparr>,
             s\<lparr>fdev := d', dir_buf := dir_of ?D\<rparr>))"
    by (rule block_device.fs_open_ok[OF bd, of s f name, unfolded fs_ok_disk[OF assms(1)], OF assms(2)])
  have k: "sectors (view d') = ?D" "capacity (view d') = ?c"
    using d'(1) by (simp_all add: block_device.kept_def[OF bd])
  have dir: "dir_ok ?c (dir_of ?D)" and len: "length (?D k) = 512" for k
    using assms(2) by (simp_all add: disk_ok_def fs_wf_def drive_ready_def)
  show ?thesis
  proof (cases "find (e_matches (dir_of ?D) (cstr name)) [0 ..< 64]")
    case None
    then show ?thesis using d' k by (simp add: files_def fs_view_def)
  next
    case (Some i)
    let ?e = "bent (dir_of ?D) i"
    have "i < 64" "e_active ?e" using Some find_matches_iff(1)[OF dir] by (simp_all add: e_matches_def)
    then have "entry_ok ?c ?e" using dir by (simp add: dir_ok_def)
    then show ?thesis using d' k Some length_file_bytes[of ?D, OF len]
      by (simp add: files_def fs_view_def handle_on_def entry_ok_def Let_def)
  qed
qed

lemma read_file_ok:
  assumes "ata_wired io view" "disk_ok view s" "handle_on view s f c"
  shows "\<exists>f' s'. fs_read (ata_blk io) f len s =
      (of_nat (length (take (unat len) (drop (unat (f_pos f)) c))), take (unat len) (drop (unat (f_pos f)) c), f', s') \<and>
    disk_ok view s' \<and> sectors (view (fdev s')) = sectors (view (fdev s)) \<and> handle_on view s' f' c \<and>
    unat (f_pos f') = unat (f_pos f) + length (take (unat len) (drop (unat (f_pos f)) c))"
proof -
  note bd = ata_block_device[OF assms(1)]
  have h: "f_valid f" "unat (f_start_lba f) + nsec (unat (f_size f)) \<le> capacity (view (fdev s))"
    "c = file_bytes (sectors (view (fdev s))) (unat (f_start_lba f)) (unat (f_size f))" "unat (f_size f) = length c"
    using assms(3) unfolding handle_on_def by simp_all
  show ?thesis
  proof (cases "f_pos f \<ge> f_size f")
    case True
    then have "drop (unat (f_pos f)) c = []" using h(4) by (simp add: word_le_nat_alt)
    then show ?thesis using True assms by (simp add: fs_read_def)
  next
    case False
    define n where "n = (if len > f_size f - f_pos f then f_size f - f_pos f else len)"
    define out where "out = take (unat len) (drop (unat (f_pos f)) c)"
    have p: "unat (f_pos f) < length c" using False h(4) by (simp add: word_le_nat_alt)
    have "unat (f_size f - f_pos f) = length c - unat (f_pos f)" using False h(4) by (simp add: unat_sub)
    then have n: "unat n = length out" by (auto simp: n_def out_def word_less_nat_alt min_def)
    then have le: "unat (f_pos f) + unat n \<le> unat (f_size f)" using p h(4) by (simp add: out_def)
    have rdy: "drive_ready (view (fdev s))" "length (sector_buf s) = 512" using assms(2) by (simp_all add: disk_ok_def)
    have "take (unat n) (drop (unat (f_pos f)) c) = out" unfolding n by (simp add: out_def min_def)
    then obtain d' b' where d': "fs_read_loop (ata_blk io) n f s = (out, 0,
         f\<lparr>f_pos := f_pos f + n\<rparr>, s\<lparr>fdev := d', sector_buf := b'\<rparr>)"
        "block_device.kept (\<lambda>d. drive_ready (view d)) (\<lambda>d. sectors (view d)) (\<lambda>d. capacity (view d)) (fdev s) d'" "length b' = 512"
      using block_device.fs_read_loop_ok[OF bd, of s f n, OF rdy h(2) le] unfolding h(3)[symmetric] by auto
    have k: "drive_ready (view d')" "sectors (view d') = sectors (view (fdev s))" "capacity (view d') = capacity (view (fdev s))"
      using d'(2) by (simp_all add: block_device.kept_def[OF bd])
    have pos: "unat (f_pos f + n) = unat (f_pos f) + unat n"
      using le unat_u32[of "f_size f"] unat_plus_u32[of "f_pos f" n] by simp
    have "n = of_nat (length out)" using n by (metis of_nat_unat ucast_id)
    then have "fs_read (ata_blk io) f len s = (of_nat (length out), out, f\<lparr>f_pos := f_pos f + n\<rparr>, s\<lparr>fdev := d', sector_buf := b'\<rparr>)"
      using d'(1) False h(1) unfolding fs_read_def n_def[symmetric] Let_def by simp
    moreover have "disk_ok view (s\<lparr>fdev := d', sector_buf := b'\<rparr>)" using assms(2) k d'(3) by (simp add: disk_ok_def)
    moreover have "handle_on view (s\<lparr>fdev := d', sector_buf := b'\<rparr>) (f\<lparr>f_pos := f_pos f + n\<rparr>) c"
      using assms(3) k by (simp add: handle_on_def)
    ultimately show ?thesis unfolding out_def[symmetric] using k(2) pos n by auto
  qed
qed

text \<open>Successive reads of one handle, with the bytes they deliver put together.\<close>

fun read_seq :: "'d blk \<Rightarrow> fs_file \<Rightarrow> u32 list \<Rightarrow> 'd fs \<Rightarrow> u8 list" where
  "read_seq blk f [] s = []"
| "read_seq blk f (len # lens) s = (let (n, out, f, s) = fs_read blk f len s in out @ read_seq blk f lens s)"

lemma read_seq_ok:
  assumes "ata_wired io view" "disk_ok view s" "handle_on view s f c"
  shows "read_seq (ata_blk io) f lens s = take (sum_list (map unat lens)) (drop (unat (f_pos f)) c)"
  using assms(2,3)
proof (induction lens arbitrary: f s)
  case (Cons len lens)
  let ?out = "take (unat len) (drop (unat (f_pos f)) c)"
  obtain f' s' where r: "fs_read (ata_blk io) f len s = (of_nat (length ?out), ?out, f', s')" "disk_ok view s'"
      "handle_on view s' f' c" "unat (f_pos f') = unat (f_pos f) + length ?out"
    using read_file_ok[OF assms(1) Cons.prems, of len] by blast
  have "drop (unat (f_pos f')) c = drop (unat len) (drop (unat (f_pos f)) c)"
    unfolding r(4) by (simp add: min_def add.commute)
  then show ?case using Cons.IH[OF r(2,3)] r(1) by (simp add: take_add)
qed simp

text \<open>
  C28. \<^verbatim>\<open>fs_open\<close> finds exactly the files the disk holds, and fails with -1 on every other name without touching the handle; the
  bytes delivered by any sequence of \<^verbatim>\<open>fs_read\<close> calls on the handle, of whatever sizes, are the file's contents
  from the start, as far as they were asked for, and nothing beyond the end.
\<close>
theorem fs_open_read:
  assumes "ata_wired io view" "disk_ok view s" "fs_open (ata_blk io) f name s = (r, f', s')"
  shows "case files view s (cstr name) of
      None \<Rightarrow> r = -1 \<and> f' = f
    | Some c \<Rightarrow> r = 0 \<and> read_seq (ata_blk io) f' lens s' = take (sum_list (map unat lens)) c"
proof -
  have ok: "disk_ok view s'" and o: "case files view s (cstr name) of None \<Rightarrow> r = -1 \<and> f' = f
     | Some c \<Rightarrow> r = 0 \<and> handle_on view s' f' c \<and> f_pos f' = 0"
    using open_ok[OF assms(1,2), of f name] assms(3) by auto
  show ?thesis using o read_seq_ok[OF assms(1) ok] by (auto split: option.splits)
qed

lemma init_ok:
  assumes "ata_wired io view" "disk_ok view s"
  shows "fst (fs_init (ata_blk io) s) = 1"
proof -
  note bd = ata_block_device[OF assms(1)]
  let ?sb = "sectors (view (fdev s)) 129"
  have w: "drive_ready (view (fdev s))" "138 \<le> capacity (view (fdev s))" "sb_magic ?sb = FS_MAGIC" "sb_version ?sb = FS_VERSION"
    using assms(2) by (auto simp: disk_ok_def fs_wf_def super_ok_def)
  have "memcmp FS_MAGIC FS_MAGIC 8 = 0" using memcmp_eq_iff[of 8 FS_MAGIC FS_MAGIC] by (simp add: FS_MAGIC_def)
  then show ?thesis using block_device.read_super_ok[OF bd, of s] w by (auto simp: fs_init_def)
qed

text \<open>
  \<^verbatim>\<open>fs_format\<close> makes an empty file system on any ready drive that is large enough for it, and \<^verbatim>\<open>fs_init\<close> then recognises it.
\<close>
theorem fs_format_correct:
  assumes "ata_wired io view" "drive_ready (view (fdev s))" "138 \<le> capacity (view (fdev s))" "length (sector_buf s) = 512"
  shows "\<exists>s'. fs_format (ata_blk io) s = (0, s') \<and> disk_ok view s' \<and> files view s' = Map.empty \<and>
    fst (fs_init (ata_blk io) s') = 1"
  using block_device.fs_format_ok[OF ata_block_device[OF assms(1)], of s] assms(2-4) init_ok[OF assms(1)]
  unfolding fs_ok_disk[OF assms(1)] by (auto simp: files_def)

subsection \<open>A formatted disk\<close>

definition disk0 :: "drive fs" where
  "disk0 = \<lparr>fdev = blank_drive, dir_buf = replicate 4096 0, sector_buf = replicate 512 0\<rparr>"

definition disk1 :: "drive fs" where
  "disk1 = snd (fs_format (ata_blk ata_io) disk0)"

lemma disk1_ok: "disk_ok (\<lambda>d. d) disk1" "files (\<lambda>d. d) disk1 = Map.empty" "capacity (fdev disk1) = 4096"
proof -
  have "drive_ready (fdev disk0)" "138 \<le> capacity (fdev disk0)" "length (sector_buf disk0) = 512" "capacity (fdev disk0) = 4096"
    using blank_drive_ready by (simp_all add: disk0_def blank_drive_def)
  then show "disk_ok (\<lambda>d. d) disk1" "files (\<lambda>d. d) disk1 = Map.empty" "capacity (fdev disk1) = 4096"
    using block_device.fs_format_ok[OF ata_block_device[OF ata_io_wired], of disk0]
    unfolding fs_ok_disk[OF ata_io_wired] by (auto simp: files_def disk1_def)
qed

lemma disk1_room: "has_room (\<lambda>d. d) disk1 300" "\<not> dir_full (sectors (fdev disk1))"
proof -
  let ?B = "dir_of (sectors (fdev disk1))"
  have "dir_ok 4096 ?B" using disk1_ok(1,3) by (simp add: disk_ok_def fs_wf_def)
  moreover have "find (e_matches ?B (cstr (bent ?B i))) [0 ..< 64] = None" for i
    using fun_cong[OF disk1_ok(2), of "cstr (bent ?B i)"] by (simp add: files_def fs_view_def)
  ultimately have "\<not> e_active (bent ?B i)" if "i < 64" for i
    using find_matches_iff(2)[of 4096 ?B "cstr (bent ?B i)"] that by (auto simp: e_matches_def)
  then show "has_room (\<lambda>d. d) disk1 300" "\<not> dir_full (sectors (fdev disk1))"
    using disk1_ok(3) by (auto simp: has_room_def fs_room_def nsec_def dir_full_def intro: exI[of _ "0 :: nat"])
qed

theorem fs_write_new_refines_witness:
  "\<exists>s'. fs_write_new (ata_blk ata_io) [97, 0] (replicate 300 5) disk1 = (0, s') \<and>
     files (\<lambda>d. d) s' = [[97] \<mapsto> replicate 300 5]"
  using fs_write_new_refines[OF ata_io_wired disk1_ok(1), of "[97, 0]" "replicate 300 5"] disk1_room
  by (auto simp: disk1_ok(2))

theorem fs_delete_refines_witness:
  "\<exists>s'. fs_delete (ata_blk ata_io) [97, 0] disk1 = (-1, s') \<and> files (\<lambda>d. d) s' = Map.empty"
  using fs_delete_refines[OF ata_io_wired disk1_ok(1), of "[97, 0]"] by (auto simp: disk1_ok(2))

definition disk2 :: "drive fs" where
  "disk2 = snd (fs_write_new (ata_blk ata_io) [97, 0] (replicate 300 5) disk1)"

lemma disk2_ok: "disk_ok (\<lambda>d. d) disk2" "files (\<lambda>d. d) disk2 = [[97] \<mapsto> replicate 300 5]"
  using block_device.fs_write_new_ok[OF ata_block_device[OF ata_io_wired], of disk1 "[97, 0]" "replicate 300 5"]
    disk1_room disk1_ok
  unfolding fs_ok_disk[OF ata_io_wired] by (auto simp: files_def has_room_def disk2_def)

definition no_file :: fs_file where
  "no_file = \<lparr>f_start_lba = 0, f_size = 0, f_pos = 0, f_valid = False\<rparr>"

theorem fs_open_read_witness:
  "\<exists>f s. fs_open (ata_blk ata_io) no_file [97, 0] disk2 = (0, f, s) \<and> read_seq (ata_blk ata_io) f [100, 512] s = replicate 300 5"
proof -
  obtain r f s where o: "fs_open (ata_blk ata_io) no_file [97, 0] disk2 = (r, f, s)" by (metis prod_cases3)
  show ?thesis using fs_open_read[OF ata_io_wired disk2_ok(1) o, of "[100, 512]"] o by (simp add: disk2_ok(2))
qed

theorem fs_format_correct_witness:
  "\<exists>s'. fs_format (ata_blk ata_io) disk0 = (0, s') \<and> files (\<lambda>d. d) s' = Map.empty"
  using fs_format_correct[OF ata_io_wired, of disk0] blank_drive_ready by (auto simp: disk0_def blank_drive_def)

end
