(* ===== verification/Fd.thy ===== *)
theory Fd
  imports Fs_Correct
begin

text \<open>
  The table of file descriptors, \<^verbatim>\<open>kernel/fd.c\<close>: sixteen slots shared by all processes, each with the handle of an open
  file and the pid of the process that opened it.
\<close>

section \<open>The code\<close>

definition FD_MAX :: nat where [kconst]: "FD_MAX = 16"

record fd_entry =
  fd_file :: fs_file
  fd_pid :: u32
  used :: bool

record 'd fds =
  fd_table :: "fd_entry list"
  ffs :: "'d fs"

definition zero_fd :: fd_entry where
  "zero_fd = \<lparr>fd_file = \<lparr>f_start_lba = 0, f_size = 0, f_pos = 0, f_valid = False\<rparr>, fd_pid = 0, used = False\<rparr>"

definition fd_init :: "'d fds \<Rightarrow> 'd fds" where
  "fd_init s = s\<lparr>fd_table := replicate FD_MAX zero_fd\<rparr>"

definition fd_open :: "'d blk \<Rightarrow> u8 list \<Rightarrow> u32 \<Rightarrow> 'd fds \<Rightarrow> 'd fds \<times> int" where
  "fd_open blk name pid s =
     (case find (\<lambda>i. \<not> used (fd_table s ! i)) [0 ..< FD_MAX] of
        None \<Rightarrow> (s, -1)
      | Some slot \<Rightarrow>
          let e = fd_table s ! slot;
              (r, f, fs) = fs_open blk (fd_file e) name (ffs s);
              s = s\<lparr>fd_table := (fd_table s)[slot := e\<lparr>fd_file := f\<rparr>], ffs := fs\<rparr>
          in if r \<noteq> 0 then (s, -1)
             else (s\<lparr>fd_table := (fd_table s)[slot := (fd_table s ! slot)\<lparr>fd_pid := pid, used := True\<rparr>]\<rparr>, int slot))"

text \<open>The test both other operations start with.\<close>

definition fd_denied :: "int \<Rightarrow> u32 \<Rightarrow> 'd fds \<Rightarrow> bool" where
  "fd_denied fd pid s \<longleftrightarrow> fd < 0 \<or> nat fd \<ge> FD_MAX \<or> \<not> used (fd_table s ! nat fd) \<or> fd_pid (fd_table s ! nat fd) \<noteq> pid"

definition fd_read :: "'d blk \<Rightarrow> int \<Rightarrow> u32 \<Rightarrow> u32 \<Rightarrow> 'd fds \<Rightarrow> 'd fds \<times> int \<times> u8 list" where
  "fd_read blk fd len pid s =
     (if fd_denied fd pid s then (s, -1, [])
      else let e = fd_table s ! nat fd;
               (n, out, f, fs) = fs_read blk (fd_file e) len (ffs s)
           in (s\<lparr>fd_table := (fd_table s)[nat fd := e\<lparr>fd_file := f\<rparr>], ffs := fs\<rparr>, sint n, out))"

definition fd_close :: "int \<Rightarrow> u32 \<Rightarrow> 'd fds \<Rightarrow> 'd fds" where
  "fd_close fd pid s =
     (if fd_denied fd pid s then s
      else let e = fd_table s ! nat fd
           in s\<lparr>fd_table := (fd_table s)[nat fd := e\<lparr>fd_file := fs_close (fd_file e), used := False, fd_pid := 0\<rparr>]\<rparr>)"

section \<open>Descriptors are private\<close>

text \<open>A call of one process on the table.\<close>

datatype fd_call = Fd_open "u8 list" | Fd_read int u32 | Fd_close int

definition fd_step :: "'d blk \<Rightarrow> u32 \<Rightarrow> fd_call \<Rightarrow> 'd fds \<Rightarrow> 'd fds" where
  "fd_step blk pid c s =
     (case c of Fd_open name \<Rightarrow> fst (fd_open blk name pid s) | Fd_read fd len \<Rightarrow> fst (fd_read blk fd len pid s)
      | Fd_close fd \<Rightarrow> fd_close fd pid s)"

lemma fd_step_foreign:
  assumes "length (fd_table s) = 16" "i < 16" "used (fd_table s ! i)" "fd_pid (fd_table s ! i) \<noteq> pid"
  shows "fd_table (fd_step blk pid c s) ! i = fd_table s ! i \<and> length (fd_table (fd_step blk pid c s)) = 16"
proof (cases c)
  case (Fd_open name)
  show ?thesis
  proof (cases "find (\<lambda>i. \<not> used (fd_table s ! i)) [0 ..< FD_MAX]")
    case None
    then show ?thesis using Fd_open assms(1) by (simp add: fd_step_def fd_open_def)
  next
    case (Some slot)
    then have "\<not> used (fd_table s ! slot)" by (auto simp: find_Some_iff)
    then have "slot \<noteq> i" using assms(3) by auto
    then show ?thesis using Fd_open Some assms(1) by (simp add: fd_step_def fd_open_def Let_def split_beta)
  qed
next
  case (Fd_read fd len)
  have "nat fd \<noteq> i" if "\<not> fd_denied fd pid s" using that assms(4) by (auto simp: fd_denied_def)
  then show ?thesis using Fd_read assms(1) by (auto simp: fd_step_def fd_read_def Let_def split_beta)
next
  case (Fd_close fd)
  have "nat fd \<noteq> i" if "\<not> fd_denied fd pid s" using that assms(4) by (auto simp: fd_denied_def)
  then show ?thesis using Fd_close assms(1) by (auto simp: fd_step_def fd_close_def Let_def)
qed

lemma fd_steps_foreign:
  assumes "length (fd_table s) = 16" "i < 16" "used (fd_table s ! i)" "\<forall>(pid, c) \<in> set calls. pid \<noteq> fd_pid (fd_table s ! i)"
  shows "fd_table (fold (\<lambda>(pid, c). fd_step blk pid c) calls s) ! i = fd_table s ! i"
  using assms
proof (induction calls arbitrary: s)
  case (Cons a calls)
  obtain pid c where a: "a = (pid, c)" by (cases a)
  have "fd_table (fd_step blk pid c s) ! i = fd_table s ! i \<and> length (fd_table (fd_step blk pid c s)) = 16"
    by (rule fd_step_foreign[OF Cons.prems(1-3)]) (use Cons.prems(4) a in auto)
  then show ?case using Cons.IH[of "fd_step blk pid c s"] Cons.prems a by simp
qed simp

lemma fd_denied_foreign: "fd_pid (fd_table s ! i) \<noteq> pid \<Longrightarrow> fd_denied (int i) pid s"
  by (simp add: fd_denied_def)

lemma fd_open_fresh: "used (fd_table s ! i) \<Longrightarrow> snd (fd_open blk name pid s) \<noteq> int i"
  by (auto simp: fd_open_def Let_def split_beta find_Some_iff split: option.split)

text \<open>
  C29. File descriptors are private to the process that opened them: whatever sequence of open, read and close calls other processes
  make, a descriptor in use keeps its file, its read position and its owner, and at the end of every such sequence a read of it by another
  process returns -1 with no bytes and changes nothing, a close of it by another process changes nothing, and no open returns it.
\<close>
theorem fd_isolation:
  assumes "length (fd_table s) = 16" "i < 16" "used (fd_table s ! i)" "\<forall>(pid, c) \<in> set calls. pid \<noteq> fd_pid (fd_table s ! i)"
    and "s' = fold (\<lambda>(pid, c). fd_step blk pid c) calls s"
  shows "fd_table s' ! i = fd_table s ! i \<and> (\<forall>name pid. snd (fd_open blk name pid s') \<noteq> int i) \<and>
    (\<forall>pid len. pid \<noteq> fd_pid (fd_table s ! i) \<longrightarrow> fd_read blk (int i) len pid s' = (s', -1, []) \<and> fd_close (int i) pid s' = s')"
proof -
  have e: "fd_table s' ! i = fd_table s ! i" using fd_steps_foreign[OF assms(1-4)] assms(5) by simp
  then have "fd_denied (int i) pid s'" if "pid \<noteq> fd_pid (fd_table s ! i)" for pid
    using that by (intro fd_denied_foreign) simp
  then show ?thesis using e assms(3) fd_open_fresh[of s' i blk] by (simp add: fd_read_def fd_close_def)
qed

definition fds1 :: "drive fds" where
  "fds1 = \<lparr>fd_table = zero_fd\<lparr>used := True, fd_pid := 4\<rparr> # replicate 15 zero_fd, ffs = disk1\<rparr>"

theorem fd_isolation_witness:
  "let s' = fold (\<lambda>(pid, c). fd_step (ata_blk ata_io) pid c) [(5, Fd_close 0), (6, Fd_read 0 10), (5, Fd_open [97])] fds1
   in fd_table s' ! 0 = zero_fd\<lparr>used := True, fd_pid := 4\<rparr> \<and> fd_read (ata_blk ata_io) 0 20 7 s' = (s', -1, [])"
  using fd_isolation[OF _ _ _ _ refl, of fds1 0 "[(5, Fd_close 0), (6, Fd_read 0 10), (5, Fd_open [97])]" "ata_blk ata_io"]
  by (simp add: fds1_def)

end
