(* ===== verification/Vga.thy ===== *)
theory Vga
  imports Devices CString
begin

text \<open>
  The text console, \<^verbatim>\<open>kernel/vga.c\<close>: the cell buffer with its software cursor, scrolling, and the number and format
  printing on top of it. The controller's cursor registers are behind the ports.
\<close>

section \<open>The code\<close>

record 'd console =
  vdev :: 'd
  vga_buffer :: "u16 list"
  vga_row :: int
  vga_col :: int
  vga_color :: u8

definition VGA_COLS :: int where [kconst]: "VGA_COLS = 80"
definition VGA_ROWS :: int where [kconst]: "VGA_ROWS = 25"

definition VGA_COLOR_BLACK :: u8 where "VGA_COLOR_BLACK = 0"
definition VGA_COLOR_LIGHT_GREY :: u8 where "VGA_COLOR_LIGHT_GREY = 7"
definition VGA_COLOR_LIGHT_CYAN :: u8 where "VGA_COLOR_LIGHT_CYAN = 11"
definition VGA_COLOR_LIGHT_RED :: u8 where "VGA_COLOR_LIGHT_RED = 12"

definition vga_entry :: "u8 \<Rightarrow> u8 \<Rightarrow> u16" where
  "vga_entry c color = ucast c OR push_bit 8 (ucast color)"

definition make_color :: "u8 \<Rightarrow> u8 \<Rightarrow> u8" where
  "make_color fg bg = fg OR push_bit 4 bg"

definition vga_update_cursor :: "'d io \<Rightarrow> 'd console \<Rightarrow> 'd console" where
  "vga_update_cursor io s =
     (let pos = (of_int (vga_row s * VGA_COLS + vga_col s) :: u16);
          d = outb io 0x3D4 0x0E (vdev s);
          d = outb io 0x3D5 (ucast (drop_bit 8 pos AND 0xFF)) d;
          d = outb io 0x3D4 0x0F d;
          d = outb io 0x3D5 (ucast (pos AND 0xFF)) d
      in s\<lparr>vdev := d\<rparr>)"

definition set_cell :: "nat \<Rightarrow> nat \<Rightarrow> u16 \<Rightarrow> 'd console \<Rightarrow> 'd console" where
  "set_cell row col v s = s\<lparr>vga_buffer := (vga_buffer s)[row * 80 + col := v]\<rparr>"

definition vga_scroll :: "'d console \<Rightarrow> 'd console" where
  "vga_scroll s =
     (let s = fold (\<lambda>row s. fold (\<lambda>col s. set_cell row col (vga_buffer s ! ((row + 1) * 80 + col)) s) [0 ..< 80] s) [0 ..< 24] s;
          s = fold (\<lambda>col s. set_cell 24 col (vga_entry 32 (vga_color s)) s) [0 ..< 80] s
      in s\<lparr>vga_row := VGA_ROWS - 1\<rparr>)"

definition vga_set_color :: "u8 \<Rightarrow> u8 \<Rightarrow> 'd console \<Rightarrow> 'd console" where
  "vga_set_color fg bg s = s\<lparr>vga_color := make_color fg bg\<rparr>"

definition vga_clear :: "'d io \<Rightarrow> 'd console \<Rightarrow> 'd console" where
  "vga_clear io s =
     (let s = fold (\<lambda>row s. fold (\<lambda>col s. set_cell row col (vga_entry 32 (vga_color s)) s) [0 ..< 80] s) [0 ..< 25] s
      in vga_update_cursor io (s\<lparr>vga_row := 0, vga_col := 0\<rparr>))"

definition vga_init :: "'d io \<Rightarrow> 'd console \<Rightarrow> 'd console" where
  "vga_init io s =
     vga_clear io (s\<lparr>vga_row := 0, vga_col := 0, vga_color := make_color VGA_COLOR_LIGHT_GREY VGA_COLOR_BLACK\<rparr>)"

definition vga_putchar :: "'d io \<Rightarrow> u8 \<Rightarrow> 'd console \<Rightarrow> 'd console" where
  "vga_putchar io c s =
     (let s =
        (if c = 10 then s\<lparr>vga_col := 0, vga_row := vga_row s + 1\<rparr>
         else if c = 13 then s\<lparr>vga_col := 0\<rparr>
         else if c = 8 then
           (if vga_col s > 0
            then let s = s\<lparr>vga_col := vga_col s - 1\<rparr>
                 in set_cell (nat (vga_row s)) (nat (vga_col s)) (vga_entry 32 (vga_color s)) s
            else s)
         else let s = set_cell (nat (vga_row s)) (nat (vga_col s)) (vga_entry c (vga_color s)) s
              in s\<lparr>vga_col := vga_col s + 1\<rparr>);
          s = (if vga_col s \<ge> VGA_COLS then s\<lparr>vga_col := 0, vga_row := vga_row s + 1\<rparr> else s);
          s = (if vga_row s \<ge> VGA_ROWS then vga_scroll s else s)
      in vga_update_cursor io s)"

fun vga_puts :: "'d io \<Rightarrow> u8 list \<Rightarrow> 'd console \<Rightarrow> 'd console" where
  "vga_puts io [] s = s"
| "vga_puts io (c # str) s = (if c \<noteq> 0 then vga_puts io str (vga_putchar io c s) else s)"

definition vga_set_cursor :: "'d io \<Rightarrow> int \<Rightarrow> int \<Rightarrow> 'd console \<Rightarrow> 'd console" where
  "vga_set_cursor io row col s =
     (if row \<ge> 0 \<and> row < VGA_ROWS \<and> col \<ge> 0 \<and> col < VGA_COLS
      then vga_update_cursor io (s\<lparr>vga_row := row, vga_col := col\<rparr>) else s)"

definition vga_get_row :: "'d console \<Rightarrow> int" where "vga_get_row s = vga_row s"
definition vga_get_col :: "'d console \<Rightarrow> int" where "vga_get_col s = vga_col s"

text \<open>The digits of a number, last digit first, as the loops put them into their buffers; the loops then print backwards.\<close>

function dec_digits :: "u32 \<Rightarrow> u8 list" where
  "dec_digits n = (if n > 0 then (48 + ucast (n mod 10)) # dec_digits (n div 10) else [])"
  by pat_completeness auto
termination
  by (relation "measure unat") (simp_all add: unat_div word_less_nat_alt)

declare dec_digits.simps [simp del]

definition vga_print_uint :: "'d io \<Rightarrow> u32 \<Rightarrow> 'd console \<Rightarrow> 'd console" where
  "vga_print_uint io n s =
     (if n = 0 then vga_putchar io 48 s else fold (vga_putchar io) (rev (dec_digits n)) s)"

definition hex_char :: "u32 \<Rightarrow> u8" where
  "hex_char nibble = (if nibble < 10 then 48 + ucast nibble else 65 + ucast nibble - 10)"

definition vga_print_hex :: "'d io \<Rightarrow> u32 \<Rightarrow> 'd console \<Rightarrow> 'd console" where
  "vga_print_hex io n s =
     fold (\<lambda>shift. vga_putchar io (hex_char (drop_bit shift n AND 0xF))) [28, 24, 20, 16, 12, 8, 4, 0]
       (vga_puts io (chars ''0x'') s)"

fun hex_digits :: "bool \<Rightarrow> nat \<Rightarrow> u32 \<Rightarrow> u8 list" where
  "hex_digits upper 0 n = []"
| "hex_digits upper (Suc i) n =
     (if n > 0
      then (if upper then chars ''0123456789ABCDEF'' else chars ''0123456789abcdef'') ! unat (n AND 0xF) #
           hex_digits upper i (drop_bit 4 n)
      else [])"

definition vga_puthex :: "'d io \<Rightarrow> u32 \<Rightarrow> bool \<Rightarrow> 'd console \<Rightarrow> 'd console" where
  "vga_puthex io n upper s =
     (if n = 0 then vga_putchar io 48 s else fold (vga_putchar io) (rev (hex_digits upper 8 n)) s)"

definition vga_print_uint_padded :: "'d io \<Rightarrow> u32 \<Rightarrow> int \<Rightarrow> 'd console \<Rightarrow> 'd console" where
  "vga_print_uint_padded io n width s =
     (let buf = (if n = 0 then [48] else dec_digits n);
          s = fold (vga_putchar io) (replicate (nat (width - int (length buf))) 48) s
      in fold (vga_putchar io) (rev buf) s)"

text \<open>
  The arguments of a \<^verbatim>\<open>printf\<close> call: integers, and strings that may be null. Taking an argument that is not there, or
  running past the end of the format, has no value.
\<close>

datatype arg = Int_arg u32 | Str_arg "u8 list option"

fun parse_width :: "int \<Rightarrow> u8 list \<Rightarrow> int \<times> u8 list" where
  "parse_width width [] = (width, [])"
| "parse_width width (c # fmt) =
     (if 48 \<le> c \<and> c \<le> 57 then parse_width (width * 10 + (uint c - 48)) fmt else (width, c # fmt))"

definition printf_spec :: "'d io \<Rightarrow> bool \<Rightarrow> int \<Rightarrow> u8 \<Rightarrow> arg list \<Rightarrow> 'd console \<Rightarrow> (arg list \<times> 'd console) option" where
  "printf_spec io zero_pad width spec args s =
     (if spec = 99 then
        (case args of Int_arg v # args \<Rightarrow> Some (args, vga_putchar io (ucast v) s) | _ \<Rightarrow> None)
      else if spec = 115 then
        (case args of Str_arg str # args \<Rightarrow>
           Some (args, vga_puts io (case str of None \<Rightarrow> chars ''(null)'' | Some t \<Rightarrow> t) s) | _ \<Rightarrow> None)
      else if spec = 100 then
        (case args of Int_arg v # args \<Rightarrow>
           Some (args, if sint v < 0
             then vga_print_uint_padded io (- v) (if width > 1 then width - 1 else 0) (vga_putchar io 45 s)
             else vga_print_uint_padded io v (if zero_pad then width else 0) s) | _ \<Rightarrow> None)
      else if spec = 117 then
        (case args of Int_arg v # args \<Rightarrow> Some (args, vga_print_uint_padded io v (if zero_pad then width else 0) s) | _ \<Rightarrow> None)
      else if spec = 120 then
        (case args of Int_arg v # args \<Rightarrow> Some (args, vga_puthex io v False s) | _ \<Rightarrow> None)
      else if spec = 88 then
        (case args of Int_arg v # args \<Rightarrow> Some (args, vga_puthex io v True s) | _ \<Rightarrow> None)
      else if spec = 37 then Some (args, vga_putchar io 37 s)
      else
        let s = vga_putchar io 37 s;
            s = (if zero_pad then vga_putchar io 48 s else s);
            s = (if width > 0 then vga_putchar io (of_int (48 + width mod 10)) s else s)
        in Some (args, vga_putchar io spec s))"

definition parse_flags :: "u8 list \<Rightarrow> bool \<times> int \<times> u8 list" where
  "parse_flags fmt =
     (let zero_pad = (fmt \<noteq> [] \<and> hd fmt = 48);
          (width, fmt) = parse_width 0 (if zero_pad then tl fmt else fmt)
      in (zero_pad, width, fmt))"

lemma parse_width_length: "length (snd (parse_width w fmt)) \<le> length fmt"
  by (induction w fmt rule: parse_width.induct) auto

lemma parse_flags_length: "parse_flags fmt = (z, w, spec # rest) \<Longrightarrow> length rest < length fmt"
  using parse_width_length [of 0 fmt] parse_width_length [of 0 "tl fmt"]
  by (auto simp: parse_flags_def Let_def split: prod.splits if_splits)

function vga_printf :: "'d io \<Rightarrow> u8 list \<Rightarrow> arg list \<Rightarrow> 'd console \<Rightarrow> 'd console option" where
  "vga_printf io fmt args s =
     (case fmt of [] \<Rightarrow> Some s
      | c # fmt \<Rightarrow>
          if c = 0 then Some s
          else if c \<noteq> 37 then vga_printf io fmt args (vga_putchar io c s)
          else
            (case parse_flags fmt of (zero_pad, width, rest) \<Rightarrow>
              (case rest of [] \<Rightarrow> None
               | spec # rest \<Rightarrow>
                   if spec = 0 then None
                   else (case printf_spec io zero_pad width spec args s of None \<Rightarrow> None
                         | Some (args, s) \<Rightarrow> vga_printf io rest args s))))"
  by pat_completeness auto
termination
  by (relation "measure (\<lambda>(io, fmt, args, s). length fmt)") (auto dest!: parse_flags_length [OF sym])

declare vga_printf.simps [simp del]

section \<open>The screen\<close>

text \<open>The cursor is on the screen and the buffer has the screen's size.\<close>

definition con_ok :: "'d console \<Rightarrow> bool" where
  "con_ok s \<longleftrightarrow> length (vga_buffer s) = 2000 \<and> 0 \<le> vga_row s \<and> vga_row s < 25 \<and> 0 \<le> vga_col s \<and> vga_col s < 80"

lemma set_cell_simps [simp]:
  "vga_row (set_cell r c v s) = vga_row s" "vga_col (set_cell r c v s) = vga_col s"
  "vga_color (set_cell r c v s) = vga_color s" "vdev (set_cell r c v s) = vdev s"
  "console.more (set_cell r c v s) = console.more s"
  "vga_buffer (set_cell r c v s) = (vga_buffer s)[r * 80 + c := v]"
  by (simp_all add: set_cell_def)

lemma update_cursor_simps [simp]:
  "vga_buffer (vga_update_cursor io s) = vga_buffer s" "vga_row (vga_update_cursor io s) = vga_row s"
  "vga_col (vga_update_cursor io s) = vga_col s" "vga_color (vga_update_cursor io s) = vga_color s"
  by (simp_all add: vga_update_cursor_def Let_def)

lemma fold_row_const:
  assumes "\<And>r c v s. g (set_cell r c v s) = g s"
  shows "g (fold (\<lambda>c s. set_cell r c (v c s) s) cols s) = g s"
  by (induction cols arbitrary: s) (simp_all add: assms)

lemma fold_rows_const:
  assumes "\<And>r c v s. g (set_cell r c v s) = g s"
  shows "g (fold (\<lambda>row. fold (\<lambda>c s. set_cell row c (v row c s) s) cols) rows s) = g s"
  by (induction rows arbitrary: s) (simp_all add: fold_row_const assms)

text \<open>
  One row of a row-by-row loop over the cells: the cells before the loop's position have their new contents,
  the others the old. The new contents may depend on the old contents of the cells after the position.
\<close>

definition swept :: "nat \<Rightarrow> (nat \<Rightarrow> u16) \<Rightarrow> u16 list \<Rightarrow> u8 \<Rightarrow> 'd console \<Rightarrow> bool" where
  "swept n f old col s \<longleftrightarrow> length (vga_buffer s) = length old \<and> vga_color s = col \<and>
     (\<forall>k < length old. vga_buffer s ! k = (if k < n then f k else old ! k))"

lemma sweep_row:
  assumes "swept (row * 80) f old a s" "row * 80 + 80 \<le> length old"
    and "\<And>c s. c < 80 \<Longrightarrow> swept (row * 80 + c) f old a s \<Longrightarrow> v c s = f (row * 80 + c)"
  shows "swept (Suc row * 80) f old a (fold (\<lambda>c s. set_cell row c (v c s) s) [0 ..< 80] s)"
proof -
  have "swept (row * 80 + 80) f old a (fold (\<lambda>c s. set_cell row c (v c s) s) [0 ..< 80] s)"
  proof (rule fold_invariant_upt [where P = "\<lambda>c s. swept (row * 80 + c) f old a s"])
    show "swept (row * 80 + 0) f old a s" using assms(1) by simp
  next
    fix c and s' :: "'a console" assume "0 \<le> c" "c < 80" and s': "swept (row * 80 + c) f old a s'"
    then show "swept (row * 80 + Suc c) f old a (set_cell row c (v c s') s')"
      using assms(2,3) by (auto simp: swept_def nth_list_update less_Suc_eq)
  qed simp
  then show ?thesis by (simp add: add.commute)
qed

lemma sweep_rows:
  assumes "swept 0 f old a s" "n * 80 \<le> length old"
    and "\<And>row c s. row < n \<Longrightarrow> c < 80 \<Longrightarrow> swept (row * 80 + c) f old a s \<Longrightarrow> v row c s = f (row * 80 + c)"
  shows "swept (n * 80) f old a (fold (\<lambda>row. fold (\<lambda>c s. set_cell row c (v row c s) s) [0 ..< 80]) [0 ..< n] s)"
proof (rule fold_invariant_upt [where P = "\<lambda>row s. swept (row * 80) f old a s"])
  fix row and s' :: "'a console" assume "row < n" "swept (row * 80) f old a s'"
  then show "swept (Suc row * 80) f old a (fold (\<lambda>c s. set_cell row c (v row c s) s) [0 ..< 80] s')"
    using assms(2,3) by (intro sweep_row) auto
qed (use assms(1) in simp_all)

lemma swept_buffer: "swept (length old) f old a s \<Longrightarrow> vga_buffer s = map f [0 ..< length old]"
  by (auto simp: swept_def intro: nth_equalityI)

lemma swept_start: "swept 0 f (vga_buffer s) (vga_color s) s"
  by (simp add: swept_def)

lemma vga_scroll_eq:
  assumes "length (vga_buffer s) = 2000"
  shows "vga_scroll s =
    s\<lparr>vga_buffer := drop 80 (vga_buffer s) @ replicate 80 (vga_entry 32 (vga_color s)), vga_row := 24\<rparr>"
proof -
  define old where "old = vga_buffer s"
  define f where "f k = (if k < 1920 then old ! (k + 80) else vga_entry 32 (vga_color s))" for k
  define up where "up = fold (\<lambda>row. fold (\<lambda>col s. set_cell row col (vga_buffer s ! ((row + 1) * 80 + col)) s) [0 ..< 80]) [0 ..< 24] s"
  define t where "t = fold (\<lambda>col s. set_cell 24 col (vga_entry 32 (vga_color s)) s) [0 ..< 80] up"
  have len: "length old = 2000" using assms by (simp add: old_def)
  have "swept (24 * 80) f old (vga_color s) up"
    unfolding up_def
  proof (rule sweep_rows)
    fix row c and s' :: "'a console"
    assume "row < 24" "c < 80" "swept (row * 80 + c) f old (vga_color s) s'"
    then show "vga_buffer s' ! ((row + 1) * 80 + c) = f (row * 80 + c)"
      using len by (auto simp: swept_def f_def add.commute add.left_commute)
  qed (simp_all add: swept_start len flip: old_def, simp add: old_def swept_start)
  then have "swept (Suc 24 * 80) f old (vga_color s) t"
    unfolding t_def
    by (intro sweep_row) (auto simp: len f_def swept_def)
  then have "vga_buffer t = map f [0 ..< 2000]"
    using swept_buffer [of old f] len by simp
  also have "\<dots> = drop 80 old @ replicate 80 (vga_entry 32 (vga_color s))"
    by (rule nth_equalityI) (auto simp: f_def len nth_append add.commute)
  finally have buf: "vga_buffer t = \<dots>" .
  have fix_fields: "g t = g s"
    if "\<And>r c v (s :: 'a console). g (set_cell r c v s) = g s" for g :: "'a console \<Rightarrow> 'b"
    using fold_row_const [of g, OF that] fold_rows_const [of g, OF that] by (simp only: t_def up_def)
  have "vga_scroll s = t\<lparr>vga_row := 24\<rparr>"
    by (simp only: vga_scroll_def Let_def VGA_ROWS_def t_def up_def) simp
  then show ?thesis
    using buf fix_fields [of vga_col] fix_fields [of vga_color] fix_fields [of vdev] fix_fields [of console.more]
    by (intro console.equality) (simp_all add: old_def)
qed

lemma vga_clear_eq:
  assumes "length (vga_buffer s) = 2000"
  shows "vga_clear io s =
    vga_update_cursor io (s\<lparr>vga_buffer := replicate 2000 (vga_entry 32 (vga_color s)), vga_row := 0, vga_col := 0\<rparr>)"
proof -
  define t where "t = fold (\<lambda>row. fold (\<lambda>col s. set_cell row col (vga_entry 32 (vga_color s)) s) [0 ..< 80]) [0 ..< 25] s"
  have "swept (25 * 80) (\<lambda>k. vga_entry 32 (vga_color s)) (vga_buffer s) (vga_color s) t"
    unfolding t_def by (rule sweep_rows) (simp_all add: swept_start assms, simp add: swept_def)
  then have "vga_buffer t = map (\<lambda>k. vga_entry 32 (vga_color s)) [0 ..< length (vga_buffer s)]"
    by (intro swept_buffer) (simp add: assms)
  then have buf: "vga_buffer t = replicate 2000 (vga_entry 32 (vga_color s))"
    by (simp add: assms map_replicate_const)
  have fix_fields: "g t = g s"
    if "\<And>r c v (s :: 'a console). g (set_cell r c v s) = g s" for g :: "'a console \<Rightarrow> 'b"
    using fold_rows_const [of g, OF that] by (simp only: t_def)
  have "t\<lparr>vga_row := 0, vga_col := 0\<rparr> =
      s\<lparr>vga_buffer := replicate 2000 (vga_entry 32 (vga_color s)), vga_row := 0, vga_col := 0\<rparr>"
    using buf fix_fields [of vga_color] fix_fields [of vdev] fix_fields [of console.more]
    by (intro console.equality) simp_all
  then show ?thesis by (simp only: vga_clear_def Let_def t_def)
qed

text \<open>The cursor's position in the buffer.\<close>

definition cur_pos :: "'d console \<Rightarrow> nat" where
  "cur_pos s = nat (vga_row s) * 80 + nat (vga_col s)"

lemma cur_pos_less: "con_ok s \<Longrightarrow> cur_pos s < 2000"
  unfolding con_ok_def cur_pos_def by linarith

definition printable :: "u8 \<Rightarrow> bool" where
  "printable c \<longleftrightarrow> c \<noteq> 0 \<and> c \<noteq> 8 \<and> c \<noteq> 10 \<and> c \<noteq> 13"

text \<open>What the final part of \<^const>\<open>vga_putchar\<close> does after a cell is written and the cursor advanced.\<close>

lemma putchar_printable:
  assumes "con_ok s" "printable c"
  defines "b \<equiv> (vga_buffer s)[cur_pos s := vga_entry c (vga_color s)]"
  shows "con_ok (vga_putchar io c s)"
    and "vga_color (vga_putchar io c s) = vga_color s"
    and "cur_pos (vga_putchar io c s) = (if cur_pos s = 1999 then 1920 else Suc (cur_pos s))"
    and "vga_buffer (vga_putchar io c s) =
      (if cur_pos s = 1999 then drop 80 b @ replicate 80 (vga_entry 32 (vga_color s)) else b)"
proof -
  have pos: "cur_pos s = 1999 \<longleftrightarrow> vga_row s = 24 \<and> vga_col s = 79"
    using assms(1) unfolding con_ok_def cur_pos_def by linarith
  define t where "t = (set_cell (nat (vga_row s)) (nat (vga_col s)) (vga_entry c (vga_color s)) s)\<lparr>vga_col := vga_col s + 1\<rparr>"
  have len: "length b = 2000" and t: "vga_buffer t = b" "vga_row t = vga_row s" "vga_col t = vga_col s + 1"
    "vga_color t = vga_color s"
    using assms(1) by (simp_all add: t_def con_ok_def b_def cur_pos_def)
  have put: "vga_putchar io c s =
    (let s = (if vga_col t \<ge> 80 then t\<lparr>vga_col := 0, vga_row := vga_row t + 1\<rparr> else t)
     in vga_update_cursor io (if vga_row s \<ge> 25 then vga_scroll s else s))"
    using assms(2) by (simp add: vga_putchar_def printable_def t_def VGA_COLS_def VGA_ROWS_def Let_def)
  have [simp]: "nat (vga_col s + 1) = Suc (nat (vga_col s))" using assms(1) unfolding con_ok_def by linarith
  consider "vga_col s = 79" "vga_row s = 24" | "vga_col s = 79" "vga_row s < 24" | "vga_col s < 79"
    using assms(1) unfolding con_ok_def by linarith
  note cs = this
  have row1: "vga_row s < 24 \<Longrightarrow> nat (vga_row s + 1) = Suc (nat (vga_row s))"
    using assms(1) unfolding con_ok_def by linarith
  show "con_ok (vga_putchar io c s)"
    using cs assms(1) by cases (simp_all add: put Let_def t len vga_scroll_eq con_ok_def)
  show "vga_color (vga_putchar io c s) = vga_color s"
    using cs assms(1) by cases (simp_all add: put Let_def t len vga_scroll_eq con_ok_def)
  show "cur_pos (vga_putchar io c s) = (if cur_pos s = 1999 then 1920 else Suc (cur_pos s))"
    unfolding pos using cs assms(1)
    by cases (simp_all add: put Let_def t len vga_scroll_eq con_ok_def cur_pos_def row1)
  show "vga_buffer (vga_putchar io c s) =
      (if cur_pos s = 1999 then drop 80 b @ replicate 80 (vga_entry 32 (vga_color s)) else b)"
    unfolding pos using cs assms(1) by cases (simp_all add: put Let_def t len vga_scroll_eq con_ok_def)
qed

lemma vga_puts_snoc: "0 \<notin> set str \<Longrightarrow> c \<noteq> 0 \<Longrightarrow> vga_puts io (str @ [c]) s = vga_putchar io c (vga_puts io str s)"
  by (induction str arbitrary: s) auto

lemma vga_puts_fold: "0 \<notin> set str \<Longrightarrow> vga_puts io str s = fold (vga_putchar io) str s"
  by (induction str arbitrary: s) auto

text \<open>How many rows the screen has scrolled up when the text reaches the given position.\<close>

definition scrolled :: "nat \<Rightarrow> nat" where
  "scrolled pos = pos div 80 - 24"

lemma scrolled_Suc:
  assumes "80 * scrolled n \<le> n" "n - 80 * scrolled n < 2000"
  shows "scrolled (Suc n) = (if n - 80 * scrolled n = 1999 then Suc (scrolled n) else scrolled n)"
  using assms unfolding scrolled_def by (simp split: if_split) linarith

lemma vga_puts_text_step:
  fixes s :: "'d console" and io :: "'d io"
  assumes "con_ok s" "list_all printable str"
  defines "t \<equiv> vga_puts io str s" and "n \<equiv> cur_pos s + length str"
  shows "con_ok t \<and> vga_color t = vga_color s \<and> 80 * scrolled n \<le> n \<and> cur_pos t = n - 80 * scrolled n \<and>
    (\<forall>j < n. 80 * scrolled n \<le> j \<longrightarrow> vga_buffer t ! (j - 80 * scrolled n) =
       (if j < cur_pos s then vga_buffer s ! j else vga_entry (str ! (j - cur_pos s)) (vga_color s)))"
  using assms(2) unfolding t_def n_def
proof (induction str rule: rev_induct)
  case Nil
  have "scrolled (cur_pos s) = 0" using cur_pos_less [OF assms(1)] by (simp add: scrolled_def)
  then show ?case using assms(1) by simp
next
  case (snoc c str)
  define u where "u = vga_puts io str s"
  define m where "m = cur_pos s + length str"
  have IH: "con_ok u" "vga_color u = vga_color s" "80 * scrolled m \<le> m" "cur_pos u = m - 80 * scrolled m"
    "\<And>j. j < m \<Longrightarrow> 80 * scrolled m \<le> j \<Longrightarrow> vga_buffer u ! (j - 80 * scrolled m) =
       (if j < cur_pos s then vga_buffer s ! j else vga_entry (str ! (j - cur_pos s)) (vga_color s))"
    using snoc by (simp_all add: u_def m_def)
  have c: "printable c" and z: "0 \<notin> set str" "c \<noteq> 0"
    using snoc.prems by (auto simp: printable_def list_all_iff)
  have t: "vga_puts io (str @ [c]) s = vga_putchar io c u" using z by (simp add: u_def vga_puts_snoc)
  note put = putchar_printable [OF IH(1) c, of io]
  have less: "m - 80 * scrolled m < 2000" using cur_pos_less [OF IH(1)] IH(4) by simp
  note sc = scrolled_Suc [OF IH(3) less]
  have len: "length (vga_buffer u) = 2000" using IH(1) by (simp add: con_ok_def)
  have buf: "vga_buffer (vga_putchar io c u) ! (j - 80 * scrolled (Suc m)) =
      (if j < cur_pos s then vga_buffer s ! j else vga_entry ((str @ [c]) ! (j - cur_pos s)) (vga_color s))"
    if j: "j < Suc m" "80 * scrolled (Suc m) \<le> j" for j
  proof -
    define k where "k = j - 80 * scrolled m"
    have j': "80 * scrolled m \<le> j" using j(2) sc by (simp split: if_splits)
    have k: "k < 2000" using j(1) less j' by (simp add: k_def)
    have "vga_buffer (vga_putchar io c u) ! (j - 80 * scrolled (Suc m)) =
        (vga_buffer u)[cur_pos u := vga_entry c (vga_color u)] ! k"
      using j j' k IH(4) len by (auto simp: put(4) sc k_def nth_append)
    also have "\<dots> = (if j = m then vga_entry c (vga_color u) else vga_buffer u ! k)"
      using k j' IH(3,4) len by (auto simp: k_def nth_list_update)
    also have "\<dots> = (if j < cur_pos s then vga_buffer s ! j else vga_entry ((str @ [c]) ! (j - cur_pos s)) (vga_color s))"
      using j(1) j' IH(2,5) by (auto simp: k_def m_def nth_append)
    finally show ?thesis .
  qed
  have "80 * scrolled (Suc m) \<le> Suc m" using sc IH(3) less by (auto split: if_splits)
  moreover have "cur_pos (vga_putchar io c u) = Suc m - 80 * scrolled (Suc m)"
    using sc IH(3,4) less by (auto simp: put(3) split: if_splits)
  ultimately show ?case
    using put(1,2) IH(2) buf by (simp add: t m_def)
qed

lemma con_ok_update_cursor [simp]: "con_ok (vga_update_cursor io s) = con_ok s"
  by (simp add: con_ok_def)

lemma con_ok_scroll: "length (vga_buffer s) = 2000 \<Longrightarrow> 0 \<le> vga_col s \<Longrightarrow> vga_col s < 80 \<Longrightarrow> con_ok (vga_scroll s)"
  by (simp add: vga_scroll_eq con_ok_def)

lemma con_ok_putchar:
  assumes "con_ok s"
  shows "con_ok (vga_putchar io c s)"
proof (cases "printable c \<or> c = 0")
  case True
  show ?thesis
  proof (cases "c = 0")
    case False
    with True assms show ?thesis by (simp add: putchar_printable(1))
  next
    case True
    have "con_ok (vga_putchar io c s) = con_ok (vga_putchar io 1 s)"
      using assms by (simp add: True vga_putchar_def Let_def con_ok_def vga_scroll_eq VGA_COLS_def VGA_ROWS_def)
    moreover have "printable 1" by (simp add: printable_def)
    ultimately show ?thesis using putchar_printable(1) [OF assms] by simp
  qed
next
  case False
  then consider "c = 10" | "c = 13" | "c = 8" by (auto simp: printable_def)
  then show ?thesis
    using assms by cases (auto simp: vga_putchar_def Let_def VGA_COLS_def VGA_ROWS_def con_ok_def vga_scroll_eq)
qed

lemma con_ok_fold: "con_ok s \<Longrightarrow> con_ok (fold (vga_putchar io) str s)"
  by (induction str arbitrary: s) (simp_all add: con_ok_putchar)

lemma con_ok_puts: "con_ok s \<Longrightarrow> con_ok (vga_puts io str s)"
  by (induction str arbitrary: s) (simp_all add: con_ok_putchar)

lemma con_ok_print:
  assumes "con_ok s"
  shows "con_ok (vga_print_uint io n s)" "con_ok (vga_print_hex io n s)" "con_ok (vga_puthex io n up s)"
    "con_ok (vga_print_uint_padded io n w s)"
  using assms
  by (simp_all add: vga_print_uint_def vga_print_hex_def vga_puthex_def vga_print_uint_padded_def Let_def
      con_ok_putchar con_ok_fold con_ok_puts del: fold_replicate)

lemma con_ok_printf_spec:
  "con_ok s \<Longrightarrow> printf_spec io z w spec args s = Some (args', s') \<Longrightarrow> con_ok s'"
  by (auto simp: printf_spec_def Let_def con_ok_putchar con_ok_puts con_ok_print split: if_splits list.splits arg.splits)

lemma con_ok_printf: "con_ok s \<Longrightarrow> vga_printf io fmt args s = Some s' \<Longrightarrow> con_ok s'"
proof (induction io fmt args s rule: vga_printf.induct)
  case (1 io fmt args s)
  show ?case
  proof (cases fmt)
    case Nil
    with 1(3,4) show ?thesis by (simp add: vga_printf.simps)
  next
    case (Cons c rest)
    obtain z w r where fl: "parse_flags rest = (z, w, r)" by (metis prod_cases3)
    show ?thesis
      using 1(1) [OF Cons] 1(2) [OF Cons _ _ fl [symmetric] refl] 1(3,4) con_ok_printf_spec [OF 1(3)]
      by (subst (asm) (3) vga_printf.simps)
         (auto simp: Cons fl con_ok_putchar split: if_splits list.splits option.splits prod.splits)
  qed
qed

section \<open>Printed numbers read back\<close>

definition read_dec :: "u8 list \<Rightarrow> nat" where
  "read_dec = foldl (\<lambda>a d. 10 * a + (unat d - 48)) 0"

definition is_dec :: "u8 \<Rightarrow> bool" where
  "is_dec d \<longleftrightarrow> 48 \<le> d \<and> d \<le> 57"

definition read_int :: "u8 list \<Rightarrow> int" where
  "read_int ds = (if ds \<noteq> [] \<and> hd ds = 45 then - int (read_dec (tl ds)) else int (read_dec ds))"

definition hex_val :: "u8 \<Rightarrow> nat" where
  "hex_val d = (if d \<le> 57 then unat d - 48 else if d \<le> 70 then unat d - 55 else unat d - 87)"

definition read_hex :: "u8 list \<Rightarrow> nat" where
  "read_hex = foldl (\<lambda>a d. 16 * a + hex_val d) 0"

lemma dec_digit: "unat (48 + ucast (n mod 10 :: u32) :: u8) = 48 + unat n mod 10"
proof -
  have "unat (ucast (n mod 10 :: u32) :: u8) = unat n mod 10"
    by (simp add: unsigned_ucast_eq unat_mod take_bit_eq_mod)
  then show ?thesis by (simp add: unat_word_ariths)
qed

lemma dec_digits_read: "read_dec (rev (dec_digits n)) = unat n"
proof (induction n rule: dec_digits.induct)
  case (1 n)
  show ?case
  proof (cases "n > 0")
    case True
    then have "read_dec (rev (dec_digits n)) = 10 * unat (n div 10) + unat n mod 10"
      using 1 by (subst dec_digits.simps) (simp add: read_dec_def dec_digit)
    then show ?thesis by (simp add: unat_div)
  next
    case False
    then have "n = 0" using word_gt_0 by blast
    then show ?thesis by (simp add: dec_digits.simps read_dec_def)
  qed
qed

lemma dec_digits_are: "d \<in> set (dec_digits n) \<Longrightarrow> is_dec d"
proof (induction n rule: dec_digits.induct)
  case (1 n)
  have "is_dec (48 + ucast (n mod 10))"
    using mod_less_divisor [of 10 "unat n"] by (simp add: is_dec_def word_le_nat_alt dec_digit)
  with 1 show ?case by (subst (asm) (2) dec_digits.simps) (auto split: if_splits)
qed

lemma dec_digits_length: "unat n < 10 ^ k \<Longrightarrow> length (dec_digits n) \<le> k"
proof (induction k arbitrary: n)
  case 0
  then have "n = 0" by (simp add: unat_eq_0)
  then show ?case by (simp add: dec_digits.simps)
next
  case (Suc k)
  then have "unat (n div 10) < 10 ^ k" by (simp add: unat_div less_mult_imp_div_less mult.commute)
  then show ?case using Suc.IH by (subst dec_digits.simps) simp
qed

lemma dec_digits_lead: "n > 0 \<Longrightarrow> dec_digits n \<noteq> [] \<and> last (dec_digits n) \<noteq> 48"
proof (induction n rule: dec_digits.induct)
  case (1 n)
  have eq: "dec_digits n = (48 + ucast (n mod 10)) # dec_digits (n div 10)"
    using 1(2) by (subst dec_digits.simps) simp
  have div: "unat (n div 10) = unat n div 10" by (simp add: unat_div)
  show ?case
  proof (cases "n div 10 > 0")
    case True
    then show ?thesis using 1 by (simp add: eq)
  next
    case False
    then have "unat n div 10 = 0" using div by (simp add: word_less_nat_alt)
    moreover have "unat n > 0" using 1(2) by (simp add: word_less_nat_alt)
    ultimately have "unat (48 + ucast (n mod 10) :: u8) \<noteq> unat (48 :: u8)" by (simp add: dec_digit)
    then have "(48 + ucast (n mod 10) :: u8) \<noteq> 48" by metis
    moreover have "dec_digits (n div 10) = []" using False by (subst dec_digits.simps) simp
    ultimately show ?thesis by (simp add: eq)
  qed
qed

text \<open>The text of an unsigned number, as both decimal printers produce it.\<close>

definition decimal :: "u32 \<Rightarrow> u8 list" where
  "decimal n = (if n = 0 then [48] else rev (dec_digits n))"

lemma decimal_read: "read_dec (decimal n) = unat n"
  by (simp add: decimal_def dec_digits_read) (simp add: read_dec_def)

lemma decimal_chars: "list_all is_dec (decimal n)"
  by (auto simp: decimal_def list_all_iff dec_digits_are) (simp add: is_dec_def)

lemma decimal_length: "length (decimal n) \<le> 10"
  using dec_digits_length [of n 10] unat_u32 [of n] by (simp add: decimal_def)

lemma decimal_lead: "decimal n \<noteq> [] \<and> (hd (decimal n) = 48) = (n = 0)"
  using dec_digits_lead [of n] by (auto simp: decimal_def hd_rev word_gt_0)

lemma is_dec_nz: "list_all is_dec ds \<Longrightarrow> 0 \<notin> set ds"
  by (auto simp: list_all_iff is_dec_def)

lemma print_uint_decimal: "vga_print_uint io n s = vga_puts io (decimal n) s"
  using is_dec_nz [OF decimal_chars [of n]] by (simp add: vga_print_uint_def decimal_def vga_puts_fold)

lemma print_padded_decimal:
  "vga_print_uint_padded io n w s =
     vga_puts io (replicate (nat (w - int (length (decimal n)))) 48 @ decimal n) s"
proof -
  have "0 \<notin> set (replicate (nat (w - int (length (decimal n)))) 48 @ decimal n)"
    using is_dec_nz [OF decimal_chars [of n]] by auto
  then have "vga_puts io (replicate (nat (w - int (length (decimal n)))) 48 @ decimal n) s =
      fold (vga_putchar io) (decimal n) (fold (vga_putchar io) (replicate (nat (w - int (length (decimal n)))) 48) s)"
    by (rule trans [OF vga_puts_fold]) (simp only: fold_append comp_apply)
  then show ?thesis by (simp only: vga_print_uint_padded_def Let_def decimal_def) (simp del: fold_replicate)
qed

lemma hex_val_char:
  assumes "x < 16"
  shows "hex_val (hex_char x) = unat x" "hex_char x \<noteq> 0"
proof -
  have "list_all (\<lambda>k. hex_val (hex_char (of_nat k)) = k \<and> hex_char (of_nat k) \<noteq> 0) [0 ..< 16]" by code_simp
  moreover have "unat x < 16" using assms by (simp add: word_less_nat_alt)
  ultimately have "hex_val (hex_char (of_nat (unat x))) = unat x \<and> hex_char (of_nat (unat x)) \<noteq> 0"
    unfolding list_all_iff by (elim ballE) auto
  then show "hex_val (hex_char x) = unat x" "hex_char x \<noteq> 0" by simp_all
qed

lemma hex_table:
  assumes "k < 16"
  shows "hex_val ((if up then chars ''0123456789ABCDEF'' else chars ''0123456789abcdef'') ! k) = k"
    "(if up then chars ''0123456789ABCDEF'' else chars ''0123456789abcdef'') ! k \<noteq> 0"
proof -
  have "\<forall>up. list_all (\<lambda>k. hex_val ((if up then chars ''0123456789ABCDEF'' else chars ''0123456789abcdef'') ! k) = k \<and>
      (if up then chars ''0123456789ABCDEF'' else chars ''0123456789abcdef'') ! k \<noteq> 0) [0 ..< 16]" by code_simp
  then have "hex_val ((if up then chars ''0123456789ABCDEF'' else chars ''0123456789abcdef'') ! k) = k \<and>
      (if up then chars ''0123456789ABCDEF'' else chars ''0123456789abcdef'') ! k \<noteq> 0"
    using assms unfolding list_all_iff by (elim allE [of _ up] ballE [of _ _ k]) auto
  then show "hex_val ((if up then chars ''0123456789ABCDEF'' else chars ''0123456789abcdef'') ! k) = k"
    "(if up then chars ''0123456789ABCDEF'' else chars ''0123456789abcdef'') ! k \<noteq> 0" by simp_all
qed

lemma unat_nibble: "unat ((n :: u32) AND 0xF) = unat n mod 16"
  using unat_and_mask [of n 4] by (simp add: mask_consts)

lemma nibble_less: "unat ((n :: u32) AND 0xF) < 16"
  by (simp only: unat_nibble)

lemma hex_digits_read: "unat n < 16 ^ i \<Longrightarrow> read_hex (rev (hex_digits up i n)) = unat n"
proof (induction i arbitrary: n)
  case 0
  then show ?case by (simp add: read_hex_def)
next
  case (Suc i)
  have div: "unat (drop_bit 4 n) = unat n div 16" by (simp add: unat_drop_bit)
  with Suc have IH: "read_hex (rev (hex_digits up i (drop_bit 4 n))) = unat n div 16"
    by (simp add: less_mult_imp_div_less mult.commute)
  have "hex_val ((if up then chars ''0123456789ABCDEF'' else chars ''0123456789abcdef'') ! unat (n AND 0xF)) = unat n mod 16"
    using hex_table(1) [OF nibble_less, of up n] by (simp only: unat_nibble)
  with IH show ?case by (cases "n > 0") (simp_all add: read_hex_def word_gt_0)
qed

lemma hex_digits_nz: "0 \<notin> set (hex_digits up i n)"
proof (induction i arbitrary: n)
  case (Suc i)
  have "(if up then chars ''0123456789ABCDEF'' else chars ''0123456789abcdef'') ! unat (n AND 0xF) \<noteq> 0"
    by (rule hex_table(2) [OF nibble_less])
  with Suc show ?case by simp
qed simp

definition hexadecimal :: "bool \<Rightarrow> u32 \<Rightarrow> u8 list" where
  "hexadecimal up n = (if n = 0 then [48] else rev (hex_digits up 8 n))"

lemma puthex_text: "vga_puthex io n up s = vga_puts io (hexadecimal up n) s"
  using hex_digits_nz [of up 8 n] by (simp add: vga_puthex_def hexadecimal_def vga_puts_fold)

lemma hexadecimal_read: "read_hex (hexadecimal up n) = unat n"
  using hex_digits_read [of n 8 up] unat_u32 [of n] by (simp add: hexadecimal_def) (simp add: read_hex_def hex_val_def)

lemma uint_signed:
  fixes v :: u32
  shows "0 \<le> sint v \<Longrightarrow> uint v = sint v" "sint v < 0 \<Longrightarrow> uint (- v) = - sint v"
proof -
  have r: "- 2147483648 \<le> sint v" "sint v < 2147483648" using sint_ge [of v] sint_lt [of v] by simp_all
  have "uint v = sint v mod 4294967296" by (simp add: uint_sint take_bit_eq_mod)
  then show "uint v = sint v" if "0 \<le> sint v" using that r by simp
  have "- v = of_int (- sint v)" by simp
  then have "uint (- v) = (- sint v) mod 4294967296" by (simp only: uint_word_of_int_eq) (simp add: take_bit_eq_mod)
  then show "uint (- v) = - sint v" if "sint v < 0" using that r by simp
qed

text \<open>The text of a signed number.\<close>

definition signed_decimal :: "u32 \<Rightarrow> u8 list" where
  "signed_decimal v = (if sint v < 0 then 45 # decimal (- v) else decimal v)"

lemma signed_decimal_read: "read_int (signed_decimal v) = sint v"
proof (cases "sint v < 0")
  case True
  then show ?thesis by (simp add: signed_decimal_def read_int_def decimal_read uint_signed)
next
  case False
  have "hd (decimal v) \<noteq> 45"
    using decimal_chars [of v] decimal_lead [of v] by (cases "decimal v") (auto simp: is_dec_def)
  with False show ?thesis by (simp add: signed_decimal_def read_int_def decimal_read uint_signed)
qed

lemma parse_conversion:
  "parse_flags [100] = (False, 0, [100])" "parse_flags [117] = (False, 0, [117])" "parse_flags [120] = (False, 0, [120])"
  by code_simp+

lemma printf_conversion:
  "c \<in> {100, 117, 120} \<Longrightarrow> vga_printf io [37, c] args s =
     (case printf_spec io False 0 c args s of None \<Rightarrow> None | Some (args, s) \<Rightarrow> Some s)"
  by (subst vga_printf.simps)
     (auto simp: parse_conversion vga_printf.simps [of _ "[]"] split: option.split)

lemma printf_number:
  "vga_printf io (chars ''%d'') [Int_arg v] s = Some (vga_puts io (signed_decimal v) s)"
  "vga_printf io (chars ''%u'') [Int_arg v] s = Some (vga_puts io (decimal v) s)"
  "vga_printf io (chars ''%x'') [Int_arg v] s = Some (vga_puts io (hexadecimal False v) s)"
  by (simp_all add: chars_def of_char_def printf_conversion printf_spec_def print_padded_decimal puthex_text
      signed_decimal_def)

section \<open>Properties\<close>

text \<open>
  The console's invariant: once \<^const>\<open>vga_init\<close> has run, the cursor is on the screen and the buffer keeps
  its size whatever is printed, wherever the cursor is sent and however the screen scrolls; so no cell outside the
  2000 of the buffer is ever written.
\<close>

theorem vga_console_ok:
  assumes "length (vga_buffer s0) = 2000" "con_ok s"
  shows "con_ok (vga_init io s0) \<and> con_ok (vga_clear io s) \<and> con_ok (vga_putchar io c s) \<and> con_ok (vga_puts io str s) \<and>
     con_ok (vga_set_cursor io row col s) \<and> con_ok (vga_set_color fg bg s) \<and> con_ok (vga_print_uint io n s) \<and>
     con_ok (vga_print_hex io n s) \<and> (\<forall>s'. vga_printf io fmt args s = Some s' \<longrightarrow> con_ok s')"
proof -
  have "con_ok (vga_init io s0)" using assms(1) by (simp add: vga_init_def vga_clear_eq con_ok_def)
  moreover have "con_ok (vga_clear io s)" "con_ok (vga_set_cursor io row col s)" "con_ok (vga_set_color fg bg s)"
    using assms(2)
    by (simp_all add: vga_clear_eq con_ok_def vga_set_cursor_def vga_set_color_def VGA_ROWS_def VGA_COLS_def)
  moreover note con_ok_putchar [OF assms(2)] con_ok_puts [OF assms(2)] con_ok_print [OF assms(2)] con_ok_printf [OF assms(2)]
  ultimately show ?thesis by blast
qed

definition con0 :: "unit console" where
  "con0 = \<lparr>vdev = (), vga_buffer = replicate 2000 0, vga_row = 0, vga_col = 0, vga_color = 7\<rparr>"

definition null_io :: "unit io" where
  "null_io = \<lparr>inb = \<lambda>p d. (0, d), outb = \<lambda>p v d. d, inw = \<lambda>p d. (0, d), outw = \<lambda>p v d. d\<rparr>"

theorem vga_console_ok_witness:
  "con_ok (vga_init null_io con0) \<and> con_ok (vga_clear null_io con0) \<and>
   con_ok (vga_putchar null_io 65 (vga_init null_io con0))"
proof -
  have con0: "length (vga_buffer con0) = 2000" "con_ok con0" by (simp_all add: con0_def con_ok_def)
  note ok = vga_console_ok [OF con0(1), where io = null_io]
  have 1: "con_ok (vga_init null_io con0)" "con_ok (vga_clear null_io con0)" using ok [OF con0(2)] by simp_all
  then show ?thesis using ok [OF 1(1), of 65] by simp
qed

text \<open>
  C30. Printed text appears on the screen. Printable characters go one after the other into the cells from the cursor
  on, across row ends; when they pass the bottom right corner the whole screen moves up by as many rows as needed,
  taking the earlier text with it, and the cursor ends right behind the last character. Cell \<open>j\<close> of
  the text, counted from the old top left corner, is found at \<open>j\<close> less the rows scrolled.
\<close>

theorem vga_puts_text:
  fixes s :: "'d console"
  assumes "con_ok s" "list_all printable str"
  shows "let t = vga_puts io str s; n = cur_pos s + length str; up = 80 * (n div 80 - 24) in
    con_ok t \<and> vga_color t = vga_color s \<and> cur_pos t = n - up \<and>
    (\<forall>j < n. up \<le> j \<longrightarrow> vga_buffer t ! (j - up) =
       (if j < cur_pos s then vga_buffer s ! j else vga_entry (str ! (j - cur_pos s)) (vga_color s)))"
  using vga_puts_text_step [OF assms, of io] by (simp add: Let_def scrolled_def)

theorem vga_puts_text_witness:
  "let s = con0\<lparr>vga_row := 24, vga_col := 79\<rparr>; t = vga_puts null_io [72, 105] s in
     vga_buffer t ! 1919 = vga_entry 72 7 \<and> vga_buffer t ! 1920 = vga_entry 105 7 \<and> cur_pos t = 1921"
proof -
  define s where "s = con0\<lparr>vga_row := 24, vga_col := 79\<rparr>"
  have s: "con_ok s" "cur_pos s = 1999" "vga_color s = 7" by (simp_all add: s_def con0_def con_ok_def cur_pos_def)
  have str: "list_all printable [72, 105]" by (simp add: printable_def)
  note t = vga_puts_text [OF s(1) str, of null_io, unfolded Let_def s]
  from t have "cur_pos (vga_puts null_io [72, 105] s) = 1921" by simp
  moreover from t have "\<forall>j < 2001. 80 \<le> j \<longrightarrow> vga_buffer (vga_puts null_io [72, 105] s) ! (j - 80) =
       (if j < 1999 then vga_buffer s ! j else vga_entry ([72, 105] ! (j - 1999)) 7)" by simp
  then have "vga_buffer (vga_puts null_io [72, 105] s) ! (1999 - 80) = vga_entry 72 7 \<and>
     vga_buffer (vga_puts null_io [72, 105] s) ! (2000 - 80) = vga_entry 105 7"
    by (auto dest: spec [of _ 1999] spec [of _ 2000])
  ultimately show ?thesis by (simp add: Let_def s_def [symmetric])
qed

text \<open>
  Printed numbers read back: \<^verbatim>\<open>%d\<close> prints a text that denotes the argument read as a signed number, the most negative
  one included, \<^verbatim>\<open>%u\<close> one that denotes it read as unsigned, in at most the ten digits the buffer of the code
  has room for and without leading zeros, and \<^verbatim>\<open>%x\<close> its hexadecimal digits.
\<close>

theorem vga_printf_numbers:
  "\<exists>d u x. vga_printf io (chars ''%d'') [Int_arg v] s = Some (vga_puts io d s) \<and> read_int d = sint v \<and>
     vga_printf io (chars ''%u'') [Int_arg v] s = Some (vga_puts io u s) \<and> list_all is_dec u \<and> read_dec u = unat v \<and>
     length u \<le> 10 \<and> (hd u = 48) = (v = 0) \<and>
     vga_printf io (chars ''%x'') [Int_arg v] s = Some (vga_puts io x s) \<and> read_hex x = unat v"
  using decimal_lead [of v]
  by (intro exI conjI) (rule printf_number signed_decimal_read decimal_chars decimal_read decimal_length
      hexadecimal_read | simp)+

end
