(* ===== verification/Kernel.thy ===== *)
theory Kernel
  imports Interrupts Pipe Kmem Elf Fd Vga
begin

text \<open>
  The kernel as a whole: the state of all components side by side, each operating on the one machine behind the ports, the
  one scheduler and the one memory; and the parts of the code that combine the console with other components: the
  exception reports of \<^verbatim>\<open>kernel/isr.c\<close> and the process and file lists.
\<close>

section \<open>The state\<close>

text \<open>
  Every component's record has a place for what it shares with others (the ports, the scheduler); the operations below
  put the shared part into that place before a component runs and take it out afterwards. \<open>kirqs\<close> are the interrupts, by
  their vectors, that the devices will raise while kernel code waits for one.
\<close>

record 'd kernel =
  kdev :: 'd
  ksched :: sched
  kdrv :: "'d drv"
  kcon :: "'d console"
  kipc :: ipc
  kfds :: "'d fds"
  kheap :: kheap
  kirqs :: "u32 list"

definition on_drv :: "('d drv \<Rightarrow> 'd drv \<times> 'a) \<Rightarrow> 'd kernel \<Rightarrow> 'd kernel \<times> 'a" where
  "on_drv f k =
     (let (s, a) = f ((kdrv k)\<lparr>dev := kdev k, dsched := ksched k\<rparr>)
      in (k\<lparr>kdev := dev s, ksched := dsched s, kdrv := s\<rparr>, a))"

definition on_con :: "('d console \<Rightarrow> 'd console) \<Rightarrow> 'd kernel \<Rightarrow> 'd kernel" where
  "on_con f k = (let s = f ((kcon k)\<lparr>vdev := kdev k\<rparr>) in k\<lparr>kdev := vdev s, kcon := s\<rparr>)"

definition on_ipc :: "(ipc \<Rightarrow> ipc \<times> 'a) \<Rightarrow> 'd kernel \<Rightarrow> 'd kernel \<times> 'a" where
  "on_ipc f k = (let (s, a) = f ((kipc k)\<lparr>psched := ksched k\<rparr>) in (k\<lparr>ksched := psched s, kipc := s\<rparr>, a))"

definition on_fds :: "('d fds \<Rightarrow> 'd fds \<times> 'a) \<Rightarrow> 'd kernel \<Rightarrow> 'd kernel \<times> 'a" where
  "on_fds f k =
     (let (s, a) = f ((kfds k)\<lparr>ffs := (ffs (kfds k))\<lparr>fdev := kdev k\<rparr>\<rparr>)
      in (k\<lparr>kdev := fdev (ffs s), kfds := s\<rparr>, a))"

definition on_fs :: "('d fs \<Rightarrow> 'a \<times> 'd fs) \<Rightarrow> 'd kernel \<Rightarrow> 'd kernel \<times> 'a" where
  "on_fs f = on_fds (\<lambda>s. let (a, fs) = f (ffs s) in (s\<lparr>ffs := fs\<rparr>, a))"

definition on_sched :: "(sched \<Rightarrow> sched \<times> 'a) \<Rightarrow> 'd kernel \<Rightarrow> 'd kernel \<times> 'a" where
  "on_sched f k = (let (s, a) = f (ksched k) in (k\<lparr>ksched := s\<rparr>, a))"

definition on_kmm :: "(mm \<Rightarrow> mm \<times> 'a) \<Rightarrow> 'd kernel \<Rightarrow> 'd kernel \<times> 'a" where
  "on_kmm f = on_sched (\<lambda>s. let (m, a) = f (mm s) in (s\<lparr>mm := m\<rparr>, a))"

text \<open>A line of text with its newline.\<close>

definition line :: "string \<Rightarrow> u8 list" where
  "line t = chars t @ [10]"

section \<open>Exceptions\<close>

record registers =
  r_eax :: u32
  r_ebx :: u32
  r_ecx :: u32
  r_edx :: u32
  int_no :: u32
  err_code :: u32
  r_eip :: u32
  r_eflags :: u32

definition exception_names :: "u8 list list" where
  "exception_names = map chars
     [''#DE Divide-by-Zero'', ''#DB Debug'', ''Non-Maskable Interrupt'', ''#BP Breakpoint'', ''#OF Overflow'',
      ''#BR Bound Range Exceeded'', ''#UD Invalid Opcode'', ''#NM Device Not Available'', ''#DF Double Fault'',
      ''Coprocessor Segment Overrun'', ''#TS Invalid TSS'', ''#NP Segment Not Present'', ''#SS Stack-Segment Fault'',
      ''#GP General Protection Fault'', ''#PF Page Fault'', ''Reserved'', ''#MF x87 FPU Error'', ''#AC Alignment Check'',
      ''#MC Machine Check'', ''#XM SIMD FP Exception'']"

text \<open>What \<^verbatim>\<open>isr_handler\<close> prints before it stops the processor for good.\<close>

definition isr_handler :: "'d io \<Rightarrow> registers \<Rightarrow> 'd console \<Rightarrow> 'd console" where
  "isr_handler io regs s =
     (let s = vga_set_color VGA_COLOR_LIGHT_RED VGA_COLOR_BLACK s;
          s = vga_puts io ([10] @ line ''*** KERNEL EXCEPTION ***'') s;
          s = vga_puts io (chars ''  Vector   : '') s;
          s = vga_print_uint io (int_no regs) s;
          s = vga_puts io ([10] @ chars ''  Name     : '') s;
          s = (if int_no regs < 20 then vga_puts io (exception_names ! unat (int_no regs)) s
               else vga_puts io (chars ''(reserved)'') s);
          s = vga_puts io ([10] @ chars ''  EIP      : '') s;
          s = vga_print_hex io (r_eip regs) s;
          s = vga_puts io ([10] @ chars ''  Error    : '') s;
          s = vga_print_hex io (err_code regs) s;
          s = vga_puts io ([10] @ chars ''  EFLAGS   : '') s;
          s = vga_print_hex io (r_eflags regs) s;
          s = vga_puts io ([10, 10] @ line ''System halted.'') s
      in vga_set_color VGA_COLOR_LIGHT_GREY VGA_COLOR_BLACK s)"

text \<open>How an interrupt ends: back in the interrupted code, in another process, or with the processor stopped.\<close>

datatype int_result = Resumed | Other_process | Stopped

definition interrupt_handler :: "'d io \<Rightarrow> registers \<Rightarrow> 'd kernel \<Rightarrow> 'd kernel \<times> int_result" where
  "interrupt_handler io regs k =
     (if int_no regs < 32 then (on_con (isr_handler io regs) k, Stopped)
      else let (k, switched) = on_drv (irq_handler io (int_no regs)) k
           in (k, if switched then Other_process else Resumed))"

section \<open>Lists on the console\<close>

definition state_names :: "proc_state \<Rightarrow> u8 list" where
  "state_names st0 =
     (case st0 of PROC_UNUSED \<Rightarrow> chars ''unused '' | PROC_READY \<Rightarrow> chars ''ready  '' | PROC_RUNNING \<Rightarrow> chars ''running''
      | PROC_BLOCKED \<Rightarrow> chars ''blocked'' | PROC_ZOMBIE \<Rightarrow> chars ''zombie '')"

definition process_print_all :: "'d io \<Rightarrow> sched \<Rightarrow> 'd console \<Rightarrow> 'd console" where
  "process_print_all io sd s =
     (let s = vga_set_color VGA_COLOR_LIGHT_CYAN VGA_COLOR_BLACK s;
          s = vga_puts io (line ''PID  STATE    MODE    NAME'') s;
          s = vga_puts io (line ''---  -------  ------  ----------------'') s;
          s = vga_set_color VGA_COLOR_LIGHT_GREY VGA_COLOR_BLACK s
      in fold (\<lambda>i s.
           let p = process_table sd ! i
           in if p_state p = PROC_UNUSED then s
              else
                let s = vga_print_uint io (pid p) s;
                    s = vga_puts io (chars ''    '') s;
                    s = vga_puts io (state_names (p_state p)) s;
                    s = vga_puts io (chars ''  '') s;
                    s = vga_puts io (if is_user p then chars ''user  '' else chars ''kernel'') s;
                    s = vga_puts io (chars ''  '') s;
                    s = vga_puts io (p_name p) s
                in vga_putchar io 10 s) [0 ..< MAX_PROCESSES] s)"

definition fs_ls_entry :: "'d io \<Rightarrow> u8 list \<Rightarrow> 'd console \<Rightarrow> 'd console" where
  "fs_ls_entry io e s =
     (let s = vga_puts io e s;
          s = fold (vga_putchar io) (replicate (32 - unat (strlen e)) 32) s;
          s = vga_print_uint io (e_size e) s
      in vga_puts io (line '' B'') s)"

definition fs_ls :: "'d io \<Rightarrow> 'd kernel \<Rightarrow> 'd kernel" where
  "fs_ls io k =
     (let (k, r) = on_fs (read_dir (ata_blk io)) k
      in if r \<noteq> 0 then on_con (vga_puts io (line ''  [FS] disk read error'')) k
         else
           let entries = filter e_active (map (dir_entry (ffs (kfds k))) [0 ..< FS_MAX_FILES])
           in on_con (\<lambda>s.
                let s = vga_set_color VGA_COLOR_LIGHT_CYAN VGA_COLOR_BLACK s;
                    s = vga_puts io (line ''NAME                             SIZE'') s;
                    s = vga_puts io (line ''-------------------------------- ------'') s;
                    s = vga_set_color VGA_COLOR_LIGHT_GREY VGA_COLOR_BLACK s;
                    s = fold (fs_ls_entry io) entries s
                in if entries = [] then vga_puts io (line ''  (empty)'') s else s) k)"

end
