(* ===== verification/Commands.thy ===== *)
theory Commands
  imports Kernel
begin

text \<open>
  The built-in commands of the shell, \<^verbatim>\<open>kernel/shell.c\<close>: each \<^verbatim>\<open>cmd_\<close> function over the state of the whole kernel. The
  arguments are the bytes behind the command word.
\<close>

section \<open>The code\<close>

subsection \<open>String utilities\<close>

fun str_eq :: "u8 list \<Rightarrow> u8 list \<Rightarrow> bool" where
  "str_eq (a # as) (b # bs) = (if a \<noteq> 0 \<and> b \<noteq> 0 then (if a \<noteq> b then False else str_eq as bs) else a = b)"
| "str_eq [] (b # bs) = (b = 0)"
| "str_eq (a # as) [] = (a = 0)"
| "str_eq [] [] = True"

fun str_startswith :: "u8 list \<Rightarrow> u8 list \<Rightarrow> bool" where
  "str_startswith s [] = True"
| "str_startswith (a # as) (b # bs) = (if b = 0 then True else if a \<noteq> b then False else str_startswith as bs)"
| "str_startswith [] (b # bs) = (b = 0)"

text \<open>The digits at the start of an argument, as \<^verbatim>\<open>cmd_kill\<close> and \<^verbatim>\<open>cmd_sleep\<close> read them.\<close>

fun parse_digits :: "u32 \<Rightarrow> u8 list \<Rightarrow> u32" where
  "parse_digits n [] = n"
| "parse_digits n (c # s) = (if c \<ge> 48 \<and> c \<le> 57 then parse_digits (n * 10 + ucast (c - 48)) s else n)"

subsection \<open>Output\<close>

definition VGA_COLOR_DARK_GREY :: u8 where "VGA_COLOR_DARK_GREY = 8"
definition VGA_COLOR_LIGHT_GREEN :: u8 where "VGA_COLOR_LIGHT_GREEN = 10"
definition VGA_COLOR_YELLOW :: u8 where "VGA_COLOR_YELLOW = 14"

text \<open>The pieces of a message: text, a number, and the colour in front of it.\<close>

datatype piece = Put "u8 list" | Num u32 | Hex u32 | Ch u8 | Colour u8

fun emit :: "'d io \<Rightarrow> piece \<Rightarrow> 'd console \<Rightarrow> 'd console" where
  "emit io (Put t) s = vga_puts io t s"
| "emit io (Num n) s = vga_print_uint io n s"
| "emit io (Hex n) s = vga_print_hex io n s"
| "emit io (Ch c) s = vga_putchar io c s"
| "emit io (Colour c) s = vga_set_color c VGA_COLOR_BLACK s"

definition print :: "'d io \<Rightarrow> piece list \<Rightarrow> 'd kernel \<Rightarrow> 'd kernel" where
  "print io ps = on_con (fold (emit io) ps)"

text \<open>How a command ends: it returns, another process runs (after \<^verbatim>\<open>process_yield\<close> or a timer interrupt), it stops the machine, or it waits for ever.\<close>

datatype cmd_result = Cmd_done | Cmd_switched | Cmd_stops | Cmd_hangs

definition cmd_help :: "'d io \<Rightarrow> 'd kernel \<Rightarrow> 'd kernel" where
  "cmd_help io = print io
     [Colour VGA_COLOR_LIGHT_CYAN, Put (line ''VESPER OS Shell  -  Available commands:''), Colour VGA_COLOR_LIGHT_GREY,
      Put (line ''  help             Show this help message''), Put (line ''  clear            Clear the screen''),
      Put (line ''  echo <text>      Print text to the screen''),
      Put (line ''  version          Show OS version information''),
      Put (line ''  meminfo          Show heap + physical memory statistics''),
      Put (line ''  uptime           Show system uptime''),
      Put (line ''  date             Show current date and time (RTC)''),
      Put (line ''  ps               List running processes''), Put (line ''  kill <pid>       Terminate a process by PID''),
      Put (line ''  sleep <ms>       Sleep for N milliseconds''),
      Put (line ''  colortest        Display all 16 VGA colours''),
      Put (line ''  mkfs             Format the VesperFS partition''),
      Put (line ''  ls               List files in VesperFS''), Put (line ''  cat <file>       Print file contents''),
      Put (line ''  write <f> <txt>  Write text to a file''), Put (line ''  rm <file>        Delete a file from VesperFS''),
      Put (line ''  run <file>       Load ELF32; spawn as kernel thread''),
      Put (line ''  exec <file>      Load ELF32; spawn as ring-3 user process''),
      Put (line ''  halt             Halt the CPU''), Put (line ''  reboot           Reboot the system''), Put [10],
      Colour VGA_COLOR_DARK_GREY, Put (line ''  Up/Down arrows cycle through command history.''),
      Colour VGA_COLOR_LIGHT_GREY]"

definition cmd_clear :: "'d io \<Rightarrow> 'd kernel \<Rightarrow> 'd kernel" where
  "cmd_clear io = on_con (vga_clear io)"

definition cmd_echo :: "'d io \<Rightarrow> u8 list \<Rightarrow> 'd kernel \<Rightarrow> 'd kernel" where
  "cmd_echo io args = print io [Put args, Ch 10]"

definition cmd_version :: "'d io \<Rightarrow> 'd kernel \<Rightarrow> 'd kernel" where
  "cmd_version io = print io
     [Colour VGA_COLOR_YELLOW, Put (line ''VESPER OS  v0.5.0''), Colour VGA_COLOR_LIGHT_GREY,
      Put (line ''Architecture   : x86 32-bit Protected Mode''), Put (line ''VGA buffer     : 0xB8000''),
      Put (line ''Kernel base    : 0x1000''), Put (line ''Interrupt model: IDT + 8259A PIC (IRQ0-15 -> INT 32-47)''),
      Put (line ''Keyboard       : PS/2 interrupt-driven (IRQ1, extended scancodes)''),
      Put (line ''Timer          : PIT 100 Hz (IRQ0), preempt every 50 ms''),
      Put (line ''Memory         : PMM bitmap + 256 KB heap + paging (0-8 MB)''),
      Put (line ''Scheduler      : preemptive round-robin (50 ms slice)''),
      Put (line ''Page dirs      : per-process (user processes get isolated PDs)''),
      Put (line ''Syscalls       : INT 0x80 (DPL=3), 13 syscalls (0-12)''),
      Put (line ''File I/O       : SYS_OPEN/READ/CLOSE via global FD table''),
      Put (line ''IPC            : ring-buffer pipes (SYS_PIPE_CREATE/WRITE/READ)''),
      Put (line ''RTC            : CMOS real-time clock''), Put (line ''Disk           : ATA PIO (primary master)''),
      Put (line ''Filesystem     : VesperFS (LBA 129+), supports create/read/delete''),
      Put (line ''ELF loader     : ELF32 (kernel threads + ring-3 user processes)'')]"

definition cmd_meminfo :: "'d io \<Rightarrow> 'd kernel \<Rightarrow> 'd kernel \<times> cmd_result" where
  "cmd_meminfo io k =
     (case kmem_info (kheap k) of None \<Rightarrow> (k, Cmd_hangs)
      | Some (used_bytes, free_bytes, total_bytes) \<Rightarrow>
          let fr = frames (mm (ksched k))
          in (print io
                [Colour VGA_COLOR_LIGHT_CYAN, Put (line ''Heap Memory:''), Colour VGA_COLOR_LIGHT_GREY,
                 Put (chars ''  Total  : ''), Num (total_bytes div 1024), Put (chars '' KB (''), Num total_bytes, Put (line '' bytes)''),
                 Put (chars ''  Used   : ''), Num used_bytes, Put (line '' bytes''),
                 Put (chars ''  Free   : ''), Num free_bytes, Put (line '' bytes''),
                 Colour VGA_COLOR_LIGHT_CYAN, Put (line ''Physical Memory (PMM):''), Colour VGA_COLOR_LIGHT_GREY,
                 Put (chars ''  Total  : ''), Num (pmm_total_frames fr * 4), Put (chars '' KB (''),
                 Num (pmm_total_frames fr), Put (line '' frames)''),
                 Put (chars ''  Free   : ''), Num (pmm_free_frames fr * 4), Put (chars '' KB (''),
                 Num (pmm_free_frames fr), Put (line '' frames)'')] k, Cmd_done))"

definition cmd_halt :: "'d io \<Rightarrow> 'd kernel \<Rightarrow> 'd kernel \<times> cmd_result" where
  "cmd_halt io k =
     (print io [Colour VGA_COLOR_YELLOW, Put (line ''CPU halted. Reset to continue.''), Colour VGA_COLOR_LIGHT_GREY] k,
      Cmd_stops)"

definition cmd_reboot :: "'d io \<Rightarrow> 'd kernel \<Rightarrow> 'd kernel \<times> cmd_result" where
  "cmd_reboot io k =
     (let k = print io [Colour VGA_COLOR_YELLOW, Put (line ''Rebooting...''), Colour VGA_COLOR_LIGHT_GREY] k
      in (k\<lparr>kdev := outb io 0x64 0xFE (kdev k)\<rparr>, Cmd_stops))"

definition cmd_uptime :: "'d io \<Rightarrow> 'd kernel \<Rightarrow> 'd kernel" where
  "cmd_uptime io k =
     (let secs = timer_get_uptime_sec (kdrv k);
          mins = secs div 60;
          hours = mins div 60;
          secs = secs mod 60;
          mins = mins mod 60
      in print io [Put (chars ''Uptime: ''), Num hours, Put (chars ''h ''), Num mins, Put (chars ''m ''), Num secs,
           Put (chars ''s  (''), Num (timer_get_ticks (kdrv k)), Put (line '' ticks at 100 Hz)'')] k)"

definition cmd_ps :: "'d io \<Rightarrow> 'd kernel \<Rightarrow> 'd kernel" where
  "cmd_ps io k = on_con (process_print_all io (ksched k)) k"

definition cmd_date :: "'d io \<Rightarrow> 'd kernel \<Rightarrow> 'd kernel \<times> cmd_result" where
  "cmd_date io k =
     (case rtc_read io (kdev k) of None \<Rightarrow> (k, Cmd_hangs)
      | Some (t, d) \<Rightarrow>
          let k = k\<lparr>kdev := d\<rparr>
          in (case vga_printf io (line ''Date: %u-%02u-%02u  Time: %02u:%02u:%02u'')
                [Int_arg (ucast (year t)), Int_arg (ucast (month t)), Int_arg (ucast (day t)), Int_arg (ucast (hour t)),
                 Int_arg (ucast (minute t)), Int_arg (ucast (second t))] ((kcon k)\<lparr>vdev := kdev k\<rparr>) of
                None \<Rightarrow> (k, Cmd_hangs) | Some s \<Rightarrow> (on_con (\<lambda>_. s) k, Cmd_done)))"

definition cmd_kill :: "'d io \<Rightarrow> u8 list \<Rightarrow> 'd kernel \<Rightarrow> 'd kernel" where
  "cmd_kill io args k =
     (let pid = parse_digits 0 args
      in if pid = 0 then print io [Put (line ''Usage: kill <pid>'')] k
         else
           let (k, r) = on_sched (process_kill pid) k;
               k = (if r = 0
                    then print io [Colour VGA_COLOR_LIGHT_GREEN, Put (chars ''Process ''), Num pid, Put (line '' terminated.'')] k
                    else print io [Colour VGA_COLOR_LIGHT_RED, Put (chars ''No such process: PID ''), Num pid, Ch 10] k)
           in print io [Colour VGA_COLOR_LIGHT_GREY] k)"

text \<open>\<open>irqs\<close> are the interrupts that arrive while the command sleeps.\<close>

definition cmd_sleep :: "'d io \<Rightarrow> u32 list \<Rightarrow> u8 list \<Rightarrow> 'd kernel \<Rightarrow> 'd kernel \<times> cmd_result" where
  "cmd_sleep io irqs args k =
     (let ms = parse_digits 0 args
      in if ms = 0 then (print io [Put (line ''Usage: sleep <milliseconds>'')] k, Cmd_done)
         else
           let k = print io [Put (chars ''Sleeping ''), Num ms, Put (line '' ms...'')] k
           in case timer_sleep_ms io ms irqs ((kdrv k)\<lparr>dev := kdev k, dsched := ksched k\<rparr>) of
                None \<Rightarrow> (k, Cmd_hangs)
              | Some (s, rest, switched) \<Rightarrow>
                  let k = fst (on_drv (\<lambda>_. (s, ())) k)
                  in if switched then (k, Cmd_switched) else (print io [Put (line ''Done.'')] k, Cmd_done))"

definition color_names :: "u8 list list" where
  "color_names = map chars
     [''BLACK   '', ''BLUE    '', ''GREEN   '', ''CYAN    '', ''RED     '', ''MAGENTA '', ''BROWN   '', ''LT_GREY '',
      ''DK_GREY '', ''LT_BLUE '', ''LT_GREEN'', ''LT_CYAN '', ''LT_RED  '', ''LT_MAG  '', ''YELLOW  '', ''WHITE   '']"

definition cmd_colortest :: "'d io \<Rightarrow> 'd kernel \<Rightarrow> 'd kernel" where
  "cmd_colortest io k =
     (let k = print io [Colour VGA_COLOR_LIGHT_GREY, Put (line ''VGA colour palette (foreground on black):'')] k;
          k = fold (\<lambda>i. print io ([Colour (of_nat i), Put (chars ''  ''), Put (color_names ! i)] @
                (if i mod 2 = 1 then [Ch 10] else []))) [0 ..< 16] k
      in print io [Colour VGA_COLOR_LIGHT_GREY, Ch 10] k)"

definition cmd_unknown :: "'d io \<Rightarrow> u8 list \<Rightarrow> 'd kernel \<Rightarrow> 'd kernel" where
  "cmd_unknown io cmd = print io
     [Colour VGA_COLOR_LIGHT_RED, Put (chars ''Unknown command: ''), Put cmd, Ch 10, Colour VGA_COLOR_LIGHT_GREY,
      Put (line ''Type 'help' for a list of available commands.'')]"

subsection \<open>Files\<close>

definition complain :: "'d io \<Rightarrow> u8 list \<Rightarrow> 'd kernel \<Rightarrow> 'd kernel" where
  "complain io msg = print io [Colour VGA_COLOR_LIGHT_RED, Put msg, Colour VGA_COLOR_LIGHT_GREY]"

definition not_found :: "'d io \<Rightarrow> u8 list \<Rightarrow> 'd kernel \<Rightarrow> 'd kernel" where
  "not_found io name = print io
     [Colour VGA_COLOR_LIGHT_RED, Put (chars ''File not found: ''), Put name, Ch 10, Colour VGA_COLOR_LIGHT_GREY]"

text \<open>The handle on the caller's stack before \<^verbatim>\<open>fs_open\<close> fills it; its fields are not read.\<close>

definition stack_file :: fs_file where
  "stack_file = \<lparr>f_start_lba = 0, f_size = 0, f_pos = 0, f_valid = False\<rparr>"

definition open_file :: "'d io \<Rightarrow> u8 list \<Rightarrow> 'd kernel \<Rightarrow> 'd kernel \<times> int \<times> fs_file" where
  "open_file io name = on_fs (\<lambda>s. let (r, f, s) = fs_open (ata_blk io) stack_file name s in ((r, f), s))"

definition read_file :: "'d io \<Rightarrow> fs_file \<Rightarrow> u32 \<Rightarrow> 'd kernel \<Rightarrow> 'd kernel \<times> u32 \<times> u8 list \<times> fs_file" where
  "read_file io f len = on_fs (\<lambda>s. let (n, out, f, s) = fs_read (ata_blk io) f len s in ((n, out, f), s))"

definition cmd_mkfs :: "'d io \<Rightarrow> 'd kernel \<Rightarrow> 'd kernel" where
  "cmd_mkfs io k =
     (let k = print io [Colour VGA_COLOR_YELLOW, Put (chars ''Formatting VesperFS at LBA 129... ''), Colour VGA_COLOR_LIGHT_GREY] k;
          (k, r) = on_fs (fs_format (ata_blk io)) k;
          k = (if r = 0 then print io [Colour VGA_COLOR_LIGHT_GREEN, Put (line ''done.'')] k
               else print io [Colour VGA_COLOR_LIGHT_RED, Put (line ''FAILED (disk write error).'')] k)
      in print io [Colour VGA_COLOR_LIGHT_GREY] k)"

definition cmd_ls :: "'d io \<Rightarrow> 'd kernel \<Rightarrow> 'd kernel" where
  "cmd_ls io k =
     (let (k, r) = on_fs (fs_init (ata_blk io)) k
      in if r = 0 then complain io (line ''No VesperFS found. Run 'mkfs' first.'') k else fs_ls io k)"

text \<open>
  The loop of \<^verbatim>\<open>cmd_cat\<close>, 128 bytes at a time; \<^verbatim>\<open>vga_puts\<close> sees the bytes read and the NUL stored behind them. It ends
  because every round advances the position within the file.
\<close>

function cat_loop :: "'d io \<Rightarrow> fs_file \<Rightarrow> 'd kernel \<Rightarrow> 'd kernel" where
  "cat_loop io f k =
     (let (k, n, out, f) = read_file io f 128 k
      in if n > 0 then cat_loop io f (print io [Put out] k) else k)"
  by pat_completeness auto

lemma fs_read_loop_pos:
  assumes "fs_read_loop blk n f s = (out, rest, f', s')"
  shows "f_pos f' = f_pos f + (n - rest) \<and> f_size f' = f_size f \<and> f_valid f' = f_valid f \<and> rest \<le> n"
  using assms
proof (induction blk n f s arbitrary: out rest f' s' rule: fs_read_loop.induct)
  case (1 blk n f s)
  show ?case
  proof (cases "n = 0")
    case True
    then show ?thesis using "1.prems" by (simp add: fs_read_loop.simps)
  next
    case False
    obtain r bs d where rd: "rd blk (f_start_lba f + f_pos f div ATA_SECTOR_SIZE) 1 (fdev s) = (r, bs, d)" by (metis prod_cases3)
    show ?thesis
    proof (cases "r = 0")
      case True
      let ?c = "read_chunk (f_pos f) n" and ?s = "s\<lparr>fdev := d, sector_buf := fill bs (sector_buf s)\<rparr>"
      obtain o1 r1 f1 s1 where rec: "fs_read_loop blk (n - ?c) (f\<lparr>f_pos := f_pos f + ?c\<rparr>) ?s = (o1, r1, f1, s1)"
        by (metis prod_cases4)
      from "1.IH"[OF False refl refl refl refl rd[symmetric] refl refl _ refl refl rec] True
      have "f_pos f1 = f_pos f + ?c + (n - ?c - r1)" "f_size f1 = f_size f" "f_valid f1 = f_valid f" "r1 \<le> n - ?c" by auto
      moreover have "f' = f1" "rest = r1" using "1.prems" False True rd rec
        by (simp_all add: fs_read_loop.simps[of blk n] Let_def)
      moreover have "n - ?c \<le> n" using read_chunk_bounds(3)[OF False, of "f_pos f"] by (simp add: word_le_nat_alt)
      ultimately show ?thesis by (auto intro: order_trans)
    next
      case r: False
      then show ?thesis using "1.prems" False rd by (auto simp: fs_read_loop.simps[of blk n] Let_def)
    qed
  qed
qed

lemma fs_read_pos:
  assumes "fs_read blk f len s = (n, out, f', s')"
  shows "f_size f' = f_size f \<and> f_pos f' = f_pos f + n \<and>
    (n = 0 \<or> f_pos f < f_size f \<and> unat (f_pos f') = unat (f_pos f) + unat n \<and> f_pos f' \<le> f_size f)"
proof (cases "\<not> f_valid f \<or> f_pos f \<ge> f_size f")
  case True
  then show ?thesis using assms by (auto simp: fs_read_def)
next
  case False
  let ?l = "if len > f_size f - f_pos f then f_size f - f_pos f else len"
  obtain o1 r1 f1 s1 where rec: "fs_read_loop blk ?l f s = (o1, r1, f1, s1)" by (metis prod_cases4)
  from fs_read_loop_pos[OF this] have *: "f_pos f1 = f_pos f + (?l - r1)" "f_size f1 = f_size f" "r1 \<le> ?l" by auto
  have eq: "n = ?l - r1" "f' = f1" using assms False rec by (simp_all add: fs_read_def Let_def)
  have "?l \<le> f_size f - f_pos f" by auto
  then have n: "unat n \<le> unat (f_size f - f_pos f)" using eq(1) *(3) by (simp add: word_le_nat_alt unat_sub)
  have d: "unat (f_size f - f_pos f) = unat (f_size f) - unat (f_pos f)" "unat (f_pos f) < unat (f_size f)"
    using False by (simp_all add: unat_sub word_less_nat_alt word_le_nat_alt)
  have "unat (f_pos f + n) = unat (f_pos f) + unat n"
    using n d unat_u32[of "f_size f"] by (intro unat_plus_u32) linarith
  moreover have "f_pos f' = f_pos f + n" "f_size f' = f_size f" using * eq by simp_all
  ultimately show ?thesis using n d by (auto simp: word_le_nat_alt word_less_nat_alt)
qed

lemma read_file_pos:
  assumes "read_file io f len k = (k', n, out, f')" "n > 0"
  shows "unat (f_size f') - unat (f_pos f') < unat (f_size f) - unat (f_pos f)"
proof -
  obtain s where "fs_read (ata_blk io) f len (ffs (kfds k)\<lparr>fdev := kdev k\<rparr>) = (n, out, f', s)"
    using assms(1) by (auto simp: read_file_def on_fs_def on_fds_def Let_def split: prod.splits)
  from fs_read_pos[OF this] assms(2) show ?thesis by (auto simp: word_less_nat_alt)
qed

termination cat_loop
  by (relation "measure (\<lambda>(io, f, k). unat (f_size f) - unat (f_pos f))") (auto dest: sym read_file_pos[OF sym])

declare cat_loop.simps [simp del]

definition cmd_cat :: "'d io \<Rightarrow> u8 list \<Rightarrow> 'd kernel \<Rightarrow> 'd kernel" where
  "cmd_cat io name k =
     (if empty_name name then print io [Put (line ''Usage: cat <filename>'')] k
      else let (k, r) = on_fs (fs_init (ata_blk io)) k
      in if r = 0 then complain io (line ''No VesperFS found. Run 'mkfs' first.'') k
      else let (k, r, f) = open_file io name k
      in if r \<noteq> 0 then not_found io name k
      else print io [Ch 10] (cat_loop io f k))"

text \<open>
  The first token of the arguments of \<^verbatim>\<open>cmd_write\<close>, at most \<^verbatim>\<open>FS_NAME_MAX\<close> characters, and what follows it.
\<close>

fun write_name :: "nat \<Rightarrow> u8 list \<Rightarrow> u8 list \<times> u8 list" where
  "write_name n [] = ([], [])"
| "write_name 0 (c # s) = ([], c # s)"
| "write_name (Suc n) (c # s) =
     (if c \<noteq> 0 \<and> c \<noteq> 32 then let (name, rest) = write_name n s in (c # name, rest) else ([], c # s))"

definition cmd_write :: "'d io \<Rightarrow> u8 list \<Rightarrow> 'd kernel \<Rightarrow> 'd kernel" where
  "cmd_write io args k =
     (let (fname, rest) = write_name FS_NAME_MAX args
      in if fname = [] then print io [Put (line ''Usage: write <filename> <text>'')] k
         else
           let content = dropWhile (\<lambda>c. c = 32) rest;
               len = strlen content;
               (k, r) = on_fs (fs_init (ata_blk io)) k
           in if r = 0 then complain io (line ''No VesperFS. Run 'mkfs' first.'') k
              else
                let (k, r) = on_fs (fs_write_new (ata_blk io) fname (take (unat len) content)) k;
                    k = (if r = 0
                         then print io [Colour VGA_COLOR_LIGHT_GREEN, Put (chars ''Written: ''), Put fname, Put (chars '' (''),
                                Num len, Put (line '' bytes)'')] k
                         else print io [Colour VGA_COLOR_LIGHT_RED, Put (line ''Write failed.'')] k)
                in print io [Colour VGA_COLOR_LIGHT_GREY] k)"

definition cmd_rm :: "'d io \<Rightarrow> u8 list \<Rightarrow> 'd kernel \<Rightarrow> 'd kernel" where
  "cmd_rm io name k =
     (if empty_name name then print io [Put (line ''Usage: rm <filename>'')] k
      else let (k, r) = on_fs (fs_init (ata_blk io)) k
      in if r = 0 then complain io (line ''No VesperFS. Run 'mkfs' first.'') k
      else let (k, r) = on_fs (fs_delete (ata_blk io) name) k;
               k = (if r = 0 then print io [Colour VGA_COLOR_LIGHT_GREEN, Put (chars ''Deleted: ''), Put name, Ch 10] k
                    else print io [Colour VGA_COLOR_LIGHT_RED, Put (chars ''File not found: ''), Put name, Ch 10] k)
      in print io [Colour VGA_COLOR_LIGHT_GREY] k)"

subsection \<open>Programs\<close>

definition RUN_BUF_SIZE :: u32 where [kconst]: "RUN_BUF_SIZE = 65536"

text \<open>Storing bytes from an address on, as \<^verbatim>\<open>fs_read\<close> does in the static buffer \<^verbatim>\<open>run_buf\<close>, here the address \<open>rb\<close>.\<close>

fun poke :: "u32 \<Rightarrow> u8 list \<Rightarrow> mem \<Rightarrow> mem" where
  "poke a [] m = m"
| "poke a (b # bs) m = poke (a + 1) bs (m(a := b))"

text \<open>
  The part \<^verbatim>\<open>cmd_run\<close> and \<^verbatim>\<open>cmd_exec\<close> have in common: the file into \<^verbatim>\<open>run_buf\<close>, and the number of bytes read, or None after an
  error message.
\<close>

definition load_program :: "'d io \<Rightarrow> u32 \<Rightarrow> u8 list \<Rightarrow> u8 list \<Rightarrow> 'd kernel \<Rightarrow> 'd kernel \<times> u32 option" where
  "load_program io rb usage name k =
     (if empty_name name then (print io [Put usage] k, None)
      else let (k, r) = on_fs (fs_init (ata_blk io)) k
      in if r = 0 then (complain io (line ''No VesperFS. Run 'mkfs' first.'') k, None)
      else let (k, r, f) = open_file io name k
      in if r \<noteq> 0 then (not_found io name k, None)
      else if f_size f > RUN_BUF_SIZE then (complain io (line ''File too large (max 64 KB).'') k, None)
      else let (k, nread, out, f) = read_file io f (f_size f) k;
               (k, _) = on_kmm (\<lambda>m. (m\<lparr>memory := poke rb out (memory m)\<rparr>, ())) k
      in (k, Some nread))"

definition yield :: "'d kernel \<Rightarrow> 'd kernel" where
  "yield k = k\<lparr>ksched := process_yield (ksched k)\<rparr>"

definition pid_of :: "'d kernel \<Rightarrow> nat \<Rightarrow> u32" where
  "pid_of k i = pid (process_table (ksched k) ! i)"

definition cmd_run :: "'d io \<Rightarrow> u32 \<Rightarrow> u8 list \<Rightarrow> 'd kernel \<Rightarrow> 'd kernel \<times> cmd_result" where
  "cmd_run io rb name k =
     (case load_program io rb (line ''Usage: run <filename>'') name k of (k, None) \<Rightarrow> (k, Cmd_done)
      | (k, Some nread) \<Rightarrow>
          let (k, entry) = on_kmm (elf_load rb nread) k
          in if entry = 0 then (complain io (line ''Not a valid ELF32 binary.'') k, Cmd_done)
             else
               (case on_sched (process_create name entry) k of
                  (k, None) \<Rightarrow> (complain io (line ''Process table full.'') k, Cmd_done)
                | (k, Some i) \<Rightarrow>
                    let k = print io [Colour VGA_COLOR_LIGHT_GREEN, Put (chars ''Spawned PID ''), Num (pid_of k i),
                              Put (chars '': ''), Put name, Ch 10, Colour VGA_COLOR_LIGHT_GREY] k
                    in (yield k, Cmd_switched)))"

definition destroy_pd :: "u32 \<Rightarrow> 'd kernel \<Rightarrow> 'd kernel" where
  "destroy_pd pd k = fst (on_kmm (\<lambda>m. (paging_destroy_pd pd m, ())) k)"

definition cmd_exec :: "'d io \<Rightarrow> u32 \<Rightarrow> u8 list \<Rightarrow> 'd kernel \<Rightarrow> 'd kernel \<times> cmd_result" where
  "cmd_exec io rb name k =
     (case load_program io rb (line ''Usage: exec <filename>'') name k of (k, None) \<Rightarrow> (k, Cmd_done)
      | (k, Some nread) \<Rightarrow>
          let (k, pd) = on_kmm paging_create_pd k
          in if pd = 0 then (complain io (line ''Out of physical memory.'') k, Cmd_done)
          else let (k, entry) = on_kmm (elf_load_user rb nread pd) k
          in if entry = 0 then (destroy_pd pd (complain io (line ''Not a valid ELF32 binary.'') k), Cmd_done)
          else let stack_base = USER_STACK_TOP - USER_STACK_PAGES * 4096;
                   (k, r) = on_kmm (paging_alloc_user_pages pd stack_base USER_STACK_PAGES) k
          in if r \<noteq> 0 then (destroy_pd pd (complain io (line ''Failed to allocate user stack.'') k), Cmd_done)
          else
            (case on_sched (process_create_user name entry USER_STACK_TOP pd) k of
               (k, None) \<Rightarrow> (destroy_pd pd (complain io (line ''Process table full.'') k), Cmd_done)
             | (k, Some i) \<Rightarrow>
                 let k = print io [Colour VGA_COLOR_LIGHT_GREEN, Put (chars ''Spawned user-mode PID ''), Num (pid_of k i),
                           Put (chars '': ''), Put name, Put (chars '' (entry=''), Hex entry, Put (line '')''),
                           Colour VGA_COLOR_LIGHT_GREY] k
                 in (yield k, Cmd_switched)))"

end
