(* ===== verification/Shell.thy ===== *)
theory Shell
  imports Commands
begin

text \<open>
  The shell, \<^verbatim>\<open>kernel/shell.c\<close>: the command history, the line editor, the dispatch of commands and the main loop. The line editor
  is given the characters \<^verbatim>\<open>keyboard_getchar\<close> delivers; the main loop takes them one by one from the keyboard's ring buffer.
\<close>

section \<open>The code\<close>

definition SHELL_BUF_SIZE :: nat where [kconst]: "SHELL_BUF_SIZE = 256"
definition HISTORY_SIZE :: int where [kconst]: "HISTORY_SIZE = 8"
definition SHELL_PROMPT :: "u8 list" where "SHELL_PROMPT = chars ''vesper> ''"

text \<open>
  The static variables of the file: the slots of the history and the number of entries ever added, a C \<^verbatim>\<open>int\<close>, so that the model is
  the code's for the first \<open>2\<^sup>3\<^sup>1 - 1\<close> lines.
\<close>

record hist =
  history :: "u8 list list"
  history_count :: int

definition history_push :: "u8 list \<Rightarrow> hist \<Rightarrow> hist" where
  "history_push cmd h =
     (if empty_name cmd then h
      else
        let slot = nat (history_count h mod HISTORY_SIZE)
        in h\<lparr>history := (history h)[slot := strncpy cmd (SHELL_BUF_SIZE - 1) @ [0]], history_count := history_count h + 1\<rparr>)"

definition history_get :: "int \<Rightarrow> hist \<Rightarrow> u8 list option" where
  "history_get back h =
     (if back \<le> 0 \<or> back > history_count h \<or> back > HISTORY_SIZE then None
      else Some (history h ! nat (((history_count h - back) mod HISTORY_SIZE + HISTORY_SIZE) mod HISTORY_SIZE)))"

definition erase_input :: "'d io \<Rightarrow> nat \<Rightarrow> 'd console \<Rightarrow> 'd console" where
  "erase_input io len s = fold (\<lambda>_. vga_putchar io 8) [0 ..< len] s"

text \<open>Copying a history entry into the line buffer of \<open>max_len\<close> bytes: \<^verbatim>\<open>strncpy\<close> and the NUL behind it.\<close>

definition recall :: "u8 list \<Rightarrow> nat \<Rightarrow> u8 list \<Rightarrow> u8 list" where
  "recall entry max_len b = (strncpy entry (max_len - 1) @ drop (max_len - 1) b)[max_len - 1 := 0]"

text \<open>One character of \<^verbatim>\<open>read_line\<close> other than the newline, on the line buffer, its length and the history position.\<close>

record edit_state =
  e_buf :: "u8 list"
  e_len :: nat
  hist_pos :: int

definition read_key :: "'d io \<Rightarrow> hist \<Rightarrow> nat \<Rightarrow> u8 \<Rightarrow> edit_state \<times> 'd console \<Rightarrow> edit_state \<times> 'd console" where
  "read_key io h max_len c es =
     (let (e, s) = es
      in if c = 8 then
           (if e_len e > 0 then (e\<lparr>e_len := e_len e - 1\<rparr>, vga_putchar io 8 s) else (e, s))
         else if c = KEY_UP then
           let next_pos = hist_pos e + 1
           in case history_get next_pos h of None \<Rightarrow> (e, s)
              | Some entry \<Rightarrow>
                  let s = erase_input io (e_len e) s;
                      b = recall entry max_len (e_buf e)
                  in (\<lparr>e_buf = b, e_len = unat (strlen b), hist_pos = next_pos\<rparr>, vga_puts io b s)
         else if c = KEY_DOWN then
           (if hist_pos e > 0 then
              let s = erase_input io (e_len e) s;
                  e = e\<lparr>hist_pos := hist_pos e - 1\<rparr>
              in if hist_pos e = 0 then (e\<lparr>e_buf := (e_buf e)[0 := 0], e_len := 0\<rparr>, s)
                 else case history_get (hist_pos e) h of None \<Rightarrow> (e, s)
                    | Some entry \<Rightarrow>
                        let b = recall entry max_len (e_buf e)
                        in (e\<lparr>e_buf := b, e_len := unat (strlen b)\<rparr>, vga_puts io b s)
            else (e, s))
         else if c \<ge> 0x20 \<and> c < 0x80 then
           (e\<lparr>e_buf := (e_buf e)[e_len e := c], e_len := e_len e + 1\<rparr>, vga_putchar io c s)
         else (e, s))"

text \<open>
  The loop of \<^verbatim>\<open>read_line\<close> over the characters that arrive, with those left over when the line is complete; None while the
  line is not complete and the shell waits for more.
\<close>

fun read_line_loop :: "'d io \<Rightarrow> hist \<Rightarrow> nat \<Rightarrow> u8 list \<Rightarrow> edit_state \<times> 'd console \<Rightarrow> ((edit_state \<times> 'd console) \<times> u8 list) option" where
  "read_line_loop io h max_len [] es = (if e_len (fst es) < max_len - 1 then None else Some (es, []))"
| "read_line_loop io h max_len (c # keys) es =
     (if e_len (fst es) < max_len - 1
      then if c = 10 then Some (apsnd (vga_putchar io 10) es, keys)
           else read_line_loop io h max_len keys (read_key io h max_len c es)
      else Some (es, c # keys))"

definition read_line :: "'d io \<Rightarrow> hist \<Rightarrow> nat \<Rightarrow> u8 list \<Rightarrow> u8 list \<Rightarrow> 'd console \<Rightarrow> (u8 list \<times> 'd console \<times> u8 list) option" where
  "read_line io h max_len keys b s =
     (case read_line_loop io h max_len keys (\<lparr>e_buf = b, e_len = 0, hist_pos = 0\<rparr>, s) of None \<Rightarrow> None
      | Some ((e, s), keys) \<Rightarrow> Some ((e_buf e)[e_len e := 0], s, keys))"

definition finish :: "'d kernel \<Rightarrow> 'd kernel \<times> cmd_result" where
  "finish k = (k, Cmd_done)"

definition execute_command :: "'d io \<Rightarrow> u32 \<Rightarrow> u32 list \<Rightarrow> u8 list \<Rightarrow> 'd kernel \<Rightarrow> 'd kernel \<times> cmd_result" where
  "execute_command io rb irqs cmd0 k =
     (let cmd = dropWhile (\<lambda>c. c = 32) cmd0
      in if empty_name cmd then (k, Cmd_done)
      else if str_eq cmd (chars ''help'') then finish (cmd_help io k)
      else if str_eq cmd (chars ''clear'') then finish (cmd_clear io k)
      else if str_startswith cmd (chars ''echo '') then finish (cmd_echo io (drop 5 cmd) k)
      else if str_eq cmd (chars ''echo'') then finish (print io [Ch 10] k)
      else if str_eq cmd (chars ''version'') then finish (cmd_version io k)
      else if str_eq cmd (chars ''meminfo'') then cmd_meminfo io k
      else if str_eq cmd (chars ''uptime'') then finish (cmd_uptime io k)
      else if str_eq cmd (chars ''date'') then cmd_date io k
      else if str_eq cmd (chars ''ps'') then finish (cmd_ps io k)
      else if str_startswith cmd (chars ''kill '') then finish (cmd_kill io (drop 5 cmd) k)
      else if str_eq cmd (chars ''kill'') then finish (print io [Put (line ''Usage: kill <pid>'')] k)
      else if str_startswith cmd (chars ''sleep '') then cmd_sleep io irqs (drop 6 cmd) k
      else if str_eq cmd (chars ''sleep'') then finish (print io [Put (line ''Usage: sleep <milliseconds>'')] k)
      else if str_eq cmd (chars ''colortest'') then finish (cmd_colortest io k)
      else if str_eq cmd (chars ''mkfs'') then finish (cmd_mkfs io k)
      else if str_eq cmd (chars ''ls'') then finish (cmd_ls io k)
      else if str_startswith cmd (chars ''cat '') then finish (cmd_cat io (drop 4 cmd) k)
      else if str_eq cmd (chars ''cat'') then finish (print io [Put (line ''Usage: cat <filename>'')] k)
      else if str_startswith cmd (chars ''write '') then finish (cmd_write io (drop 6 cmd) k)
      else if str_eq cmd (chars ''write'') then finish (print io [Put (line ''Usage: write <filename> <text>'')] k)
      else if str_startswith cmd (chars ''rm '') then finish (cmd_rm io (drop 3 cmd) k)
      else if str_eq cmd (chars ''rm'') then finish (print io [Put (line ''Usage: rm <filename>'')] k)
      else if str_startswith cmd (chars ''run '') then cmd_run io rb (drop 4 cmd) k
      else if str_eq cmd (chars ''run'') then finish (print io [Put (line ''Usage: run <filename>'')] k)
      else if str_startswith cmd (chars ''exec '') then cmd_exec io rb (drop 5 cmd) k
      else if str_eq cmd (chars ''exec'') then finish (print io [Put (line ''Usage: exec <filename>'')] k)
      else if str_eq cmd (chars ''halt'') then cmd_halt io k
      else if str_eq cmd (chars ''reboot'') then cmd_reboot io k
      else finish (cmd_unknown io cmd k))"

text \<open>The shell's state: the kernel, the history and the line buffer on its stack.\<close>

record 'd shell =
  sk :: "'d kernel"
  shist :: hist
  sbuf :: "u8 list"

text \<open>
  Where \<^verbatim>\<open>shell_run\<close> is: about to print its prompt, in \<^verbatim>\<open>read_line\<close> about to ask for a character, or in a command that did not return.
\<close>

datatype shell_pos = At_prompt | In_line edit_state | Left cmd_result

text \<open>The end of a round: the line is terminated, remembered and run.\<close>

definition run_line :: "'d io \<Rightarrow> u32 \<Rightarrow> u32 list \<Rightarrow> edit_state \<Rightarrow> 'd shell \<Rightarrow> shell_pos \<times> 'd shell" where
  "run_line io rb irqs e sh =
     (let b = (e_buf e)[e_len e := 0];
          h = history_push b (shist sh);
          (k, r) = execute_command io rb irqs b (sk sh)
      in (if r = Cmd_done then At_prompt else Left r, \<lparr>sk = k, shist = h, sbuf = b\<rparr>))"

text \<open>
  One step of the loop: the prompt, one character, or the end of a line and its command. With the keyboard buffer empty the shell waits
  where it is; between any two steps interrupts may come.
\<close>

fun shell_run :: "'d io \<Rightarrow> u32 \<Rightarrow> u32 list \<Rightarrow> shell_pos \<times> 'd shell \<Rightarrow> shell_pos \<times> 'd shell" where
  "shell_run io rb irqs (At_prompt, sh) =
     (In_line \<lparr>e_buf = sbuf sh, e_len = 0, hist_pos = 0\<rparr>,
      sh\<lparr>sk := print io [Colour VGA_COLOR_LIGHT_GREEN, Put SHELL_PROMPT, Colour VGA_COLOR_LIGHT_GREY] (sk sh)\<rparr>)"
| "shell_run io rb irqs (In_line e, sh) =
     (if e_len e < SHELL_BUF_SIZE - 1 then
        (case on_drv keyboard_getchar (sk sh) of
           (k, Char_read c) \<Rightarrow>
             if c = 10 then run_line io rb irqs e (sh\<lparr>sk := on_con (vga_putchar io 10) k\<rparr>)
             else let (e, s) = read_key io (shist sh) SHELL_BUF_SIZE c (e, (kcon k)\<lparr>vdev := kdev k\<rparr>)
                  in (In_line e, sh\<lparr>sk := on_con (\<lambda>_. s) k\<rparr>)
         | (k, Halted) \<Rightarrow> (In_line e, sh\<lparr>sk := k\<rparr>)
         | (k, Blocked) \<Rightarrow> (Left Cmd_switched, sh\<lparr>sk := k\<rparr>))
      else run_line io rb irqs e sh)"
| "shell_run io rb irqs (Left r, sh) = (Left r, sh)"

section \<open>The history is the last eight commands\<close>

definition hist_ok :: "hist \<Rightarrow> bool" where
  "hist_ok h \<longleftrightarrow> length (history h) = 8 \<and> (\<forall>e \<in> set (history h). length e = 256 \<and> e ! 255 = 0) \<and> 0 \<le> history_count h"

text \<open>The commands the history holds, the most recent first.\<close>

definition recent :: "hist \<Rightarrow> u8 list list" where
  "recent h = map (\<lambda>back. cstr (the (history_get (int back) h))) [1 ..< Suc (min 8 (nat (history_count h)))]"

definition hist0 :: hist where
  "hist0 = \<lparr>history = replicate 8 (replicate 256 0), history_count = 0\<rparr>"

lemma hist0_ok: "hist_ok hist0" "recent hist0 = []"
  by (simp_all add: hist_ok_def hist0_def recent_def)

lemma length_recent: "length (recent h) = min 8 (nat (history_count h))"
  by (simp add: recent_def)

lemma nth_recent:
  assumes "j < min 8 (nat (history_count h))"
  shows "recent h ! j = cstr (the (history_get (int (Suc j)) h))"
proof -
  have "[1 ..< Suc (min 8 (nat (history_count h)))] ! j = Suc j" using assms by (subst nth_upt) simp_all
  then show ?thesis using assms unfolding recent_def by (subst nth_map) (simp_all del: upt_Suc)
qed

lemma history_get_recent:
  assumes "hist_ok h"
  shows "history_get back h = None \<longleftrightarrow> back \<le> 0 \<or> int (length (recent h)) < back"
    and "history_get back h = Some e \<Longrightarrow> cstr e = recent h ! nat (back - 1) \<and> length e = 256 \<and> e ! 255 = 0"
proof -
  show "history_get back h = None \<longleftrightarrow> back \<le> 0 \<or> int (length (recent h)) < back"
    using assms by (auto simp: history_get_def HISTORY_SIZE_def length_recent hist_ok_def)
  assume e: "history_get back h = Some e"
  then have b: "0 < back" "nat back \<le> min 8 (nat (history_count h))"
    using assms by (auto simp: history_get_def HISTORY_SIZE_def hist_ok_def split: if_splits)
  then have "nat (back - 1) < nat back" by simp
  then have "nat (back - 1) < min 8 (nat (history_count h))" using b(2) by (rule less_le_trans)
  then have "recent h ! nat (back - 1) = cstr (the (history_get (int (Suc (nat (back - 1)))) h))" by (rule nth_recent)
  also have "int (Suc (nat (back - 1))) = back" using b(1) by simp
  finally have "recent h ! nat (back - 1) = cstr (the (history_get back h))" .
  moreover have "e \<in> set (history h)"
    using e assms by (auto simp: history_get_def HISTORY_SIZE_def hist_ok_def intro!: nth_mem split: if_splits)
  ultimately show "cstr e = recent h ! nat (back - 1) \<and> length e = 256 \<and> e ! 255 = 0"
    using e b assms by (simp add: hist_ok_def)
qed

lemma slot_inj:
  fixes n a b :: int
  assumes "0 < a" "a \<le> 8" "0 < b" "b \<le> 8" "(n - a) mod 8 = (n - b) mod 8"
  shows "a = b"
proof -
  have "8 dvd (n - a) - (n - b)" using assms(5) by (simp only: mod_eq_dvd_iff)
  then obtain k where "b - a = 8 * k" by (auto simp: dvd_def)
  moreover have "k < 1" "- 1 < k" using calculation assms(1-4) by linarith+
  ultimately show ?thesis by simp
qed

lemma history_push_recent:
  assumes "hist_ok h"
  shows "hist_ok (history_push cmd h)"
    "recent (history_push cmd h) = (if cstr cmd = [] then recent h else take 8 (take 255 (cstr cmd) # recent h))"
proof -
  let ?h = "history_push cmd h" and ?n = "history_count h" and ?e = "strncpy cmd 255 @ [0]"
  have emp: "empty_name cmd \<longleftrightarrow> cstr cmd = []" by (cases cmd) (auto simp: empty_name_def)
  have n: "0 \<le> ?n" "length (history h) = 8" using assms by (simp_all add: hist_ok_def)
  have h: "?h = h\<lparr>history := (history h)[nat (?n mod 8) := ?e], history_count := ?n + 1\<rparr>" if "cstr cmd \<noteq> []"
    using that emp by (simp add: history_push_def kconst Let_def)
  show "hist_ok ?h"
  proof (cases "cstr cmd = []")
    case False
    have "length ?e = 256" "?e ! 255 = 0" by (simp_all add: nth_append)
    then show ?thesis using assms h[OF False] by (auto simp: hist_ok_def dest!: subsetD[OF set_update_subset_insert])
  qed (use assms emp in \<open>simp add: history_push_def\<close>)
  show "recent ?h = (if cstr cmd = [] then recent h else take 8 (take 255 (cstr cmd) # recent h))"
  proof (cases "cstr cmd = []")
    case False
    have g: "history_get (int i) ?h = (if i = 1 then Some ?e else history_get (int i - 1) h)"
      if i: "1 \<le> i" "i \<le> min 8 (nat (?n + 1))" for i
    proof (cases "i = 1")
      case True
      then show ?thesis using n h[OF False] by (simp add: history_get_def HISTORY_SIZE_def)
    next
      case i1: False
      have "(?n + 1 - int i) mod 8 \<noteq> ?n mod 8" using slot_inj[of "int i" 1 "?n + 1"] i i1 by auto
      then have "nat ((?n + 1 - int i) mod 8) \<noteq> nat (?n mod 8)" by (simp add: nat_eq_iff)
      then show ?thesis using i i1 n h[OF False]
        by (auto simp: history_get_def HISTORY_SIZE_def algebra_simps)
    qed
    let ?r = "\<lambda>i. cstr (the (history_get (int i) ?h))"
    have len: "length (recent ?h) = length (take 8 (take 255 (cstr cmd) # recent h))"
      using n h[OF False] by (simp add: length_recent nat_add_distrib)
    have "recent ?h ! j = take 8 (take 255 (cstr cmd) # recent h) ! j" if j: "j < length (recent ?h)" for j
    proof -
      have j8: "j < min 8 (nat (?n + 1))" using j n h[OF False] by (simp add: length_recent nat_add_distrib)
      have "recent ?h ! j = ?r (Suc j)" using j by (intro nth_recent) (simp add: length_recent)
      also have "\<dots> = (take 255 (cstr cmd) # recent h) ! j"
      proof (cases j)
        case 0
        then show ?thesis using g[of 1] j8 by (simp add: cstr_strncpy_nul)
      next
        case (Suc m)
        have "recent h ! m = cstr (the (history_get (int (Suc m)) h))"
          using Suc j8 n by (intro nth_recent) (simp add: nat_add_distrib)
        then show ?thesis using g[of "Suc j"] Suc j8 by simp
      qed
      finally show ?thesis using j8 by (subst nth_take) simp_all
    qed
    then have "recent ?h = take 8 (take 255 (cstr cmd) # recent h)" by (rule nth_equalityI[OF len])
    then show ?thesis using False by simp
  qed (use emp in \<open>simp add: history_push_def\<close>)
qed

text \<open>
  The history holds the last eight commands: after any sequence of lines has been entered, \<^verbatim>\<open>history_get(i)\<close> is the
  i-th last line that was not blank, up to the eighth, cut to 255 characters, and NULL beyond.
\<close>

theorem history_refines:
  fixes cmds :: "u8 list list"
  defines "h \<equiv> fold history_push cmds hist0"
    and "entered \<equiv> rev (map (take 255 \<circ> cstr) (filter (\<lambda>c. cstr c \<noteq> []) cmds))"
  shows "map_option cstr (history_get back h) =
    (if 1 \<le> back \<and> back \<le> 8 \<and> nat back \<le> length entered then Some (entered ! nat (back - 1)) else None)"
proof -
  have run: "hist_ok g \<Longrightarrow> hist_ok (fold history_push cs g) \<and>
      recent (fold history_push cs g) = take 8 (rev (map (take 255 \<circ> cstr) (filter (\<lambda>c. cstr c \<noteq> []) cs)) @ recent g)" for cs g
  proof (induction cs rule: rev_induct)
    case Nil
    then show ?case by (simp add: length_recent)
  next
    case (snoc c cs)
    then show ?case using history_push_recent[of "fold history_push cs g" c] by (simp add: take_Cons' min_def)
  qed
  have h: "hist_ok h" "recent h = take 8 entered"
    using run[OF hist0_ok(1), of cmds] by (simp_all add: h_def entered_def hist0_ok(2))
  show ?thesis
  proof (cases "history_get back h")
    case None
    then show ?thesis using history_get_recent(1)[OF h(1), of "back"] h(2) by auto
  next
    case (Some e)
    then have "0 < back" "back \<le> int (length (take 8 entered))"
      using history_get_recent(1)[OF h(1), of "back"] h(2) by auto
    then show ?thesis using history_get_recent(2)[OF h(1) Some] h(2) Some by auto
  qed
qed

section \<open>The line editor\<close>

text \<open>
  What the editor means: the line typed so far and the position in the history, zero for the line being typed. A line is
  complete at the newline, or when it has 255 characters.
\<close>

definition edit_key :: "u8 list list \<Rightarrow> u8 \<Rightarrow> u8 list \<times> nat \<Rightarrow> u8 list \<times> nat" where
  "edit_key hs c st0 =
     (let (l, i) = st0
      in if c = 8 then (butlast l, i)
         else if c = KEY_UP then (if i < length hs then (hs ! i, i + 1) else (l, i))
         else if c = KEY_DOWN then (if i = 0 then (l, i) else if i = 1 then ([], 0) else (hs ! (i - 2), i - 1))
         else if c \<ge> 0x20 \<and> c < 0x80 then (l @ [c], i) else (l, i))"

fun edit_line :: "u8 list list \<Rightarrow> u8 list \<Rightarrow> u8 list \<times> nat \<Rightarrow> (u8 list \<times> u8 list) option" where
  "edit_line hs [] st0 = (if length (fst st0) < 255 then None else Some (fst st0, []))"
| "edit_line hs (c # keys) st0 =
     (if length (fst st0) < 255 then if c = 10 then Some (fst st0, keys) else edit_line hs keys (edit_key hs c st0)
      else Some (fst st0, c # keys))"

text \<open>The line buffer holds the line, and everything fits.\<close>

definition edit_rep :: "hist \<Rightarrow> edit_state \<Rightarrow> u8 list \<times> nat \<Rightarrow> bool" where
  "edit_rep h e st0 \<longleftrightarrow> length (e_buf e) = 256 \<and> e_len e = length (fst st0) \<and> take (e_len e) (e_buf e) = fst st0 \<and>
     e_len e \<le> 255 \<and> 0 \<notin> set (fst st0) \<and> hist_pos e = int (snd st0) \<and> snd st0 \<le> length (recent h)"

lemma cstr_update_nul:
  assumes "n < length b" "0 \<notin> set (take n b)"
  shows "cstr (b[n := 0]) = take n b"
  using assms cstr_append_nul[of "take n b" "drop (Suc n) b"] by (simp add: upd_conv_take_nth_drop)

lemma cstr_prefix: "take (length (cstr b)) b = cstr b"
  by (induction b) auto

lemma length_cstr_nul:
  assumes "i < length b" "b ! i = 0"
  shows "length (cstr b) \<le> i"
proof (rule ccontr)
  assume "\<not> length (cstr b) \<le> i"
  then have "i < length (cstr b)" by simp
  moreover from this have "cstr b ! i = 0" using assms(2) unfolding cstr_def by (simp add: takeWhile_nth)
  ultimately show False using cstr_no_nul[of b] by (metis nth_mem)
qed

lemma recall_rep:
  assumes "length e = 256" "e ! 255 = 0" "length b = 256"
  defines "b' \<equiv> recall e 256 b"
  shows "length b' = 256" "cstr b' = cstr e" "unat (strlen b') = length (cstr e)" "length (cstr e) \<le> 255"
proof -
  show len: "length (cstr e) \<le> 255" using assms(1,2) by (intro length_cstr_nul) simp_all
  have "length (drop 255 b) = 1" using assms(3) by simp
  then obtain x where "drop 255 b = [x]" by (auto simp: length_Suc_conv simp del: length_drop)
  then have "b' = strncpy e 255 @ [0]" by (simp add: b'_def recall_def list_update_append)
  then show "length b' = 256" and c: "cstr b' = cstr e" using len by (simp_all add: cstr_strncpy_nul)
  then show "unat (strlen b') = length (cstr e)" using len by (simp add: strlen_cstr unat_of_nat_u32)
qed

lemma recalled_rep:
  assumes "hist_ok h" "edit_rep h e st0" "history_get i h = Some entry"
  shows "edit_rep h \<lparr>e_buf = recall entry 256 (e_buf e), e_len = unat (strlen (recall entry 256 (e_buf e))), hist_pos = i\<rparr>
    (recent h ! nat (i - 1), nat i)"
proof -
  have i: "0 < i" "i \<le> int (length (recent h))" using history_get_recent(1)[OF assms(1), of i] assms(3) by auto
  from history_get_recent(2)[OF assms(1,3)]
  have e: "cstr entry = recent h ! nat (i - 1)" "length entry = 256" "entry ! 255 = 0" by simp_all
  have b: "length (e_buf e) = 256" using assms(2) by (simp add: edit_rep_def)
  note r = recall_rep[OF e(2,3) b]
  have "take (length (cstr entry)) (recall entry 256 (e_buf e)) = cstr entry" using cstr_prefix[of "recall entry 256 (e_buf e)"] r(2) by simp
  then show ?thesis using r i cstr_no_nul[of entry] e(1) by (simp add: edit_rep_def)
qed

lemma read_key_rep:
  assumes "hist_ok h" "edit_rep h e st0" "e_len e < 255"
  shows "edit_rep h (fst (read_key io h 256 c (e, s))) (edit_key (recent h) c st0)"
proof -
  obtain l i where st0: "st0 = (l, i)" by fastforce
  have r: "length (e_buf e) = 256" "e_len e = length l" "take (length l) (e_buf e) = l" "0 \<notin> set l" "hist_pos e = int i"
    "i \<le> length (recent h)" "length l < 255"
    using assms(2,3) by (auto simp: edit_rep_def st0)
  consider "c = 8" | "c = KEY_UP" | "c = KEY_DOWN" | "c \<notin> {8, KEY_UP, KEY_DOWN}" "c \<ge> 0x20 \<and> c < 0x80"
    | "c \<notin> {8, KEY_UP, KEY_DOWN}" "\<not> (c \<ge> 0x20 \<and> c < 0x80)" by blast
  then show ?thesis
  proof cases
    case 1
    have "take (length l - 1) (e_buf e) = butlast l"
      using arg_cong[OF r(3), of "take (length l - 1)"] by (simp add: butlast_conv_take min_def)
    then show ?thesis using 1 r assms(2)
      by (auto simp: read_key_def edit_key_def edit_rep_def st0 dest: in_set_butlastD)
  next
    case 2
    have n: "history_get (int i + 1) h = None \<longleftrightarrow> \<not> i < length (recent h)"
      using history_get_recent(1)[OF assms(1), of "int i + 1"] by auto
    show ?thesis
    proof (cases "history_get (int i + 1) h")
      case None
      then show ?thesis using 2 r assms(2) n by (simp add: read_key_def edit_key_def st0 KEY_UP_def)
    next
      case (Some entry)
      then show ?thesis using recalled_rep[OF assms(1,2) Some] 2 r n
        by (simp add: read_key_def edit_key_def st0 KEY_UP_def Let_def nat_add_distrib)
    qed
  next
    case 3
    show ?thesis
    proof (cases "i \<le> 1")
      case True
      then show ?thesis using 3 r assms(2)
        by (auto simp: read_key_def edit_key_def st0 KEY_DOWN_def KEY_UP_def Let_def edit_rep_def le_Suc_eq)
    next
      case False
      then obtain entry where entry: "history_get (int i - 1) h = Some entry"
        using history_get_recent(1)[OF assms(1), of "int i - 1"] r(6) by fastforce
      have "nat (int i - 2) = i - 2" "nat (int i - 1) = i - 1" using False by auto
      then show ?thesis using recalled_rep[OF assms(1,2) entry] 3 r entry False
        by (cases e) (simp add: read_key_def edit_key_def st0 KEY_DOWN_def KEY_UP_def Let_def)
    qed
  next
    case 4
    have "take (Suc (length l)) ((e_buf e)[length l := c]) = l @ [c]"
      using r(1,3,7) by (simp add: take_Suc_conv_app_nth)
    moreover have "c \<noteq> 0" using 4(2) by auto
    ultimately show ?thesis using 4 r by (simp add: read_key_def edit_key_def st0 edit_rep_def)
  next
    case 5
    then show ?thesis using assms(2) by (auto simp: read_key_def edit_key_def st0)
  qed
qed

lemma read_line_loop_rep:
  assumes "hist_ok h" "edit_rep h e st0"
  shows "case read_line_loop io h 256 keys (e, s) of None \<Rightarrow> edit_line (recent h) keys st0 = None
    | Some ((e', s'), rest) \<Rightarrow> \<exists>i. edit_line (recent h) keys st0 = Some (take (e_len e') (e_buf e'), rest) \<and>
        edit_rep h e' (take (e_len e') (e_buf e'), i)"
  using assms(2)
proof (induction keys arbitrary: e s st0)
  case Nil
  then show ?case by (auto simp: edit_rep_def)
next
  case (Cons c keys)
  have l: "take (e_len e) (e_buf e) = fst st0" using Cons.prems unfolding edit_rep_def by blast
  have r: "length (fst st0) = e_len e" "edit_rep h e (take (e_len e) (e_buf e), snd st0)"
    using Cons.prems by (simp_all add: l) (simp add: edit_rep_def)
  show ?case
  proof (cases "e_len e < 255 \<and> c \<noteq> 10")
    case True
    obtain e1 s1 where k: "read_key io h 256 c (e, s) = (e1, s1)" by fastforce
    have "edit_rep h e1 (edit_key (recent h) c st0)"
      using read_key_rep[OF assms(1) Cons.prems, of io c s] True k by simp
    note IH = Cons.IH[OF this, of s1]
    have "edit_line (recent h) (c # keys) st0 = edit_line (recent h) keys (edit_key (recent h) c st0)"
      "read_line_loop io h 256 (c # keys) (e, s) = read_line_loop io h 256 keys (e1, s1)"
      using True k r(1) by simp_all
    then show ?thesis using IH by (simp only:)
  next
    case False
    then show ?thesis using r l[symmetric] by (cases "e_len e < 255") (auto intro!: exI[of _ "snd st0"])
  qed
qed

text \<open>
  C34. \<^verbatim>\<open>read_line\<close> is a line editor: for every history and every sequence of keys it completes a line exactly when the
  abstract editor does, consuming the same keys, and leaves in the buffer the line the abstract editor has, terminated by a
  NUL. The line never exceeds the buffer: it has at most 255 characters.
\<close>

theorem read_line_edits:
  assumes "hist_ok h" "length b = 256"
  shows "map_option (\<lambda>(b', s', rest). (cstr b', rest)) (read_line io h SHELL_BUF_SIZE keys b s) = edit_line (recent h) keys ([], 0) \<and>
    (\<forall>b' s' rest. read_line io h SHELL_BUF_SIZE keys b s = Some (b', s', rest) \<longrightarrow> length b' = 256 \<and> length (cstr b') \<le> 255)"
proof -
  have r0: "edit_rep h \<lparr>e_buf = b, e_len = 0, hist_pos = 0\<rparr> ([], 0)" using assms(2) by (simp add: edit_rep_def)
  note run = read_line_loop_rep[OF assms(1) r0, where io = io and keys = keys and s = s]
  show ?thesis
  proof (cases "read_line_loop io h 256 keys (\<lparr>e_buf = b, e_len = 0, hist_pos = 0\<rparr>, s)")
    case None
    then show ?thesis using run by (simp add: read_line_def SHELL_BUF_SIZE_def)
  next
    case (Some x)
    obtain e' s' rest where x: "x = ((e', s'), rest)" by (metis prod.exhaust)
    obtain i where e: "edit_line (recent h) keys ([], 0) = Some (take (e_len e') (e_buf e'), rest)"
      "edit_rep h e' (take (e_len e') (e_buf e'), i)"
      using run Some x by auto
    have c: "cstr ((e_buf e')[e_len e' := 0]) = take (e_len e') (e_buf e')"
      using e(2) by (intro cstr_update_nul) (simp_all add: edit_rep_def)
    have "length (e_buf e') = 256" "e_len e' \<le> 255" using e(2) by (simp_all add: edit_rep_def)
    then show ?thesis using Some x e(1) c by (simp add: read_line_def SHELL_BUF_SIZE_def)
  qed
qed

theorem read_line_edits_witness:
  "map_option (\<lambda>(b', s', rest). (cstr b', rest))
     (read_line null_io (history_push (chars ''ls'') hist0) SHELL_BUF_SIZE [0x70, 0x78, 8, 0x73, KEY_UP, 8, 0x73, 10, 0x61] (replicate 256 0) con0) =
   Some (chars ''ls'', [0x61])"
proof -
  define h where "h = history_push (chars ''ls'') hist0"
  have h: "hist_ok h" "recent h = [[0x6C, 0x73]]"
    using history_push_recent[OF hist0_ok(1), of "chars ''ls''"] hist0_ok(2) by (simp_all add: chars_def h_def)
  have "map_option (\<lambda>(b', s', rest). (cstr b', rest))
      (read_line null_io h SHELL_BUF_SIZE [0x70, 0x78, 8, 0x73, KEY_UP, 8, 0x73, 10, 0x61] (replicate 256 0) con0) =
    edit_line [[0x6C, 0x73]] [0x70, 0x78, 8, 0x73, KEY_UP, 8, 0x73, 10, 0x61] ([], 0)"
    using read_line_edits[OF h(1), of "replicate 256 0" null_io "[0x70, 0x78, 8, 0x73, KEY_UP, 8, 0x73, 10, 0x61]" con0] h(2) by simp
  then show ?thesis unfolding h_def by (simp add: edit_key_def KEY_UP_def KEY_DOWN_def chars_def)
qed

end
