(* ===== verification/Shell_Files.thy ===== *)
theory Shell_Files
  imports Shell
begin

text \<open>
  The file commands of the shell end to end: what \<^verbatim>\<open>write\<close>, \<^verbatim>\<open>cat\<close> and \<^verbatim>\<open>rm\<close> do to the files on the disk and to the screen,
  over the file system, the disk driver and the console, which all work on the one machine behind the ports.
\<close>

section \<open>Printing and the rest of the machine\<close>

text \<open>Moving the cursor does not disturb the part of the machine \<open>view\<close> shows.\<close>

definition vga_wired :: "'d io \<Rightarrow> ('d \<Rightarrow> 'v) \<Rightarrow> bool" where
  "vga_wired io view \<longleftrightarrow> (\<forall>p b d. p = 0x3D4 \<or> p = 0x3D5 \<longrightarrow> view (outb io p b d) = view d)"

lemma vdev_scroll: "vdev (vga_scroll s) = vdev s"
proof -
  have "vdev (let s = fold (\<lambda>row. fold (\<lambda>c s. set_cell row c (v row c s) s) c1) rows s;
                 s = fold (\<lambda>c s. set_cell 24 c (w s) s) c2 s in s\<lparr>vga_row := x\<rparr>) = vdev s" for v w c1 rows c2 x
    by (simp add: Let_def fold_row_const[of vdev] fold_rows_const[of vdev])
  then show ?thesis unfolding vga_scroll_def .
qed

lemma view_update_cursor: "vga_wired io view \<Longrightarrow> view (vdev (vga_update_cursor io s)) = view (vdev s)"
  by (simp add: vga_update_cursor_def vga_wired_def Let_def)

lemma view_putchar: "vga_wired io view \<Longrightarrow> view (vdev (vga_putchar io c s)) = view (vdev s)"
  by (simp add: vga_putchar_def Let_def view_update_cursor vdev_scroll)

lemma view_fold: "vga_wired io view \<Longrightarrow> view (vdev (fold (vga_putchar io) str s)) = view (vdev s)"
  by (induction str arbitrary: s) (simp_all add: view_putchar)

lemma view_puts: "vga_wired io view \<Longrightarrow> view (vdev (vga_puts io str s)) = view (vdev s)"
  by (induction str arbitrary: s) (simp_all add: view_putchar)

lemma view_emit: "vga_wired io view \<Longrightarrow> view (vdev (emit io p s)) = view (vdev s)"
  by (cases p) (simp_all add: view_putchar view_puts print_uint_decimal vga_print_hex_def view_fold vga_set_color_def Let_def)

lemma view_emits: "vga_wired io view \<Longrightarrow> view (vdev (fold (emit io) ps s)) = view (vdev s)"
  by (induction ps arbitrary: s) (simp_all add: view_emit)

lemma con_ok_emits: "con_ok s \<Longrightarrow> con_ok (fold (emit io) ps s)"
proof (induction ps arbitrary: s)
  case (Cons p ps)
  have "con_ok (emit io p s)" using Cons.prems
    by (cases p) (simp_all add: con_ok_putchar con_ok_puts con_ok_print vga_set_color_def, simp add: con_ok_def)
  then show ?case using Cons.IH by simp
qed simp

lemma con_ok_vdev [simp]: "con_ok (s\<lparr>vdev := d\<rparr>) = con_ok s"
  by (simp add: con_ok_def)

text \<open>Two consoles that show the same: text, cursor and colour; only the device behind them may differ.\<close>

definition same_screen :: "'d console \<Rightarrow> 'd console \<Rightarrow> bool" where
  "same_screen s t \<longleftrightarrow> (\<exists>d. s = t\<lparr>vdev := d\<rparr>)"

lemma same_screen_refl: "same_screen s s" "same_screen (s\<lparr>vdev := d\<rparr>) s"
  by (auto simp: same_screen_def intro: exI[of _ "vdev s"])

lemma same_screen_trans: "same_screen s t \<Longrightarrow> same_screen t u \<Longrightarrow> same_screen s u"
  by (auto simp: same_screen_def)

lemma same_screen_putchar:
  assumes "same_screen s t" "con_ok t"
  shows "same_screen (vga_putchar io c s) (vga_putchar io c t)"
proof -
  have len: "length (vga_buffer t) = 2000" using assms(2) by (simp add: con_ok_def)
  have sc: "vga_scroll (u\<lparr>vdev := d\<rparr>) = (vga_scroll u)\<lparr>vdev := d\<rparr>" if "length (vga_buffer u) = 2000" for u :: "'a console" and d
    using that by (simp add: vga_scroll_eq)
  have cell: "set_cell r c v (u\<lparr>vdev := d\<rparr>) = (set_cell r c v u)\<lparr>vdev := d\<rparr>" for r c v d and u :: "'a console"
    by (simp add: set_cell_def)
  have cu: "same_screen (vga_update_cursor io (u\<lparr>vdev := d\<rparr>)) (vga_update_cursor io u)" for u :: "'a console" and d
    by (auto simp: vga_update_cursor_def same_screen_def Let_def)
  obtain d where s: "s = t\<lparr>vdev := d\<rparr>" using assms(1) by (auto simp: same_screen_def)
  define f1 where "f1 u =
     (if c = 10 then u\<lparr>vga_col := 0, vga_row := vga_row u + 1\<rparr> else if c = 13 then u\<lparr>vga_col := 0\<rparr>
      else if c = 8 then
        (if vga_col u > 0
         then let u = u\<lparr>vga_col := vga_col u - 1\<rparr>
              in set_cell (nat (vga_row u)) (nat (vga_col u)) (vga_entry 32 (vga_color u)) u
         else u)
      else let u = set_cell (nat (vga_row u)) (nat (vga_col u)) (vga_entry c (vga_color u)) u in u\<lparr>vga_col := vga_col u + 1\<rparr>)"
    for u :: "'a console"
  define f2 where "f2 u = (if vga_col u \<ge> VGA_COLS then u\<lparr>vga_col := 0, vga_row := vga_row u + 1\<rparr> else u)" for u :: "'a console"
  define f3 where "f3 u = (if vga_row u \<ge> VGA_ROWS then vga_scroll u else u)" for u :: "'a console"
  have p: "vga_putchar io c u = vga_update_cursor io (f3 (f2 (f1 u)))" for u
    by (simp only: vga_putchar_def Let_def f1_def f2_def f3_def)
  have 1: "f1 (t\<lparr>vdev := d\<rparr>) = (f1 t)\<lparr>vdev := d\<rparr>" "length (vga_buffer (f1 t)) = 2000"
    by (simp_all add: f1_def cell Let_def len)
  have 2: "f2 (u\<lparr>vdev := d\<rparr>) = (f2 u)\<lparr>vdev := d\<rparr>" "vga_buffer (f2 u) = vga_buffer u" for u by (simp_all add: f2_def)
  have 3: "f3 (u\<lparr>vdev := d\<rparr>) = (f3 u)\<lparr>vdev := d\<rparr>" if "length (vga_buffer u) = 2000" for u
    using sc[OF that] by (simp add: f3_def)
  show ?thesis unfolding s p 1(1) 2(1) 3[of "f2 (f1 t)", unfolded 2(2), OF 1(2)] by (rule cu)
qed

lemma same_screen_puts: "same_screen s t \<Longrightarrow> con_ok t \<Longrightarrow> same_screen (vga_puts io str s) (vga_puts io str t)"
  by (induction str arbitrary: s t) (simp_all add: same_screen_putchar con_ok_putchar)

lemma same_screen_ok: "same_screen s t \<Longrightarrow> con_ok s = con_ok t"
  by (auto simp: same_screen_def)

lemma vga_puts_append: "0 \<notin> set a \<Longrightarrow> vga_puts io (a @ b) s = vga_puts io b (vga_puts io a s)"
  by (induction a arbitrary: s) auto

section \<open>The file system of the kernel\<close>

definition kfs :: "'d kernel \<Rightarrow> 'd fs" where
  "kfs k = (ffs (kfds k))\<lparr>fdev := kdev k\<rparr>"

lemma on_fs_run:
  assumes "f (kfs k) = (a, s)"
  shows "on_fs f k = (k\<lparr>kdev := fdev s, kfds := (kfds k)\<lparr>ffs := s\<rparr>\<rparr>, a)"
  using assms by (simp add: on_fs_def on_fds_def kfs_def Let_def)

lemma kfs_simps [simp]:
  "kfs (k\<lparr>kdev := fdev s, kfds := (kfds k)\<lparr>ffs := s\<rparr>\<rparr>) = s" "fdev (kfs k) = kdev k"
  by (simp_all add: kfs_def)

text \<open>A state from which the file commands work: a drive that answers, a well-formed file system on it, a sound console.\<close>

definition files_ready :: "('d \<Rightarrow> drive) \<Rightarrow> 'd kernel \<Rightarrow> bool" where
  "files_ready view k \<longleftrightarrow> disk_ok view (kfs k) \<and> con_ok (kcon k)"

definition kfiles :: "('d \<Rightarrow> drive) \<Rightarrow> 'd kernel \<Rightarrow> u8 list \<Rightarrow> u8 list option" where
  "kfiles view k = files view (kfs k)"

lemma print_keeps:
  assumes "vga_wired io view"
  shows "view (kdev (print io ps k)) = view (kdev k)" "kfds (print io ps k) = kfds k" "ksched (print io ps k) = ksched k"
    "con_ok (kcon k) \<Longrightarrow> con_ok (kcon (print io ps k))"
    "files_ready view k \<Longrightarrow> files_ready view (print io ps k)" "kfiles view (print io ps k) = kfiles view k"
proof -
  show v: "view (kdev (print io ps k)) = view (kdev k)" by (simp add: print_def on_con_def Let_def view_emits[OF assms])
  show "kfds (print io ps k) = kfds k" "ksched (print io ps k) = ksched k" by (simp_all add: print_def on_con_def Let_def)
  show c: "con_ok (kcon k) \<Longrightarrow> con_ok (kcon (print io ps k))" by (simp add: print_def on_con_def Let_def con_ok_emits)
  show "files_ready view k \<Longrightarrow> files_ready view (print io ps k)" "kfiles view (print io ps k) = kfiles view k"
    using v c by (simp_all add: files_ready_def kfiles_def files_def disk_ok_def kfs_def \<open>kfds (print io ps k) = kfds k\<close>)
qed

lemma print_text:
  assumes "con_ok t" "same_screen (kcon k) t"
  shows "same_screen (kcon (print io [Put str] k)) (vga_puts io str t)"
    "same_screen (kcon (print io [Ch c] k)) (vga_putchar io c t)"
proof -
  have "same_screen ((kcon k)\<lparr>vdev := kdev k\<rparr>) t" using same_screen_trans[OF same_screen_refl(2) assms(2)] .
  then show "same_screen (kcon (print io [Put str] k)) (vga_puts io str t)"
    "same_screen (kcon (print io [Ch c] k)) (vga_putchar io c t)"
    using assms(1) by (simp_all add: print_def on_con_def Let_def same_screen_puts same_screen_putchar)
qed

text \<open>A step of the file system inside the kernel: the disk stays well formed with the given contents, the screen stays.\<close>

definition fs_stepped :: "('d \<Rightarrow> drive) \<Rightarrow> 'd kernel \<Rightarrow> (u8 list \<Rightarrow> u8 list option) \<Rightarrow> 'd kernel \<Rightarrow> bool" where
  "fs_stepped view k F k' \<longleftrightarrow> files_ready view k' \<and> kfiles view k' = F \<and> kcon k' = kcon k"

lemma on_fs_stepped:
  assumes "f (kfs k) = (a, s)" "disk_ok view s" "files_ready view k"
  shows "\<exists>k'. on_fs f k = (k', a) \<and> fs_stepped view k (files view s) k' \<and> kfs k' = s"
  using on_fs_run[of f k a s] assms by (auto simp: fs_stepped_def files_ready_def kfiles_def)

lemma init_ready:
  assumes "ata_wired io view" "files_ready view k"
  shows "\<exists>k'. on_fs (fs_init (ata_blk io)) k = (k', 1) \<and> fs_stepped view k (kfiles view k) k' \<and>
    sectors (view (kdev k')) = sectors (view (kdev k)) \<and> capacity (view (kdev k')) = capacity (view (kdev k))"
proof -
  note bd = ata_block_device[OF assms(1)]
  have ok: "disk_ok view (kfs k)" using assms(2) by (simp add: files_ready_def)
  then have "drive_ready (view (fdev (kfs k)))" "138 \<le> capacity (view (fdev (kfs k)))"
    by (simp_all add: disk_ok_def fs_wf_def)
  from block_device.read_super_ok[OF bd this] obtain d' where d': "read_super (ata_blk io) (kfs k) =
      (0, sectors (view (fdev (kfs k))) 129, (kfs k)\<lparr>fdev := d'\<rparr>)" "drive_ready (view d')"
      "sectors (view d') = sectors (view (kdev k))" "capacity (view d') = capacity (view (kdev k))"
    by (auto simp: block_device.kept_def[OF bd])
  have r: "fs_init (ata_blk io) (kfs k) = (1, (kfs k)\<lparr>fdev := d'\<rparr>)"
    using init_ok[OF assms(1) ok] d'(1) by (auto simp: fs_init_def Let_def split: if_splits)
  have "disk_ok view ((kfs k)\<lparr>fdev := d'\<rparr>)" "files view ((kfs k)\<lparr>fdev := d'\<rparr>) = kfiles view k"
    using ok d' by (simp_all add: disk_ok_def files_def kfiles_def)
  with on_fs_stepped[of "fs_init (ata_blk io)" k 1 "(kfs k)\<lparr>fdev := d'\<rparr>" view] assms(2) r
  obtain k' where k': "on_fs (fs_init (ata_blk io)) k = (k', 1)" "fs_stepped view k (kfiles view k) k'" "kfs k' = (kfs k)\<lparr>fdev := d'\<rparr>"
    by auto
  from arg_cong[OF k'(3), of fdev] have "kdev k' = d'" by simp
  then show ?thesis using k' d'(3,4) by blast
qed

lemma open_ready:
  assumes "ata_wired io view" "files_ready view k"
  shows "\<exists>k' r f. open_file io name k = (k', r, f) \<and> fs_stepped view k (kfiles view k) k' \<and>
    (case kfiles view k (cstr name) of None \<Rightarrow> r = -1 | Some c \<Rightarrow> r = 0 \<and> handle_on view (kfs k') f c \<and> f_pos f = 0)"
proof -
  have ok: "disk_ok view (kfs k)" using assms(2) by (simp add: files_ready_def)
  from open_ok[OF assms(1) ok, of stack_file name] obtain r f s where
    o: "fs_open (ata_blk io) stack_file name (kfs k) = (r, f, s)" "disk_ok view s"
      "sectors (view (fdev s)) = sectors (view (kdev k))"
      "case kfiles view k (cstr name) of None \<Rightarrow> r = -1 \<and> f = stack_file | Some c \<Rightarrow> r = 0 \<and> handle_on view s f c \<and> f_pos f = 0"
    by (auto simp: kfiles_def)
  have "files view s = kfiles view k" using o(3) by (simp add: files_def kfiles_def)
  with on_fs_stepped[of "\<lambda>s. let (r, f, s) = fs_open (ata_blk io) stack_file name s in ((r, f), s)" k "(r, f)" s view] o assms(2)
  show ?thesis unfolding open_file_def by (auto split: option.splits)
qed

lemma read_ready:
  fixes len :: u32
  assumes "ata_wired io view" "files_ready view k" "handle_on view (kfs k) f c"
  defines "out \<equiv> take (unat len) (drop (unat (f_pos f)) c)"
  shows "\<exists>k' f'. read_file io f len k = (k', of_nat (length out), out, f') \<and> fs_stepped view k (kfiles view k) k' \<and>
    handle_on view (kfs k') f' c \<and> unat (f_pos f') = unat (f_pos f) + length out"
proof -
  have ok: "disk_ok view (kfs k)" using assms(2) by (simp add: files_ready_def)
  from read_file_ok[OF assms(1) ok assms(3), of len] obtain f' s where
    o: "fs_read (ata_blk io) f len (kfs k) = (of_nat (length out), out, f', s)" "disk_ok view s"
      "sectors (view (fdev s)) = sectors (view (kdev k))" "handle_on view s f' c" "unat (f_pos f') = unat (f_pos f) + length out"
    by (auto simp: out_def)
  have "files view s = kfiles view k" using o(3) by (simp add: files_def kfiles_def)
  with on_fs_stepped[of "\<lambda>s. let (n, out, f, s) = fs_read (ata_blk io) f len s in ((n, out, f), s)" k
      "(of_nat (length out), out, f')" s view] o assms(2)
  show ?thesis unfolding read_file_def by auto
qed

lemma handle_print:
  assumes "vga_wired io view"
  shows "handle_on view (kfs (print io ps k)) f c = handle_on view (kfs k) f c"
  by (simp add: handle_on_def print_keeps(1)[OF assms])

lemma cat_loop_prints:
  assumes "ata_wired io view" "vga_wired io view" "0 \<notin> set c"
    and "files_ready view k" "handle_on view (kfs k) f c" "con_ok t" "same_screen (kcon k) t"
  shows "files_ready view (cat_loop io f k) \<and> kfiles view (cat_loop io f k) = kfiles view k \<and>
    same_screen (kcon (cat_loop io f k)) (vga_puts io (drop (unat (f_pos f)) c) t)"
  using assms(4-)
proof (induction "length c - unat (f_pos f)" arbitrary: k f t rule: less_induct)
  case less
  let ?out = "take 128 (drop (unat (f_pos f)) c)"
  obtain k1 f1 where r: "read_file io f 128 k = (k1, of_nat (length ?out), ?out, f1)" "fs_stepped view k (kfiles view k) k1"
    "handle_on view (kfs k1) f1 c" "unat (f_pos f1) = unat (f_pos f) + length ?out"
    using read_ready[OF assms(1) less.prems(1,2), of 128] by auto
  have k1: "files_ready view k1" "kfiles view k1 = kfiles view k" "kcon k1 = kcon k"
    using r(2) by (simp_all add: fs_stepped_def)
  have n: "of_nat (length ?out) > (0 :: u32) \<longleftrightarrow> ?out \<noteq> []"
    by (subst word_less_nat_alt, subst unat_of_nat_u32) auto
  show ?case
  proof (cases "?out = []")
    case True
    then have "cat_loop io f k = k1" using r(1) n by (subst cat_loop.simps) (simp del: length_take length_drop)
    then show ?thesis using k1 True less.prems(4) by simp
  next
    case False
    let ?k = "print io [Put ?out] k1" and ?t = "vga_puts io ?out t"
    have loop: "cat_loop io f k = cat_loop io f1 ?k"
      using r(1) n False by (subst cat_loop.simps) (simp del: length_take length_drop)
    have "same_screen (kcon ?k) ?t" "con_ok ?t"
      using print_text(1)[OF less.prems(3), of k1 io ?out] k1(3) less.prems(3,4) by (simp_all add: con_ok_puts)
    moreover have "length c - unat (f_pos f1) < length c - unat (f_pos f)" using False r(4) by (cases "unat (f_pos f) < length c") auto
    ultimately have IH: "files_ready view (cat_loop io f1 ?k) \<and> kfiles view (cat_loop io f1 ?k) = kfiles view ?k \<and>
        same_screen (kcon (cat_loop io f1 ?k)) (vga_puts io (drop (unat (f_pos f1)) c) ?t)"
      using less.hyps[of f1 ?k ?t] print_keeps(5)[OF assms(2) k1(1)] handle_print[OF assms(2)] r(3) by blast
    have "0 \<notin> set ?out" using assms(3) by (auto dest: in_set_takeD in_set_dropD)
    from vga_puts_append[OF this, of io "drop 128 (drop (unat (f_pos f)) c)" t]
    have "vga_puts io (drop (unat (f_pos f)) c) t = vga_puts io (drop 128 (drop (unat (f_pos f)) c)) ?t"
      by (simp only: append_take_drop_id)
    also have "drop 128 (drop (unat (f_pos f)) c) = drop (unat (f_pos f1)) c" unfolding r(4) by (simp add: min_def add.commute)
    finally show ?thesis unfolding loop using IH k1(2) print_keeps(6)[OF assms(2)] by simp
  qed
qed

section \<open>The commands\<close>

lemma str_startswith_append:
  assumes "0 \<notin> set p"
  shows "str_startswith (p @ s) p"
  using assms by (induction p) auto

lemma write_name_eq:
  assumes "0 \<notin> set name" "32 \<notin> set name" "length name \<le> n"
  shows "write_name n (name @ 32 # rest) = (name, 32 # rest)"
  using assms
proof (induction name arbitrary: n)
  case Nil
  then show ?case by (cases n) auto
next
  case (Cons c name)
  then show ?case by (cases n) auto
qed

lemma execute_write: "execute_command io rb irqs (chars ''write '' @ args) k = finish (cmd_write io args k)"
  by (simp add: execute_command_def chars_def empty_name_def)

lemma execute_cat: "execute_command io rb irqs (chars ''cat '' @ args) k = finish (cmd_cat io args k)"
  by (simp add: execute_command_def chars_def empty_name_def)

lemma execute_rm: "execute_command io rb irqs (chars ''rm '' @ args) k = finish (cmd_rm io args k)"
  by (simp add: execute_command_def chars_def empty_name_def)

text \<open>A file name the shell can handle: one word of at most 31 characters.\<close>

definition word_name :: "u8 list \<Rightarrow> bool" where
  "word_name name \<longleftrightarrow> name \<noteq> [] \<and> length name \<le> 31 \<and> 0 \<notin> set name \<and> 32 \<notin> set name"

lemma cmd_write_stores:
  assumes "ata_wired io view" "vga_wired io view" "files_ready view k" "word_name name"
    and body: "0 \<notin> set content" "content = [] \<or> hd content \<noteq> 32" "length content + 511 < 4294967296" "has_room view (kfs k) (length content)"
    and slot: "kfiles view k name \<noteq> None \<or> \<not> dir_full (sectors (view (kdev k)))"
  shows "files_ready view (cmd_write io (name @ 32 # content) k) \<and>
    kfiles view (cmd_write io (name @ 32 # content) k) = (kfiles view k)(name \<mapsto> content)"
proof -
  have name: "cstr name = name" "name \<noteq> []" "length name \<le> 31" "write_name FS_NAME_MAX (name @ 32 # content) = (name, 32 # content)"
    using assms(4) by (simp_all add: word_name_def cstr_id write_name_eq FS_NAME_MAX_def)
  have c: "dropWhile (\<lambda>c. c = 32) (32 # content) = content" using body(2) by (cases content) auto
  have len: "take (unat (strlen content)) content = content" using body(1,3) by (simp add: strlen_cstr cstr_id unat_of_nat_u32)
  obtain k1 where k1: "on_fs (fs_init (ata_blk io)) k = (k1, 1)" "fs_stepped view k (kfiles view k) k1"
    "sectors (view (kdev k1)) = sectors (view (kdev k))" "capacity (view (kdev k1)) = capacity (view (kdev k))"
    using init_ready[OF assms(1,3)] by blast
  have r1: "files_ready view k1" "kfiles view k1 = kfiles view k" using k1(2) by (simp_all add: fs_stepped_def)
  have "disk_ok view (kfs k1)" using r1(1) by (simp add: files_ready_def)
  moreover have "has_room view (kfs k1) (length content)" using body(4) k1(3,4) by (simp add: has_room_def)
  ultimately obtain s where s: "fs_write_new (ata_blk io) name content (kfs k1) = (0, s)" "disk_ok view s"
      "files view s = (kfiles view k)(name \<mapsto> content)"
    using block_device.fs_write_new_ok[OF ata_block_device[OF assms(1)], of "kfs k1" name content] slot body(3) name k1(3) r1(2)
    unfolding fs_ok_disk[OF assms(1)] by (auto simp: files_def has_room_def kfiles_def split: if_splits)
  obtain k2 where k2: "on_fs (fs_write_new (ata_blk io) name content) k1 = (k2, 0)" "fs_stepped view k1 (files view s) k2"
    using on_fs_stepped[of "fs_write_new (ata_blk io) name content" k1 0 s view] s r1(1) by blast
  have "files_ready view k2" "kfiles view k2 = (kfiles view k)(name \<mapsto> content)" using k2(2) s(3) by (simp_all add: fs_stepped_def)
  then show ?thesis using name k1(1) k2(1) c len print_keeps(5,6)[OF assms(2)] by (simp add: cmd_write_def Let_def)
qed

lemma cmd_cat_prints:
  assumes "ata_wired io view" "vga_wired io view" "files_ready view k" "word_name name"
    and "kfiles view k name = Some content" "0 \<notin> set content"
  shows "files_ready view (cmd_cat io name k) \<and> kfiles view (cmd_cat io name k) = kfiles view k \<and>
    same_screen (kcon (cmd_cat io name k)) (vga_putchar io 10 (vga_puts io content (kcon k)))"
proof -
  have name: "cstr name = name" "\<not> empty_name name"
    using assms(4) by (auto simp: word_name_def cstr_id empty_name_def nth_mem) (metis length_greater_0_conv nth_mem)
  obtain k1 where k1: "on_fs (fs_init (ata_blk io)) k = (k1, 1)" "fs_stepped view k (kfiles view k) k1"
    using init_ready[OF assms(1,3)] by blast
  then have r1: "files_ready view k1" "kfiles view k1 = kfiles view k" "kcon k1 = kcon k" by (simp_all add: fs_stepped_def)
  obtain k2 f where k2: "open_file io name k1 = (k2, 0, f)" "fs_stepped view k1 (kfiles view k1) k2"
      "handle_on view (kfs k2) f content" "f_pos f = 0"
    using open_ready[OF assms(1) r1(1), of name] r1(2) assms(5) name by auto
  then have r2: "files_ready view k2" "kfiles view k2 = kfiles view k" "kcon k2 = kcon k" using r1 by (simp_all add: fs_stepped_def)
  have con: "con_ok (kcon k)" using assms(3) by (simp add: files_ready_def)
  note cat = cat_loop_prints[OF assms(1,2,6) r2(1) k2(3) con, unfolded r2(3), OF same_screen_refl(1)]
  have "cmd_cat io name k = print io [Ch 10] (cat_loop io f k2)" using name k1(1) k2(1) by (simp add: cmd_cat_def)
  then show ?thesis
    using cat print_keeps(5,6)[OF assms(2)] print_text(2)[OF con_ok_puts[OF con], where k = "cat_loop io f k2" and io = io and c = 10] r2(2) k2(4) by simp
qed

text \<open>
  C35. What \<^verbatim>\<open>write\<close> stores \<^verbatim>\<open>cat\<close> shows: on a formatted disk with room, the command line \<^verbatim>\<open>write <name> <text>\<close> makes the file
  system map the name to exactly the text and leaves every other file alone; a later \<^verbatim>\<open>cat <name>\<close> prints the text and a newline
  at the cursor and changes no file. Both commands return to the shell.
\<close>

theorem write_then_cat:
  assumes "ata_wired io view" "vga_wired io view" "files_ready view k" "word_name name"
    and "0 \<notin> set content" "content = [] \<or> hd content \<noteq> 32" "length content + 511 < 4294967296" "has_room view (kfs k) (length content)"
    and "kfiles view k name \<noteq> None \<or> \<not> dir_full (sectors (view (kdev k)))"
    and "execute_command io rb irqs (chars ''write '' @ name @ [32] @ content) k = (k1, r1)"
    and "execute_command io rb irqs' (chars ''cat '' @ name) k1 = (k2, r2)"
  shows "r1 = Cmd_done \<and> r2 = Cmd_done \<and> kfiles view k1 = (kfiles view k)(name \<mapsto> content) \<and> kfiles view k2 = kfiles view k1 \<and>
    same_screen (kcon k2) (vga_putchar io 10 (vga_puts io content (kcon k1)))"
proof -
  have k1: "k1 = cmd_write io (name @ 32 # content) k" "r1 = Cmd_done" using assms(10) by (simp_all add: execute_write finish_def)
  have w: "files_ready view k1" "kfiles view k1 = (kfiles view k)(name \<mapsto> content)"
    using cmd_write_stores[OF assms(1-9)] k1(1) by simp_all
  have "k2 = cmd_cat io name k1" "r2 = Cmd_done" using assms(11) by (simp_all add: execute_cat finish_def)
  then show ?thesis using cmd_cat_prints[OF assms(1,2) w(1) assms(4) _ assms(5)] w(2) k1(2) by simp
qed

text \<open>A kernel on the simulated drive, after \<^verbatim>\<open>mkfs\<close>.\<close>

definition kernel1 :: "drive kernel" where
  "kernel1 = \<lparr>kdev = fdev disk1, ksched = boot_sched, kdrv = drv0 (fdev disk1),
     kcon = \<lparr>vdev = fdev disk1, vga_buffer = replicate 2000 0, vga_row = 0, vga_col = 0, vga_color = 7\<rparr>, kipc = boot_ipc,
     kfds = \<lparr>fd_table = replicate 16 zero_fd, ffs = disk1\<rparr>, kheap = boot_heap, kirqs = []\<rparr>"

lemma ata_io_vga: "vga_wired ata_io (\<lambda>d. d)"
  by (auto simp: vga_wired_def ata_io_def)

lemma kernel1_ready: "files_ready (\<lambda>d. d) kernel1" "kfs kernel1 = disk1" "kfiles (\<lambda>d. d) kernel1 = Map.empty"
  "kdev kernel1 = fdev disk1"
proof -
  show k: "kfs kernel1 = disk1" by (simp add: kfs_def kernel1_def)
  show "files_ready (\<lambda>d. d) kernel1" unfolding files_ready_def k using disk1_ok(1) by (simp add: kernel1_def con_ok_def)
  show "kfiles (\<lambda>d. d) kernel1 = Map.empty" by (simp add: kfiles_def k disk1_ok(2))
qed (simp add: kernel1_def)

theorem write_then_cat_witness:
  "\<exists>k1. execute_command ata_io 0 [] (chars ''write '' @ [0x61] @ [32] @ replicate 300 0x62) kernel1 = (k1, Cmd_done) \<and>
     kfiles (\<lambda>d. d) k1 = [[0x61] \<mapsto> replicate 300 0x62]"
proof -
  obtain k1 r1 where 1: "execute_command ata_io 0 [] (chars ''write '' @ [0x61] @ [32] @ replicate 300 0x62) kernel1 = (k1, r1)"
    by fastforce
  obtain k2 r2 where 2: "execute_command ata_io 0 [] (chars ''cat '' @ [0x61]) k1 = (k2, r2)" by fastforce
  have "word_name [0x61]" "\<not> dir_full (sectors (kdev kernel1))" "has_room (\<lambda>d. d) (kfs kernel1) (length (replicate 300 0x62 :: u8 list))"
    using disk1_room kernel1_ready(2,4) by (simp_all add: word_name_def)
  with write_then_cat[OF ata_io_wired ata_io_vga kernel1_ready(1) _ _ _ _ _ _ 1 2] kernel1_ready(3) 1
  show ?thesis by simp
qed

end
