(* ===== verification/Programs.thy ===== *)
theory Programs
  imports Shell_Files
begin

text \<open>
  The commands \<^verbatim>\<open>run\<close> and \<^verbatim>\<open>exec\<close> end to end: from a file on the disk to a process with the address space the file
  describes, over the file system, the loader, the memory manager and the process table.
\<close>

section \<open>The address space \<^verbatim>\<open>exec\<close> builds\<close>

text \<open>The pages of the user stack below \<^verbatim>\<open>USER_STACK_TOP\<close>.\<close>

definition stack_pages :: "nat set" where
  "stack_pages = {0x101C ..< 0x1020}"

lemma stack_va: "unat (0x0101C000 + of_nat i * PAGE_SIZE) = 0x0101C000 + 4096 * i" if "i < 4"
  using unat_page_va[of "0x0101C000" 4 i] that by simp

lemma exec_space:
  fixes s0 :: mm
  defines "m \<equiv> memory s0"
  assumes lay: "kernel_layout s0" "identity_mapped s0" "pmm_inv (frames s0)"
    and img: "image_ok m rb n"
    and clear: "\<forall>j < nhdr m rb. loadable m (hdr m rb j) \<longrightarrow> seg_pages m (hdr m rb j) \<inter> stack_pages = {}"
    and lroom: "2 * pages_needed m rb 0 + 9 \<le> lowfree s0"
  obtains p s1 s2 s3 T P where "paging_create_pd s0 = (s1, of_nat (4096 * p))" "(of_nat (4096 * p) :: u32) \<noteq> 0"
    "elf_load_user rb n (of_nat (4096 * p)) s1 = (s2, e_entry m rb)"
    "paging_alloc_user_pages (of_nat (4096 * p)) 0x0101C000 4 s2 = (s3, 0)" "aspace s3 p T P"
    "\<And>j v. j < nhdr m rb \<Longrightarrow> loadable m (hdr m rb j) \<Longrightarrow> unat v div 4096 \<in> seg_pages m (hdr m rb j) \<Longrightarrow>
      user_byte (memory s3) P v = Some (seg_byte m rb (hdr m rb j) v)"
    "\<And>v. unat v div 4096 \<in> stack_pages \<Longrightarrow> P (page_of v) \<noteq> None" "derailed s3 = derailed s0"
proof -
  note st = clear[rule_format]
  have room: "2 * pages_needed m rb 0 + 9 \<le> card (free_set (frames s0))" using lroom lowfree_le[of s0] by simp
  obtain s1 a where cr: "paging_create_pd s0 = (s1, a)" by fastforce
  have "a \<noteq> 0" using paging_create_pd_spec[OF lay cr] room by auto
  then obtain p where p: "p \<in> free_set (frames s0)" "a = of_nat (4096 * p)" "aspace s1 p Map.empty Map.empty"
      "free_set (frames s1) = free_set (frames s0) - {p}" "only (memory s0) (memory s1) {p}"
      and low1: "lowfree s0 \<le> lowfree s1 + 1" "1 \<le> lowfree s0 \<longrightarrow> p < 2048 \<and> derailed s1 = derailed s0"
    using paging_create_pd_spec[OF lay cr] by blast
  let ?W = "free_set (frames s0)"
  have W: "?W \<inter> {..< 256} = {}" using lay(3) by (auto simp: pmm_inv_def)
  have oW: "only m (memory s1) ?W" unfolding m_def using p(1) by (intro only_mono[OF p(5)]) simp
  have WW: "owned p Map.empty Map.empty \<union> free_set (frames s1) \<subseteq> ?W" using p(1,4) by (auto simp: owned_def)
  have card1: "card (free_set (frames s0)) = Suc (card (free_set (frames s1)))"
    using p(1,4) by (metis card_Suc_Diff1 finite_free_set)
  have room1: "2 * pages_needed m rb 0 \<le> card (free_set (frames s1))" using room card1 by simp
  obtain s2 e where el: "elf_load_user rb n (of_nat (4096 * p)) s1 = (s2, e)" by fastforce
  have none: "\<forall>j v. j < nhdr m rb \<longrightarrow> loadable m (hdr m rb j) \<longrightarrow> unat v div 4096 \<in> seg_pages m (hdr m rb j) \<longrightarrow>
      (Map.empty :: pages) (page_of v) = None" by simp
  from elf_load_user_spec[OF img p(3) oW W WW none room1 el] obtain T2 P2 where e: "e = e_entry m rb"
    and g2: "as_grow p s1 Map.empty Map.empty s2 T2 P2"
    and card2: "card (free_set (frames s1)) \<le> card (free_set (frames s2)) + 2 * pages_needed m rb 0"
    and seg2: "\<And>j v. j < nhdr m rb \<Longrightarrow> loadable m (hdr m rb j) \<Longrightarrow> unat v div 4096 \<in> seg_pages m (hdr m rb j) \<Longrightarrow>
      user_byte (memory s2) P2 v = Some (seg_byte m rb (hdr m rb j) v)"
    and out2: "\<And>v. (\<forall>j < nhdr m rb. loadable m (hdr m rb j) \<longrightarrow> unat v div 4096 \<notin> seg_pages m (hdr m rb j)) \<Longrightarrow>
      user_byte (memory s2) P2 v = user_byte (memory s1) Map.empty v"
    and tr2: "on_track (2 * pages_needed m rb 0) p s1 Map.empty Map.empty s2 T2 P2"
    by blast
  have as2: "aspace s2 p T2 P2" using g2 by (simp add: as_grow_def)
  let ?va = "\<lambda>i. 0x0101C000 + of_nat i * PAGE_SIZE :: u32"
  have pg: "unat (?va i) div 4096 = 0x101C + i" if "i < 4" for i using stack_va[OF that] by simp
  have hi: "0x800000 \<le> unat (?va i)" if "i \<in> set [0 ..< unat (4 :: u32)]" for i using stack_va[of i] that by simp
  have un: "P2 (page_of (?va i)) = None" if "i \<in> set [0 ..< unat (4 :: u32)]" for i
  proof -
    have "unat (?va i) div 4096 \<in> stack_pages" using pg[of i] that by (simp add: stack_pages_def)
    then have "user_byte (memory s2) P2 (?va i) = None" using out2[of "?va i"] st by (auto simp: user_byte_def)
    then show ?thesis by (simp add: user_byte_def)
  qed
  have dis: "distinct (map (\<lambda>i. page_of (?va i)) [0 ..< unat (4 :: u32)])" by (rule distinct_pages) simp
  obtain s3 r where al: "paging_alloc_user_pages (of_nat (4096 * p)) 0x0101C000 4 s2 = (s3, r)" by fastforce
  note loop = alloc_user_pages_loop_spec[OF as2 al[unfolded paging_alloc_user_pages_def] hi un dis]
  obtain T3 P3 where g3: "as_grow p s2 T2 P2 s3 T3 P3" and r: "r = 0"
    and out3: "\<And>x. x \<notin> (\<lambda>i. page_of (?va i)) ` {..< 4} \<Longrightarrow> P3 x = P2 x"
    and in3: "\<And>i. i < 4 \<Longrightarrow> P3 (page_of (?va i)) \<noteq> None"
    and tr3: "on_track 8 p s2 T2 P2 s3 T3 P3"
  proof -
    have "2 * length [0 ..< unat (4 :: u32)] \<le> card (free_set (frames s2))" using room card1 card2 by simp
    with loop obtain T' P' where "as_grow p s2 T2 P2 s3 T' P'" "r = 0"
      "\<forall>x. x \<notin> (\<lambda>i. page_of (?va i)) ` set [0 ..< unat (4 :: u32)] \<longrightarrow> P' x = P2 x"
      "\<forall>i \<in> set [0 ..< unat (4 :: u32)]. \<exists>f \<in> free_set (frames s2). P' (page_of (?va i)) = Some f"
      "on_track (2 * length [0 ..< unat (4 :: u32)]) p s2 T2 P2 s3 T' P'"
      by blast
    moreover have "set [0 ..< unat (4 :: u32)] = {..< 4}" by auto
    ultimately show thesis by (intro that[of T' P']) fastforce+
  qed
  have as3: "aspace s3 p T3 P3" using g3 by (simp add: as_grow_def)
  have seg3: "user_byte (memory s3) P3 v = Some (seg_byte m rb (hdr m rb j) v)"
    if j: "j < nhdr m rb" "loadable m (hdr m rb j)" "unat v div 4096 \<in> seg_pages m (hdr m rb j)" for j v
  proof -
    have "unat v div 4096 \<notin> stack_pages" using st[OF j(1,2)] j(3) by blast
    then have "page_of v \<noteq> page_of (?va i)" if "i < 4" for i
      using pg[OF that] that unfolding page_of_eq_iff by (auto simp: stack_pages_def)
    then have P3: "P3 (page_of v) = P2 (page_of v)" by (intro out3) auto
    have ok: "as_ok p T2 P2" "owned p T2 P2 \<inter> free_set (frames s2) = {}" using as2 by (simp_all add: aspace_def)
    have "user_byte (memory s3) P2 v = user_byte (memory s2) P2 v"
    proof (rule user_byte_only[OF _ ok(1)])
      show "only (memory s2) (memory s3) (insert p (ran T2) \<union> free_set (frames s2))" using g3 by (simp add: as_grow_def)
      show "g \<notin> insert p (ran T2) \<union> free_set (frames s2)" if "P2 (page_of v) = Some g" for g
        using ranI[of P2, OF that] ok by (auto simp: as_ok_def owned_def)
    qed
    then show ?thesis using seg2[OF j] P3 by (simp add: user_byte_def)
  qed
  have stk: "P3 (page_of v) \<noteq> None" if "unat v div 4096 \<in> stack_pages" for v
  proof -
    define i where "i = unat v div 4096 - 0x101C"
    have "i < 4" "unat v div 4096 = 0x101C + i" using that by (auto simp: stack_pages_def i_def)
    then have "page_of v = page_of (?va i)" unfolding page_of_eq_iff by (simp add: pg)
    then show ?thesis using in3[OF \<open>i < 4\<close>] by simp
  qed
  have "insert p (ran (Map.empty :: tables)) \<subseteq> {..< 2048}" "2 * pages_needed m rb 0 \<le> lowfree s1" "derailed s1 = derailed s0"
    using low1 lroom by simp_all
  then have "ran T2 \<subseteq> {..< 2048}" "derailed s2 = derailed s0" "8 \<le> lowfree s2" "p < 2048"
    using tr2 low1 lroom unfolding on_track_def by simp_all
  then have "derailed s3 = derailed s0" using tr3 unfolding on_track_def by simp
  then show thesis
    using that[of s1 p s2 s3 T3 P3] cr p(2) \<open>a \<noteq> 0\<close> el e al r as3 seg3 stk by blast
qed

section \<open>The file in the buffer\<close>

lemma poke_apply:
  assumes "unat a + length bs \<le> 4294967296"
  shows "poke a bs m x = (if unat a \<le> unat x \<and> unat x < unat a + length bs then bs ! (unat x - unat a) else m x)"
  using assms
proof (induction bs arbitrary: a m)
  case (Cons b bs)
  show ?case
  proof (cases "bs = []")
    case True
    then show ?thesis by (auto simp: word_unat_eq_iff[of x a])
  next
    case False
    then have u: "unat (a + 1) = unat a + 1" using Cons.prems by (subst unat_plus_u32) (simp_all, cases bs, simp_all)
    define m' where "m' = m(a := b)"
    have "poke (a + 1) bs m' x = (if unat a + 1 \<le> unat x \<and> unat x < unat a + 1 + length bs then bs ! (unat x - (unat a + 1))
        else m' x)"
      using Cons.IH[of "a + 1" m'] Cons.prems u by simp
    moreover have "m' x = (if unat x = unat a then b else m x)" by (simp add: m'_def word_unat_eq_iff[of x a])
    moreover have "poke a (b # bs) m x = poke (a + 1) bs m' x" by (simp add: m'_def)
    ultimately show ?thesis by (auto simp: nth_Cons')
  qed
qed auto

lemma ksched_on_fs: "ksched (fst (on_fs f k)) = ksched k"
  by (simp add: on_fs_def on_fds_def Let_def split_beta)

lemma on_kmm_run:
  "f (mm (ksched k)) = (s, a) \<Longrightarrow> on_kmm f k = (k\<lparr>ksched := (ksched k)\<lparr>mm := s\<rparr>\<rparr>, a)"
  by (simp add: on_kmm_def on_sched_def Let_def)

text \<open>The kernel with the file in its buffer.\<close>

definition with_file :: "u32 \<Rightarrow> u8 list \<Rightarrow> mm \<Rightarrow> mm" where
  "with_file rb img s = s\<lparr>memory := poke rb img (memory s)\<rparr>"

lemma load_program_ok:
  assumes "ata_wired io view" "vga_wired io view" "files_ready view k" "word_name name"
    and "kfiles view k name = Some img" "length img \<le> 65536"
  shows "\<exists>k'. load_program io rb usage name k = (k', Some (of_nat (length img))) \<and>
    ksched k' = (ksched k)\<lparr>mm := with_file rb img (mm (ksched k))\<rparr>"
proof -
  have name: "cstr name = name" "\<not> empty_name name"
    using assms(4) by (auto simp: word_name_def cstr_id empty_name_def nth_mem) (metis length_greater_0_conv nth_mem)
  obtain k1 where k1: "on_fs (fs_init (ata_blk io)) k = (k1, 1)" "fs_stepped view k (kfiles view k) k1"
    using init_ready[OF assms(1,3)] by blast
  then have r1: "files_ready view k1" "kfiles view k1 = kfiles view k" by (simp_all add: fs_stepped_def)
  obtain k2 f where k2: "open_file io name k1 = (k2, 0, f)" "fs_stepped view k1 (kfiles view k1) k2"
      "handle_on view (kfs k2) f img" "f_pos f = 0"
    using open_ready[OF assms(1) r1(1), of name] r1(2) assms(5) name by auto
  then have r2: "files_ready view k2" by (simp add: fs_stepped_def)
  have fs: "unat (f_size f) = length img" using k2(3) by (simp add: handle_on_def)
  obtain k3 f3 where k3: "read_file io f (f_size f) k2 = (k3, of_nat (length img), img, f3)"
    using read_ready[OF assms(1) r2 k2(3), of "f_size f"] fs k2(4) by auto
  have "ksched k1 = ksched k" using ksched_on_fs[of "fs_init (ata_blk io)" k] k1(1) by simp
  moreover have "ksched k2 = ksched k1" using arg_cong[OF k2(1), of "\<lambda>x. ksched (fst x)"] by (simp add: open_file_def ksched_on_fs)
  moreover have "ksched k3 = ksched k2" using arg_cong[OF k3, of "\<lambda>x. ksched (fst x)"] by (simp add: read_file_def ksched_on_fs)
  ultimately have k: "ksched k3 = ksched k" by simp
  have "\<not> f_size f > RUN_BUF_SIZE" using fs assms(6) by (simp add: word_less_nat_alt RUN_BUF_SIZE_def)
  then show ?thesis using name k1(1) k2(1) k3 k
    by (simp add: load_program_def on_kmm_run with_file_def)
qed

section \<open>The new process\<close>

lemma only_st_low: "a + 4 \<le> 0x100000 \<Longrightarrow> only m (st m a v) {..< 256}"
  unfolding only_def by (auto intro!: st_frame simp: not_less less_eq_div_iff_mult_less_eq)

text \<open>The process table, with its kernel stacks, lies in the first megabyte.\<close>

definition table_low :: "sched \<Rightarrow> bool" where
  "table_low s \<longleftrightarrow> low (table_addr s) (16 * 8252)"

lemma create_user_ok:
  assumes "sched_inv s" "unat (next_pid s) < 16" "table_low s"
  defines "i \<equiv> unat (next_pid s)"
  obtains s' m' where "process_create_user name ue us pd s = (s', Some i)" "mm s' = (mm s)\<lparr>memory := m'\<rparr>"
    "only (memory (mm s)) m' {..< 256}" "p_state (process_table s' ! i) = PROC_READY" "is_user (process_table s' ! i)"
    "pid (process_table s' ! i) = next_pid s + 1" "user_eip (process_table s' ! i) = ue" "user_esp (process_table s' ! i) = us"
    "pd_phys (process_table s' ! i) = pd"
proof -
  let ?f = "\<lambda>p. p\<lparr>pid := next_pid s + 1, p_state := PROC_READY, is_user := True, pd_phys := pd,
        user_eip := ue, user_esp := us, p_name := proc_name name\<rparr>"
  let ?s = "fill_slot i ?f (user_mode_addr s) s"
  have cr: "process_create_user name ue us pd s = (?s, Some i)"
    using alloc_slot_inv[OF assms(1)] assms(2) by (simp add: process_create_user_fill i_def)
  have i: "i < 16" "i < length (process_table s)" using assms(2) sched_invD(1)[OF assms(1)] by (simp_all add: i_def)
  define e where "e = unat (table_addr s) + 8252 * i + 8232"
  have el: "e + 20 \<le> 0x100000" using assms(3) i(1) by (simp add: e_def table_low_def low_def)
  have "kstack_top s i = of_nat (e + 20)" by (simp add: kstack_top_def e_def PROCESS_KSTACK_SIZE_def)
  note mem = fill_slot_memory[OF this, of ?f "user_mode_addr s"]
  have "only (memory (mm s)) (memory (mm ?s)) {..< 256}"
    unfolding mem using el by (intro only_trans[OF only_st_low only_trans[OF only_st_low only_trans[OF only_st_low
      only_trans[OF only_st_low only_st_low]]]]) simp_all
  moreover have "mm ?s = (mm s)\<lparr>memory := memory (mm ?s)\<rparr>"
    by (simp add: fill_slot_def build_initial_kstack_def store_def Let_def)
  ultimately show thesis using that[of ?s "memory (mm ?s)"] cr i(2) by (simp add: fill_slot_table(1) nth_list_update)
qed

section \<open>The command\<close>

lemma yield_derailed: "derailed (mm (ksched (yield k))) = derailed (mm (ksched k))"
proof -
  have st: "derailed (mm (store a v s)) = derailed (mm s)" for a v s by (simp add: store_def on_mm_def)
  have p: "derailed (mm (push v s)) = derailed (mm s)" for v s by (simp add: push_def Let_def st)
  have "derailed (mm (yield_save s)) = derailed (mm s)" for s by (simp add: yield_save_def Let_def p upd_proc_def split: option.split)
  moreover have "derailed (mm (fst (sched_next s))) = derailed (mm s)" for s
    by (auto simp: sched_next_def set_state_def upd_proc_def Let_def split: option.split)
  moreover have "derailed (mm (process_before_switch n s)) = derailed (mm s)" for n s
    by (simp add: process_before_switch_def Let_def on_mm_def paging_switch_def)
  moreover have "mm (yield_restore n s) = mm s" for n s by (simp add: yield_restore_def Let_def)
  ultimately show ?thesis by (simp add: yield_def process_yield_def Let_def split_beta)
qed

text \<open>The buffer shares no page with the kernel's page directory and page tables.\<close>

definition buffer_apart :: "mm \<Rightarrow> u32 \<Rightarrow> nat \<Rightarrow> bool" where
  "buffer_apart s rb n \<longleftrightarrow> (\<forall>x. unat rb \<le> x \<and> x < unat rb + n \<longrightarrow> x div 4096 \<notin> {kdir s, kframe s, kframe s + 1})"

lemma with_file_ok:
  assumes "kernel_layout s" "identity_mapped s" "buffer_apart s rb (length img)" "low rb (length img)"
  shows "kernel_layout (with_file rb img s)" "identity_mapped (with_file rb img s)"
proof -
  let ?m = "poke rb img (memory s)"
  have L: "kdir s < 256" "kframe s + 2 \<le> 256" using assms(1) by (simp_all add: kernel_layout_def kdir_def Let_def)
  have f: "kdir (with_file rb img s) = kdir s" "kframe (with_file rb img s) = kframe s"
    by (simp_all add: with_file_def kdir_def kframe_def)
  show "kernel_layout (with_file rb img s)" using assms(1) by (simp add: with_file_def kernel_layout_def kframe_def)
  have "unat rb + length img \<le> 4294967296" using assms(4) by (simp add: low_def)
  note p = poke_apply[OF this]
  have o: "only (memory s) ?m (- {kdir s, kframe s, kframe s + 1})"
    unfolding only_def
  proof (intro allI impI)
    fix x :: u32
    assume "unat x div 4096 \<notin> - {kdir s, kframe s, kframe s + 1}"
    then have "\<not> (unat rb \<le> unat x \<and> unat x < unat rb + length img)" using assms(3) unfolding buffer_apart_def by blast
    then show "?m x = memory s x" unfolding p by auto
  qed
  have q: "ld ?m (4096 * q + 4 * j) = ld (memory s) (4096 * q + 4 * j)" if "q \<in> {kdir s, kframe s, kframe s + 1}" "j < 1024" for q j
    using that L by (intro ld_only[OF o]) auto
  have "ld ?m (4096 * kdir s + 4 * j) = ld (memory s) (4096 * kdir s + 4 * j)" if "j < 1024" for j using q that by simp
  moreover have "ld ?m (4096 * (kframe s + t) + 4 * j) = ld (memory s) (4096 * (kframe s + t) + 4 * j)" if "t < 2" "j < 1024" for t j
    using q[of "kframe s + t" j] that by (auto simp: less_2_cases_iff)
  ultimately show "identity_mapped (with_file rb img s)"
    using assms(2) unfolding identity_mapped_def f by (simp add: kernel_tables_def with_file_def)
qed

lemma image_byte:
  assumes "seg_fits m (of_nat (length img)) ph" "low rb (length img)" "i < unat (p_filesz m ph)" "m = poke rb img m0"
  shows "m (rb + p_offset m ph + of_nat i) = img ! (unat (p_offset m ph) + i)"
proof -
  have n: "unat (of_nat (length img) :: u32) = length img" using assms(2) by (intro unat_of_nat_u32) (simp add: low_def)
  have b: "unat (p_offset m ph) + i < length img" using assms(1,3) n by (simp add: seg_fits_def)
  have "unat (rb + p_offset m ph) = unat rb + unat (p_offset m ph)"
    using b assms(2) by (intro unat_plus_u32) (simp add: low_def)
  then have u: "unat (rb + p_offset m ph + of_nat i) = unat rb + (unat (p_offset m ph) + i)"
    using b assms(2) unat_of_nat_u32[of i] by (subst unat_plus_u32) (simp_all add: low_def)
  have "unat rb + length img \<le> 4294967296" using assms(2) by (simp add: low_def)
  from poke_apply[OF this, of m0 "rb + p_offset m ph + of_nat i"] show ?thesis
    using b unfolding u by (simp add: assms(4)[symmetric])
qed

text \<open>What the new process finds in its address space, once its kernel stack has been written.\<close>

lemma space_reads:
  fixes img :: "u8 list" and rb :: u32 and m0 :: mem
  defines "m \<equiv> poke rb img m0"
  assumes as: "aspace s3 p T P" and o: "only (memory s3) m' {..< 256}"
    and img: "image_ok m rb (of_nat (length img))" and lo: "low rb (length img)"
    and seg: "\<And>j v. j < nhdr m rb \<Longrightarrow> loadable m (hdr m rb j) \<Longrightarrow> unat v div 4096 \<in> seg_pages m (hdr m rb j) \<Longrightarrow>
      user_byte (memory s3) P v = Some (seg_byte m rb (hdr m rb j) v)"
    and stk: "\<And>v. unat v div 4096 \<in> stack_pages \<Longrightarrow> P (page_of v) \<noteq> None"
  shows "j < nhdr m rb \<Longrightarrow> loadable m (hdr m rb j) \<Longrightarrow> i < unat (p_memsz m (hdr m rb j)) \<Longrightarrow>
    \<exists>pa. translate m' (of_nat (4096 * p)) (p_vaddr m (hdr m rb j) + of_nat i) = Some (pa, True) \<and>
      m' pa = (if i < unat (p_filesz m (hdr m rb j)) then img ! (unat (p_offset m (hdr m rb j)) + i) else 0)"
    and "unat va div 4096 \<in> stack_pages \<Longrightarrow> \<exists>pa. translate m' (of_nat (4096 * p)) va = Some (pa, True)"
proof -
  have ok: "as_ok p T P" using as by (simp add: aspace_def)
  have "aspace (s3\<lparr>memory := m', derailed := derailed s3\<rparr>) p T P"
    using as_ok_bounds[OF ok] by (intro aspace_only[OF as o]) auto
  then have rep: "as_rep m' (kframe s3) p T P" by (simp add: aspace_def kframe_def)
  have ub: "user_byte m' P v = user_byte (memory s3) P v" for v
    using ok ranI[of P] by (intro user_byte_only[OF o ok]) (fastforce simp: as_ok_def owned_def)
  have sf: "seg_fits m (of_nat (length img)) (hdr m rb j)" if "j < nhdr m rb" "loadable m (hdr m rb j)" for j
    using img that by (simp add: image_ok_def)
  show "\<exists>pa. translate m' (of_nat (4096 * p)) (p_vaddr m (hdr m rb j) + of_nat i) = Some (pa, True) \<and>
      m' pa = (if i < unat (p_filesz m (hdr m rb j)) then img ! (unat (p_offset m (hdr m rb j)) + i) else 0)"
    if j: "j < nhdr m rb" "loadable m (hdr m rb j)" "i < unat (p_memsz m (hdr m rb j))"
  proof -
    note pg = seg_page_in(2)[OF sf[OF j(1,2)] j(3)]
    have "m (rb + p_offset m (hdr m rb j) + of_nat i) = img ! (unat (p_offset m (hdr m rb j)) + i)"
      if "i < unat (p_filesz m (hdr m rb j))"
      using image_byte[OF sf[OF j(1,2)] lo that] by (simp add: m_def)
    then show ?thesis
      using seg[OF j(1,2) pg, folded ub] unfolding seg_byte_at[OF sf[OF j(1,2)] j(3)]
        translate_page[OF rep seg_high[OF sf[OF j(1,2)] pg]] user_byte_def by (auto simp del: of_nat_mult)
  qed
  show "\<exists>pa. translate m' (of_nat (4096 * p)) va = Some (pa, True)" if "unat va div 4096 \<in> stack_pages"
  proof -
    have "0x101C \<le> unat va div 4096" using that by (simp add: stack_pages_def)
    then have "0x800000 \<le> unat va" by (simp add: less_eq_div_iff_mult_less_eq)
    then show ?thesis using stk[OF that] by (auto simp: translate_page[OF rep] simp del: of_nat_mult)
  qed
qed

text \<open>
  When \<^verbatim>\<open>exec\<close> can succeed: the file system holds an image of at most 64 KB under the name; the memory is as after boot, with the
  buffer apart from the page tables; the image is a well-formed ELF file whose segments keep clear of the stack; below 8 MB, where the
  kernel can reach them, there are two free frames for every page of the segments and nine more; and there is a free process slot.
\<close>

definition can_exec :: "('d \<Rightarrow> drive) \<Rightarrow> u32 \<Rightarrow> u8 list \<Rightarrow> u8 list \<Rightarrow> 'd kernel \<Rightarrow> bool" where
  "can_exec view rb name img k \<longleftrightarrow>
     (let s = mm (ksched k); m = poke rb img (memory s)
      in files_ready view k \<and> word_name name \<and> kfiles view k name = Some img \<and> length img \<le> 65536 \<and>
         kernel_layout s \<and> identity_mapped s \<and> pmm_inv (frames s) \<and> buffer_apart s rb (length img) \<and>
         image_ok m rb (of_nat (length img)) \<and> e_entry m rb \<noteq> 0 \<and>
         (\<forall>j < nhdr m rb. loadable m (hdr m rb j) \<longrightarrow> seg_pages m (hdr m rb j) \<inter> stack_pages = {}) \<and>
         2 * pages_needed m rb 0 + 9 \<le> lowfree s \<and> \<not> derailed s \<and>
         sched_inv (ksched k) \<and> unat (next_pid (ksched k)) < 16 \<and> table_low (ksched k))"

lemma exec_runs:
  fixes k :: "'d kernel" and img :: "u8 list" and rb :: u32
  defines "m \<equiv> poke rb img (memory (mm (ksched k)))" and "n \<equiv> unat (next_pid (ksched k))"
  assumes dev: "ata_wired io view" "vga_wired io view" and can: "can_exec view rb name img k"
  obtains k1 p s3 T P m' where "cmd_exec io rb name k = (yield k1, Cmd_switched)" "mm (ksched k1) = s3\<lparr>memory := m'\<rparr>" "\<not> derailed s3"
    "only (memory s3) m' {..< 256}" "aspace s3 p T P"
    "\<And>j v. j < nhdr m rb \<Longrightarrow> loadable m (hdr m rb j) \<Longrightarrow> unat v div 4096 \<in> seg_pages m (hdr m rb j) \<Longrightarrow>
      user_byte (memory s3) P v = Some (seg_byte m rb (hdr m rb j) v)"
    "\<And>v. unat v div 4096 \<in> stack_pages \<Longrightarrow> P (page_of v) \<noteq> None"
    "p_state (process_table (ksched k1) ! n) = PROC_READY" "is_user (process_table (ksched k1) ! n)"
    "pid (process_table (ksched k1) ! n) = next_pid (ksched k) + 1" "user_eip (process_table (ksched k1) ! n) = e_entry m rb"
    "user_esp (process_table (ksched k1) ! n) = USER_STACK_TOP" "pd_phys (process_table (ksched k1) ! n) = of_nat (4096 * p)"
proof -
  have prog: "files_ready view k" "word_name name" "kfiles view k name = Some img" "length img \<le> 65536"
    and mem: "kernel_layout (mm (ksched k))" "identity_mapped (mm (ksched k))" "pmm_inv (frames (mm (ksched k)))"
      "buffer_apart (mm (ksched k)) rb (length img)"
    and elf: "image_ok m rb (of_nat (length img))" "e_entry m rb \<noteq> 0"
      "\<forall>j < nhdr m rb. loadable m (hdr m rb j) \<longrightarrow> seg_pages m (hdr m rb j) \<inter> stack_pages = {}"
    and room: "2 * pages_needed m rb 0 + 9 \<le> lowfree (mm (ksched k))" "\<not> derailed (mm (ksched k))"
    and slot: "sched_inv (ksched k)" "unat (next_pid (ksched k)) < 16" "table_low (ksched k)"
    using can by (auto simp: can_exec_def Let_def m_def)
  have "unat (of_nat (length img) :: u32) = length img" using prog(4) by (simp_all add: unat_of_nat_u32)
  then have lo: "low rb (length img)" using elf(1) by (simp add: image_ok_def)
  let ?s0 = "with_file rb img (mm (ksched k))"
  have s0: "memory ?s0 = m" "frames ?s0 = frames (mm (ksched k))" "lowfree ?s0 = lowfree (mm (ksched k))"
    "derailed ?s0 = derailed (mm (ksched k))" by (simp_all add: with_file_def m_def lowfree_def)
  obtain k' where ld: "load_program io rb (line ''Usage: exec <filename>'') name k = (k', Some (of_nat (length img)))"
    and k': "ksched k' = (ksched k)\<lparr>mm := ?s0\<rparr>"
    using load_program_ok[OF dev prog] by blast
  obtain p s1 s2 s3 T P where sp: "paging_create_pd ?s0 = (s1, of_nat (4096 * p))" "(of_nat (4096 * p) :: u32) \<noteq> 0"
    "elf_load_user rb (of_nat (length img)) (of_nat (4096 * p)) s1 = (s2, e_entry m rb)"
    "paging_alloc_user_pages (of_nat (4096 * p)) 0x0101C000 4 s2 = (s3, 0)" and as: "aspace s3 p T P"
    and seg: "\<And>j v. j < nhdr m rb \<Longrightarrow> loadable m (hdr m rb j) \<Longrightarrow> unat v div 4096 \<in> seg_pages m (hdr m rb j) \<Longrightarrow>
      user_byte (memory s3) P v = Some (seg_byte m rb (hdr m rb j) v)"
    and stk: "\<And>v. unat v div 4096 \<in> stack_pages \<Longrightarrow> P (page_of v) \<noteq> None" and dr: "derailed s3 = derailed (mm (ksched k))"
    by (rule exec_space[of ?s0 rb "of_nat (length img)", unfolded s0, OF with_file_ok[OF mem(1,2,4) lo] mem(3) elf(1,3) room(1)]) (rule that)
  let ?sc = "(ksched k)\<lparr>mm := s3\<rparr>"
  have "sched_inv ?sc" by (rule sched_inv_cong[OF slot(1)]) (use sched_invD(1)[OF slot(1)] in \<open>simp_all add: state_of_def\<close>)
  then obtain sc m' where cr: "process_create_user name (e_entry m rb) USER_STACK_TOP (of_nat (4096 * p)) ?sc =
      (sc, Some (n))" and mm: "mm sc = s3\<lparr>memory := m'\<rparr>" and o: "only (memory s3) m' {..< 256}"
    and pr: "p_state (process_table sc ! n) = PROC_READY"
      "is_user (process_table sc ! n)"
      "pid (process_table sc ! n) = next_pid (ksched k) + 1"
      "user_eip (process_table sc ! n) = e_entry m rb"
      "user_esp (process_table sc ! n) = USER_STACK_TOP"
      "pd_phys (process_table sc ! n) = of_nat (4096 * p)"
    using create_user_ok[of ?sc name "e_entry m rb" USER_STACK_TOP "of_nat (4096 * p)"] slot(2,3) by (auto simp: table_low_def n_def)
  have sb: "USER_STACK_TOP - 16384 = 0x0101C000" "USER_STACK_PAGES = 4" by (simp_all add: kconst)
  define k1 where "k1 = print io [Colour VGA_COLOR_LIGHT_GREEN, Put (chars ''Spawned user-mode PID ''),
    Num (next_pid (ksched k) + 1), Put (chars '': ''), Put name, Put (chars '' (entry=''), Hex (e_entry m rb), Put (line '')''),
    Colour VGA_COLOR_LIGHT_GREY] (k'\<lparr>ksched := sc\<rparr>)"
  have run: "cmd_exec io rb name k = (yield k1, Cmd_switched)"
    using ld sp elf(2) cr pr(3)
    by (simp add: cmd_exec_def sb on_kmm_run k' on_sched_def pid_of_def k1_def Let_def del: of_nat_mult)
  have k1: "ksched k1 = sc" by (simp add: k1_def print_keeps(3)[OF dev(2)])
  show thesis by (rule that[OF run]) (use k1 mm o as seg stk pr dr room(2) in auto)
qed

text \<open>
  C36. \<^verbatim>\<open>exec\<close> turns a program file into a user process: with a well-formed ELF file on the disk, two frames for each of its pages and nine
  more free below 8 MB, and a process slot free, the command creates a process and yields, and no access of the kernel faults. The new process is ready, in ring 3, with the entry point of the image, the
  user stack and its own page directory; in that directory every address of every segment is mapped for ring 3 and holds the byte
  the file has there, or zero behind the file's part, and the four pages of the stack are mapped.
\<close>

theorem exec_spawns:
  fixes k :: "'d kernel" and img :: "u8 list" and rb :: u32
  defines "m \<equiv> poke rb img (memory (mm (ksched k)))"
  assumes dev: "ata_wired io view" "vga_wired io view" and can: "can_exec view rb name img k"
  shows "\<exists>k1 pd. cmd_exec io rb name k = (yield k1, Cmd_switched) \<and> \<not> derailed (mm (ksched (yield k1))) \<and>
    (let p = process_table (ksched k1) ! unat (next_pid (ksched k))
     in p_state p = PROC_READY \<and> is_user p \<and> pid p = next_pid (ksched k) + 1 \<and> user_eip p = e_entry m rb \<and>
        user_esp p = USER_STACK_TOP \<and> pd_phys p = pd) \<and>
    (\<forall>j < nhdr m rb. \<forall>i. let ph = hdr m rb j in loadable m ph \<longrightarrow> i < unat (p_memsz m ph) \<longrightarrow>
       (\<exists>pa. translate (memory (mm (ksched k1))) pd (p_vaddr m ph + of_nat i) = Some (pa, True) \<and>
         memory (mm (ksched k1)) pa = (if i < unat (p_filesz m ph) then img ! (unat (p_offset m ph) + i) else 0))) \<and>
    (\<forall>va. unat va div 4096 \<in> stack_pages \<longrightarrow> (\<exists>pa. translate (memory (mm (ksched k1))) pd va = Some (pa, True)))"
proof -
  obtain k1 p s3 T P m' where run: "cmd_exec io rb name k = (yield k1, Cmd_switched)" "mm (ksched k1) = s3\<lparr>memory := m'\<rparr>"
    and dr: "\<not> derailed s3" and o: "only (memory s3) m' {..< 256}" and as: "aspace s3 p T P"
    and seg: "\<And>j v. j < nhdr m rb \<Longrightarrow> loadable m (hdr m rb j) \<Longrightarrow> unat v div 4096 \<in> seg_pages m (hdr m rb j) \<Longrightarrow>
      user_byte (memory s3) P v = Some (seg_byte m rb (hdr m rb j) v)"
    and stk: "\<And>v. unat v div 4096 \<in> stack_pages \<Longrightarrow> P (page_of v) \<noteq> None"
    and pr: "p_state (process_table (ksched k1) ! unat (next_pid (ksched k))) = PROC_READY"
      "is_user (process_table (ksched k1) ! unat (next_pid (ksched k)))"
      "pid (process_table (ksched k1) ! unat (next_pid (ksched k))) = next_pid (ksched k) + 1"
      "user_eip (process_table (ksched k1) ! unat (next_pid (ksched k))) = e_entry m rb"
      "user_esp (process_table (ksched k1) ! unat (next_pid (ksched k))) = USER_STACK_TOP"
      "pd_phys (process_table (ksched k1) ! unat (next_pid (ksched k))) = of_nat (4096 * p)"
    by (rule exec_runs[OF dev can, folded m_def]) (rule that)
  have img: "image_ok m rb (of_nat (length img))" and "length img \<le> 65536" using can by (simp_all add: can_exec_def Let_def m_def)
  then have lo: "low rb (length img)" by (simp add: image_ok_def unat_of_nat_u32)
  note reads = space_reads[OF as o img[unfolded m_def] lo seg[unfolded m_def] stk, folded m_def]
  show ?thesis
    using run pr reads dr yield_derailed[of k1] by (intro exI[of _ k1] exI[of _ "of_nat (4096 * p)"]) (simp add: Let_def del: of_nat_mult)
qed

text \<open>The kernel on the simulated drive, with the program of the loader's example stored as file \<^verbatim>\<open>a\<close>.\<close>

definition disk3 :: "drive fs" where
  "disk3 = snd (fs_write_new (ata_blk ata_io) [0x61] elf_img disk1)"

definition kernel2 :: "drive kernel" where
  "kernel2 = kernel1\<lparr>kdev := fdev disk3, kfds := (kfds kernel1)\<lparr>ffs := disk3\<rparr>,
     ksched := boot_sched\<lparr>mm := boot_mm, table_addr := 0x40000\<rparr>\<rparr>"

lemma length_elf_img: "length elf_img = 88"
  by (simp add: elf_img_def)

lemma disk3_ok: "disk_ok (\<lambda>d. d) disk3" "files (\<lambda>d. d) disk3 = [[0x61] \<mapsto> elf_img]"
proof -
  have "has_room (\<lambda>d. d) disk1 88"
    using disk1_room(1) by (auto simp: has_room_def fs_room_def nsec_def)
  then show "disk_ok (\<lambda>d. d) disk3" "files (\<lambda>d. d) disk3 = [[0x61] \<mapsto> elf_img]"
    using block_device.fs_write_new_ok[OF ata_block_device[OF ata_io_wired], of disk1 "[0x61]" elf_img] disk1_room(2) disk1_ok
    unfolding fs_ok_disk[OF ata_io_wired] by (auto simp: files_def has_room_def disk3_def length_elf_img)
qed

lemma poke_img: "poke 0x20000 elf_img m = img_mem m"
  by (rule ext) (simp add: poke_apply img_mem_def length_elf_img)

lemma kernel2_can_exec:
  "can_exec (\<lambda>d. d) 0x20000 [0x61] elf_img kernel2" "e_entry (poke 0x20000 elf_img (memory (mm (ksched kernel2)))) 0x20000 = 0x01000000"
  "next_pid (ksched kernel2) = 1" "current_process (ksched kernel2) = None"
proof -
  let ?m = "poke 0x20000 elf_img (memory (mm (ksched kernel2)))"
  have s: "mm (ksched kernel2) = boot_mm" "next_pid (ksched kernel2) = 1" using boot_sched_facts(2) by (simp_all add: kernel2_def)
  have fr: "files_ready (\<lambda>d. d) kernel2" "kfiles (\<lambda>d. d) kernel2 [0x61] = Some elf_img"
    using disk3_ok kernel1_ready(1) by (simp_all add: files_ready_def kfiles_def kernel2_def kfs_def)
  have "kdir boot_mm = 16" "kframe boot_mm = 17"
    using paging_init_spec[OF mm0_layout] by (auto simp: boot_mm_def kdir_def kframe_def mm0_def)
  then have apart: "buffer_apart boot_mm 0x20000 (length elf_img)"
    unfolding buffer_apart_def length_elf_img by (auto simp: div_nat_eqI)
  have m: "?m = img_mem (memory boot_mm)" by (simp add: poke_img s)
  let ?i = "img_mem (memory boot_mm)"
  have h: "nhdr ?i 0x20000 = 1" "hdr ?i 0x20000 0 = 0x20034" by (simp_all add: nhdr_def hdr_def img_fields)
  have lo: "loadable ?i 0x20034" by (simp add: loadable_def img_fields kconst)
  have pages: "seg_pages ?i 0x20034 = {4096}" unfolding seg_pages_def img_fields by auto
  have elf: "image_ok ?m 0x20000 (of_nat (length elf_img))" "e_entry ?m 0x20000 = 0x01000000"
    "\<forall>j < nhdr ?m 0x20000. loadable ?m (hdr ?m 0x20000 j) \<longrightarrow> seg_pages ?m (hdr ?m 0x20000 j) \<inter> stack_pages = {}"
    unfolding m h using img_ok by (simp_all add: length_elf_img img_fields h pages stack_pages_def)
  have room: "2 * pages_needed ?m 0x20000 0 + 9 \<le> lowfree boot_mm"
    unfolding m pages_needed_def h boot_mm(6) by (simp add: h pages lo)
  have inv: "sched_inv (ksched kernel2)" "table_low (ksched kernel2)"
    using boot_sched_facts(1) sched_inv_cong[OF boot_sched_facts(1), of "ksched kernel2"] sched_invD(1)[OF boot_sched_facts(1)]
    by (simp_all add: kernel2_def state_of_def table_low_def low_def)
  show "can_exec (\<lambda>d. d) 0x20000 [0x61] elf_img kernel2"
    using fr apart elf room inv boot_mm(1-3,5) length_elf_img unfolding can_exec_def Let_def s by (simp add: word_name_def)
  show "e_entry ?m 0x20000 = 0x01000000" by (rule elf(2))
  show "next_pid (ksched kernel2) = 1" "current_process (ksched kernel2) = None"
    using boot_sched_facts(2,4) by (simp_all add: kernel2_def)
qed

theorem exec_spawns_witness:
  "\<exists>k1. cmd_exec ata_io 0x20000 [0x61] kernel2 = (yield k1, Cmd_switched) \<and> \<not> derailed (mm (ksched (yield k1))) \<and>
     user_eip (process_table (ksched k1) ! 1) = 0x01000000"
  using exec_spawns[OF ata_io_wired ata_io_vga kernel2_can_exec(1)] kernel2_can_exec(2,3) by (auto simp: Let_def)

section \<open>The shell is not a process\<close>

lemma ksched_print: "ksched (print io ps k) = ksched k"
  by (simp add: print_def on_con_def Let_def)

lemma ksched_complain: "ksched (complain io t k) = ksched k" "ksched (not_found io t k) = ksched k"
  by (simp_all add: complain_def not_found_def ksched_print)

text \<open>Everything before the process is created changes at most the memory in the scheduler's state.\<close>

definition mem_step :: "'d kernel \<Rightarrow> 'd kernel \<Rightarrow> bool" where
  "mem_step k k' \<longleftrightarrow> (\<exists>s. ksched k' = (ksched k)\<lparr>mm := s\<rparr>)"

lemma mem_step_refl: "ksched k' = ksched k \<Longrightarrow> mem_step k k'"
  by (auto simp: mem_step_def intro: exI[of _ "mm (ksched k)"])

lemma mem_step_trans: "mem_step a b \<Longrightarrow> mem_step b c \<Longrightarrow> mem_step a c"
  by (auto simp: mem_step_def)

lemma mem_step_kmm: "mem_step k (fst (on_kmm f k))"
  by (auto simp: mem_step_def on_kmm_def on_sched_def Let_def split_beta)

lemma mem_step_kmmI: "on_kmm f k = (k', a) \<Longrightarrow> mem_step k k'"
  using mem_step_kmm[of k f] by simp

lemma mem_step_load: "mem_step k (fst (load_program io rb u name k))"
proof -
  have f: "mem_step a (fst (on_fs g a))" for g :: "'a fs \<Rightarrow> 'c \<times> 'a fs" and a by (rule mem_step_refl) (rule ksched_on_fs)
  have o: "mem_step a (fst (open_file io n a))" and r: "mem_step a (fst (read_file io h l a))" for n h l a
    by (simp_all add: open_file_def read_file_def mem_step_refl ksched_on_fs)
  obtain k1 r1 where 1: "on_fs (fs_init (ata_blk io)) k = (k1, r1)" by fastforce
  obtain k2 r2 h where 2: "open_file io name k1 = (k2, r2, h)" by (metis prod_cases3)
  obtain k3 n bs h' where 3: "read_file io h (f_size h) k2 = (k3, n, bs, h')" by (metis prod_cases4)
  have s1: "mem_step k k1" using f[of k "fs_init (ata_blk io)"] 1 by simp
  have s2: "mem_step k k2" using mem_step_trans[OF s1] o[of k1 name] 2 by simp
  have s3: "mem_step k k3" using mem_step_trans[OF s2] r[of k2 h "f_size h"] 3 by simp
  have s4: "mem_step k (fst (on_kmm (\<lambda>m. (m\<lparr>memory := poke rb bs (memory m)\<rparr>, ())) k3))"
    using mem_step_trans[OF s3 mem_step_kmm] .
  show ?thesis
    using s1 s2 s4 1 2 3 unfolding load_program_def
    by (auto simp: mem_step_def ksched_print ksched_complain Let_def split_beta intro: exI[of _ "mm (ksched k)"])
qed

lemma mem_step_loadI: "load_program io rb u name k = (k', r) \<Longrightarrow> mem_step k k'"
  using mem_step_load[of k io rb u name] by simp

lemma yield_boot:
  assumes "current_process s = None"
  shows "\<exists>j. current_process (process_yield s) = Some j" "p_esp (process_table (process_yield s) ! i) = p_esp (process_table s ! i)"
proof -
  have t: "process_table (yield_save s) = process_table s" "current_process (yield_save s) = None"
    using assms by (simp_all add: yield_save_def Let_def push_def)
  obtain n where n: "sched_next (yield_save s) = (set_state n PROC_RUNNING (yield_save s), n)" using sched_next_boot[OF t(2)] by blast
  show "\<exists>j. current_process (process_yield s) = Some j" using process_yield_table(2)[OF n] by simp
  show "p_esp (process_table (process_yield s) ! i) = p_esp (process_table s ! i)"
    unfolding process_yield_table(1)[OF n]
    by (cases "n < length (process_table s)")
      (simp_all add: set_state_def upd_proc_def t(1) nth_list_update list_update_beyond not_less)
qed

text \<open>The saved stack pointers after a command that spawned a process and switched to another one.\<close>

definition stacks_kept :: "sched \<Rightarrow> sched \<Rightarrow> bool" where
  "stacks_kept s s' \<longleftrightarrow> (\<forall>i < 16. p_esp (process_table s' ! i) = p_esp (process_table s ! i) \<or>
     state_of s i = PROC_UNUSED \<and> p_esp (process_table s' ! i) = kstack_top s i - 20)"

lemma fill_stacks:
  assumes "alloc_slot s = Some i" "\<And>p. p_esp (f p) = p_esp p"
  shows "stacks_kept s (fill_slot i f r s)" "current_process (fill_slot i f r s) = current_process s"
proof -
  have "state_of s i = PROC_UNUSED" "i < 16"
    using assms(1) unfolding alloc_slot_def MAX_PROCESSES_def find_upt_least by simp_all
  then show "stacks_kept s (fill_slot i f r s)"
    unfolding stacks_kept_def fill_slot_table(1)
    by (cases "i < length (process_table s)") (auto simp: nth_list_update assms(2) list_update_beyond)
  show "current_process (fill_slot i f r s) = current_process s" by (rule fill_slot_table(3))
qed

lemma spawn_stacks:
  assumes "mem_step k k1" "current_process (ksched k) = None"
    and "on_sched (process_create name e) k1 = (k2, Some i) \<or> on_sched (process_create_user name e us pd) k1 = (k2, Some i)"
  shows "stacks_kept (ksched k) (ksched (yield (print io ps k2))) \<and> (\<exists>j. current_process (ksched (yield (print io ps k2))) = Some j)"
proof -
  obtain s where s: "ksched k1 = (ksched k)\<lparr>mm := s\<rparr>" using assms(1) by (auto simp: mem_step_def)
  have same: "stacks_kept (ksched k1) t = stacks_kept (ksched k) t" for t
    by (simp add: s stacks_kept_def state_of_def kstack_top_def)
  have "stacks_kept (ksched k1) (ksched k2) \<and> current_process (ksched k2) = None"
    using assms(3,2) fill_stacks
    by (auto simp: on_sched_def process_create_fill process_create_user_fill s Let_def split: option.splits)
  then show ?thesis
    using yield_boot[of "ksched k2"] unfolding same by (simp add: yield_def ksched_print stacks_kept_def)
qed

text \<open>
  \<^verbatim>\<open>run\<close> and \<^verbatim>\<open>exec\<close> lose the shell: as after boot, the shell runs outside every process. When one of the commands succeeds, its
  \<^verbatim>\<open>process_yield\<close> switches to a process without saving the context it leaves: every saved stack pointer in the process table is
  the one from before, or the initial one of the new process, so no later switch can return to the shell.
\<close>

theorem run_abandons_shell:
  assumes "current_process (ksched k) = None"
    and "cmd_run io rb name k = (k', Cmd_switched) \<or> cmd_exec io rb name k = (k', Cmd_switched)"
  shows "stacks_kept (ksched k) (ksched k') \<and> (\<exists>j. current_process (ksched k') = Some j)"
  using assms(2)
proof
  assume "cmd_run io rb name k = (k', Cmd_switched)"
  then obtain k1 n k2 e k3 i ps where l: "load_program io rb (line ''Usage: run <filename>'') name k = (k1, Some n)"
    and 2: "on_kmm (elf_load rb n) k1 = (k2, e)"
    and 3: "on_sched (process_create name e) k2 = (k3, Some i)" and k': "k' = yield (print io ps k3)"
    by (auto simp: cmd_run_def Let_def split: prod.splits option.splits if_splits)
  have "mem_step k k2" by (rule mem_step_trans[OF mem_step_loadI[OF l] mem_step_kmmI[OF 2]])
  then show ?thesis unfolding k' using 3 by (intro spawn_stacks[OF _ assms(1)]) auto
next
  assume "cmd_exec io rb name k = (k', Cmd_switched)"
  note run = this[unfolded cmd_exec_def]
  obtain k1 n where l: "load_program io rb (line ''Usage: exec <filename>'') name k = (k1, Some n)"
    using run by (cases "load_program io rb (line ''Usage: exec <filename>'') name k") (auto split: option.splits)
  obtain k2 pd where 2: "on_kmm paging_create_pd k1 = (k2, pd)" by fastforce
  obtain k3 e where 3: "on_kmm (elf_load_user rb n pd) k2 = (k3, e)" by fastforce
  obtain k4 r where 4: "on_kmm (paging_alloc_user_pages pd (USER_STACK_TOP - USER_STACK_PAGES * 4096) USER_STACK_PAGES) k3 = (k4, r)"
    by fastforce
  obtain k5 x where 5: "on_sched (process_create_user name e USER_STACK_TOP pd) k4 = (k5, x)" by fastforce
  have ok: "pd \<noteq> 0" "e \<noteq> 0" "r = 0" "x \<noteq> None"
    using run unfolding l by (auto simp: 2 3 4 5 Let_def split: if_splits option.splits)
  then obtain i where i: "x = Some i" by blast
  obtain ps where k': "k' = yield (print io ps k5)"
    using run unfolding l by (auto simp: 2 3 4 5 i ok Let_def)
  note step = mem_step_trans[OF mem_step_loadI[OF l] mem_step_trans[OF mem_step_kmmI[OF 2] mem_step_kmmI[OF 3]]]
  have "mem_step k k4" by (rule mem_step_trans[OF step mem_step_kmmI[OF 4]])
  then show ?thesis unfolding k' using 5 i by (intro spawn_stacks[OF _ assms(1)]) auto
qed

theorem run_abandons_shell_witness:
  "\<exists>k'. cmd_exec ata_io 0x20000 [0x61] kernel2 = (k', Cmd_switched) \<and> stacks_kept (ksched kernel2) (ksched k')"
proof -
  obtain k1 where "cmd_exec ata_io 0x20000 [0x61] kernel2 = (yield k1, Cmd_switched)"
    by (rule exec_runs[OF ata_io_wired ata_io_vga kernel2_can_exec(1)])
  then show ?thesis using run_abandons_shell[OF kernel2_can_exec(4)] by blast
qed

end
