(* ===== verification/Serial.thy ===== *)
theory Serial
  imports Devices CString
begin

text \<open>
  The serial console, \<^verbatim>\<open>kernel/serial.c\<close>: the set-up of the first serial port and the output that waits for the transmitter.
  The transmitter is behind the ports; its contract is the register file of the 16550 data sheet.
\<close>

section \<open>The code\<close>

definition COM1_BASE :: u16 where [kconst]: "COM1_BASE = 0x3F8"
definition COM1_DATA :: u16 where [kconst]: "COM1_DATA = COM1_BASE + 0"
definition COM1_IER :: u16 where [kconst]: "COM1_IER = COM1_BASE + 1"
definition COM1_FCR :: u16 where [kconst]: "COM1_FCR = COM1_BASE + 2"
definition COM1_LCR :: u16 where [kconst]: "COM1_LCR = COM1_BASE + 3"
definition COM1_MCR :: u16 where [kconst]: "COM1_MCR = COM1_BASE + 4"
definition COM1_LSR :: u16 where [kconst]: "COM1_LSR = COM1_BASE + 5"
definition COM1_DLL :: u16 where [kconst]: "COM1_DLL = COM1_BASE + 0"
definition COM1_DLH :: u16 where [kconst]: "COM1_DLH = COM1_BASE + 1"
definition LSR_TX_EMPTY :: u8 where [kconst]: "LSR_TX_EMPTY = 0x20"
definition BAUD_DIVISOR :: u32 where [kconst]: "BAUD_DIVISOR = 1"

definition serial_init :: "'d io \<Rightarrow> 'd \<Rightarrow> 'd" where
  "serial_init io d =
     (let d = outb io COM1_IER 0x00 d;
          d = outb io COM1_LCR 0x80 d;
          d = outb io COM1_DLL (ucast (BAUD_DIVISOR AND 0xFF)) d;
          d = outb io COM1_DLH (ucast (drop_bit 8 BAUD_DIVISOR)) d;
          d = outb io COM1_LCR 0x03 d;
          d = outb io COM1_FCR 0xC7 d
      in outb io COM1_MCR 0x0B d)"

definition serial_tx_ready :: "'d io \<Rightarrow> 'd \<Rightarrow> bool \<times> 'd" where
  "serial_tx_ready io d = (let (v, d) = inb io COM1_LSR d in (v AND LSR_TX_EMPTY \<noteq> 0, d))"

text \<open>The wait for the transmitter; it has no value when the transmitter stays busy.\<close>

partial_function (option) serial_wait :: "'d io \<Rightarrow> 'd \<Rightarrow> 'd option" where
  "serial_wait io d = (let (ready, d) = serial_tx_ready io d in if ready then Some d else serial_wait io d)"

definition serial_putc :: "'d io \<Rightarrow> u8 \<Rightarrow> 'd \<Rightarrow> 'd option" where
  "serial_putc io c d = (case serial_wait io d of None \<Rightarrow> None | Some d \<Rightarrow> Some (outb io COM1_DATA c d))"

fun serial_puts :: "'d io \<Rightarrow> u8 list \<Rightarrow> 'd \<Rightarrow> 'd option" where
  "serial_puts io [] d = Some d"
| "serial_puts io (c # s) d =
     (if c \<noteq> 0 then
        (case (if c = 10 then serial_putc io 13 d else Some d) of None \<Rightarrow> None
         | Some d \<Rightarrow>
             (case serial_putc io c d of None \<Rightarrow> None | Some d \<Rightarrow> serial_puts io s d))
      else Some d)"

section \<open>The 16550\<close>

text \<open>
  The registers of the chip, and the bytes the transmitter has accepted since its FIFO was last cleared. The first two
  addresses are the divisor latch while bit 7 of the line control register is set.
\<close>

record uart =
  u_ier :: u8
  u_dll :: u8
  u_dlh :: u8
  u_fcr :: u8
  u_lcr :: u8
  u_mcr :: u8
  sent :: "u8 list"

definition dlab :: "uart \<Rightarrow> bool" where
  "dlab u \<longleftrightarrow> bit (u_lcr u) 7"

definition uart_out :: "u16 \<Rightarrow> u8 \<Rightarrow> uart \<Rightarrow> uart" where
  "uart_out r v u =
     (if r = 0 then (if dlab u then u\<lparr>u_dll := v\<rparr> else u\<lparr>sent := sent u @ [v]\<rparr>)
      else if r = 1 then (if dlab u then u\<lparr>u_dlh := v\<rparr> else u\<lparr>u_ier := v\<rparr>)
      else if r = 2 then u\<lparr>u_fcr := v, sent := (if bit v 2 then [] else sent u)\<rparr>
      else if r = 3 then u\<lparr>u_lcr := v\<rparr>
      else if r = 4 then u\<lparr>u_mcr := v\<rparr> else u)"

text \<open>
  The chip at the first serial port: a write goes to its register, except that a byte given to the transmitter while it is
  busy may be lost, about which nothing is promised; the transmitter reports busy for \<open>busy d\<close> more polls, and a byte
  accepted makes it busy for some number of polls again.
\<close>

definition uart_wired :: "'d io \<Rightarrow> ('d \<Rightarrow> uart) \<Rightarrow> ('d \<Rightarrow> nat) \<Rightarrow> bool" where
  "uart_wired io u busy \<longleftrightarrow>
     (\<forall>r v d. r < 8 \<longrightarrow> (r = 0 \<longrightarrow> dlab (u d) \<or> busy d = 0) \<longrightarrow> u (outb io (0x3F8 + r) v d) = uart_out r v (u d)) \<and>
     (\<forall>d. let (v, d') = inb io 0x3FD d
          in u d' = u d \<and> (bit v 5 \<longleftrightarrow> busy d = 0) \<and> busy d' = busy d - 1)"

lemma uart_wiredD:
  assumes "uart_wired io u busy"
  shows "r < 8 \<Longrightarrow> r \<noteq> 0 \<or> dlab (u d) \<or> busy d = 0 \<Longrightarrow> u (outb io (0x3F8 + r) v d) = uart_out r v (u d)"
    and "inb io 0x3FD d = (v, d') \<Longrightarrow> u d' = u d \<and> (bit v 5 \<longleftrightarrow> busy d = 0) \<and> busy d' = busy d - 1"
  using assms unfolding uart_wired_def Let_def by (blast, auto dest: spec[of _ d])

lemma lsr_bit: "(v :: u8) AND LSR_TX_EMPTY \<noteq> 0 \<longleftrightarrow> bit v 5"
proof -
  have "(0x20 :: u8) = 2 ^ 5" by simp
  then show ?thesis unfolding LSR_TX_EMPTY_def by (simp only: and_exp_eq_0_iff_not_bit not_not)
qed

lemma serial_wait_ends:
  assumes "uart_wired io u busy"
  shows "\<exists>d'. serial_wait io d = Some d' \<and> u d' = u d \<and> busy d' = 0"
proof (induction "busy d" arbitrary: d)
  case 0
  obtain v d' where r: "inb io 0x3FD d = (v, d')" by fastforce
  have "serial_wait io d = Some d'"
    using uart_wiredD(2)[OF assms r] 0 by (simp add: serial_wait.simps[of io d] serial_tx_ready_def r kconst lsr_bit[unfolded kconst])
  then show ?case using uart_wiredD(2)[OF assms r] 0 by simp
next
  case (Suc n)
  obtain v d' where r: "inb io 0x3FD d = (v, d')" by fastforce
  have b: "\<not> bit v 5" "u d' = u d" "n = busy d'" using uart_wiredD(2)[OF assms r] Suc.hyps(2) by simp_all
  then have "serial_wait io d = serial_wait io d'"
    by (subst serial_wait.simps) (simp add: serial_tx_ready_def r kconst lsr_bit[unfolded kconst])
  then show ?case using Suc.hyps(1)[OF b(3)] b(2) by simp
qed

lemma serial_putc_sends:
  assumes "uart_wired io u busy" "\<not> dlab (u d)"
  shows "\<exists>d'. serial_putc io c d = Some d' \<and> u d' = (u d)\<lparr>sent := sent (u d) @ [c]\<rparr>"
proof -
  obtain d' where w: "serial_wait io d = Some d'" "u d' = u d" "busy d' = 0" using serial_wait_ends[OF assms(1)] by blast
  have "u (outb io (0x3F8 + 0) c d') = uart_out 0 c (u d')" using w(3) by (intro uart_wiredD(1)[OF assms(1)]) simp_all
  then show ?thesis using assms(2) by (simp add: serial_putc_def w(1,2) kconst uart_out_def)
qed

text \<open>What a terminal is sent for a text: a carriage return in front of every line feed.\<close>

definition crlf :: "u8 list \<Rightarrow> u8 list" where
  "crlf s = concat (map (\<lambda>c. if c = 10 then [13, 10] else [c]) s)"

lemma serial_puts_sends:
  assumes "uart_wired io u busy" "\<not> dlab (u d)"
  shows "\<exists>d'. serial_puts io s d = Some d' \<and> u d' = (u d)\<lparr>sent := sent (u d) @ crlf (cstr s)\<rparr>"
  using assms(2)
proof (induction s arbitrary: d)
  case Nil
  then show ?case by (simp add: crlf_def)
next
  case (Cons c s)
  note put = serial_putc_sends[OF assms(1)]
  obtain d1 where d1: "(if c = 10 then serial_putc io 13 d else Some d) = Some d1"
      "u d1 = (u d)\<lparr>sent := sent (u d) @ (if c = 10 then [13] else [])\<rparr>"
    using put[OF Cons.prems, of 13] by (cases "c = 10") auto
  then have n1: "\<not> dlab (u d1)" using Cons.prems by (simp add: dlab_def)
  obtain d2 where d2: "serial_putc io c d1 = Some d2" "u d2 = (u d1)\<lparr>sent := sent (u d1) @ [c]\<rparr>"
    using put[OF n1] by blast
  then have "\<not> dlab (u d2)" using n1 by (simp add: dlab_def)
  from Cons.IH[OF this] obtain d3 where d3: "serial_puts io s d2 = Some d3"
      "u d3 = (u d2)\<lparr>sent := sent (u d2) @ crlf (cstr s)\<rparr>" by blast
  show ?case
  proof (cases "c = 0")
    case True
    then show ?thesis by (simp add: crlf_def)
  next
    case False
    then show ?thesis unfolding serial_puts.simps d1(1) by (simp add: d1(2) d2 d3 crlf_def)
  qed
qed

lemma serial_init_sets:
  assumes "uart_wired io u busy" "\<not> dlab (u d)"
  shows "u (serial_init io d) = \<lparr>u_ier = 0, u_dll = 1, u_dlh = 0, u_fcr = 0xC7, u_lcr = 3, u_mcr = 0x0B, sent = []\<rparr>"
proof -
  have out: "r < 8 \<Longrightarrow> r \<noteq> 0 \<or> dlab (u d) \<Longrightarrow> u (outb io (0x3F8 + r) v d) = uart_out r v (u d)" for r v d
    using uart_wiredD(1)[OF assms(1)] by blast
  have bits: "bit (0x80 :: u8) 7" "bit (0xC7 :: u8) 2" "\<not> bit (3 :: u8) 7" by (simp_all add: bit_numeral_rec)
  note o = out[of 1, simplified] out[of 3, simplified] out[of 2, simplified] out[of 4, simplified] out[of 0, simplified]
  show ?thesis using assms(2)
    by (simp add: serial_init_def kconst Let_def o uart_out_def dlab_def bits)
qed

text \<open>
  C40. On a UART that lets its transmitter empty itself after finitely many polls, \<^verbatim>\<open>serial_init\<close> sets divisor 1 (115200
  baud), eight data bits without parity and one stop bit, interrupts off and the FIFOs on; after it \<^verbatim>\<open>serial_puts\<close> always
  returns, and the transmitter has accepted exactly the text up to its terminator with a carriage return in front of every
  line feed: no byte is given to a busy transmitter, where it could be lost.
\<close>
theorem serial_console:
  assumes "uart_wired io u busy" "\<not> dlab (u d)"
  shows "\<exists>d'. serial_puts io s (serial_init io d) = Some d' \<and>
    u d' = \<lparr>u_ier = 0, u_dll = 1, u_dlh = 0, u_fcr = 0xC7, u_lcr = 3, u_mcr = 0x0B, sent = crlf (cstr s)\<rparr>"
proof -
  note i = serial_init_sets[OF assms]
  have "\<not> dlab (u (serial_init io d))" by (simp add: i dlab_def bit_numeral_rec)
  from serial_puts_sends[OF assms(1) this, of s] show ?thesis by (simp add: i)
qed

text \<open>A UART alone, whose transmitter needs two polls for a byte and drops what comes earlier.\<close>

definition uart_io :: "(uart \<times> nat) io" where
  "uart_io =
     \<lparr>inb = (\<lambda>port (u, n). if port = 0x3FD then (if n = 0 then 0x60 else 0, (u, n - 1)) else (0xFF, (u, n))),
      outb = (\<lambda>port v (u, n).
        if port = 0x3F8 \<and> \<not> dlab u then (if n = 0 then (uart_out 0 v u, 2) else (u, n))
        else if port - 0x3F8 < 8 then (uart_out (port - 0x3F8) v u, n) else (u, n)),
      inw = (\<lambda>_ d. (0xFFFF, d)), outw = (\<lambda>_ _ d. d)\<rparr>"

lemma uart_io_wired: "uart_wired uart_io fst snd"
  unfolding uart_wired_def uart_io_def by (auto simp: bit_numeral_rec)

definition uart0 :: uart where
  "uart0 = \<lparr>u_ier = 0xF, u_dll = 12, u_dlh = 0, u_fcr = 0, u_lcr = 0, u_mcr = 0, sent = [7]\<rparr>"

theorem serial_console_witness:
  "\<exists>d'. serial_puts uart_io [86, 10, 0, 65] (serial_init uart_io (uart0, 1)) = Some d' \<and> u_dll (fst d') = 1 \<and>
     sent (fst d') = [86, 13, 10]"
proof -
  have "\<not> dlab (fst (uart0, 1 :: nat))" by (simp add: uart0_def dlab_def)
  from serial_console[OF uart_io_wired this, of "[86, 10, 0, 65]"] show ?thesis
    by (auto simp: crlf_def)
qed

end
