(* ===== verification/Boot.thy ===== *)
theory Boot
  imports Programs Serial Keyboard "HOL-Library.Monad_Syntax"
begin

text \<open>
  The start of the kernel, \<^verbatim>\<open>kernel_main\<close> of \<^verbatim>\<open>kernel/kernel.c\<close>: the initialisation of every component in the order of the
  code, with its messages, up to the shell; and that it establishes the invariants on which the theorems about the
  components rest.
\<close>

section \<open>The code\<close>

definition on_dev :: "('d \<Rightarrow> 'd) \<Rightarrow> 'd kernel \<Rightarrow> 'd kernel" where
  "on_dev f k = k\<lparr>kdev := f (kdev k)\<rparr>"

definition on_cpu :: "(cpu_tables \<Rightarrow> cpu_tables) \<Rightarrow> 'd kernel \<Rightarrow> 'd kernel" where
  "on_cpu f k = k\<lparr>ksched := (ksched k)\<lparr>cpu := f (cpu (ksched k))\<rparr>\<rparr>"

definition kprintf :: "'d io \<Rightarrow> u8 list \<Rightarrow> u32 list \<Rightarrow> 'd kernel \<Rightarrow> 'd kernel option" where
  "kprintf io fmt args k =
     (case vga_printf io fmt (map Int_arg args) ((kcon k)\<lparr>vdev := kdev k\<rparr>) of None \<Rightarrow> None
      | Some s \<Rightarrow> Some (on_con (\<lambda>_. s) k))"

text \<open>The consecutive parts of \<^verbatim>\<open>kernel_main\<close>. The addresses of the interrupt stubs and of the idle loop are arguments.\<close>

definition boot_banner :: "'d io \<Rightarrow> 'd kernel \<Rightarrow> 'd kernel" where
  "boot_banner io k =
     print io
       [Colour VGA_COLOR_LIGHT_CYAN,
        Put (line ''================================================================''),
        Put (line ''              VESPER KERNEL ACTIVE                             ''),
        Put (line ''        Advanced Services Educational OS  v0.5.0               ''),
        Put (line ''================================================================''),
        Colour VGA_COLOR_LIGHT_GREY, Put [10],
        Put (line ''  Architecture : x86  32-bit Protected Mode''),
        Put (line ''  VGA buffer   : 0xB8000''),
        Put (line ''  Kernel base  : 0x1000''),
        Put (line ''  Stack base   : 0x90000''),
        Put (line ''  Heap size    : 256 KB''), Put [10]]
       (on_con (vga_init io) k)"

definition boot_serial :: "'d io \<Rightarrow> 'd kernel \<Rightarrow> 'd kernel option" where
  "boot_serial io k =
     (case serial_puts io (line ''VESPER: serial console active (115200 8N1)'') (serial_init io (kdev k)) of None \<Rightarrow> None
      | Some d \<Rightarrow> Some (on_dev (\<lambda>_. d) k))"

definition boot_tables :: "'d io \<Rightarrow> (nat \<Rightarrow> u32) \<Rightarrow> (nat \<Rightarrow> u32) \<Rightarrow> 'd kernel \<Rightarrow> 'd kernel" where
  "boot_tables io isr irq k =
     (let k = k\<lparr>kheap := kmem_init (kheap k)\<rparr>;
          k = print io [Colour VGA_COLOR_LIGHT_GREEN, Put (line ''  [OK] Heap allocator  (256 KB)'')] k;
          k = on_cpu (\<lambda>c. tss_flush (gdt_init (tss_init 0x90000 c))) k;
          k = print io [Colour VGA_COLOR_LIGHT_GREEN,
                Put (line ''  [OK] GDT loaded      (6 entries: null/kcode/kdata/ucode/udata/TSS)''),
                Put (line ''  [OK] TSS installed   (ESP0=0x90000, SS0=0x10)'')] k;
          k = on_cpu (idt_init isr irq) k
      in print io [Colour VGA_COLOR_LIGHT_GREEN, Put (line ''  [OK] IDT loaded      (256 gates)'')] k)"

definition boot_drivers :: "'d io \<Rightarrow> 'd kernel \<Rightarrow> 'd kernel option" where
  "boot_drivers io k = do {
     let k = on_dev (pic_init io) k;
     let k = print io [Colour VGA_COLOR_LIGHT_GREEN, Put (line ''  [OK] PIC remapped    (IRQ0-15 -> INT 32-47)'')] k;
     let k = fst (on_drv (\<lambda>s. (timer_init io s, ())) k);
     let k = print io [Colour VGA_COLOR_LIGHT_GREEN] k;
     k \<leftarrow> kprintf io (line ''  [OK] PIT timer       (IRQ0, 100 Hz, preempt every %u ticks)'') [SCHED_SLICE] k;
     let k = fst (on_drv (\<lambda>s. (keyboard_init io s, ())) k);
     Some (print io [Colour VGA_COLOR_LIGHT_GREEN, Put (line ''  [OK] Keyboard driver (IRQ1, extended scancodes)'')] k)
   }"

definition boot_memory :: "'d io \<Rightarrow> u32 \<Rightarrow> 'd kernel \<Rightarrow> 'd kernel" where
  "boot_memory io isr_syscall k =
     (let k = fst (on_kmm (\<lambda>m. (m\<lparr>frames := pmm_init (memory m)\<rparr>, ())) k);
          k = print io [Colour VGA_COLOR_LIGHT_GREEN, Put (chars ''  [OK] PMM ready       (''),
                Num (pmm_free_frames (frames (mm (ksched k))) * 4), Put (line '' KB free)'')] k;
          k = fst (on_kmm (\<lambda>m. (paging_init m, ())) k);
          k = print io [Colour VGA_COLOR_LIGHT_GREEN,
                Put (line ''  [OK] Paging enabled  (identity-map 0-8 MB, per-process PDs)'')] k;
          k = on_cpu (syscall_init isr_syscall) k
      in print io [Colour VGA_COLOR_LIGHT_GREEN, Put (line ''  [OK] Syscall gate    (INT 0x80, DPL=3, syscalls 0-12)'')] k)"

definition boot_services :: "'d io \<Rightarrow> u32 \<Rightarrow> 'd kernel \<Rightarrow> 'd kernel option" where
  "boot_services io idle_fn k = do {
     let k = fst (on_ipc (\<lambda>s. (pipe_init s, ())) k);
     let k = print io [Colour VGA_COLOR_LIGHT_GREEN] k;
     k \<leftarrow> kprintf io (line ''  [OK] IPC pipes       (%u slots x %u B ring buffer)'') [of_nat MAX_PIPES, PIPE_BUF_SIZE] k;
     let k = fst (on_fds (\<lambda>s. (fd_init s, ())) k);
     let k = print io [Colour VGA_COLOR_LIGHT_GREEN] k;
     k \<leftarrow> kprintf io (line ''  [OK] FD table        (%u slots)'') [of_nat FD_MAX] k;
     let k = fst (on_sched (\<lambda>s. (process_init idle_fn s, ())) k);
     let k = print io [Colour VGA_COLOR_LIGHT_GREEN] k;
     kprintf io (line ''  [OK] Scheduler       (preemptive round-robin, max %u procs)'') [of_nat MAX_PROCESSES] k
   }"

definition boot_disk :: "'d io \<Rightarrow> 'd kernel \<Rightarrow> 'd kernel" where
  "boot_disk io k =
     (let (r, d) = ata_init io (kdev k);
          k = on_dev (\<lambda>_. d) k;
          k = (if r \<noteq> 0
               then print io [Colour VGA_COLOR_LIGHT_GREEN, Put (line ''  [OK] ATA drive       (primary master, PIO)'')] k
               else print io [Colour VGA_COLOR_YELLOW, Put (line ''  [--] ATA drive       (not detected)'')] k);
          (k, r) = on_fs (fs_init (ata_blk io)) k
      in if r \<noteq> 0
         then print io [Colour VGA_COLOR_LIGHT_GREEN, Put (line ''  [OK] VesperFS        (mounted at LBA 129)'')] k
         else print io [Colour VGA_COLOR_YELLOW,
                Put (chars ''  [--] VesperFS        (not formatted '' @ [0xE2, 0x80, 0x93] @
                  chars '' run '' @ [39] @ chars ''mkfs'' @ [39] @ line '')'')] k)"

text \<open>\<^verbatim>\<open>kernel_main\<close> up to its call of \<^verbatim>\<open>shell_run\<close>, which does not return; \<^verbatim>\<open>sti\<close> is before the last two messages.\<close>

definition kernel_main ::
  "'d io \<Rightarrow> (nat \<Rightarrow> u32) \<Rightarrow> (nat \<Rightarrow> u32) \<Rightarrow> u32 \<Rightarrow> u32 \<Rightarrow> 'd kernel \<Rightarrow> 'd kernel option" where
  "kernel_main io isr irq isr_syscall idle_fn k = do {
     k \<leftarrow> boot_serial io (boot_banner io k);
     k \<leftarrow> boot_drivers io (boot_tables io isr irq k);
     k \<leftarrow> boot_services io idle_fn (boot_memory io isr_syscall k);
     Some (print io
       [Colour VGA_COLOR_LIGHT_GREEN, Put (line ''  [OK] Interrupts enabled''),
        Colour VGA_COLOR_LIGHT_GREY, Put ([10] @ chars ''  Type '' @ [39] @ chars ''help'' @ [39] @
          line '' for available commands.'' @ [10])] (boot_disk io k))
   }"

section \<open>Drivers and the parts of the machine they do not touch\<close>

text \<open>The accesses to the ports \<open>P\<close> do not disturb the part of the machine \<open>view\<close> shows.\<close>

definition untouched :: "'d io \<Rightarrow> u16 set \<Rightarrow> ('d \<Rightarrow> 'v) \<Rightarrow> bool" where
  "untouched io P view \<longleftrightarrow> (\<forall>p \<in> P. \<forall>d. (\<forall>v. view (outb io p v d) = view d) \<and> (\<forall>w. view (outw io p w d) = view d) \<and>
     view (snd (inb io p d)) = view d \<and> view (snd (inw io p d)) = view d)"

lemma untouchedD:
  assumes "untouched io P view" "p \<in> P"
  shows "view (outb io p v d) = view d" "view (outw io p w d) = view d" "view (snd (inb io p d)) = view d"
    "view (snd (inw io p d)) = view d" "inb io p d = (a, d') \<Longrightarrow> view d' = view d" "inw io p d = (b, d') \<Longrightarrow> view d' = view d"
  using assms unfolding untouched_def by (auto dest!: bspec[of _ _ p] spec[of _ d])

lemma untouched_mono: "untouched io P view \<Longrightarrow> Q \<subseteq> P \<Longrightarrow> untouched io Q view"
  by (auto simp: untouched_def)

definition CURSOR_PORTS :: "u16 set" where "CURSOR_PORTS = {0x3D4, 0x3D5}"
definition ATA_PORTS :: "u16 set" where
  "ATA_PORTS = {0x1F0, 0x1F2, 0x1F3, 0x1F4, 0x1F5, 0x1F6, 0x1F7, 0x3F6}"

lemma untouched_vga: "untouched io CURSOR_PORTS view \<Longrightarrow> vga_wired io view"
  by (auto simp: vga_wired_def CURSOR_PORTS_def intro: untouchedD(1))

text \<open>The disk driver uses the ports of its drive only.\<close>

lemma ata_ports:
  "ATA_DATA \<in> ATA_PORTS" "ATA_SECT_COUNT \<in> ATA_PORTS" "ATA_LBA_LOW \<in> ATA_PORTS" "ATA_LBA_MID \<in> ATA_PORTS"
  "ATA_LBA_HIGH \<in> ATA_PORTS" "ATA_DRIVE_HEAD \<in> ATA_PORTS" "ATA_STATUS \<in> ATA_PORTS" "ATA_COMMAND \<in> ATA_PORTS"
  "ATA_ALT_STATUS \<in> ATA_PORTS"
  by (simp_all add: ATA_PORTS_def kconst)

lemma ata_keeps_poll:
  assumes "untouched io ATA_PORTS view"
  shows "view (snd (wait_not_busy_loop io n d)) = view d" "view (snd (wait_drq_loop io n d)) = view d"
    "view (snd (read_words io n d)) = view d" "view (ata_delay_400ns io d) = view d"
proof -
  note u = untouchedD[OF assms] and p = ata_ports
  show "view (snd (wait_not_busy_loop io n d)) = view d"
    by (induction n arbitrary: d) (simp_all add: wait_not_busy_loop.simps split_beta u(3)[OF p(7)])
  show "view (snd (wait_drq_loop io n d)) = view d"
    by (induction n arbitrary: d) (simp_all add: wait_drq_loop.simps split_beta u(3)[OF p(7)])
  show "view (snd (read_words io n d)) = view d"
    by (induction n arbitrary: d) (simp_all add: split_beta u(4)[OF p(1)])
  show "view (ata_delay_400ns io d) = view d" by (simp add: ata_delay_400ns_def u(3)[OF p(9)])
qed

lemma ata_keeps:
  assumes "untouched io ATA_PORTS view"
  shows "view (snd (ata_init io d)) = view d" "view (snd (snd (ata_read_sectors io lba count d))) = view d"
proof -
  note u = untouchedD[OF assms] and p = ata_ports and k = ata_keeps_poll[OF assms]
  have ports: "view (outb io q v d) = view d" "view (snd (inb io q d)) = view d"
    if "q \<in> {ATA_SECT_COUNT, ATA_LBA_LOW, ATA_LBA_MID, ATA_LBA_HIGH, ATA_DRIVE_HEAD, ATA_STATUS, ATA_COMMAND}" for q v d
    using that p by (auto intro: u(1,3))
  show "view (snd (ata_init io d)) = view d"
    by (simp add: ata_init_def Let_def split_beta ata_wait_not_busy_def ata_wait_drq_def ports k)
  have "view (snd (snd (read_sectors_loop io n d))) = view d" for n d
    by (induction n arbitrary: d) (simp_all add: Let_def split_beta ata_wait_drq_def k)
  then show "view (snd (snd (ata_read_sectors io lba count d))) = view d"
    by (simp add: ata_read_sectors_def Let_def split_beta ata_wait_not_busy_def ata_issue_def ports k)
qed

lemma fs_init_keeps:
  assumes "untouched io ATA_PORTS view"
  shows "view (fdev (snd (fs_init (ata_blk io) s))) = view (fdev s)"
  using ata_keeps(2)[OF assms] by (simp add: fs_init_def read_super_def Let_def split_beta ata_blk_def)

section \<open>Messages\<close>

text \<open>A step that only prints: every other component keeps its state, and so does the part of the machine \<open>view\<close> shows.\<close>

definition prints :: "('d \<Rightarrow> 'v) \<Rightarrow> 'd kernel \<Rightarrow> 'd kernel \<Rightarrow> bool" where
  "prints view k k' \<longleftrightarrow> kheap k' = kheap k \<and> ksched k' = ksched k \<and> kdrv k' = kdrv k \<and> kipc k' = kipc k \<and>
     kfds k' = kfds k \<and> view (kdev k') = view (kdev k) \<and> (con_ok (kcon k) \<longrightarrow> con_ok (kcon k'))"

lemma prints_on_con:
  assumes "view (vdev (f ((kcon k)\<lparr>vdev := kdev k\<rparr>))) = view (kdev k)"
    and "con_ok (kcon k) \<Longrightarrow> con_ok (f ((kcon k)\<lparr>vdev := kdev k\<rparr>))"
  shows "prints view k (on_con f k)"
  using assms by (simp add: prints_def on_con_def Let_def)

lemma prints_print: "vga_wired io view \<Longrightarrow> prints view k (print io ps k)"
  unfolding print_def by (rule prints_on_con) (simp_all add: view_emits con_ok_emits)

lemma printf_text:
  assumes "0 \<notin> set t" "37 \<notin> set t"
  shows "vga_printf io (t @ fmt) args s = vga_printf io fmt args (vga_puts io t s)"
  using assms
proof (induction t arbitrary: s)
  case (Cons c t)
  then show ?case by (subst vga_printf.simps) auto
qed simp

lemma printf_unsigned:
  "vga_printf io (37 # 117 # fmt) (Int_arg v # args) s = vga_printf io fmt args (vga_puts io (decimal v) s)"
  by (subst vga_printf.simps) (simp add: parse_flags_def printf_spec_def print_padded_decimal)

lemma printf_end: "vga_printf io [] args s = Some s"
  by (simp add: vga_printf.simps)

text \<open>A message with one or two numbers prints the text with the numbers in their places.\<close>

lemma kprintf_prints:
  assumes "vga_wired io view" "vga_printf io fmt (map Int_arg args) ((kcon k)\<lparr>vdev := kdev k\<rparr>) =
      Some (vga_puts io t ((kcon k)\<lparr>vdev := kdev k\<rparr>))"
  shows "\<exists>k'. kprintf io fmt args k = Some k' \<and> prints view k k'"
proof -
  have "kprintf io fmt args k = Some (on_con (\<lambda>_. vga_puts io t ((kcon k)\<lparr>vdev := kdev k\<rparr>)) k)"
    by (simp add: kprintf_def assms(2))
  moreover have "prints view k (on_con (\<lambda>_. vga_puts io t ((kcon k)\<lparr>vdev := kdev k\<rparr>)) k)"
    by (rule prints_on_con) (simp_all add: view_puts[OF assms(1)] con_ok_puts)
  ultimately show ?thesis by blast
qed

lemma printf_number_text:
  assumes "0 \<notin> set a" "37 \<notin> set a" "0 \<notin> set b" "37 \<notin> set b"
  shows "vga_printf io (a @ 37 # 117 # b) [Int_arg v] s = Some (vga_puts io (a @ decimal v @ b) s)"
proof -
  have "vga_printf io (a @ 37 # 117 # b) [Int_arg v] s = vga_printf io (b @ []) [] (vga_puts io (decimal v) (vga_puts io a s))"
    using assms(1,2) by (simp add: printf_text printf_unsigned)
  also have "\<dots> = Some (vga_puts io b (vga_puts io (decimal v) (vga_puts io a s)))"
    by (simp only: printf_text[OF assms(3,4)] printf_end)
  finally show ?thesis using assms is_dec_nz[OF decimal_chars[of v]] by (simp add: vga_puts_append)
qed

text \<open>The formats of the messages, split at their conversions.\<close>

lemma boot_formats:
  "line ''  [OK] PIT timer       (IRQ0, 100 Hz, preempt every %u ticks)'' =
     chars ''  [OK] PIT timer       (IRQ0, 100 Hz, preempt every '' @ 37 # 117 # line '' ticks)''"
  "line ''  [OK] IPC pipes       (%u slots x %u B ring buffer)'' =
     chars ''  [OK] IPC pipes       ('' @ 37 # 117 # chars '' slots x '' @ 37 # 117 # line '' B ring buffer)''"
  "line ''  [OK] FD table        (%u slots)'' = chars ''  [OK] FD table        ('' @ 37 # 117 # line '' slots)''"
  "line ''  [OK] Scheduler       (preemptive round-robin, max %u procs)'' =
     chars ''  [OK] Scheduler       (preemptive round-robin, max '' @ 37 # 117 # line '' procs)''"
  by (simp_all add: line_def chars_def of_char_def)

lemma kprintf_number:
  assumes "vga_wired io view" "0 \<notin> set a" "37 \<notin> set a" "0 \<notin> set b" "37 \<notin> set b"
  shows "\<exists>k'. kprintf io (a @ 37 # 117 # b) [v] k = Some k' \<and> prints view k k'"
  using assms(2-) by (intro kprintf_prints[OF assms(1)]) (simp add: printf_number_text)

lemma kprintf_numbers:
  assumes "vga_wired io view" "0 \<notin> set a" "37 \<notin> set a" "0 \<notin> set b" "37 \<notin> set b" "0 \<notin> set c" "37 \<notin> set c"
  shows "\<exists>k'. kprintf io (a @ 37 # 117 # b @ 37 # 117 # c) [v, w] k = Some k' \<and> prints view k k'"
  using assms(2-) is_dec_nz[OF decimal_chars[of v]]
  by (intro kprintf_prints[OF assms(1), where t = "a @ decimal v @ b @ decimal w @ c"])
    (simp add: printf_text[of a] printf_unsigned printf_number_text vga_puts_append)

lemma boot_messages:
  assumes "vga_wired io view"
  shows "\<exists>k'. kprintf io (line ''  [OK] PIT timer       (IRQ0, 100 Hz, preempt every %u ticks)'') [v] k = Some k' \<and> prints view k k'"
    "\<exists>k'. kprintf io (line ''  [OK] IPC pipes       (%u slots x %u B ring buffer)'') [v, w] k = Some k' \<and> prints view k k'"
    "\<exists>k'. kprintf io (line ''  [OK] FD table        (%u slots)'') [v] k = Some k' \<and> prints view k k'"
    "\<exists>k'. kprintf io (line ''  [OK] Scheduler       (preemptive round-robin, max %u procs)'') [v] k = Some k' \<and> prints view k k'"
  unfolding boot_formats
  by (intro kprintf_number[OF assms] kprintf_numbers[OF assms]; simp add: line_def chars_def of_char_def)+

section \<open>The parts of the start\<close>

definition PIC_PORTS :: "u16 set" where "PIC_PORTS = {0x20, 0x21, 0xA0, 0xA1}"
definition UART_PORTS :: "u16 set" where "UART_PORTS = {0x3F8 .. 0x3FF}"

text \<open>The machine the kernel starts on: interrupt controllers and a serial port at their ports, and nowhere else.\<close>

definition board :: "'d io \<Rightarrow> ('d \<Rightarrow> i8259) \<Rightarrow> ('d \<Rightarrow> i8259) \<Rightarrow> ('d \<Rightarrow> uart) \<Rightarrow> ('d \<Rightarrow> nat) \<Rightarrow> bool" where
  "board io p1 p2 u polls \<longleftrightarrow> pics_wired io p1 p2 \<and> uart_wired io u polls \<and>
     untouched io (- PIC_PORTS) (\<lambda>d. (p1 d, p2 d)) \<and> untouched io (- UART_PORTS) u"

lemma uart_ports: "p \<in> UART_PORTS \<longleftrightarrow> 1016 \<le> uint p \<and> uint p \<le> 1023"
  by (simp add: UART_PORTS_def word_le_def)

lemma boardD:
  assumes "board io p1 p2 u polls"
  shows "vga_wired io (\<lambda>d. (p1 d, p2 d, u d))" "untouched io ATA_PORTS (\<lambda>d. (p1 d, p2 d, u d))"
    "untouched io (PIC_PORTS \<union> {0x40, 0x43, 0x80}) u" "untouched io ({0x40, 0x43} \<union> UART_PORTS) (\<lambda>d. (p1 d, p2 d))"
proof -
  have u: "p \<notin> PIC_PORTS \<Longrightarrow> p \<notin> UART_PORTS \<Longrightarrow> untouched io {p} (\<lambda>d. (p1 d, p2 d, u d))" for p
    using assms unfolding board_def untouched_def by auto
  have "untouched io CURSOR_PORTS (\<lambda>d. (p1 d, p2 d, u d))"
    using u[of "0x3D4"] u[of "0x3D5"] by (simp add: PIC_PORTS_def CURSOR_PORTS_def uart_ports untouched_def)
  then show "vga_wired io (\<lambda>d. (p1 d, p2 d, u d))" by (rule untouched_vga)
  have "p \<notin> PIC_PORTS \<and> p \<notin> UART_PORTS" if "p \<in> ATA_PORTS" for p
    using that by (auto simp: PIC_PORTS_def ATA_PORTS_def uart_ports)
  then show "untouched io ATA_PORTS (\<lambda>d. (p1 d, p2 d, u d))" using u unfolding untouched_def by blast
  show "untouched io (PIC_PORTS \<union> {0x40, 0x43, 0x80}) u"
    by (rule untouched_mono[of _ "- UART_PORTS"]) (use assms in \<open>auto simp: board_def PIC_PORTS_def uart_ports\<close>)
  show "untouched io ({0x40, 0x43} \<union> UART_PORTS) (\<lambda>d. (p1 d, p2 d))"
    by (rule untouched_mono[of _ "- PIC_PORTS"]) (use assms in \<open>auto simp: board_def PIC_PORTS_def uart_ports\<close>)
qed

lemma serial_keeps:
  assumes "untouched io UART_PORTS view"
  shows "view (serial_init io d) = view d" "serial_puts io s d = Some d' \<Longrightarrow> view d' = view d"
proof -
  have ports: "COM1_DATA \<in> UART_PORTS" "COM1_IER \<in> UART_PORTS" "COM1_FCR \<in> UART_PORTS" "COM1_LCR \<in> UART_PORTS"
    "COM1_MCR \<in> UART_PORTS" "COM1_LSR \<in> UART_PORTS" "COM1_DLL \<in> UART_PORTS" "COM1_DLH \<in> UART_PORTS"
    by (simp_all add: uart_ports kconst)
  note t = untouchedD[OF assms]
  show "view (serial_init io d) = view d" by (simp add: serial_init_def Let_def t(1) ports)
  have w: "serial_wait io d = Some d' \<Longrightarrow> view d' = view d" for d d'
  proof -
    assume "serial_wait io d = Some d'"
    then have "io = io \<longrightarrow> view d' = view d"
    proof (rule serial_wait.raw_induct[where P = "\<lambda>i d d'. i = io \<longrightarrow> view d' = view d", rotated])
      fix sw i d d'
      assume IH: "\<And>i d y. sw i d = Some y \<Longrightarrow> i = io \<longrightarrow> view y = view d"
        and run: "(let (ready, d) = serial_tx_ready i d in if ready then Some d else sw i d) = Some d'"
      have "view (snd (serial_tx_ready io d)) = view d" by (simp add: serial_tx_ready_def split_beta t(3)[OF ports(6)])
      then show "i = io \<longrightarrow> view d' = view d" using IH run by (auto simp: split_beta Let_def split: if_splits)
    qed
    then show "view d' = view d" by simp
  qed
  have "serial_putc io c d = Some d' \<Longrightarrow> view d' = view d" for c d d'
    by (auto simp: serial_putc_def t(1) ports dest!: w split: option.splits)
  then show "serial_puts io s d = Some d' \<Longrightarrow> view d' = view d"
    by (induction s arbitrary: d) (fastforce split: if_splits option.splits)+
qed

lemma print_fields [simp]:
  "kheap (print io ps k) = kheap k" "ksched (print io ps k) = ksched k" "kdrv (print io ps k) = kdrv k"
  "kipc (print io ps k) = kipc k" "kfds (print io ps k) = kfds k"
  by (simp_all add: print_def on_con_def Let_def)

lemma print_view: "vga_wired io view \<Longrightarrow> view (kdev (print io ps k)) = view (kdev k)"
  and print_con: "con_ok (kcon k) \<Longrightarrow> con_ok (kcon (print io ps k))"
  by (simp_all add: print_def on_con_def Let_def view_emits con_ok_emits)

lemma on_dev_fields [simp]:
  "kdev (on_dev f k) = f (kdev k)" "kheap (on_dev f k) = kheap k" "ksched (on_dev f k) = ksched k" "kdrv (on_dev f k) = kdrv k"
  "kipc (on_dev f k) = kipc k" "kfds (on_dev f k) = kfds k" "kcon (on_dev f k) = kcon k"
  by (simp_all add: on_dev_def)

lemma on_cpu_fields [simp]:
  "kdev (on_cpu f k) = kdev k" "kheap (on_cpu f k) = kheap k" "kdrv (on_cpu f k) = kdrv k"
  "kipc (on_cpu f k) = kipc k" "kfds (on_cpu f k) = kfds k" "kcon (on_cpu f k) = kcon k"
  "ksched (on_cpu f k) = (ksched k)\<lparr>cpu := f (cpu (ksched k))\<rparr>"
  by (simp_all add: on_cpu_def)

lemma boot_banner_ok:
  assumes "vga_wired io view" "length (vga_buffer (kcon k)) = 2000"
  shows "prints view k (boot_banner io k)" "con_ok (kcon (boot_banner io k))"
proof -
  let ?k = "on_con (vga_init io) k"
  have i: "prints view k ?k" "con_ok (kcon ?k)"
  proof -
    let ?s = "((kcon k)\<lparr>vdev := kdev k\<rparr>)\<lparr>vga_row := 0, vga_col := 0,
      vga_color := make_color VGA_COLOR_LIGHT_GREY VGA_COLOR_BLACK\<rparr>"
    have c: "vga_init io ((kcon k)\<lparr>vdev := kdev k\<rparr>) = vga_clear io ?s" by (simp add: vga_init_def)
    have "con_ok (vga_clear io ?s)" using vga_clear_eq[of ?s io] assms(2) by (simp add: con_ok_def)
    moreover have "view (vdev (vga_clear io ?s)) = view (kdev k)"
      by (simp add: vga_clear_def Let_def view_update_cursor[OF assms(1)] fold_rows_const[of vdev])
    ultimately show "prints view k ?k" "con_ok (kcon ?k)" unfolding prints_def on_con_def Let_def c by simp_all
  qed
  then show "prints view k (boot_banner io k)" "con_ok (kcon (boot_banner io k))"
    using prints_print[OF assms(1), of ?k] unfolding boot_banner_def prints_def by simp_all
qed

lemma boot_serial_ok:
  assumes "board io p1 p2 u polls" "\<not> dlab (u (kdev k))"
  shows "\<exists>d. boot_serial io k = Some (on_dev (\<lambda>_. d) k) \<and> p1 d = p1 (kdev k) \<and> p2 d = p2 (kdev k) \<and>
    sent (u d) = crlf (line ''VESPER: serial console active (115200 8N1)'')"
proof -
  let ?t = "line ''VESPER: serial console active (115200 8N1)''"
  have w: "uart_wired io u polls" using assms(1) by (simp add: board_def)
  note i = serial_init_sets[OF w assms(2)]
  have "\<not> dlab (u (serial_init io (kdev k)))" by (simp add: i dlab_def bit_numeral_rec)
  from serial_puts_sends[OF w this, of ?t] obtain d where
    d: "serial_puts io ?t (serial_init io (kdev k)) = Some d" "sent (u d) = crlf (cstr ?t)" by (auto simp: i)
  have t: "untouched io UART_PORTS (\<lambda>d. (p1 d, p2 d))" by (rule untouched_mono[OF boardD(4)[OF assms(1)]]) auto
  have "cstr ?t = ?t" by (rule cstr_id) (simp add: line_def chars_def of_char_def)
  then show ?thesis using d serial_keeps(2)[OF t d(1)] serial_keeps(1)[OF t, of "kdev k"]
    by (intro exI[of _ d]) (simp add: boot_serial_def)
qed

lemma boot_tables_ok:
  assumes "vga_wired io view"
  shows "kheap (boot_tables io isr irq k) = kmem_init (kheap k)"
    "ksched (boot_tables io isr irq k) =
       (ksched k)\<lparr>cpu := idt_init isr irq (tss_flush (gdt_init (tss_init 0x90000 (cpu (ksched k)))))\<rparr>"
    "kdrv (boot_tables io isr irq k) = kdrv k" "kipc (boot_tables io isr irq k) = kipc k"
    "kfds (boot_tables io isr irq k) = kfds k" "view (kdev (boot_tables io isr irq k)) = view (kdev k)"
    "con_ok (kcon k) \<Longrightarrow> con_ok (kcon (boot_tables io isr irq k))"
  by (simp_all add: boot_tables_def Let_def print_view[OF assms] print_con)

lemma boot_memory_ok:
  assumes "vga_wired io view"
  shows "kheap (boot_memory io sc k) = kheap k"
    "ksched (boot_memory io sc k) = (ksched k)\<lparr>cpu := syscall_init sc (cpu (ksched k)),
       mm := paging_init ((mm (ksched k))\<lparr>frames := pmm_init (memory (mm (ksched k)))\<rparr>)\<rparr>"
    "kdrv (boot_memory io sc k) = kdrv k" "kipc (boot_memory io sc k) = kipc k"
    "kfds (boot_memory io sc k) = kfds k" "view (kdev (boot_memory io sc k)) = view (kdev k)"
    "con_ok (kcon k) \<Longrightarrow> con_ok (kcon (boot_memory io sc k))"
  by (simp_all add: boot_memory_def Let_def print_view[OF assms] print_con on_kmm_def on_sched_def)

lemma boot_drivers_ok:
  assumes "board io p1 p2 u polls"
  shows "\<exists>k'. boot_drivers io k = Some k' \<and> kheap k' = kheap k \<and> ksched k' = ksched k \<and> kipc k' = kipc k \<and>
    kfds k' = kfds k \<and> irq_handlers (kdrv k') = (irq_handlers (kdrv k))[0 := Some Timer_irq, 1 := Some Keyboard_irq] \<and>
    ticks (kdrv k') = 0 \<and> kb_buf (kdrv k') = kb_buf (kdrv k) \<and> kb_head (kdrv k') = 0 \<and> kb_tail (kdrv k') = 0 \<and>
    kb_flags (kdrv k') = (False, False) \<and>
    p1 (kdev k') = (p1 (kdev k))\<lparr>icw := 0, vec_base := 32, imr := 0xFC, in_service := 0\<rparr> \<and>
    p2 (kdev k') = (p2 (kdev k))\<lparr>icw := 0, vec_base := 40, imr := 0xFF, in_service := 0\<rparr> \<and>
    u (kdev k') = u (kdev k) \<and> (con_ok (kcon k) \<longrightarrow> con_ok (kcon k'))"
proof -
  let ?V = "\<lambda>d. (p1 d, p2 d, u d)"
  note vga = boardD(1)[OF assms] and pv = print_view[OF boardD(1)[OF assms]]
  have pw: "pics_wired io p1 p2" using assms by (simp add: board_def)
  note w = pics_wiredD[OF pw] and ini = pic_init_chips[OF pw]
  have uk: "u (outb io q v d) = u d" "u (snd (inb io q d)) = u d" if "q \<in> {0x20, 0x21, 0xA0, 0xA1, 0x40, 0x43, 0x80}" for q v d
    using that untouchedD(1,3)[OF boardD(3)[OF assms]] by (auto simp: PIC_PORTS_def)
  have pk: "p1 (outb io q v d) = p1 d" "p2 (outb io q v d) = p2 d" if "q \<in> {0x40, 0x43}" for q v d
    using that untouchedD(1)[OF boardD(4)[OF assms]] by auto
  have ui: "u (pic_init io d) = u d" for d by (simp add: pic_init_def io_wait_def Let_def kconst uk)
  define k1 where "k1 = print io [Colour VGA_COLOR_LIGHT_GREEN, Put (line ''  [OK] PIC remapped    (IRQ0-15 -> INT 32-47)'')]
    (on_dev (pic_init io) k)"
  have v1: "p1 (kdev k1) = (p1 (kdev k))\<lparr>icw := 0, vec_base := 32, imr := 0xFF, in_service := 0\<rparr>"
      "p2 (kdev k1) = (p2 (kdev k))\<lparr>icw := 0, vec_base := 40, imr := 0xFF, in_service := 0\<rparr>" "u (kdev k1) = u (kdev k)"
    using pv[of _ "on_dev (pic_init io) k"] ini[of "kdev k"] by (simp_all add: k1_def ui)
  define k2 where "k2 = print io [Colour VGA_COLOR_LIGHT_GREEN] (fst (on_drv (\<lambda>s. (timer_init io s, ())) k1))"
  have v2: "p1 (kdev k2) = (p1 (kdev k1))\<lparr>imr := 0xFE\<rparr>" "p2 (kdev k2) = p2 (kdev k1)" "u (kdev k2) = u (kdev k1)"
    using pv[of _ "fst (on_drv (\<lambda>s. (timer_init io s, ())) k1)"] v1
    by (simp_all add: k2_def on_drv_def timer_init_def irq_register_handler_def pic_unmask_irq_def kconst Let_def split_beta
        w pk uk chip_data_def)
  obtain k3 where k3: "kprintf io (line ''  [OK] PIT timer       (IRQ0, 100 Hz, preempt every %u ticks)'') [SCHED_SLICE] k2 = Some k3"
      "prints ?V k2 k3" using boot_messages(1)[OF vga] by blast
  define k4 where "k4 = fst (on_drv (\<lambda>s. (keyboard_init io s, ())) k3)"
  have v4: "p1 (kdev k4) = (p1 (kdev k3))\<lparr>imr := imr (p1 (kdev k3)) AND NOT 2\<rparr>" "p2 (kdev k4) = p2 (kdev k3)" "u (kdev k4) = u (kdev k3)"
    using k3(2) v1 v2
    by (simp_all add: prints_def k4_def on_drv_def keyboard_init_def irq_register_handler_def pic_unmask_irq_def kconst Let_def
        split_beta w pk uk chip_data_def)
  define k5 where "k5 = print io [Colour VGA_COLOR_LIGHT_GREEN, Put (line ''  [OK] Keyboard driver (IRQ1, extended scancodes)'')] k4"
  have "boot_drivers io k = Some k5"
    using k3(1) by (simp add: boot_drivers_def k1_def k2_def k4_def k5_def)
  moreover have "p1 (kdev k5) = (p1 (kdev k))\<lparr>icw := 0, vec_base := 32, imr := 0xFC, in_service := 0\<rparr>"
      "p2 (kdev k5) = (p2 (kdev k))\<lparr>icw := 0, vec_base := 40, imr := 0xFF, in_service := 0\<rparr>" "u (kdev k5) = u (kdev k)"
    using pv[of _ k4] v4 v2 v1 k3(2) by (simp_all add: k5_def prints_def)
  moreover have "con_ok (kcon k) \<longrightarrow> con_ok (kcon k5)"
    using k3(2) by (simp add: k5_def k4_def k2_def k1_def print_con on_drv_def prints_def)
  moreover have "kheap k5 = kheap k" "ksched k5 = ksched k" "kipc k5 = kipc k" "kfds k5 = kfds k"
      "irq_handlers (kdrv k5) = (irq_handlers (kdrv k))[0 := Some Timer_irq, 1 := Some Keyboard_irq]" "ticks (kdrv k5) = 0"
      "kb_buf (kdrv k5) = kb_buf (kdrv k)" "kb_head (kdrv k5) = 0" "kb_tail (kdrv k5) = 0" "kb_flags (kdrv k5) = (False, False)"
    using k3(2) by (simp_all add: k5_def k4_def k2_def k1_def on_drv_def prints_def timer_init_def keyboard_init_def
      irq_register_handler_def Let_def kb_flags_def)
  ultimately show ?thesis by blast
qed

lemma boot_services_ok:
  assumes "vga_wired io view"
  shows "\<exists>k'. boot_services io idle k = Some k' \<and> kheap k' = kheap k \<and> ksched k' = process_init idle (ksched k) \<and>
    kdrv k' = kdrv k \<and> pipes (kipc k') = replicate MAX_PIPES zero_pipe \<and> fd_table (kfds k') = replicate FD_MAX zero_fd \<and>
    view (kdev k') = view (kdev k) \<and> (con_ok (kcon k) \<longrightarrow> con_ok (kcon k'))"
proof -
  note pv = print_view[OF assms] and msg = boot_messages[OF assms]
  define k1 where "k1 = print io [Colour VGA_COLOR_LIGHT_GREEN] (fst (on_ipc (\<lambda>s. (pipe_init s, ())) k))"
  obtain k2 where k2: "kprintf io (line ''  [OK] IPC pipes       (%u slots x %u B ring buffer)'') [of_nat MAX_PIPES, PIPE_BUF_SIZE] k1 = Some k2"
      "prints view k1 k2" using msg(2) by blast
  define k3 where "k3 = print io [Colour VGA_COLOR_LIGHT_GREEN] (fst (on_fds (\<lambda>s. (fd_init s, ())) k2))"
  obtain k4 where k4: "kprintf io (line ''  [OK] FD table        (%u slots)'') [of_nat FD_MAX] k3 = Some k4" "prints view k3 k4"
    using msg(3) by blast
  define k5 where "k5 = print io [Colour VGA_COLOR_LIGHT_GREEN] (fst (on_sched (\<lambda>s. (process_init idle s, ())) k4))"
  obtain k6 where k6: "kprintf io (line ''  [OK] Scheduler       (preemptive round-robin, max %u procs)'') [of_nat MAX_PROCESSES] k5 = Some k6"
      "prints view k5 k6" using msg(4) by blast
  have run: "boot_services io idle k = Some k6"
    using k2(1) k4(1) k6(1) by (simp add: boot_services_def k1_def k3_def k5_def)
  have "kheap k6 = kheap k" "ksched k6 = process_init idle (ksched k)" "kdrv k6 = kdrv k" "view (kdev k6) = view (kdev k)"
      "pipes (kipc k6) = replicate MAX_PIPES zero_pipe" "fd_table (kfds k6) = replicate FD_MAX zero_fd"
    using k2(2) k4(2) k6(2)
    by (simp_all add: prints_def k1_def k3_def k5_def pv on_ipc_def on_fds_def on_sched_def pipe_init_def fd_init_def)
  moreover have "con_ok (kcon k) \<longrightarrow> con_ok (kcon k6)"
    using k2(2) k4(2) k6(2)
    by (simp add: prints_def k1_def k3_def k5_def print_con on_ipc_def on_fds_def on_sched_def)
  ultimately show ?thesis using run by blast
qed

lemma boot_disk_ok:
  assumes "vga_wired io view" "untouched io ATA_PORTS view"
  shows "kheap (boot_disk io k) = kheap k" "ksched (boot_disk io k) = ksched k" "kdrv (boot_disk io k) = kdrv k"
    "kipc (boot_disk io k) = kipc k" "fd_table (kfds (boot_disk io k)) = fd_table (kfds k)"
    "view (kdev (boot_disk io k)) = view (kdev k)" "con_ok (kcon k) \<Longrightarrow> con_ok (kcon (boot_disk io k))"
  using ata_keeps(1)[OF assms(2)] fs_init_keeps[OF assms(2)]
  by (simp_all add: boot_disk_def Let_def split_beta on_fs_def on_fds_def print_view[OF assms(1)] print_con)

section \<open>What the start establishes\<close>

text \<open>The stack of the idle process is built inside the process table, which is apart from the page tables.\<close>

definition table_pages :: "sched \<Rightarrow> nat set" where
  "table_pages s = {unat (table_addr s) div 4096 .. (unat (table_addr s) + 16 * 8252) div 4096}"

definition table_apart :: "sched \<Rightarrow> bool" where
  "table_apart s \<longleftrightarrow> unat (table_addr s) + 16 * 8252 \<le> 4294967296 \<and>
     table_pages s \<inter> {kdir (mm s), kframe (mm s), kframe (mm s) + 1} = {}"

lemma only_st_between:
  assumes "l \<le> a" "a + 4 \<le> h" "h \<le> 4294967296"
  shows "only m (st m a v) {l div 4096 .. h div 4096}"
  unfolding only_def
proof (intro allI impI)
  fix x :: u32
  assume "unat x div 4096 \<notin> {l div 4096 .. h div 4096}"
  then have "unat x < l \<or> h < unat x" by (metis atLeastAtMost_iff div_le_mono not_less)
  then show "st m a v x = m x" using assms by (intro st_frame) auto
qed

lemma kernel_tables_apart:
  assumes "kernel_tables m d k 2" "only m m' W" "W \<inter> {d, k, k + 1} = {}" "d < 256" "k + 2 \<le> 256"
  shows "kernel_tables m' d k 2"
proof -
  have keep: "ld m' (4096 * q + 4 * j) = ld m (4096 * q + 4 * j)" if "q < 256" "q \<notin> W" "j < 1024" for q j
    using that by (intro ld_only[OF assms(2)]) auto
  have "ld m' (4096 * d + 4 * j) = ld m (4096 * d + 4 * j)" if "j < 1024" for j
    using keep[of d j] that assms(3,4) by simp
  moreover have "ld m' (4096 * (k + t) + 4 * j) = ld m (4096 * (k + t) + 4 * j)" if "t < 2" "j < 1024" for t j
  proof (rule keep)
    show "k + t < 256" "k + t \<notin> W" using that assms(3,5) by (auto simp: less_2_cases_iff)
  qed (rule that(2))
  ultimately show ?thesis using assms(1) unfolding kernel_tables_def by simp
qed

lemma process_init_memory:
  assumes "length (process_table s) = 16" "table_apart s" "identity_mapped (mm s)" "kernel_layout (mm s)"
  shows "\<exists>m. mm (process_init idle s) = (mm s)\<lparr>memory := m\<rparr> \<and> identity_mapped ((mm s)\<lparr>memory := m\<rparr>)"
    "cpu (process_init idle s) = cpu s" "current_process (process_init idle s) = current_process s"
    "state_of (process_init idle s) 0 = PROC_READY"
proof -
  let ?t = "s\<lparr>process_table := map (\<lambda>p. p\<lparr>p_state := PROC_UNUSED, pid := 0, pd_phys := 0, is_user := False\<rparr>)
      (process_table s), next_pid := 0\<rparr>"
  have "alloc_slot ?t = Some 0"
    unfolding alloc_slot_def MAX_PROCESSES_def find_upt_least using assms(1) by (simp add: state_of_def)
  then obtain f where t: "process_init idle s = fill_slot 0 f idle ?t" "\<And>p. p_state (f p) = PROC_READY"
    unfolding process_init_def process_create_fill Let_def by auto
  define e where "e = unat (table_addr s) + 8232"
  have k: "kstack_top ?t 0 = of_nat (e + 20)"
    by (simp add: kstack_top_def e_def PROCESS_KSTACK_SIZE_def)
  have m: "memory (mm (process_init idle s)) =
      st (st (st (st (st (memory (mm s)) (e + 16) idle) (e + 12) 0) (e + 8) 0) (e + 4) 0) e 0"
    unfolding t(1) fill_slot_memory[OF k] by simp
  have on: "only (memory (mm s)) (memory (mm (process_init idle s))) (table_pages s)"
    unfolding m table_pages_def using assms(2)
    by (intro only_trans[OF only_st_between only_trans[OF only_st_between only_trans[OF only_st_between
      only_trans[OF only_st_between only_st_between]]]]) (simp_all add: e_def table_apart_def)
  have L: "kdir (mm s) < 256" "kframe (mm s) + 2 \<le> 256"
    using assms(4) unfolding kernel_layout_def Let_def kdir_def by blast+
  have kt: "kernel_tables (memory (mm s)) (kdir (mm s)) (kframe (mm s)) 2"
      "table_pages s \<inter> {kdir (mm s), kframe (mm s), kframe (mm s) + 1} = {}"
    using assms(2,3) unfolding identity_mapped_def table_apart_def by blast+
  have "kernel_tables (memory (mm (process_init idle s))) (kdir (mm s)) (kframe (mm s)) 2"
    by (rule kernel_tables_apart[OF kt(1) on kt(2) L])
  then have "identity_mapped ((mm s)\<lparr>memory := memory (mm (process_init idle s))\<rparr>)"
    by (simp add: identity_mapped_def kdir_def kframe_def)
  moreover have "mm (process_init idle s) = (mm s)\<lparr>memory := memory (mm (process_init idle s))\<rparr>"
    unfolding t(1) by (simp add: fill_slot_def build_initial_kstack_def store_def Let_def)
  ultimately show "\<exists>m. mm (process_init idle s) = (mm s)\<lparr>memory := m\<rparr> \<and> identity_mapped ((mm s)\<lparr>memory := m\<rparr>)"
    by blast
  show "cpu (process_init idle s) = cpu s" unfolding t(1) by (simp add: fill_slot_def build_initial_kstack_def store_def Let_def)
  show "current_process (process_init idle s) = current_process s" unfolding t(1) by (simp add: fill_slot_table)
  show "state_of (process_init idle s) 0 = PROC_READY"
    unfolding t(1) state_of_def using assms(1) t(2) by (simp add: fill_slot_table)
qed

text \<open>
  The state in which \<^verbatim>\<open>kernel_entry.asm\<close> calls \<^verbatim>\<open>kernel_main\<close>: the tables have their sizes, there is no current process,
  the page tables are page-aligned below 1 MB and apart from the process table, and the usable entries of the memory map
  do not overlap.
\<close>

definition map_disjoint :: "mem \<Rightarrow> bool" where
  "map_disjoint m \<longleftrightarrow> (\<forall>j < length (boot_entries m). \<forall>i < j.
     entry_frames (boot_entries m ! i) \<inter> entry_frames (boot_entries m ! j) = {})"

definition loaded :: "'d kernel \<Rightarrow> bool" where
  "loaded k \<longleftrightarrow> length (vga_buffer (kcon k)) = 2000 \<and> length (process_table (ksched k)) = 16 \<and>
     current_process (ksched k) = None \<and> irq_handlers (kdrv k) = replicate 16 None \<and> length (kb_buf (kdrv k)) = 64 \<and>
     0 < heap_base (kheap k) \<and> heap_base (kheap k) + unat HEAP_SIZE \<le> 4294967296 \<and>
     kernel_layout (mm (ksched k)) \<and> table_apart (ksched k) \<and> map_disjoint (memory (mm (ksched k)))"

lemma pmm_init_inv: "map_disjoint m \<Longrightarrow> pmm_inv (pmm_init m)"
  using pmm_init_default(1)[of m] pmm_init_counted[of m] unfolding map_disjoint_def by blast

lemma boot_sched_ok:
  fixes s :: sched and c :: cpu_tables and idle :: u32
  assumes "length (process_table s) = 16" "current_process s = None" "kernel_layout (mm s)" "table_apart s" "map_disjoint (memory (mm s))"
  defines "t \<equiv> process_init idle (s\<lparr>cpu := c, mm := paging_init ((mm s)\<lparr>frames := pmm_init (memory (mm s))\<rparr>)\<rparr>)"
  shows "sched_inv t" "current_process t = None" "state_of t 0 = PROC_READY" "identity_mapped (mm t)" "kernel_layout (mm t)"
    "bit (cr0 (mm t)) 31" "cr3 (mm t) = page_directory (mm t)" "pmm_inv (frames (mm t))" "cpu t = c" "frames (mm t) = pmm_init (memory (mm s))"
proof -
  let ?m = "(mm s)\<lparr>frames := pmm_init (memory (mm s))\<rparr>" and ?s = "s\<lparr>cpu := c, mm := paging_init ((mm s)\<lparr>frames := pmm_init (memory (mm s))\<rparr>)\<rparr>"
  have l: "kernel_layout ?m" using assms(3) by (simp add: kernel_layout_def kframe_def)
  obtain m where run: "paging_init ?m = ?m\<lparr>memory := m, cr3 := page_directory ?m, cr0 := cr0 ?m OR 0x80000000\<rparr>"
    and id: "identity_mapped (paging_init ?m)" using paging_init_spec[OF l] by blast
  have l': "kernel_layout (mm ?s)" using l by (simp add: run kernel_layout_def kframe_def)
  have ap: "table_apart ?s" using assms(4) by (simp add: table_apart_def table_pages_def run kdir_def kframe_def)
  have "length (process_table ?s) = 16" "identity_mapped (mm ?s)" using assms(1) id by simp_all
  note pi = process_init_memory[OF this(1) ap this(2) l', of idle, folded t_def]
  from pi(1) obtain m' where mm: "mm t = (mm ?s)\<lparr>memory := m'\<rparr>" "identity_mapped ((mm ?s)\<lparr>memory := m'\<rparr>)" by blast
  show "sched_inv t" unfolding t_def by (rule process_init_inv) (simp_all add: assms(1,2))
  show "current_process t = None" "state_of t 0 = PROC_READY" "cpu t = c" using pi assms(2) by simp_all
  show "identity_mapped (mm t)" using mm by (simp only: mm)
  show "kernel_layout (mm t)" using l' unfolding mm(1) by (simp add: kernel_layout_def kframe_def)
  show "frames (mm t) = pmm_init (memory (mm s))" unfolding mm(1) by (simp add: run)
  then show "pmm_inv (frames (mm t))" using pmm_init_inv[OF assms(5)] by simp
  show "cr3 (mm t) = page_directory (mm t)" unfolding mm(1) by (simp add: run)
  have "bit (cr0 (mm s) OR 0x80000000) 31" by (simp add: bit_or_iff bit_numeral_rec)
  then show "bit (cr0 (mm t)) 31" unfolding mm(1) by (simp add: run)
qed

lemma kernel_main_runs:
  assumes "board io p1 p2 u polls" "\<not> dlab (u (kdev k))" "length (vga_buffer (kcon k)) = 2000"
  obtains k' where "kernel_main io isr irq sc idle k = Some k'" "con_ok (kcon k')" "kheap k' = kmem_init (kheap k)"
    "ksched k' = process_init idle ((ksched k)\<lparr>
       cpu := syscall_init sc (idt_init isr irq (tss_flush (gdt_init (tss_init 0x90000 (cpu (ksched k)))))),
       mm := paging_init ((mm (ksched k))\<lparr>frames := pmm_init (memory (mm (ksched k)))\<rparr>)\<rparr>)"
    "pipes (kipc k') = replicate MAX_PIPES zero_pipe" "fd_table (kfds k') = replicate FD_MAX zero_fd"
    "irq_handlers (kdrv k') = (irq_handlers (kdrv k))[0 := Some Timer_irq, 1 := Some Keyboard_irq]"
    "ticks (kdrv k') = 0" "kb_buf (kdrv k') = kb_buf (kdrv k)" "kb_head (kdrv k') = 0" "kb_tail (kdrv k') = 0"
    "kb_flags (kdrv k') = (False, False)" "vec_base (p1 (kdev k')) = 32" "imr (p1 (kdev k')) = 0xFC" "vec_base (p2 (kdev k')) = 40" "imr (p2 (kdev k')) = 0xFF"
    "sent (u (kdev k')) = crlf (line ''VESPER: serial console active (115200 8N1)'')"
proof -
  let ?V = "\<lambda>d. (p1 d, p2 d, u d)"
  note vga = boardD(1)[OF assms(1)] and ata = boardD(2)[OF assms(1)]
  note b = boot_banner_ok[OF vga assms(3), unfolded prints_def]
  have "\<not> dlab (u (kdev (boot_banner io k)))" using b(1) assms(2) by simp
  then obtain d where d: "boot_serial io (boot_banner io k) = Some (on_dev (\<lambda>_. d) (boot_banner io k))"
      "sent (u d) = crlf (line ''VESPER: serial console active (115200 8N1)'')"
    using boot_serial_ok[OF assms(1), of "boot_banner io k"] by blast
  define k2 where "k2 = boot_tables io isr irq (on_dev (\<lambda>_. d) (boot_banner io k))"
  note t = boot_tables_ok[OF vga, where k = "on_dev (\<lambda>_. d) (boot_banner io k)" and isr = isr and irq = irq, folded k2_def, simplified]
  obtain k3 where k3: "boot_drivers io k2 = Some k3" "kheap k3 = kheap k2" "ksched k3 = ksched k2"
      "irq_handlers (kdrv k3) = (irq_handlers (kdrv k2))[0 := Some Timer_irq, 1 := Some Keyboard_irq]"
      "ticks (kdrv k3) = 0" "kb_buf (kdrv k3) = kb_buf (kdrv k2)" "kb_head (kdrv k3) = 0" "kb_tail (kdrv k3) = 0"
      "kb_flags (kdrv k3) = (False, False)"
      "p1 (kdev k3) = (p1 (kdev k2))\<lparr>icw := 0, vec_base := 32, imr := 0xFC, in_service := 0\<rparr>"
      "p2 (kdev k3) = (p2 (kdev k2))\<lparr>icw := 0, vec_base := 40, imr := 0xFF, in_service := 0\<rparr>"
      "u (kdev k3) = u (kdev k2)" "con_ok (kcon k2) \<longrightarrow> con_ok (kcon k3)"
    using boot_drivers_ok[OF assms(1), of k2] by blast
  note m = boot_memory_ok[OF vga, where k = k3 and sc = sc, simplified]
  obtain k5 where k5: "boot_services io idle (boot_memory io sc k3) = Some k5" "kheap k5 = kheap k3"
      "ksched k5 = process_init idle (ksched (boot_memory io sc k3))" "kdrv k5 = kdrv k3"
      "pipes (kipc k5) = replicate MAX_PIPES zero_pipe" "fd_table (kfds k5) = replicate FD_MAX zero_fd"
      "?V (kdev k5) = ?V (kdev k3)" "con_ok (kcon k3) \<longrightarrow> con_ok (kcon k5)"
    using boot_services_ok[OF vga, of idle "boot_memory io sc k3"] m by auto
  note e = boot_disk_ok[OF vga ata, of k5]
  have run: "kernel_main io isr irq sc idle k = Some (print io
       [Colour VGA_COLOR_LIGHT_GREEN, Put (line ''  [OK] Interrupts enabled''),
        Colour VGA_COLOR_LIGHT_GREY, Put ([10] @ chars ''  Type '' @ [39] @ chars ''help'' @ [39] @
          line '' for available commands.'' @ [10])] (boot_disk io k5))"
    unfolding kernel_main_def using d(1) k3(1) k5(1) by (simp add: k2_def)
  show thesis
    by (rule that[OF run])
      (use b t k3 m k5 e d(2) print_view[OF vga] in \<open>simp_all add: print_con\<close>)
qed

lemma boot_masks: "n < 8 \<Longrightarrow> bit (0xFC :: u8) n \<longleftrightarrow> 2 \<le> n" "n < 8 \<Longrightarrow> bit (0xFF :: u8) n"
proof -
  assume n: "n < 8"
  have "n \<in> {0, 1, 2, 3, 4, 5, 6, 7}" using n by auto
  then show "bit (0xFC :: u8) n \<longleftrightarrow> 2 \<le> n" "bit (0xFF :: u8) n" by (auto simp: bit_numeral_rec)
qed

text \<open>
  C2. From the state in which \<^verbatim>\<open>kernel_entry.asm\<close> calls it, \<^verbatim>\<open>kernel_main\<close> always reaches the shell, whatever the disk
  does, and leaves every component in the state its theorems assume: a console whose cursor is on the screen, a heap
  that is one free block, a scheduler whose invariant holds with the idle process ready, paging on with the identity
  map of the first 8 MB, an exact count of free frames none of which is below 1 MB, every pipe closed and descriptor free,
  an empty keyboard buffer, exactly the timer and keyboard handlers registered and exactly their two interrupt lines
  unmasked, on vectors 32 and 33, the descriptor tables of \<^verbatim>\<open>gdt_init\<close>, \<^verbatim>\<open>idt_init\<close> and \<^verbatim>\<open>syscall_init\<close> loaded, and the
  greeting sent to the serial port.
\<close>
theorem kernel_boots:
  assumes "board io p1 p2 u polls" "\<not> dlab (u (kdev k))" "loaded k"
  shows "\<exists>k'. kernel_main io isr irq sc idle k = Some k' \<and> con_ok (kcon k') \<and> heap_inv (kheap k') \<and>
    heap_blocks (kheap k') = [(262128, True)] \<and> sched_inv (ksched k') \<and> current_process (ksched k') = None \<and>
    state_of (ksched k') 0 = PROC_READY \<and> identity_mapped (mm (ksched k')) \<and> bit (cr0 (mm (ksched k'))) 31 \<and>
    cr3 (mm (ksched k')) = page_directory (mm (ksched k')) \<and> pmm_inv (frames (mm (ksched k'))) \<and>
    pipes (kipc k') = replicate 8 zero_pipe \<and> fd_table (kfds k') = replicate 16 zero_fd \<and>
    kb_inv (kdrv k') \<and> kb_contents (kdrv k') = [] \<and> kb_flags (kdrv k') = (False, False) \<and> ticks (kdrv k') = 0 \<and>
    irq_handlers (kdrv k') = [Some Timer_irq, Some Keyboard_irq] @ replicate 14 None \<and>
    (\<forall>n < 16. (line_masked (p1 (kdev k')) (p2 (kdev k')) n \<longleftrightarrow> 2 \<le> n) \<and>
       vector_of (p1 (kdev k')) (p2 (kdev k')) n = 32 + n) \<and>
    cpu (ksched k') = syscall_init sc (idt_init isr irq (tss_flush (gdt_init (tss_init 0x90000 (cpu (ksched k)))))) \<and>
    sent (u (kdev k')) = crlf (line ''VESPER: serial console active (115200 8N1)'')"
proof -
  have L: "length (vga_buffer (kcon k)) = 2000" "length (process_table (ksched k)) = 16" "current_process (ksched k) = None"
      "irq_handlers (kdrv k) = replicate 16 None" "length (kb_buf (kdrv k)) = 64" "0 < heap_base (kheap k)"
      "heap_base (kheap k) + unat HEAP_SIZE \<le> 4294967296" "kernel_layout (mm (ksched k))" "table_apart (ksched k)"
      "map_disjoint (memory (mm (ksched k)))"
    using assms(3) unfolding loaded_def by blast+
  obtain k' where r: "kernel_main io isr irq sc idle k = Some k'" "con_ok (kcon k')" "kheap k' = kmem_init (kheap k)"
    "ksched k' = process_init idle ((ksched k)\<lparr>
       cpu := syscall_init sc (idt_init isr irq (tss_flush (gdt_init (tss_init 0x90000 (cpu (ksched k)))))),
       mm := paging_init ((mm (ksched k))\<lparr>frames := pmm_init (memory (mm (ksched k)))\<rparr>)\<rparr>)"
    "pipes (kipc k') = replicate MAX_PIPES zero_pipe" "fd_table (kfds k') = replicate FD_MAX zero_fd"
    "irq_handlers (kdrv k') = (irq_handlers (kdrv k))[0 := Some Timer_irq, 1 := Some Keyboard_irq]"
    "ticks (kdrv k') = 0" "kb_buf (kdrv k') = kb_buf (kdrv k)" "kb_head (kdrv k') = 0" "kb_tail (kdrv k') = 0"
    "kb_flags (kdrv k') = (False, False)" "vec_base (p1 (kdev k')) = 32" "imr (p1 (kdev k')) = 0xFC" "vec_base (p2 (kdev k')) = 40" "imr (p2 (kdev k')) = 0xFF"
    "sent (u (kdev k')) = crlf (line ''VESPER: serial console active (115200 8N1)'')"
    by (rule kernel_main_runs[OF assms(1,2) L(1)])
  note s = boot_sched_ok[OF L(2,3,8,9,10), where idle = idle and
    c = "syscall_init sc (idt_init isr irq (tss_flush (gdt_init (tss_init 0x90000 (cpu (ksched k))))))", folded r(4)]
  have kb: "kb_inv (kdrv k')" "kb_contents (kdrv k') = []"
    using L(5) r(9-11) by (simp_all add: kb_inv_def kb_contents_def kb_used_def ring_list_def)
  have pics: "(line_masked (p1 (kdev k')) (p2 (kdev k')) n \<longleftrightarrow> 2 \<le> n) \<and> vector_of (p1 (kdev k')) (p2 (kdev k')) n = 32 + n"
    if "n < 16" for n
    using that r(13-16) by (auto simp: boot_masks line_masked_def vector_of_def simp del: bit_numeral_word_iff)
  have "irq_handlers (kdrv k') = [Some Timer_irq, Some Keyboard_irq] @ replicate 14 None"
    using r(7) L(4) by (simp add: numeral_eq_Suc)
  then show ?thesis using r(1,2,5,6,8,12,17) s kb pics kmem_init_inv[OF L(6,7)] r(3) by (simp add: MAX_PIPES_def FD_MAX_def)
qed

text \<open>A machine with controllers and serial port and no disk, with the kernel loaded.\<close>

definition board_io :: "((i8259 \<times> i8259) \<times> (uart \<times> nat)) io" where
  "board_io =
     \<lparr>inb = (\<lambda>port (a, b).
        if port = 0x3FD then let (v, b) = inb uart_io port b in (v, (a, b)) else let (v, a) = inb pic_io port a in (v, (a, b))),
      outb = (\<lambda>port v (a, b). if port \<in> UART_PORTS then (a, outb uart_io port v b) else (outb pic_io port v a, b)),
      inw = (\<lambda>_ d. (0xFFFF, d)), outw = (\<lambda>_ _ d. d)\<rparr>"

lemma board_io_board: "board board_io (fst \<circ> fst) (snd \<circ> fst) (fst \<circ> snd) (snd \<circ> snd)"
proof -
  have p: "0x20 \<notin> UART_PORTS" "0x21 \<notin> UART_PORTS" "0xA0 \<notin> UART_PORTS" "0xA1 \<notin> UART_PORTS" "0x80 \<notin> UART_PORTS"
    by (simp_all add: uart_ports)
  have pics: "pics_wired board_io (fst \<circ> fst) (snd \<circ> fst)"
    using pic_io_wired p unfolding pics_wired_def by (simp add: board_io_def split_beta Let_def)
  have r: "0x3F8 + r \<in> UART_PORTS" if "r < 8" for r
  proof -
    have "unat r < 8" using that by (simp add: word_less_nat_alt)
    then have "unat (0x3F8 + r) = 1016 + unat r" by (subst unat_plus_if_size) (simp add: word_size)
    then show ?thesis using \<open>unat r < 8\<close> by (simp add: UART_PORTS_def word_le_nat_alt)
  qed
  have uart: "uart_wired board_io (fst \<circ> snd) (snd \<circ> snd)"
    using uart_io_wired r unfolding uart_wired_def by (simp add: board_io_def split_beta Let_def)
  show ?thesis using pics uart unfolding board_def untouched_def
    by (auto simp: board_io_def split_beta Let_def pic_io_def PIC_PORTS_def uart_io_def UART_PORTS_def)
qed

definition board0 :: "(i8259 \<times> i8259) \<times> (uart \<times> nat)" where
  "board0 = ((chip0, chip0), (uart0, 1))"

definition kernel_image :: "'d \<Rightarrow> 'd kernel" where
  "kernel_image d =
     \<lparr>kdev = d, ksched = sched0\<lparr>mm := mm0\<rparr>, kdrv = drv0 d,
      kcon = \<lparr>vdev = d, vga_buffer = replicate 2000 0, vga_row = 0, vga_col = 0, vga_color = 0\<rparr>, kipc = boot_ipc,
      kfds = \<lparr>fd_table = replicate 16 zero_fd, ffs = \<lparr>fdev = d, dir_buf = [], sector_buf = []\<rparr>\<rparr>,
      kheap = \<lparr>kmem = (\<lambda>_. 0), heap_storage = 0x50000, heap_head = 0\<rparr>, kirqs = []\<rparr>"

lemma kernel_image_loaded: "loaded (kernel_image d)"
proof -
  have "mmap_count (memory mm0) = 0" by (simp add: mmap_count_def mm0_def load16_def)
  then have "map_disjoint (memory mm0)" by (simp add: map_disjoint_def boot_entries_def)
  then show ?thesis using mm0_layout
    by (simp add: loaded_def kernel_image_def Let_def sched0_def drv0_def heap_base_def HEAP_SIZE_def table_apart_def
      table_pages_def kdir_def kframe_def, simp add: mm0_def)
qed

theorem kernel_boots_witness:
  "\<exists>k'. kernel_main board_io (\<lambda>n. 0x2000) (\<lambda>n. 0x3000) 0x4000 0x1500 (kernel_image board0) = Some k' \<and> sched_inv (ksched k') \<and>
     \<not> line_masked (fst (fst (kdev k'))) (snd (fst (kdev k'))) 1 \<and> line_masked (fst (fst (kdev k'))) (snd (fst (kdev k'))) 14"
proof -
  have "\<not> dlab ((fst \<circ> snd) (kdev (kernel_image board0)))" by (simp add: kernel_image_def board0_def uart0_def dlab_def)
  from kernel_boots[OF board_io_board this kernel_image_loaded, of "\<lambda>n. 0x2000" "\<lambda>n. 0x3000" "0x4000" "0x1500"]
  obtain k' where k: "kernel_main board_io (\<lambda>n. 0x2000) (\<lambda>n. 0x3000) 0x4000 0x1500 (kernel_image board0) = Some k'" "sched_inv (ksched k')"
    and m: "\<forall>n < 16. line_masked (fst (fst (kdev k'))) (snd (fst (kdev k'))) n \<longleftrightarrow> 2 \<le> n"
    unfolding comp_apply by blast
  have "\<not> line_masked (fst (fst (kdev k'))) (snd (fst (kdev k'))) 1" "line_masked (fst (fst (kdev k'))) (snd (fst (kdev k'))) 14"
    using m[rule_format, of 1] m[rule_format, of 14] by simp_all
  then show ?thesis using k by blast
qed

end
