(* ===== verification/Syscall.thy ===== *)
theory Syscall
  imports Kernel
begin

text \<open>
  System calls, \<^verbatim>\<open>kernel/syscall.c\<close>: the dispatcher of \<^verbatim>\<open>INT 0x80\<close> over the whole kernel. Buffers and names are
  addresses in the caller's address space; the kernel reads and writes them through the page tables CR3 points to.
\<close>

section \<open>The code\<close>

text \<open>The physical byte behind an address under the current page directory; an address without one faults.\<close>

definition va_phys :: "mm \<Rightarrow> u32 \<Rightarrow> u32 option" where
  "va_phys m va = (if bit (cr0 m) 31 then map_option fst (translate (memory m) (cr3 m) va) else Some va)"

text \<open>The bytes of a buffer of \<open>n\<close> bytes up to the first that faults.\<close>

fun read_va :: "mm \<Rightarrow> u32 \<Rightarrow> nat \<Rightarrow> u8 list" where
  "read_va m va 0 = []"
| "read_va m va (Suc n) =
     (case va_phys m va of None \<Rightarrow> [] | Some pa \<Rightarrow> memory m pa # read_va m (va + 1) n)"

text \<open>
  Stores of the kernel through an address the caller chose, which it does not check. Below 8 MB the address is in the kernel's identity
  map, of its own code and data, of the page tables and of all frames, and a physical byte below 1 MB belongs to the kernel: there
  \<^verbatim>\<open>process_table\<close>, the pipes, the heap, the descriptors and the stacks lie. After such a store the rest of the state says nothing about
  the machine any more, and the copying ends here with \<open>Clobbered\<close>.
\<close>

datatype stored = Stored | Faulted | Clobbered

definition kernel_byte :: "u32 \<Rightarrow> u32 \<Rightarrow> bool" where
  "kernel_byte va pa \<longleftrightarrow> unat va < 0x800000 \<or> unat pa < 0x100000"

fun write_va :: "u32 \<Rightarrow> u8 list \<Rightarrow> mm \<Rightarrow> mm \<times> stored" where
  "write_va va [] m = (m, Stored)"
| "write_va va (b # bs) m =
     (case va_phys m va of None \<Rightarrow> (m, Faulted)
      | Some pa \<Rightarrow>
          let m = m\<lparr>memory := (memory m)(pa := b)\<rparr>
          in if kernel_byte va pa then (derail m, Clobbered) else write_va (va + 1) bs m)"

text \<open>
  A file name: the bytes before its NUL, of which at most 4096 matter, the size of the directory they are compared
  with. None when no NUL comes before the first byte that faults.
\<close>

definition name_va :: "mm \<Rightarrow> u32 \<Rightarrow> u8 list option" where
  "name_va m va =
     (let bs = read_va m va 4096 in if 0 \<in> set bs \<or> length bs = 4096 then Some (cstr bs) else None)"

text \<open>How a call ends: it returns a value, another process runs, it faults on a buffer, it overwrites the kernel, or it never ends.\<close>

datatype sys_result = Sys_returns u32 | Sys_switched | Sys_fault | Sys_corrupts | Sys_hangs

definition kmm :: "'d kernel \<Rightarrow> mm" where
  "kmm k = mm (ksched k)"

definition current_pid :: "'d kernel \<Rightarrow> u32" where
  "current_pid k = (case current_process (ksched k) of None \<Rightarrow> 0 | Some i \<Rightarrow> pid (process_table (ksched k) ! i))"

text \<open>Storing a call's result bytes in the caller's buffer, then its return value.\<close>

definition return_bytes :: "u32 \<Rightarrow> u8 list \<Rightarrow> int \<Rightarrow> 'd kernel \<Rightarrow> 'd kernel \<times> sys_result" where
  "return_bytes va bs r k =
     (let (m, st) = write_va va bs (kmm k)
      in (k\<lparr>ksched := (ksched k)\<lparr>mm := m\<rparr>\<rparr>,
          case st of Stored \<Rightarrow> Sys_returns (of_int r) | Faulted \<Rightarrow> Sys_fault | Clobbered \<Rightarrow> Sys_corrupts))"

definition sys_write :: "'d io \<Rightarrow> u32 \<Rightarrow> u32 \<Rightarrow> 'd kernel \<Rightarrow> 'd kernel \<times> sys_result" where
  "sys_write io buf0 len k =
     (let bs = read_va (kmm k) buf0 (unat len);
          k = on_con (fold (vga_putchar io) bs) k
      in (k, if length bs = unat len then Sys_returns len else Sys_fault))"

definition sys_open :: "'d io \<Rightarrow> u32 \<Rightarrow> 'd kernel \<Rightarrow> 'd kernel \<times> sys_result" where
  "sys_open io name k =
     (case name_va (kmm k) name of None \<Rightarrow> (k, Sys_fault)
      | Some n \<Rightarrow> let (k, fd) = on_fds (fd_open (ata_blk io) n (current_pid k)) k in (k, Sys_returns (of_int fd)))"

definition sys_read :: "'d io \<Rightarrow> u32 \<Rightarrow> u32 \<Rightarrow> u32 \<Rightarrow> 'd kernel \<Rightarrow> 'd kernel \<times> sys_result" where
  "sys_read io fd len buf0 k =
     (let (k, n, bs) = on_fds (fd_read (ata_blk io) (sint fd) len (current_pid k)) k in return_bytes buf0 bs n k)"

definition sys_gettime :: "'d io \<Rightarrow> 'd kernel \<Rightarrow> 'd kernel \<times> sys_result" where
  "sys_gettime io k =
     (case rtc_read io (kdev k) of None \<Rightarrow> (k, Sys_hangs)
      | Some (t, d) \<Rightarrow>
          (k\<lparr>kdev := d\<rparr>, Sys_returns (ucast (hour t) * 3600 + ucast (minute t) * 60 + ucast (second t))))"

text \<open>The copy loop of \<^verbatim>\<open>pipe_write\<close> stops when the pipe is full; it faults when it needs a byte that is not there.\<close>

definition sys_pipe_write :: "u32 \<Rightarrow> u32 \<Rightarrow> u32 \<Rightarrow> 'd kernel \<Rightarrow> 'd kernel \<times> sys_result" where
  "sys_pipe_write pipe_id len buf0 k =
     (let bs = read_va (kmm k) buf0 (unat len);
          (k', r) = on_ipc (pipe_write (sint pipe_id) bs) k
      in if r \<ge> 0 \<and> nat r = length bs \<and> length bs < unat len \<and> pcount (pipes (kipc k') ! nat (sint pipe_id)) < PIPE_BUF_SIZE
         then (k', Sys_fault) else (k', Sys_returns (of_int r)))"

definition sys_pipe_read :: "u32 \<Rightarrow> u32 \<Rightarrow> u32 \<Rightarrow> 'd kernel \<Rightarrow> 'd kernel \<times> sys_result" where
  "sys_pipe_read pipe_id len buf0 k =
     (let (k, r) = on_ipc (pipe_read (sint pipe_id) len) k
      in case r of Blocks \<Rightarrow> (k, Sys_switched) | Returns n bs \<Rightarrow> return_bytes buf0 bs n k)"

definition sys_unknown :: "'d io \<Rightarrow> u32 \<Rightarrow> 'd console \<Rightarrow> 'd console" where
  "sys_unknown io num s =
     (let s = vga_set_color VGA_COLOR_LIGHT_RED VGA_COLOR_BLACK s;
          s = vga_puts io (chars ''[syscall] unknown: '') s;
          s = vga_print_uint io num s;
          s = vga_putchar io 10 s
      in vga_set_color VGA_COLOR_LIGHT_GREY VGA_COLOR_BLACK s)"

definition SYS_EXIT :: u32 where [kconst]: "SYS_EXIT = 0"
definition SYS_WRITE :: u32 where [kconst]: "SYS_WRITE = 1"
definition SYS_GETPID :: u32 where [kconst]: "SYS_GETPID = 2"
definition SYS_SLEEP :: u32 where [kconst]: "SYS_SLEEP = 3"
definition SYS_YIELD :: u32 where [kconst]: "SYS_YIELD = 4"
definition SYS_KILL :: u32 where [kconst]: "SYS_KILL = 5"
definition SYS_OPEN :: u32 where [kconst]: "SYS_OPEN = 6"
definition SYS_READ :: u32 where [kconst]: "SYS_READ = 7"
definition SYS_CLOSE :: u32 where [kconst]: "SYS_CLOSE = 8"
definition SYS_GETTIME :: u32 where [kconst]: "SYS_GETTIME = 9"
definition SYS_PIPE_CREATE :: u32 where [kconst]: "SYS_PIPE_CREATE = 10"
definition SYS_PIPE_WRITE :: u32 where [kconst]: "SYS_PIPE_WRITE = 11"
definition SYS_PIPE_READ :: u32 where [kconst]: "SYS_PIPE_READ = 12"

text \<open>
  A call runs with interrupts off when the gate of \<^verbatim>\<open>INT 0x80\<close> is an interrupt gate (type 1110) and not a trap gate (type 1111): then the
  interrupts the devices raise stay pending and the sleep gets none of them.
\<close>

definition masks_interrupts :: "idt_entry \<Rightarrow> bool" where
  "masks_interrupts g \<longleftrightarrow> type_attr g AND 0x0F = 0x0E"

definition sys_sleep :: "'d io \<Rightarrow> u32 \<Rightarrow> 'd kernel \<Rightarrow> 'd kernel \<times> sys_result" where
  "sys_sleep io ms k =
     (let masked = masks_interrupts (idt_table (cpu (ksched k)) ! 0x80)
      in case timer_sleep_ms io ms (if masked then [] else kirqs k) ((kdrv k)\<lparr>dev := kdev k, dsched := ksched k\<rparr>) of
           None \<Rightarrow> (k, Sys_hangs)
         | Some (s, rest, switched) \<Rightarrow>
             ((fst (on_drv (\<lambda>_. (s, ())) k))\<lparr>kirqs := (if masked then kirqs k else rest)\<rparr>,
              if switched then Sys_switched else Sys_returns 0))"

text \<open>The calls that switch processes complete with the 0 already stored when the caller is scheduled again.\<close>

definition syscall_handler :: "'d io \<Rightarrow> registers \<Rightarrow> 'd kernel \<Rightarrow> 'd kernel \<times> sys_result" where
  "syscall_handler io regs k =
     (let num = r_eax regs; ebx0 = r_ebx regs; ecx0 = r_ecx regs; edx0 = r_edx regs
      in if num = SYS_EXIT then (k\<lparr>ksched := process_exit (ksched k)\<rparr>, Sys_switched)
      else if num = SYS_WRITE then sys_write io ebx0 ecx0 k
      else if num = SYS_GETPID then (k, Sys_returns (current_pid k))
      else if num = SYS_SLEEP then sys_sleep io ebx0 k
      else if num = SYS_YIELD then (k\<lparr>ksched := process_yield (ksched k)\<rparr>, Sys_switched)
      else if num = SYS_KILL then let (k, r) = on_sched (process_kill ebx0) k in (k, Sys_returns (of_int r))
      else if num = SYS_OPEN then sys_open io ebx0 k
      else if num = SYS_READ then sys_read io ebx0 ecx0 edx0 k
      else if num = SYS_CLOSE then
        (fst (on_fds (\<lambda>s. (fd_close (sint ebx0) (current_pid k) s, ())) k), Sys_returns 0)
      else if num = SYS_GETTIME then sys_gettime io k
      else if num = SYS_PIPE_CREATE then let (k, r) = on_ipc pipe_alloc k in (k, Sys_returns (of_int r))
      else if num = SYS_PIPE_WRITE then sys_pipe_write ebx0 ecx0 edx0 k
      else if num = SYS_PIPE_READ then sys_pipe_read ebx0 ecx0 edx0 k
      else (on_con (sys_unknown io num) k, Sys_returns (-1)))"

section \<open>Buffers of a process\<close>

text \<open>The memory system runs the address space of page directory \<open>p\<close>, and a buffer of \<open>n\<close> bytes lies in its mapped user pages.\<close>

definition runs_on :: "mm \<Rightarrow> nat \<Rightarrow> tables \<Rightarrow> pages \<Rightarrow> bool" where
  "runs_on m p T P \<longleftrightarrow> aspace m p T P \<and> cr3 m = of_nat (4096 * p) \<and> bit (cr0 m) 31"

definition user_buffer :: "pages \<Rightarrow> u32 \<Rightarrow> nat \<Rightarrow> bool" where
  "user_buffer P va n \<longleftrightarrow> 0x800000 \<le> unat va \<and> unat va + n \<le> 4294967296 \<and> (\<forall>i < n. P (page_of (va + of_nat i)) \<noteq> None)"

lemma user_buffer_Suc:
  assumes "user_buffer P va (Suc n)"
  shows "\<exists>f. P (page_of va) = Some f" "0x800000 \<le> unat va" "n = 0 \<or> unat (va + 1) = unat va + 1 \<and> user_buffer P (va + 1) n"
proof -
  show "0x800000 \<le> unat va" using assms by (simp add: user_buffer_def)
  have "P (page_of (va + of_nat 0)) \<noteq> None" using assms unfolding user_buffer_def by blast
  then show "\<exists>f. P (page_of va) = Some f" by auto
  show "n = 0 \<or> unat (va + 1) = unat va + 1 \<and> user_buffer P (va + 1) n"
  proof (cases "n = 0")
    case False
    then have u: "unat (va + 1) = unat va + 1" using assms by (subst unat_plus_u32) (simp_all add: user_buffer_def)
    have "P (page_of (va + 1 + of_nat i)) \<noteq> None" if "i < n" for i
    proof -
      have "P (page_of (va + of_nat (Suc i))) \<noteq> None" using assms that unfolding user_buffer_def by blast
      then show ?thesis by (simp add: add.assoc)
    qed
    then show ?thesis using assms u by (simp add: user_buffer_def)
  qed simp
qed

lemma va_phys_user:
  assumes "runs_on m p T P" "0x800000 \<le> unat va" "P (page_of va) = Some f"
  shows "va_phys m va = Some (of_nat (4096 * f) + (va AND 0xFFF))"
    "user_byte (memory m) P va = Some (memory m (of_nat (4096 * f) + (va AND 0xFFF)))"
proof -
  have "as_rep (memory m) (kframe m) p T P" using assms(1) by (simp add: runs_on_def aspace_def)
  from translate_page[OF this assms(2)] show "va_phys m va = Some (of_nat (4096 * f) + (va AND 0xFFF))"
    using assms by (simp add: va_phys_def runs_on_def del: of_nat_mult)
qed (simp add: user_byte_def assms(3))

lemma user_not_kernel:
  assumes "runs_on m p T P" "0x800000 \<le> unat va" "P (page_of va) = Some f"
  shows "\<not> kernel_byte va (of_nat (4096 * f) + (va AND 0xFFF))"
proof -
  have "f \<in> ran P" using assms(3) by (rule ranI)
  then have "256 \<le> f" "f < 8192" using assms(1) by (auto simp: runs_on_def aspace_def as_ok_def owned_def)
  then show ?thesis using assms(2) by (simp add: kernel_byte_def frame_byte del: of_nat_mult)
qed

text \<open>A read whose buffer is in the kernel's part of the address space overwrites the kernel: nothing stops it.\<close>

lemma read_into_kernel:
  assumes "va_phys (kmm k) va = Some pa" "unat va < 0x800000" "bs \<noteq> []"
  shows "snd (return_bytes va bs r k) = Sys_corrupts \<and> derailed (kmm (fst (return_bytes va bs r k)))"
  using assms by (cases bs) (simp_all add: return_bytes_def kernel_byte_def kmm_def Let_def)

lemma mapped_high:
  assumes "aspace m p T P" "P (page_of v) = Some g"
  shows "0x800000 \<le> unat v"
proof -
  have dm: "dom P \<subseteq> dom T \<times> {..< 1024}" "dom T \<subseteq> {2 ..< 1024}"
    using assms(1) by (simp_all add: aspace_def as_rep_def)
  have "page_of v \<in> dom T \<times> {..< 1024}" using assms(2) by (intro subsetD[OF dm(1)]) auto
  then have "fst (page_of v) \<in> {2 ..< 1024}" using subsetD[OF dm(2)] by (auto simp: mem_Times_iff)
  then have "2 \<le> unat v div 4194304" by (simp add: page_of_def)
  then show ?thesis by (simp add: less_eq_div_iff_mult_less_eq)
qed

text \<open>One byte of the kernel's write through the page tables.\<close>

lemma store_user:
  fixes m :: mm and va :: u32 and b :: u8
  assumes run: "runs_on m p T P" and f: "P (page_of va) = Some f"
  defines "m' \<equiv> (memory m)(of_nat (4096 * f) + (va AND 0xFFF) := b)"
  shows "runs_on (m\<lparr>memory := m'\<rparr>) p T P"
    "user_byte m' P v = (if unat v = unat va then Some b else user_byte (memory m) P v)"
proof -
  have as: "aspace m p T P" using run by (simp add: runs_on_def)
  have fr: "f \<in> ran P" using f by (rule ranI)
  then have fb: "f < 8192" "f \<noteq> p" "f \<notin> ran T" using as by (auto simp: aspace_def as_ok_def owned_def)
  have "unat (of_nat (4096 * f) + (va AND 0xFFF) :: u32) div 4096 = f" by (simp only: frame_byte[OF fb(1)])
  then have "only (memory m) m' {f}" by (auto simp: only_def m'_def simp del: of_nat_mult)
  then have as': "aspace (m\<lparr>memory := m'\<rparr>) p T P" using fb aspace_only[OF as, of m' "{f}" "derailed m"] by auto
  then show "runs_on (m\<lparr>memory := m'\<rparr>) p T P" using run by (simp add: runs_on_def)
  show "user_byte m' P v = (if unat v = unat va then Some b else user_byte (memory m) P v)"
  proof (cases "P (page_of v)")
    case None
    then have "v \<noteq> va" using f by auto
    then show ?thesis using None by (simp add: user_byte_def word_unat_eq_iff[of v va])
  next
    case (Some g)
    have rep: "as_rep (memory m) (kframe m) p T P" using as by (simp add: aspace_def)
    define pv where "pv = (of_nat (4096 * g) + (v AND 0xFFF) :: u32)"
    define pa where "pa = (of_nat (4096 * f) + (va AND 0xFFF) :: u32)"
    have tr: "translate (memory m) (of_nat (4096 * p)) v = Some (pv, True)"
      "translate (memory m) (of_nat (4096 * p)) va = Some (pa, True)"
      using translate_page[OF rep mapped_high[OF as Some]] translate_page[OF rep mapped_high[OF as f]] Some f
      by (simp_all only: pv_def pa_def option.case)
    have "pv = pa \<longleftrightarrow> v = va"
    proof
      assume "pv = pa"
      then show "v = va" using translate_user_inj[OF as tr(1)] tr(2) by (simp only:)
    next
      assume "v = va"
      then show "pv = pa" using tr by (simp only: option.inject prod.inject)
    qed
    then have "m' pv = (if unat v = unat va then b else memory m pv)"
      unfolding m'_def pa_def[symmetric] by (simp add: word_unat_eq_iff[of v va])
    then show ?thesis using Some by (simp add: user_byte_def pv_def del: of_nat_mult)
  qed
qed

lemma write_va_user:
  assumes "runs_on m p T P" "user_buffer P va (length bs)"
  shows "\<exists>m'. write_va va bs m = (m\<lparr>memory := m'\<rparr>, Stored) \<and> runs_on (m\<lparr>memory := m'\<rparr>) p T P \<and>
    (\<forall>v. user_byte m' P v = (if unat va \<le> unat v \<and> unat v < unat va + length bs then Some (bs ! (unat v - unat va))
       else user_byte (memory m) P v))"
  using assms
proof (induction bs arbitrary: va m)
  case Nil
  then show ?case by (intro exI[of _ "memory m"]) auto
next
  case (Cons b bs)
  note ub = user_buffer_Suc[of P va "length bs"]
  obtain f where f: "P (page_of va) = Some f" "0x800000 \<le> unat va" using ub Cons.prems(2) by auto
  define m1 where "m1 = (memory m)(of_nat (4096 * f) + (va AND 0xFFF) := b)"
  note st1 = store_user[OF Cons.prems(1) f(1), of b, folded m1_def]
  have step: "write_va va (b # bs) m = write_va (va + 1) bs (m\<lparr>memory := m1\<rparr>)"
    using va_phys_user(1)[OF Cons.prems(1) f(2,1)] user_not_kernel[OF Cons.prems(1) f(2,1)] by (simp add: m1_def del: of_nat_mult)
  show ?case
  proof (cases "bs = []")
    case True
    then have "write_va va (b # bs) m = (m\<lparr>memory := m1\<rparr>, Stored)" using step by simp
    moreover have "user_byte m1 P v = (if unat va \<le> unat v \<and> unat v < unat va + length (b # bs) then Some ((b # bs) ! (unat v - unat va))
         else user_byte (memory m) P v)" for v
      using st1(2)[of v] True by (cases "unat v = unat va") auto
    ultimately show ?thesis using st1(1) by blast
  next
    case False
    then have u: "unat (va + 1) = unat va + 1" "user_buffer P (va + 1) (length bs)" using ub(3) Cons.prems(2) by auto
    obtain m' where m': "write_va (va + 1) bs (m\<lparr>memory := m1\<rparr>) = (m\<lparr>memory := m'\<rparr>, Stored)" "runs_on (m\<lparr>memory := m'\<rparr>) p T P"
      "\<forall>v. user_byte m' P v = (if unat va + 1 \<le> unat v \<and> unat v < unat va + 1 + length bs then Some (bs ! (unat v - (unat va + 1)))
         else user_byte m1 P v)"
      using Cons.IH[OF st1(1) u(2)] unfolding u(1) by auto
    have "user_byte m' P v = (if unat va \<le> unat v \<and> unat v < unat va + length (b # bs) then Some ((b # bs) ! (unat v - unat va))
         else user_byte (memory m) P v)" for v
      using m'(3)[rule_format, of v] st1(2)[of v] by (cases "unat v = unat va") (auto simp: nth_Cons')
    then show ?thesis using step m'(1,2) by (intro exI[of _ m']) simp
  qed
qed

lemma read_va_user:
  assumes "runs_on m p T P" "user_buffer P va n"
  shows "length (read_va m va n) = n \<and> (\<forall>i < n. user_byte (memory m) P (va + of_nat i) = Some (read_va m va n ! i))"
  using assms(2)
proof (induction n arbitrary: va)
  case (Suc n)
  note ub = user_buffer_Suc[OF Suc.prems]
  obtain f where f: "P (page_of va) = Some f" using ub(1) by auto
  note ph = va_phys_user[OF assms(1) ub(2) f]
  have IH: "length (read_va m (va + 1) n) = n \<and> (\<forall>i < n. user_byte (memory m) P (va + 1 + of_nat i) = Some (read_va m (va + 1) n ! i))"
    using Suc.IH ub(3) by (cases "n = 0") auto
  show ?case
  proof (intro conjI allI impI)
    show "length (read_va m va (Suc n)) = Suc n" using IH ph(1) by simp
    fix i assume "i < Suc n"
    then show "user_byte (memory m) P (va + of_nat i) = Some (read_va m va (Suc n) ! i)"
      using IH ph by (cases i) (simp_all add: add.assoc)
  qed
qed simp

section \<open>Calls on the kernel\<close>

lemma on_ipc_write:
  assumes "pipes_inv (kipc k)" "\<not> bad_pipe x (kipc k)" "pipe_contents (pipes (kipc k) ! nat x) = []" "length bs \<le> 256"
  shows "\<exists>k'. on_ipc (pipe_write x bs) k = (k', int (length bs)) \<and> pipes_inv (kipc k') \<and> \<not> bad_pipe x (kipc k') \<and>
    pipe_contents (pipes (kipc k') ! nat x) = bs"
proof -
  let ?s = "(kipc k)\<lparr>psched := ksched k\<rparr>"
  have inv: "pipes_inv ?s" "\<not> bad_pipe x ?s" using assms(1,2) by (simp_all add: pipes_inv_def bad_pipe_def)
  have e: "unat (pcount (pipes (kipc k) ! nat x)) = 0" using assms(3) by (metis length_pipe_contents list.size(3))
  obtain p' where p': "pipe_write x bs ?s = (?s\<lparr>pipes := (pipes ?s)[nat x := p'],
      psched := (if length bs > 0 then process_wake_all_blocked (psched ?s) else psched ?s)\<rparr>, int (length bs))"
    "pipe_inv p'" "pipe_contents p' = bs" "is_open p'"
    using pipe_write_good[OF inv, of bs] e assms(3,4) by auto
  have x: "nat x < 8" "0 \<le> x" "length (pipes (kipc k)) = 8" using good_pipe[OF assms(2)] assms(1) by (simp_all add: pipes_inv_def)
  show ?thesis
    using p' x assms(1) set_update_subset_insert[of "pipes (kipc k)" "nat x" p']
    by (auto simp: on_ipc_def pipes_inv_def bad_pipe_def MAX_PIPES_def)
qed

lemma on_ipc_read:
  assumes "pipes_inv (kipc k)" "\<not> bad_pipe x (kipc k)" "pipe_contents (pipes (kipc k) ! nat x) = bs" "bs \<noteq> []" "length bs \<le> unat len"
  shows "\<exists>k'. on_ipc (pipe_read x len) k = (k', Returns (int (length bs)) bs) \<and> ksched k' = ksched k \<and>
    pipe_contents (pipes (kipc k') ! nat x) = []"
proof -
  let ?s = "(kipc k)\<lparr>psched := ksched k\<rparr>"
  have inv: "pipes_inv ?s" "\<not> bad_pipe x ?s" "pipe_contents (pipes ?s ! nat x) \<noteq> []"
    using assms(1-4) by (simp_all add: pipes_inv_def bad_pipe_def)
  obtain p' where p': "pipe_read x len ?s = (?s\<lparr>pipes := (pipes ?s)[nat x := p']\<rparr>, Returns (int (length bs)) bs)"
    "pipe_contents p' = []"
    using pipe_read_good[OF inv, of len] assms(3,5) by (auto simp: min_absorb2)
  have x: "nat x < 8" "length (pipes (kipc k)) = 8" using good_pipe[OF assms(2)] assms(1) by (simp_all add: pipes_inv_def)
  show ?thesis using p' x by (simp add: on_ipc_def)
qed

text \<open>
  C32. Data sent through a pipe by system calls crosses address spaces intact: a process writes up to 256 bytes of its own memory
  into an open empty pipe; later, whatever process runs then, with its own page directory, reads them with its own
  call. Both calls return the number of bytes, the reader's buffer holds what the writer's buffer held, no other user byte
  of the reader changes, and the pipe is empty again.
\<close>

theorem syscall_pipe_transfer:
  fixes k :: "'d kernel" and n :: u32
  assumes writer: "runs_on (kmm k) p T P" "user_buffer P src (unat n)"
    and pipe: "pipes_inv (kipc k)" "\<not> bad_pipe (sint x) (kipc k)" "pipe_contents (pipes (kipc k) ! nat (sint x)) = []"
    and n: "0 < n" "n \<le> 256"
    and reader: "runs_on (mm sd) q U R" "user_buffer R dst (unat n)"
    and w: "r_eax wregs = SYS_PIPE_WRITE" "r_ebx wregs = x" "r_ecx wregs = n" "r_edx wregs = src"
    and r: "r_eax rregs = SYS_PIPE_READ" "r_ebx rregs = x" "r_ecx rregs = n" "r_edx rregs = dst"
    and calls: "syscall_handler io wregs k = (k1, w1)" "syscall_handler io rregs (k1\<lparr>ksched := sd\<rparr>) = (k2, w2)"
  shows "w1 = Sys_returns n \<and> w2 = Sys_returns n \<and> runs_on (kmm k2) q U R \<and>
    (\<forall>i < unat n. user_byte (memory (kmm k2)) R (dst + of_nat i) = user_byte (memory (kmm k)) P (src + of_nat i)) \<and>
    (\<forall>v. unat v < unat dst \<or> unat dst + unat n \<le> unat v \<longrightarrow>
       user_byte (memory (kmm k2)) R v = user_byte (memory (mm sd)) R v) \<and>
    pipe_contents (pipes (kipc k2) ! nat (sint x)) = []"
proof -
  define bs where "bs = read_va (kmm k) src (unat n)"
  have bs: "length bs = unat n" "\<And>i. i < unat n \<Longrightarrow> user_byte (memory (kmm k)) P (src + of_nat i) = Some (bs ! i)"
    using read_va_user[OF writer] by (simp_all add: bs_def)
  have n256: "unat n \<le> 256" "0 < unat n" using n by (simp_all add: word_le_nat_alt word_less_nat_alt)
  obtain k' where k': "on_ipc (pipe_write (sint x) bs) k = (k', int (length bs))" "pipes_inv (kipc k')"
    "\<not> bad_pipe (sint x) (kipc k')" "pipe_contents (pipes (kipc k') ! nat (sint x)) = bs"
    using on_ipc_write[OF pipe, of bs] bs(1) n256 by auto
  have "syscall_handler io wregs k = (k', Sys_returns n)"
    using k'(1) bs(1) by (simp add: syscall_handler_def Let_def w kconst sys_pipe_write_def flip: bs_def)
  then have k1: "k1 = k'" "w1 = Sys_returns n" using calls(1) by simp_all
  let ?k = "k1\<lparr>ksched := sd\<rparr>"
  have "pipes_inv (kipc ?k)" "\<not> bad_pipe (sint x) (kipc ?k)" "pipe_contents (pipes (kipc ?k) ! nat (sint x)) = bs"
    using k'(2-4) by (simp_all add: k1)
  from on_ipc_read[OF this, of n] obtain k3 where k3: "on_ipc (pipe_read (sint x) n) ?k = (k3, Returns (int (length bs)) bs)"
    "ksched k3 = sd" "pipe_contents (pipes (kipc k3) ! nat (sint x)) = []"
    using bs(1) n256 by (metis kernel.select_convs(2) kernel.surjective kernel.update_convs(2) length_greater_0_conv order_refl)
  obtain m' where m': "write_va dst bs (mm sd) = ((mm sd)\<lparr>memory := m'\<rparr>, Stored)" "runs_on ((mm sd)\<lparr>memory := m'\<rparr>) q U R"
    "\<And>v. user_byte m' R v = (if unat dst \<le> unat v \<and> unat v < unat dst + length bs then Some (bs ! (unat v - unat dst))
       else user_byte (memory (mm sd)) R v)"
    using write_va_user[OF reader(1), of dst bs] reader(2) bs(1) by auto
  have "syscall_handler io rregs ?k = (k3\<lparr>ksched := sd\<lparr>mm := (mm sd)\<lparr>memory := m'\<rparr>\<rparr>\<rparr>, Sys_returns n)"
    using k3(1,2) m'(1) bs(1) by (simp add: syscall_handler_def Let_def r kconst sys_pipe_read_def return_bytes_def kmm_def)
  then have k2: "k2 = k3\<lparr>ksched := sd\<lparr>mm := (mm sd)\<lparr>memory := m'\<rparr>\<rparr>\<rparr>" "w2 = Sys_returns n" using calls(2) by simp_all
  have mem: "kmm k2 = (mm sd)\<lparr>memory := m'\<rparr>" by (simp add: k2 kmm_def)
  have "user_byte m' R (dst + of_nat i) = user_byte (memory (kmm k)) P (src + of_nat i)" if "i < unat n" for i
  proof -
    have "unat (dst + of_nat i) = unat dst + i"
      using that reader(2) n256 unat_of_nat_u32[of i] by (subst unat_plus_u32) (simp_all add: user_buffer_def)
    then show ?thesis using m'(3) bs that by simp
  qed
  moreover have "user_byte m' R v = user_byte (memory (mm sd)) R v" if "unat v < unat dst \<or> unat dst + unat n \<le> unat v" for v
    unfolding m'(3)[of v] using that bs(1) by auto
  moreover have "kipc k2 = kipc k3" "memory (kmm k2) = m'" by (simp_all add: k2 kmm_def)
  ultimately show ?thesis using k1(2) k2(2) m'(2) k3(3) by (simp only: mem simp_thms) blast
qed

text \<open>A process with two pages at 16 MB, and a kernel with an open pipe.\<close>

definition mm2 :: mm where
  "mm2 = (fst (paging_alloc_user_pages (snd (paging_create_pd boot_mm)) 0x01000000 2 mm1))\<lparr>cr3 := snd (paging_create_pd boot_mm)\<rparr>"

lemma mm2:
  obtains p T P where "runs_on mm2 p T P" "user_buffer P 0x01000000 8192"
proof -
  obtain p where p: "p \<in> {256 ..< 8192}" "snd (paging_create_pd boot_mm) = of_nat (4096 * p)"
    "aspace mm1 p Map.empty Map.empty" "free_set (frames mm1) = {256 ..< 8192} - {p}" and cr: "cr0 mm1 = cr0 boot_mm"
    by (rule mm1)
  obtain s r where al: "paging_alloc_user_pages (of_nat (4096 * p)) 0x01000000 2 mm1 = (s, r)" by fastforce
  have N: "unat (0x01000000 :: u32) + 4096 * 2 \<le> 4294967296" by simp
  have l: "alloc_user_pages_loop (of_nat (4096 * p)) 0x01000000 [0 ..< 2] mm1 = (s, r)"
    using al by (simp add: paging_alloc_user_pages_def)
  obtain T P where g: "as_grow p mm1 Map.empty Map.empty s T P" and r: "2 * length [0 ..< 2 :: nat] \<le> card (free_set (frames mm1)) \<longrightarrow> r = 0"
    and h: "r = 0 \<longrightarrow> (\<forall>i \<in> {0 ..< 2 :: nat}. \<exists>f \<in> free_set (frames mm1). P (page_of (0x01000000 + of_nat i * PAGE_SIZE)) = Some f)"
    using alloc_user_pages_loop_spec[OF p(3) l _ _ distinct_pages[OF N]] unat_page_va[OF N] by auto
  have "card (free_set (frames mm1)) = 7935" unfolding p(4) using p(1) by (simp add: card_Diff_singleton)
  then have r0: "r = 0" using r by simp
  have "bit (cr0 boot_mm) 31"
  proof -
    have "cr0 boot_mm = 1 OR 0x80000000" using paging_init_spec[OF mm0_layout] unfolding boot_mm_def by (auto simp: mm0_def)
    then show ?thesis by (simp add: bit_or_iff bit_numeral_rec)
  qed
  moreover have m2: "mm2 = s\<lparr>cr3 := of_nat (4096 * p)\<rparr>" by (simp add: mm2_def p(2) al del: of_nat_mult)
  ultimately have run: "runs_on mm2 p T P"
    using g unfolding m2 runs_on_def as_grow_def aspace_def kframe_def by (elim conjE) (simp add: cr)
  have "P (page_of (0x01000000 + of_nat i)) \<noteq> None" if i: "i < 8192" for i
  proof -
    have "unat (0x01000000 + of_nat i :: u32) = 0x01000000 + i" using i unat_of_nat_u32[of i] by (subst unat_plus_u32) simp_all
    then have "unat (0x01000000 + of_nat i :: u32) div 4096 = 4096 + i div 4096" by simp
    moreover have "unat (0x01000000 + of_nat (i div 4096) * PAGE_SIZE :: u32) = 0x01000000 + 4096 * (i div 4096)"
      using unat_page_va[OF N, of "i div 4096"] i by (simp add: less_mult_imp_div_less)
    ultimately have "page_of (0x01000000 + of_nat i) = page_of (0x01000000 + of_nat (i div 4096) * PAGE_SIZE)"
      by (simp add: page_of_eq_iff)
    moreover have "i div 4096 \<in> {0 ..< 2}" using i by (simp add: less_mult_imp_div_less)
    ultimately show ?thesis using bspec[OF mp[OF h r0]] by force
  qed
  then have "user_buffer P 0x01000000 8192" by (simp add: user_buffer_def)
  then show thesis using that run by blast
qed

definition kernel0 :: "unit kernel" where
  "kernel0 = \<lparr>kdev = (), ksched = demo1\<lparr>mm := mm2\<rparr>, kdrv = drv0 (), kcon = con0, kipc = boot_ipc,
     kfds = \<lparr>fd_table = zero_fd\<lparr>used := True, fd_pid := 4\<rparr> # replicate 15 zero_fd, ffs = \<lparr>fdev = (), dir_buf = [], sector_buf = []\<rparr>\<rparr>,
     kheap = \<lparr>kmem = (\<lambda>_. 0), heap_storage = 0x40000, heap_head = 0\<rparr>, kirqs = [32, 32]\<rparr>"

definition call_regs :: "u32 \<Rightarrow> u32 \<Rightarrow> u32 \<Rightarrow> u32 \<Rightarrow> registers" where
  "call_regs a b c d = \<lparr>r_eax = a, r_ebx = b, r_ecx = c, r_edx = d, int_no = 0x80, err_code = 0, r_eip = 0, r_eflags = 0\<rparr>"

theorem syscall_pipe_transfer_witness:
  "let (k1, w1) = syscall_handler null_io (call_regs 11 0 4 0x01000000) kernel0;
       (k2, w2) = syscall_handler null_io (call_regs 12 0 4 0x01001000) (k1\<lparr>ksched := ksched kernel0\<rparr>)
   in w1 = Sys_returns 4 \<and> w2 = Sys_returns 4"
proof -
  obtain p T P where m: "runs_on mm2 p T P" "user_buffer P 0x01000000 8192" by (rule mm2)
  have "P (page_of (0x01001000 + of_nat i)) \<noteq> None" if "i < 4" for i
  proof -
    have "P (page_of (0x01000000 + of_nat (4096 + i))) \<noteq> None"
      using m(2) that unfolding user_buffer_def by (elim conjE allE[of _ "4096 + i"]) simp
    then show ?thesis by (simp add: add.assoc[symmetric])
  qed
  then have b: "user_buffer P 0x01001000 (unat (4 :: u32))" by (simp add: user_buffer_def)
  have a: "user_buffer P 0x01000000 (unat (4 :: u32))" using m(2) by (simp add: user_buffer_def)
  have k: "kmm kernel0 = mm2" "mm (ksched kernel0) = mm2" "kipc kernel0 = boot_ipc" by (simp_all add: kmm_def kernel0_def)
  have x: "\<not> bad_pipe (sint (0 :: u32)) (kipc kernel0)" "pipe_contents (pipes (kipc kernel0) ! nat (sint (0 :: u32))) = []"
    "pipes_inv (kipc kernel0)" using boot_ipc_facts by (simp_all add: k)
  obtain k1 w1 where c1: "syscall_handler null_io (call_regs 11 0 4 0x01000000) kernel0 = (k1, w1)" by fastforce
  obtain k2 w2 where c2: "syscall_handler null_io (call_regs 12 0 4 0x01001000) (k1\<lparr>ksched := ksched kernel0\<rparr>) = (k2, w2)" by fastforce
  have "w1 = Sys_returns 4 \<and> w2 = Sys_returns 4"
    using syscall_pipe_transfer[OF _ a x(3,1,2) _ _ _ b _ _ _ _ _ _ _ _ c1 c2] m(1) by (simp add: k call_regs_def kconst)
  then show ?thesis by (simp add: c1 c2)
qed

text \<open>
  Whatever system call a process makes, with whatever arguments, unless it overwrites the kernel, a file descriptor that belongs to
  another process keeps its file, its read position and its owner.
\<close>

theorem syscall_fd_private:
  assumes "length (fd_table (kfds k)) = 16" "i < 16" "used (fd_table (kfds k) ! i)"
    and "fd_pid (fd_table (kfds k) ! i) \<noteq> current_pid k" and "syscall_handler io regs k = (k', r)" "r \<noteq> Sys_corrupts"
  shows "fd_table (kfds k') ! i = fd_table (kfds k) ! i"
proof -
  let ?s = "(kfds k)\<lparr>ffs := (ffs (kfds k))\<lparr>fdev := kdev k\<rparr>\<rparr>"
  have s: "length (fd_table ?s) = 16" "used (fd_table ?s ! i)" "fd_pid (fd_table ?s ! i) \<noteq> current_pid k"
    using assms(1,3,4) by simp_all
  note foreign = fd_step_foreign[OF s(1) assms(2) s(2,3), of "ata_blk io", unfolded fd_step_def]
  have o: "fd_table (kfds (fst (on_fds (fd_open (ata_blk io) n (current_pid k)) k))) ! i = fd_table (kfds k) ! i"
    "fd_table (kfds (fst (on_fds (fd_read (ata_blk io) fd len (current_pid k)) k))) ! i = fd_table (kfds k) ! i"
    "fd_table (kfds (fst (on_fds (\<lambda>s. (fd_close fd (current_pid k) s, ())) k))) ! i = fd_table (kfds k) ! i" for n fd len
    using foreign[of "Fd_open n"] foreign[of "Fd_read fd len"] foreign[of "Fd_close fd"]
    by (simp_all add: on_fds_def Let_def split_beta)
  have b: "kfds (fst (return_bytes va bs n k0)) = kfds k0" for va bs n and k0 :: "'a kernel"
    by (simp add: return_bytes_def split_beta)
  have u: "kfds (fst (on_ipc f k0)) = kfds k0" "kfds (fst (on_sched g k0)) = kfds k0" "kfds (on_con h k0) = kfds k0"
    for f :: "ipc \<Rightarrow> ipc \<times> 'b" and g :: "sched \<Rightarrow> sched \<times> 'c" and h and k0 :: "'a kernel"
    by (simp_all add: on_ipc_def on_sched_def on_con_def Let_def split_beta)
  have calls: "fd_table (kfds (fst (sys_open io a k))) ! i = fd_table (kfds k) ! i"
    "fd_table (kfds (fst (sys_read io a c d k))) ! i = fd_table (kfds k) ! i"
    "kfds (fst (sys_write io a c k)) = kfds k" "kfds (fst (sys_gettime io k)) = kfds k"
    "kfds (fst (sys_pipe_write a c d k)) = kfds k" "kfds (fst (sys_pipe_read a c d k)) = kfds k" for a c d
    by (simp_all add: sys_open_def sys_read_def sys_write_def sys_gettime_def sys_pipe_write_def sys_pipe_read_def Let_def
        split_beta o b u split: option.split read_result.split)
  have sl: "kfds (fst (sys_sleep io ms k)) = kfds k" for ms
    by (auto simp: sys_sleep_def on_drv_def Let_def split: option.split)
  have "fd_table (kfds (fst (syscall_handler io regs k))) ! i = fd_table (kfds k) ! i"
    unfolding syscall_handler_def Let_def if_distrib[of "\<lambda>x. fd_table (kfds (fst x)) ! i"] calls sl
    by (simp add: o u split_beta)
  then show ?thesis by (simp add: assms(5))
qed

theorem syscall_fd_private_witness:
  "fd_table (kfds (fst (syscall_handler null_io (call_regs 8 0 0 0) kernel0))) ! 0 = zero_fd\<lparr>used := True, fd_pid := 4\<rparr>"
proof -
  have "0 < unat (next_pid (fst (process_create [0x61] 0x4000 boot_sched)))" using sched_invD(6)[OF demo1_facts(1)] by simp
  then have "pid (process_table demo1 ! 0) \<noteq> 4" using sched_invD(4)[OF demo1_facts(1)] by (simp add: demo1_def)
  then have "fd_pid (fd_table (kfds kernel0) ! 0) \<noteq> current_pid kernel0"
    using demo1_facts(4) by (simp add: kernel0_def current_pid_def)
  moreover have "length (fd_table (kfds kernel0)) = 16" "used (fd_table (kfds kernel0) ! 0)" by (simp_all add: kernel0_def)
  moreover have "snd (syscall_handler null_io (call_regs 8 0 0 0) kernel0) = Sys_returns 0"
    by (simp add: syscall_handler_def call_regs_def kconst)
  ultimately show ?thesis
    using syscall_fd_private[of kernel0 0 null_io "call_regs 8 0 0 0", OF _ _ _ _ prod.collapse[symmetric]] by (simp add: kernel0_def)
qed

text \<open>
  C33. \<^verbatim>\<open>SYS_SLEEP\<close> never returns: the gate that \<^verbatim>\<open>syscall_init\<close> installs for \<^verbatim>\<open>INT 0x80\<close> masks interrupts, so whatever interrupts the devices
  raise, the tick counter the call waits for does not advance and the processor halts for ever. This holds for every time from one
  millisecond up for which neither the number of ticks nor the counter wraps around.
\<close>

theorem syscall_sleep_hangs:
  assumes "r_eax regs = SYS_SLEEP" "0 < r_ebx regs" "unat (r_ebx regs) * 100 + 999 < 4294967296"
    and "unat (ticks (kdrv k)) + (unat (r_ebx regs) * 100 + 999) div 1000 < 4294967296"
    and "idt_table (cpu (ksched k)) = idt_table (syscall_init sc c)" "length (idt_table c) = 256"
  shows "syscall_handler io regs k = (k, Sys_hangs)"
proof -
  let ?d = "(r_ebx regs * TIMER_HZ + 999) div 1000"
  have b: "0 < unat (r_ebx regs)" using assms(2) by (simp add: word_less_nat_alt)
  have "unat (r_ebx regs * TIMER_HZ) = unat (r_ebx regs) * 100" using assms(3) by (simp add: TIMER_HZ_def unat_word_ariths)
  then have "unat (r_ebx regs * TIMER_HZ + 999) = unat (r_ebx regs) * 100 + 999" using assms(3) by (subst unat_plus_u32) simp_all
  then have d: "unat ?d = (unat (r_ebx regs) * 100 + 999) div 1000" by (simp add: unat_div)
  moreover from this have "0 < unat ?d" using b by (simp add: div_greater_zero_iff)
  ultimately have t: "ticks (kdrv k) < ticks (kdrv k) + ?d" using assms(4) by (simp add: word_less_nat_alt unat_plus_u32)
  have "idt_table (cpu (ksched k)) ! 128 = gate sc IDT_SYSCALL_GATE"
    using assms(5,6) by (simp add: syscall_init_def idt_set_gate_table)
  then have "masks_interrupts (idt_table (cpu (ksched k)) ! 128)" by (simp add: masks_interrupts_def gate_def IDT_SYSCALL_GATE_def)
  then show ?thesis using t assms(1) by (simp add: syscall_handler_def sys_sleep_def timer_sleep_ms_def Let_def kconst)
qed

theorem syscall_sleep_hangs_witness:
  "snd (syscall_handler null_io (call_regs 3 1000 0 0)
     (kernel0\<lparr>ksched := (ksched kernel0)\<lparr>cpu := syscall_init 0x4000 boot_cpu\<rparr>\<rparr>)) = Sys_hangs"
  using syscall_sleep_hangs[of "call_regs 3 1000 0 0" "kernel0\<lparr>ksched := (ksched kernel0)\<lparr>cpu := syscall_init 0x4000 boot_cpu\<rparr>\<rparr>"
      "0x4000" boot_cpu null_io]
  by (simp add: call_regs_def kernel0_def drv0_def kconst boot_cpu_def)

end
