(* ===== verification/System.thy ===== *)
theory System
  imports Boot Syscall
begin

text \<open>
  The system as a whole: from the start on, interrupts, system calls, key presses and commands of the shell follow each
  other in any order. The invariants of all components hold in every state that is reached.
\<close>

section \<open>The idle process\<close>

text \<open>
  One round of \<^verbatim>\<open>idle_process_fn\<close> of \<^verbatim>\<open>kernel/process.c\<close>: \<^verbatim>\<open>hlt\<close> waits for the interrupt \<open>regs\<close>, whose handler may switch away or stop the
  processor; otherwise the loop yields.
\<close>

definition idle_process_fn :: "'d io \<Rightarrow> registers \<Rightarrow> 'd kernel \<Rightarrow> 'd kernel \<times> int_result" where
  "idle_process_fn io regs k =
     (let (k, r) = interrupt_handler io regs k in if r = Resumed then (yield k, Other_process) else (k, r))"

section \<open>The invariant\<close>

definition boot_handlers :: "irq_fn option list" where
  "boot_handlers = [Some Timer_irq, Some Keyboard_irq] @ replicate 14 None"

definition kernel_ok :: "'d kernel \<Rightarrow> bool" where
  "kernel_ok k \<longleftrightarrow> con_ok (kcon k) \<and> heap_inv (kheap k) \<and> sched_inv (ksched k) \<and> pipes_inv (kipc k) \<and>
     length (fd_table (kfds k)) = 16 \<and> kb_inv (kdrv k) \<and> irq_handlers (kdrv k) = boot_handlers"

named_theorems keeps "operations keep the kernel invariant"

text \<open>What the parts of the kernel have to keep, with the scheduler they share.\<close>

definition drv_ok :: "'d drv \<Rightarrow> bool" where
  "drv_ok s \<longleftrightarrow> kb_inv s \<and> irq_handlers s = boot_handlers \<and> sched_inv (dsched s)"

definition ipc_ok :: "ipc \<Rightarrow> bool" where
  "ipc_ok s \<longleftrightarrow> pipes_inv s \<and> sched_inv (psched s)"

lemma kb_inv_dev [simp]:
  "kb_inv (s\<lparr>dev := d\<rparr>) = kb_inv s" "kb_inv (s\<lparr>dsched := t\<rparr>) = kb_inv s" "kb_inv (s\<lparr>ticks := n\<rparr>) = kb_inv s"
  "kb_inv (s\<lparr>dev := d, dsched := t\<rparr>) = kb_inv s"
  by (simp_all add: kb_inv_def)

lemma sched_inv_mm [simp]: "sched_inv (s\<lparr>mm := m\<rparr>) = sched_inv s"
  by (simp add: sched_inv_def state_of_def)

lemma pipes_inv_psched [simp]: "pipes_inv (s\<lparr>psched := t\<rparr>) = pipes_inv s"
  by (simp add: pipes_inv_def)

lemma keeps_dev [keeps]: "kernel_ok k \<Longrightarrow> kernel_ok (k\<lparr>kdev := d\<rparr>)"
  by (simp add: kernel_ok_def)

lemma keeps_con [keeps]:
  "kernel_ok k \<Longrightarrow> (\<And>s. con_ok s \<Longrightarrow> con_ok (f s)) \<Longrightarrow> kernel_ok (on_con f k)"
  by (simp add: kernel_ok_def on_con_def Let_def)

lemma keeps_print [keeps]: "kernel_ok k \<Longrightarrow> kernel_ok (print io ps k)"
  unfolding print_def by (rule keeps_con) (simp_all add: con_ok_emits)

lemma keeps_drv [keeps]:
  "kernel_ok k \<Longrightarrow> (\<And>s. drv_ok s \<Longrightarrow> drv_ok (fst (f s))) \<Longrightarrow> kernel_ok (fst (on_drv f k))"
  by (simp add: kernel_ok_def on_drv_def Let_def split_beta drv_ok_def)

lemma keeps_ipc [keeps]:
  "kernel_ok k \<Longrightarrow> (\<And>s. ipc_ok s \<Longrightarrow> ipc_ok (fst (f s))) \<Longrightarrow> kernel_ok (fst (on_ipc f k))"
  by (simp add: kernel_ok_def on_ipc_def Let_def split_beta ipc_ok_def)

lemma keeps_fds [keeps]:
  "kernel_ok k \<Longrightarrow> (\<And>s. length (fd_table s) = 16 \<Longrightarrow> length (fd_table (fst (f s))) = 16) \<Longrightarrow> kernel_ok (fst (on_fds f k))"
  by (simp add: kernel_ok_def on_fds_def Let_def split_beta)

lemma keeps_fs [keeps]: "kernel_ok k \<Longrightarrow> kernel_ok (fst (on_fs f k))"
  unfolding on_fs_def by (rule keeps_fds) (simp_all add: Let_def split_beta)

lemma keeps_sched [keeps]:
  "kernel_ok k \<Longrightarrow> (\<And>s. sched_inv s \<Longrightarrow> sched_inv (fst (f s))) \<Longrightarrow> kernel_ok (fst (on_sched f k))"
  by (simp add: kernel_ok_def on_sched_def Let_def split_beta)

lemma keeps_kmm [keeps]: "kernel_ok k \<Longrightarrow> kernel_ok (fst (on_kmm f k))"
  unfolding on_kmm_def by (rule keeps_sched) (simp_all add: Let_def split_beta)

lemma keeps_ksched [keeps]: "kernel_ok k \<Longrightarrow> sched_inv s \<Longrightarrow> kernel_ok (k\<lparr>ksched := s\<rparr>)"
  by (simp add: kernel_ok_def)

lemma kernel_ok_sched: "kernel_ok k \<Longrightarrow> sched_inv (ksched k)"
  by (simp add: kernel_ok_def)

lemmas keeps_inv = process_create_inv process_create_user_inv process_kill_inv process_exit_inv process_block_inv
  process_yield_inv process_wake_all_inv

section \<open>Interrupts\<close>

lemma kb_scancode_drv: "drv_ok s \<Longrightarrow> drv_ok (keyboard_scancode sc s)"
proof -
  assume "drv_ok s"
  moreover have "kb_inv (keyboard_scancode sc s)"
    using calculation kb_scancode_queue(1)[of s sc] by (cases "kb_decode sc (kb_flags s)") (auto simp: drv_ok_def)
  moreover have "irq_handlers (kb_push c t) = irq_handlers t" "dsched (kb_push c t) = process_wake_all_blocked (dsched t)"
    for c and t :: "'a drv" by (simp_all add: kb_push_def Let_def)
  ultimately show ?thesis by (simp add: drv_ok_def keyboard_scancode_def Let_def process_wake_all_inv)
qed

lemma irq_drv: "drv_ok s \<Longrightarrow> drv_ok (fst (irq_handler io v s))"
proof -
  assume s: "drv_ok s"
  have "drv_ok (fst (run_irq_fn io h s))" for h
    using s kb_scancode_drv[of "s\<lparr>dev := snd (inb io 0x60 (dev s))\<rparr>" "fst (inb io 0x60 (dev s))"]
    by (cases h) (auto simp: run_irq_fn_def timer_irq_handler_def keyboard_irq_handler_def Let_def split_beta drv_ok_def
      process_yield_inv)
  then have "drv_ok (fst (run_irq_fn io h s))" "drv_ok ((fst (run_irq_fn io h s))\<lparr>dev := d\<rparr>)" "drv_ok (s\<lparr>dev := d\<rparr>)" for h d
    using s by (simp_all add: drv_ok_def)
  then show ?thesis using s by (simp add: irq_handler_def Let_def split_beta)
qed

lemma con_ok_color: "con_ok s \<Longrightarrow> con_ok (vga_set_color f b s)"
  by (simp add: vga_set_color_def con_ok_def)

lemmas con_keeps = con_ok_color con_ok_puts con_ok_print con_ok_putchar con_ok_fold

lemma interrupt_keeps: "kernel_ok k \<Longrightarrow> kernel_ok (fst (interrupt_handler io regs k))"
  using keeps_con[of k "isr_handler io regs"] keeps_drv[of k "irq_handler io (int_no regs)"]
  by (simp add: interrupt_handler_def split_beta irq_drv isr_handler_def Let_def con_keeps)

section \<open>System calls\<close>

lemma pipe_alloc_ipc: "ipc_ok s \<Longrightarrow> ipc_ok (fst (pipe_alloc s))"
  using pipes_inv_update[OF _ zero_pipe_inv(2), of s]
  by (auto simp: pipe_alloc_def ipc_ok_def split: option.split)

lemma pipe_write_ipc: "ipc_ok s \<Longrightarrow> ipc_ok (fst (pipe_write n bs s))"
proof (cases "bad_pipe n s")
  case False
  assume "ipc_ok s"
  then show ?thesis
    using pipe_write_good[OF _ False, of bs] pipes_inv_update[of s]
    by (auto simp: ipc_ok_def process_wake_all_inv)
qed (simp add: pipe_write_def)

lemma pipe_read_ipc: "ipc_ok s \<Longrightarrow> ipc_ok (fst (pipe_read n len s))"
proof -
  assume s: "ipc_ok s"
  show "ipc_ok (fst (pipe_read n len s))"
  proof (cases "bad_pipe n s \<or> pipe_contents (pipes s ! nat n) = []")
    case True
    then show ?thesis using s
      by (auto simp: pipe_read_def pipe_read_wait_def ipc_ok_def Let_def pcount_0_iff process_block_inv)
  next
    case False
    then show ?thesis using s pipe_read_good[of s n len] pipes_inv_update[of s] by (auto simp: ipc_ok_def)
  qed
qed

lemma fd_lengths:
  "length (fd_table (fst (fd_open blk name p s))) = length (fd_table s)"
  "length (fd_table (fst (fd_read blk fd len p s))) = length (fd_table s)"
  "length (fd_table (fd_close fd p s)) = length (fd_table s)"
  by (simp_all add: fd_open_def fd_read_def fd_close_def Let_def split_beta split: option.split)

lemma return_bytes_keeps: "kernel_ok k \<Longrightarrow> kernel_ok (fst (return_bytes va bs r k))"
  by (simp add: return_bytes_def kernel_ok_sched keeps_ksched Let_def split_beta)

lemma syscalls_keep:
  assumes "kernel_ok k"
  shows "kernel_ok (fst (sys_write io a b k))" "kernel_ok (fst (sys_open io a k))"
    "kernel_ok (fst (sys_read io a b c k))" "kernel_ok (fst (sys_gettime io k))"
    "kernel_ok (fst (sys_pipe_write a b c k))" "kernel_ok (fst (sys_pipe_read a b c k))"
    "kernel_ok (on_con (sys_unknown io a) k)"
proof -
  show "kernel_ok (fst (sys_write io a b k))"
    using keeps_con[OF assms, of "fold (vga_putchar io) bs" for bs] by (simp add: sys_write_def Let_def con_ok_fold)
  show "kernel_ok (fst (sys_open io a k))"
    using assms keeps_fds[OF assms, of "fd_open b n p" for b n p] by (simp add: sys_open_def split_beta fd_lengths split: option.split)
  show "kernel_ok (fst (sys_read io a b c k))"
    by (simp add: sys_read_def split_beta return_bytes_keeps keeps_fds[OF assms] fd_lengths)
  show "kernel_ok (fst (sys_gettime io k))"
    using assms keeps_dev[OF assms] by (simp add: sys_gettime_def split: option.split prod.split)
  show "kernel_ok (fst (sys_pipe_write a b c k))"
    by (simp add: sys_pipe_write_def Let_def split_beta keeps_ipc[OF assms pipe_write_ipc])
  show "kernel_ok (fst (sys_pipe_read a b c k))"
    using keeps_ipc[OF assms, where f = "pipe_read (sint a) b"] pipe_read_ipc
    by (auto simp: sys_pipe_read_def split_beta return_bytes_keeps split: read_result.split)
  show "kernel_ok (on_con (sys_unknown io a) k)"
    by (rule keeps_con[OF assms]) (simp add: sys_unknown_def Let_def con_keeps)
qed

lemma sleep_loop_drv: "drv_ok s \<Longrightarrow> sleep_loop io target vs s = Some (s', rest, sw) \<Longrightarrow> drv_ok s'"
proof (induction vs arbitrary: s)
  case (Cons v vs)
  then show ?case using irq_drv[of s io v] by (auto split: if_splits prod.splits)
qed (auto split: if_splits)

lemma slept_keeps:
  assumes "kernel_ok k" "timer_sleep_ms io ms irqs ((kdrv k)\<lparr>dev := kdev k, dsched := ksched k\<rparr>) = Some (s', rest, sw)"
  shows "kernel_ok (fst (on_drv (\<lambda>_. (s', ())) k))"
proof -
  have "drv_ok ((kdrv k)\<lparr>dev := kdev k, dsched := ksched k\<rparr>)" using assms(1) by (simp add: drv_ok_def kernel_ok_def)
  from sleep_loop_drv[OF this] assms(2) have "drv_ok s'" by (auto simp: timer_sleep_ms_def)
  then show ?thesis using assms(1) by (simp add: on_drv_def kernel_ok_def drv_ok_def)
qed

lemma sleep_keeps [keeps]: "kernel_ok k \<Longrightarrow> kernel_ok (fst (cmd_sleep io irqs args k))"
  by (auto simp: cmd_sleep_def Let_def keeps_print intro!: keeps_print slept_keeps split: option.split)

lemma keeps_kirqs [keeps]: "kernel_ok k \<Longrightarrow> kernel_ok (k\<lparr>kirqs := vs\<rparr>)"
  by (simp add: kernel_ok_def)

lemma sys_sleep_ok: "kernel_ok k \<Longrightarrow> kernel_ok (fst (sys_sleep io ms k))"
  by (auto simp: sys_sleep_def Let_def intro!: keeps_kirqs slept_keeps split: option.split)

lemma syscall_keeps: "kernel_ok k \<Longrightarrow> kernel_ok (fst (syscall_handler io regs k))"
  unfolding syscall_handler_def Let_def
  by (simp add: syscalls_keep sys_sleep_ok split_beta keeps_ipc[OF _ pipe_alloc_ipc] keeps_sched[OF _ process_kill_inv]
    keeps_fds fd_lengths keeps_ksched kernel_ok_sched process_exit_inv process_yield_inv split: option.split)

section \<open>The shell\<close>

lemma files_keep [keeps]:
  assumes "kernel_ok k"
  shows "kernel_ok (fst (open_file io name k))" "kernel_ok (fst (read_file io f n k))" "kernel_ok (complain io m k)"
    "kernel_ok (not_found io name k)" "kernel_ok (yield k)" "kernel_ok (destroy_pd pd k)"
    "kernel_ok (fst (load_program io rb usage name k))"
proof -
  have r: "kernel_ok (fst (open_file io name k))" "kernel_ok (fst (read_file io f n k))" if "kernel_ok k" for k f n
    using that by (simp_all add: open_file_def read_file_def keeps_fs)
  show "kernel_ok (fst (open_file io name k))" "kernel_ok (fst (read_file io f n k))" using assms by (rule r)+
  show "kernel_ok (complain io m k)" "kernel_ok (not_found io name k)" "kernel_ok (destroy_pd pd k)"
    using assms by (simp_all add: complain_def not_found_def destroy_pd_def keeps_print keeps_kmm)
  show "kernel_ok (yield k)" using assms by (simp add: yield_def keeps_ksched kernel_ok_sched process_yield_inv)
  show "kernel_ok (fst (load_program io rb usage name k))"
    using assms by (simp add: load_program_def Let_def split_beta complain_def not_found_def keeps_print keeps_fs keeps_kmm r)
qed

lemma con_ok_ls: "con_ok s \<Longrightarrow> con_ok (fs_ls_entry io e s)"
  by (simp add: fs_ls_entry_def Let_def con_keeps del: fold_replicate)

lemma con_ok_fold_any: "(\<And>x s. con_ok s \<Longrightarrow> con_ok (f x s)) \<Longrightarrow> con_ok s \<Longrightarrow> con_ok (fold f xs s)"
  by (induction xs arbitrary: s) simp_all

lemma fs_ls_keeps [keeps]: "kernel_ok k \<Longrightarrow> kernel_ok (fs_ls io k)"
proof -
  assume k: "kernel_ok k"
  have f: "con_ok (fold (fs_ls_entry io) es s)" if "con_ok s" for es s
    using that by (intro con_ok_fold_any con_ok_ls)
  show ?thesis unfolding fs_ls_def Let_def split_beta
    by (auto intro!: keeps_con keeps_fs[OF k] simp: con_keeps f)
qed

lemma cat_loop_keeps [keeps]: "kernel_ok k \<Longrightarrow> kernel_ok (cat_loop io f k)"
proof (induction io f k rule: cat_loop.induct)
  case (1 io f k)
  obtain k1 n out f1 where r: "read_file io f 128 k = (k1, n, out, f1)" by (metis prod_cases4)
  then have "kernel_ok k1" using files_keep(2)[OF "1.prems", of io f 128] by simp
  then show ?case
    using "1.IH"[OF r[symmetric] refl refl] by (subst cat_loop.simps) (simp add: r keeps_print)
qed

lemma ps_keeps [keeps]: "kernel_ok k \<Longrightarrow> kernel_ok (cmd_ps io k)"
proof -
  have "con_ok (process_print_all io sd s)" if "con_ok s" for sd s
    unfolding process_print_all_def Let_def using that
    by (intro con_ok_fold_any) (simp_all add: con_keeps)
  then show "kernel_ok k \<Longrightarrow> kernel_ok (cmd_ps io k)" unfolding cmd_ps_def by (intro keeps_con)
qed

lemma date_keeps [keeps]: "kernel_ok k \<Longrightarrow> kernel_ok (fst (cmd_date io k))"
proof -
  assume k: "kernel_ok k"
  have "kernel_ok (on_con (\<lambda>_. s) (k\<lparr>kdev := d\<rparr>))"
    if "vga_printf io fmt args ((kcon k)\<lparr>vdev := d\<rparr>) = Some s" for fmt args d s
    using con_ok_printf[OF _ that] k by (simp add: kernel_ok_def on_con_def)
  then show ?thesis using k by (auto simp: cmd_date_def Let_def keeps_dev split: option.split prod.split)
qed

lemma run_keeps [keeps]:
  assumes "kernel_ok k"
  shows "kernel_ok (fst (cmd_run io rb name k))" "kernel_ok (fst (cmd_exec io rb name k))"
proof -
  have l: "load_program io rb u name k = (k', r) \<Longrightarrow> kernel_ok k'" for u k' r
    using files_keep(7)[OF assms, of io rb u name] by simp
  have m: "on_kmm g k = (k', r) \<Longrightarrow> kernel_ok k \<Longrightarrow> kernel_ok k'" for g :: "mm \<Rightarrow> mm \<times> 'x" and k k' r
    using keeps_kmm[of k g] by simp
  have c: "on_sched (process_create n e) k = (k', r) \<Longrightarrow> kernel_ok k \<Longrightarrow> kernel_ok k'"
      "on_sched (process_create_user n e t pd) k = (k', r) \<Longrightarrow> kernel_ok k \<Longrightarrow> kernel_ok k'" for n e t pd k k' r
    using keeps_sched[of k "process_create n e"] keeps_sched[of k "process_create_user n e t pd"]
    by (auto simp: process_create_inv process_create_user_inv)
  show "kernel_ok (fst (cmd_run io rb name k))"
    by (auto simp: cmd_run_def Let_def files_keep keeps_print dest!: l m c(1) split: prod.splits option.splits)
  show "kernel_ok (fst (cmd_exec io rb name k))"
    by (auto simp: cmd_exec_def Let_def files_keep keeps_print dest!: l m c(2) split: prod.splits option.splits)
qed

lemma commands_keep [keeps]:
  assumes "kernel_ok k"
  shows "kernel_ok (cmd_kill io args k)" "kernel_ok (cmd_colortest io k)" "kernel_ok (cmd_mkfs io k)" "kernel_ok (cmd_ls io k)"
    "kernel_ok (cmd_cat io args k)" "kernel_ok (cmd_write io args k)" "kernel_ok (cmd_rm io args k)"
    "kernel_ok (fst (cmd_meminfo io k))" "kernel_ok (fst (cmd_reboot io k))" "kernel_ok (cmd_clear io k)"
proof -
  show "kernel_ok (cmd_kill io args k)"
    using assms by (simp add: cmd_kill_def Let_def split_beta keeps_print keeps_sched[OF _ process_kill_inv])
  have fo: "kernel_ok k \<Longrightarrow> kernel_ok (fold (\<lambda>i. print io (ps i)) is k)" for ps and "is" :: "nat list" and k :: "'a kernel"
    by (induction "is" arbitrary: k) (simp_all add: keeps_print)
  show "kernel_ok (cmd_colortest io k)" unfolding cmd_colortest_def Let_def by (intro keeps_print fo assms)
  show "kernel_ok (cmd_mkfs io k)" "kernel_ok (cmd_ls io k)" "kernel_ok (cmd_cat io args k)" "kernel_ok (cmd_write io args k)"
      "kernel_ok (cmd_rm io args k)"
    using assms
    by (simp_all add: cmd_mkfs_def cmd_ls_def cmd_cat_def cmd_write_def cmd_rm_def Let_def split_beta keeps_print keeps_fs
      files_keep fs_ls_keeps cat_loop_keeps)
  show "kernel_ok (fst (cmd_meminfo io k))" "kernel_ok (fst (cmd_reboot io k))"
    using assms by (auto simp: cmd_meminfo_def cmd_reboot_def Let_def keeps_print keeps_dev split: option.split)
  have "con_ok (vga_clear io s)" if "con_ok s" for s
    using that vga_clear_eq[of s io] by (simp add: con_ok_def)
  then show "kernel_ok (cmd_clear io k)" using assms unfolding cmd_clear_def by (intro keeps_con)
qed

lemma execute_keeps: "kernel_ok k \<Longrightarrow> kernel_ok (fst (execute_command io rb irqs cmd k))"
  by (simp add: execute_command_def Let_def finish_def keeps cmd_help_def
    cmd_echo_def cmd_version_def cmd_uptime_def cmd_halt_def cmd_unknown_def)

lemma getchar_keeps: "kernel_ok k \<Longrightarrow> kernel_ok (fst (on_drv keyboard_getchar k))"
proof (rule keeps_drv)
  fix s :: "'a drv"
  assume "drv_ok s"
  then show "drv_ok (fst (keyboard_getchar s))"
    using unat_kb_next[of "kb_head s"] by (auto simp: keyboard_getchar_def drv_ok_def process_block_inv kb_inv_def)
qed

text \<open>The line editor keeps the console and the size of its buffer.\<close>

lemma con_ok_erase: "con_ok s \<Longrightarrow> con_ok (erase_input io n s)"
  unfolding erase_input_def by (intro con_ok_fold_any con_ok_putchar)

lemma read_key_keeps:
  assumes "hist_ok h" "length (e_buf e) = 256" "con_ok s"
  shows "length (e_buf (fst (read_key io h 256 c (e, s)))) = 256 \<and> con_ok (snd (read_key io h 256 c (e, s)))"
proof -
  have "length (recall x 256 b) = 256" if "length b = 256" for x b using that by (simp add: recall_def)
  then show ?thesis using assms(2,3)
    by (simp add: read_key_def Let_def con_ok_putchar con_ok_puts con_ok_erase split: option.split)
qed

text \<open>Where the shell is, its line buffer has the size of the array.\<close>

definition system_ok :: "shell_pos \<Rightarrow> 'd shell \<Rightarrow> bool" where
  "system_ok pos sh \<longleftrightarrow> kernel_ok (sk sh) \<and> hist_ok (shist sh) \<and> length (sbuf sh) = 256 \<and>
     (\<forall>e. pos = In_line e \<longrightarrow> length (e_buf e) = 256)"

lemma run_line_keeps:
  assumes "kernel_ok (sk sh)" "hist_ok (shist sh)" "length (e_buf e) = 256" "run_line io rb irqs e sh = (pos, sh')"
  shows "system_ok pos sh'"
  using assms(1-3) assms(4)[symmetric] execute_keeps[OF assms(1), of io rb irqs]
  by (auto simp: run_line_def system_ok_def Let_def history_push_recent(1) split_beta)

lemma shell_run_keeps:
  assumes "system_ok pos sh" "shell_run io rb irqs (pos, sh) = (pos', sh')"
  shows "system_ok pos' sh'"
proof (cases pos)
  case At_prompt
  then show ?thesis using assms by (auto simp: system_ok_def keeps_print)
next
  case (In_line e)
  have ok: "kernel_ok (sk sh)" "hist_ok (shist sh)" "length (sbuf sh) = 256" "length (e_buf e) = 256"
    using assms(1) In_line by (simp_all add: system_ok_def)
  obtain k r where g: "on_drv keyboard_getchar (sk sh) = (k, r)" by fastforce
  have k: "kernel_ok k" using getchar_keeps[OF ok(1)] g by simp
  have nl: "kernel_ok (on_con (vga_putchar io 10) k)" by (rule keeps_con[OF k]) (rule con_ok_putchar)
  have key: "system_ok (In_line e') (sh\<lparr>sk := on_con (\<lambda>_. s) k\<rparr>)"
    if "read_key io (shist sh) 256 c (e, (kcon k)\<lparr>vdev := kdev k\<rparr>) = (e', s)" for c e' s
  proof -
    have "con_ok ((kcon k)\<lparr>vdev := kdev k\<rparr>)" using k by (simp add: kernel_ok_def)
    from read_key_keeps[OF ok(2,4) this, of io c] that have "length (e_buf e') = 256" "con_ok s" by simp_all
    then show ?thesis using ok k by (simp add: system_ok_def kernel_ok_def on_con_def)
  qed
  show ?thesis
  proof (cases "e_len e < 255")
    case False
    then show ?thesis using assms(2) In_line run_line_keeps[OF ok(1,2,4)] by (auto simp: SHELL_BUF_SIZE_def)
  next
    case True
    show ?thesis
    proof (cases r)
      case (Char_read c)
      show ?thesis
      proof (cases "c = 10")
        case c: True
        have "run_line io rb irqs e (sh\<lparr>sk := on_con (vga_putchar io 10) k\<rparr>) = (pos', sh')"
          using assms(2) In_line True Char_read c g by (simp add: SHELL_BUF_SIZE_def)
        then show ?thesis by (rule run_line_keeps[rotated 3]) (use nl ok in simp_all)
      next
        case c: False
        obtain e' s where rk: "read_key io (shist sh) 256 c (e, (kcon k)\<lparr>vdev := kdev k\<rparr>) = (e', s)" by fastforce
        then have "pos' = In_line e'" "sh' = sh\<lparr>sk := on_con (\<lambda>_. s) k\<rparr>"
          using assms(2) In_line True Char_read c g by (simp_all add: SHELL_BUF_SIZE_def)
        then show ?thesis using key[OF rk] by simp
      qed
    qed (use assms(2) In_line True g k ok in \<open>auto simp: SHELL_BUF_SIZE_def system_ok_def\<close>)
  qed
qed (use assms in simp)

section \<open>Every reachable state\<close>

text \<open>
  What can still happen: the shell goes on; it has lost the processor or hangs in a command, and processes may run; or nothing is
  known any more. The last is the case when the processor stopped, when an access of the kernel faulted or overwrote the kernel, and when a
  program loaded with \<^verbatim>\<open>run\<close> shares ring 0 with the kernel: only process 0, the idle process, is the kernel's own.
\<close>

datatype status = Shell shell_pos | Away | Down

definition sound :: "'d kernel \<Rightarrow> bool" where
  "sound k \<longleftrightarrow> \<not> derailed (mm (ksched k)) \<and>
     (\<forall>i \<in> {1 ..< 16}. state_of (ksched k) i \<noteq> PROC_UNUSED \<longrightarrow> is_user (process_table (ksched k) ! i))"

definition settle :: "status \<Rightarrow> 'd kernel \<Rightarrow> status" where
  "settle st0 k = (if sound k then st0 else Down)"

definition shell_status :: "shell_pos \<Rightarrow> status" where
  "shell_status pos = (case pos of Left r \<Rightarrow> (if r = Cmd_stops then Down else Away) | _ \<Rightarrow> Shell pos)"

definition int_status :: "status \<Rightarrow> int_result \<Rightarrow> status" where
  "int_status st0 r = (case r of Resumed \<Rightarrow> st0 | Other_process \<Rightarrow> Away | Stopped \<Rightarrow> Down)"

text \<open>How a system call ends: a fault in it is an exception, whose handler stops the processor.\<close>

definition sys_status :: "sys_result \<Rightarrow> status" where
  "sys_status r = (case r of Sys_returns v \<Rightarrow> Away | Sys_switched \<Rightarrow> Away | _ \<Rightarrow> Down)"

text \<open>
  What ring-3 code may do by itself: change the memory of its user pages and its registers. Should one of these pages lie in the first megabyte, a
  change there overwrites the kernel.
\<close>

definition user_writes :: "mm \<Rightarrow> mm \<Rightarrow> bool" where
  "user_writes m m' \<longleftrightarrow>
     (\<forall>x. memory m' x \<noteq> memory m x \<longrightarrow> (\<exists>va. translate (memory m) (cr3 m) va = Some (x, True))) \<and>
     m' = m\<lparr>memory := memory m', derailed := derailed m \<or> (\<exists>x. unat x < 0x100000 \<and> memory m' x \<noteq> memory m x)\<rparr>"

text \<open>
  The states of the running system on the machine \<open>io\<close>: after \<^verbatim>\<open>kernel_main\<close>, with the history and the line buffer of the shell;
  after the machine behind the ports changed by itself, as when a key is pressed; after any exception or hardware
  interrupt, also one that ends a round of the idle process; after a process ran, and after any system call it makes, with any register
  contents; and after a step of the shell. A call that overwrites the kernel leaves the flag \<open>derailed\<close> set (lemma \<open>read_into_kernel\<close>).
\<close>

inductive system :: "'d io \<Rightarrow> u32 \<Rightarrow> status \<Rightarrow> 'd shell \<Rightarrow> bool" for io :: "'d io" and rb :: u32 where
  boot: "board io p1 p2 u polls \<Longrightarrow> \<not> dlab (u (kdev k)) \<Longrightarrow> loaded k \<Longrightarrow> kernel_main io isr irq sc idle k = Some k' \<Longrightarrow>
    length b = 256 \<Longrightarrow> system io rb (settle (Shell At_prompt) k') \<lparr>sk = k', shist = hist0, sbuf = b\<rparr>"
| device: "system io rb st0 sh \<Longrightarrow> system io rb st0 (sh\<lparr>sk := (sk sh)\<lparr>kdev := d, kirqs := vs\<rparr>\<rparr>)"
| interrupt: "system io rb st0 sh \<Longrightarrow> st0 \<noteq> Down \<Longrightarrow> interrupt_handler io regs (sk sh) = (k, r) \<Longrightarrow>
    system io rb (settle (int_status st0 r) k) (sh\<lparr>sk := k\<rparr>)"
| idle: "system io rb Away sh \<Longrightarrow> idle_process_fn io regs (sk sh) = (k, r) \<Longrightarrow> system io rb (settle (int_status Away r) k) (sh\<lparr>sk := k\<rparr>)"
| user: "system io rb Away sh \<Longrightarrow> user_writes (mm (ksched (sk sh))) m' \<Longrightarrow>
    k = (sk sh)\<lparr>ksched := (ksched (sk sh))\<lparr>mm := m', ebx := x1, esi := x2, edi := x3, ebp := x4, esp := x5, eip := x6\<rparr>\<rparr> \<Longrightarrow>
    system io rb (settle Away k) (sh\<lparr>sk := k\<rparr>)"
| syscall: "system io rb Away sh \<Longrightarrow> syscall_handler io regs (sk sh) = (k, r) \<Longrightarrow> r \<noteq> Sys_fault \<Longrightarrow>
    system io rb (settle (sys_status r) k) (sh\<lparr>sk := k\<rparr>)"
| fault: "system io rb Away sh \<Longrightarrow> syscall_handler io regs (sk sh) = (k, Sys_fault) \<Longrightarrow> int_no pf = 14 \<Longrightarrow>
    system io rb Down (sh\<lparr>sk := fst (interrupt_handler io pf k)\<rparr>)"
| shell: "system io rb (Shell pos) sh \<Longrightarrow> shell_run io rb irqs (pos, sh) = (pos', sh') \<Longrightarrow>
    system io rb (settle (shell_status pos') (sk sh')) sh'"

lemma idle_keeps: "kernel_ok k \<Longrightarrow> kernel_ok (fst (idle_process_fn io regs k))"
  using interrupt_keeps[of k io regs] by (simp add: idle_process_fn_def split_beta files_keep(5))

lemma boot_kernel_ok:
  assumes "board io p1 p2 u polls" "\<not> dlab (u (kdev k))" "loaded k" "kernel_main io isr irq sc idle k = Some k'"
  shows "kernel_ok k'"
proof -
  have L: "length (vga_buffer (kcon k)) = 2000" "length (process_table (ksched k)) = 16" "current_process (ksched k) = None"
      "irq_handlers (kdrv k) = replicate 16 None" "length (kb_buf (kdrv k)) = 64" "0 < heap_base (kheap k)"
      "heap_base (kheap k) + unat HEAP_SIZE \<le> 4294967296"
    using assms(3) unfolding loaded_def by blast+
  obtain k1 where "kernel_main io isr irq sc idle k = Some k1" and r: "con_ok (kcon k1)" "kheap k1 = kmem_init (kheap k)"
    "sched_inv (ksched k1)" "pipes (kipc k1) = replicate MAX_PIPES zero_pipe" "fd_table (kfds k1) = replicate FD_MAX zero_fd"
    "irq_handlers (kdrv k1) = (irq_handlers (kdrv k))[0 := Some Timer_irq, 1 := Some Keyboard_irq]"
    "kb_buf (kdrv k1) = kb_buf (kdrv k)" "kb_head (kdrv k1) = 0" "kb_tail (kdrv k1) = 0"
    by (rule kernel_main_runs[OF assms(1,2) L(1), of isr irq sc idle]) (use L(2,3) in \<open>simp add: process_init_inv\<close>)
  then have e: "k' = k1" using assms(4) by simp
  have h: "irq_handlers (kdrv k1) = boot_handlers" unfolding r(6) L(4) boot_handlers_def by (simp add: numeral_eq_Suc)
  show ?thesis unfolding e
    using r(1-5,7-9) h L(5) kmem_init_inv[OF L(6,7)] zero_pipe_inv(1)
    by (simp add: kernel_ok_def pipes_inv_def MAX_PIPES_def FD_MAX_def kb_inv_def)
qed

definition pos_of :: "status \<Rightarrow> shell_pos" where
  "pos_of st0 = (case st0 of Shell pos \<Rightarrow> pos | _ \<Rightarrow> Left Cmd_switched)"

lemma system_ok_settle:
  "system_ok pos sh \<Longrightarrow> system_ok (pos_of (settle (shell_status pos) k)) sh"
  "system_ok (pos_of st0) sh \<Longrightarrow> system_ok (pos_of (settle (int_status st0 r) k)) sh"
  "kernel_ok (sk sh) \<Longrightarrow> hist_ok (shist sh) \<Longrightarrow> length (sbuf sh) = 256 \<Longrightarrow> system_ok (pos_of (settle (sys_status x) k)) sh"
  by (auto simp: system_ok_def pos_of_def settle_def shell_status_def int_status_def sys_status_def
      split: shell_pos.splits int_result.splits sys_result.splits)

lemma system_ok_sk: "system_ok pos sh \<Longrightarrow> kernel_ok k \<Longrightarrow> system_ok pos (sh\<lparr>sk := k\<rparr>)"
  by (simp add: system_ok_def)

lemma system_keeps: "system io rb st0 sh \<Longrightarrow> system_ok (pos_of st0) sh"
proof (induction rule: system.induct)
  case (boot p1 p2 u polls k isr irq sc idle k' b)
  have "system_ok At_prompt \<lparr>sk = k', shist = hist0, sbuf = b\<rparr>"
    using boot boot_kernel_ok[OF boot(1-4)] by (simp add: system_ok_def hist0_ok(1))
  from system_ok_settle(1)[OF this] show ?case by (simp add: shell_status_def)
next
  case (device st0 sh d vs)
  then show ?case by (intro system_ok_sk) (simp_all add: system_ok_def kernel_ok_def)
next
  case (interrupt st0 sh regs k r)
  then show ?case using interrupt_keeps[of "sk sh" io regs]
    by (intro system_ok_settle(2) system_ok_sk) (auto simp: system_ok_def)
next
  case (idle sh regs k r)
  then show ?case using idle_keeps[of "sk sh" io regs]
    by (intro system_ok_settle(2) system_ok_sk) (auto simp: system_ok_def)
next
  case (user sh m' k x1 x2 x3 x4 x5 x6)
  have "kernel_ok k" using user by (simp add: system_ok_def kernel_ok_def sched_inv_def state_of_def)
  then show ?case using user by (simp add: system_ok_def pos_of_def settle_def)
next
  case (syscall sh regs k r)
  then show ?case using syscall_keeps[of "sk sh" io regs] by (intro system_ok_settle(3)) (auto simp: system_ok_def)
next
  case (fault sh regs k pf)
  then have "kernel_ok k" using syscall_keeps[of "sk sh" io regs] by (simp add: system_ok_def)
  then show ?case using fault interrupt_keeps[of k io pf] by (simp add: system_ok_def pos_of_def)
next
  case (shell pos sh irqs pos' sh')
  have "system_ok pos sh" using shell.IH by (simp add: pos_of_def)
  from system_ok_settle(1)[OF shell_run_keeps[OF this shell.hyps(2)]] show ?case .
qed

text \<open>
  C1. In every state the system reaches from its start, whatever interrupts, steps of user programs, system calls (with arbitrary
  arguments), keys and commands come in whatever order: the cursor is on the screen, the heap is a well-formed list of blocks, at most one
  process is running, it is the current one and live pids are unique, every pipe is a well-formed queue of at most 256
  bytes, the descriptor table and the keyboard buffer keep their sizes and the buffer's positions stay in it,
  the interrupt handlers are those of the start, and the shell's history entries are terminated strings. Nothing is claimed once a read of a
  system call has been directed into kernel memory, another access of the kernel has left the memory it may use, or a program has
  written below 1 MB (the hypothesis on \<open>derailed\<close>); and the histories end where the processor stops and where \<^verbatim>\<open>run\<close> puts a program into ring 0.
\<close>
theorem system_invariant:
  assumes "system io rb st0 sh" "\<not> derailed (mm (ksched (sk sh)))"
  shows "con_ok (kcon (sk sh)) \<and> heap_inv (kheap (sk sh)) \<and>
    (\<forall>i < 16. \<forall>j < 16. state_of (ksched (sk sh)) i = PROC_RUNNING \<and> state_of (ksched (sk sh)) j = PROC_RUNNING \<longrightarrow>
       i = j \<and> current_process (ksched (sk sh)) = Some i) \<and>
    (\<forall>i < 16. \<forall>j < 16. state_of (ksched (sk sh)) i \<noteq> PROC_UNUSED \<and> state_of (ksched (sk sh)) j \<noteq> PROC_UNUSED \<and>
       pid (process_table (ksched (sk sh)) ! i) = pid (process_table (ksched (sk sh)) ! j) \<longrightarrow> i = j) \<and>
    (\<forall>p \<in> set (pipes (kipc (sk sh))). pipe_inv p \<and> length (pipe_contents p) \<le> 256) \<and>
    length (fd_table (kfds (sk sh))) = 16 \<and> kb_inv (kdrv (sk sh)) \<and>
    irq_handlers (kdrv (sk sh)) = [Some Timer_irq, Some Keyboard_irq] @ replicate 14 None \<and>
    (\<forall>e \<in> set (history (shist sh)). length e = 256 \<and> e ! 255 = 0)"
proof -
  have ok: "kernel_ok (sk sh)" "hist_ok (shist sh)" using system_keeps[OF assms(1)] by (simp_all add: system_ok_def)
  note inv = sched_invD[OF kernel_ok_sched[OF ok(1)]]
  have run: "i = j \<and> current_process (ksched (sk sh)) = Some i"
    if "i < 16" "j < 16" "state_of (ksched (sk sh)) i = PROC_RUNNING" "state_of (ksched (sk sh)) j = PROC_RUNNING" for i j
    using inv(5)[of i] inv(5)[of j] that by auto
  have pids: "i = j" if "i < 16" "j < 16" "state_of (ksched (sk sh)) i \<noteq> PROC_UNUSED" "state_of (ksched (sk sh)) j \<noteq> PROC_UNUSED"
      "pid (process_table (ksched (sk sh)) ! i) = pid (process_table (ksched (sk sh)) ! j)" for i j
  proof -
    have "(of_nat (Suc i) :: u32) = of_nat (Suc j)" using that inv(3,4) by (metis not_le)
    then show ?thesis using that(1,2) unat_of_nat_u32[of "Suc i"] unat_of_nat_u32[of "Suc j"] by simp
  qed
  have "\<forall>p \<in> set (pipes (kipc (sk sh))). pipe_inv p \<and> length (pipe_contents p) \<le> 256"
    using ok(1) by (auto simp: kernel_ok_def pipes_inv_def length_pipe_contents pipe_inv_def)
  then show ?thesis using ok run pids unfolding kernel_ok_def hist_ok_def boot_handlers_def by blast
qed

text \<open>The started machine and a key press on it.\<close>

definition press_key :: registers where
  "press_key = \<lparr>r_eax = 10, r_ebx = 0, r_ecx = 0, r_edx = 0, int_no = 33, err_code = 0, r_eip = 0x2000, r_eflags = 0x202\<rparr>"

definition shell0 :: "'d kernel \<Rightarrow> 'd shell" where
  "shell0 k = \<lparr>sk = k, shist = hist0, sbuf = replicate 256 0\<rparr>"

lemma interrupt_derailed: "derailed (mm (ksched (fst (interrupt_handler io regs k)))) = derailed (mm (ksched k))"
proof -
  have y: "derailed (mm (process_yield s)) = derailed (mm s)" for s
    using yield_derailed[of "k\<lparr>ksched := s\<rparr>"] by (simp add: yield_def)
  have p: "mm (dsched (kb_push c t)) = mm (dsched t)" for c and t :: "'a drv" by (simp add: kb_push_def Let_def process_wake_all_blocked_def)
  have "mm (dsched (keyboard_scancode c t)) = mm (dsched t)" for c and t :: "'a drv"
    using p by (auto simp: keyboard_scancode_decode set_kb_flags_def Let_def split_beta split: option.splits)
  then have "derailed (mm (dsched (fst (run_irq_fn io h s)))) = derailed (mm (dsched s))" for h s
    by (cases h) (simp_all add: run_irq_fn_def timer_irq_handler_def keyboard_irq_handler_def Let_def split_beta y)
  then show ?thesis by (simp add: interrupt_handler_def on_con_def on_drv_def irq_handler_def Let_def split_beta)
qed

lemma process_init_fresh:
  assumes "length (process_table s) = 16"
  shows "derailed (mm (process_init idle s)) = derailed (mm s)" "i \<in> {1 ..< 16} \<Longrightarrow> state_of (process_init idle s) i = PROC_UNUSED"
proof -
  let ?s = "s\<lparr>process_table := map (\<lambda>p. p\<lparr>p_state := PROC_UNUSED, pid := 0, pd_phys := 0, is_user := False\<rparr>) (process_table s), next_pid := 0\<rparr>"
  have "alloc_slot ?s = Some 0" using assms by (simp add: alloc_slot_def state_of_def MAX_PROCESSES_def upt_rec)
  then obtain f where t: "process_init idle s = fill_slot 0 f idle ?s"
    unfolding process_init_def process_create_fill Let_def by auto
  show "derailed (mm (process_init idle s)) = derailed (mm s)"
    by (simp add: t fill_slot_def build_initial_kstack_def store_def on_mm_def upd_proc_def Let_def)
  show "state_of (process_init idle s) i = PROC_UNUSED" if "i \<in> {1 ..< 16}"
    using that assms by (simp add: t state_of_def fill_slot_table)
qed

text \<open>The start leaves a sound kernel: no access has faulted, and the idle process is the only one.\<close>

lemma boot_sound:
  assumes "board io p1 p2 u polls" "\<not> dlab (u (kdev k))" "loaded k" "kernel_main io isr irq sc idle k = Some k'"
    and "\<not> derailed (mm (ksched k))"
  shows "sound k'"
proof -
  have L: "length (vga_buffer (kcon k)) = 2000" "length (process_table (ksched k)) = 16" "current_process (ksched k) = None"
      "kernel_layout (mm (ksched k))"
    using assms(3) unfolding loaded_def Let_def by blast+
  let ?m = "(mm (ksched k))\<lparr>frames := pmm_init (memory (mm (ksched k)))\<rparr>"
  obtain c k1 where "kernel_main io isr irq sc idle k = Some k1" and r: "ksched k1 = process_init idle ((ksched k)\<lparr>cpu := c, mm := paging_init ?m\<rparr>)"
    by (rule kernel_main_runs[OF assms(1,2) L(1), of isr irq sc idle])
  then have e: "k' = k1" using assms(4) by simp
  have "kernel_layout ?m" using L(4) by (simp add: kernel_layout_def kframe_def)
  from paging_init_spec[OF this] have "derailed (paging_init ?m) = derailed (mm (ksched k))" by auto
  then have "\<not> derailed (mm (ksched k1))" using assms(5) L(2) unfolding r by (simp add: process_init_fresh(1))
  moreover have "state_of (ksched k1) i = PROC_UNUSED" if "i \<in> {1 ..< 16}" for i
    unfolding r using that L(2) by (intro process_init_fresh(2)) simp_all
  ultimately show ?thesis by (simp add: sound_def e)
qed

lemma system0:
  "\<exists>k. kernel_main board_io (\<lambda>n. 0x2000) (\<lambda>n. 0x3000) 0x4000 0x1500 (kernel_image board0) = Some k \<and>
     system board_io 0 (Shell At_prompt) (shell0 k) \<and> sound k"
proof -
  have u: "\<not> dlab ((fst \<circ> snd) (kdev (kernel_image board0)))" by (simp add: kernel_image_def board0_def uart0_def dlab_def)
  have L: "length (vga_buffer (kcon (kernel_image board0))) = 2000" by (simp add: kernel_image_def Let_def)
  obtain k where k: "kernel_main board_io (\<lambda>n. 0x2000) (\<lambda>n. 0x3000) 0x4000 0x1500 (kernel_image board0) = Some k"
    by (rule kernel_main_runs[OF board_io_board u L])
  have s: "sound k" by (rule boot_sound[OF board_io_board u kernel_image_loaded k]) (simp add: kernel_image_def mm0_def)
  have "system board_io 0 (settle (Shell At_prompt) k) (shell0 k)"
    unfolding shell0_def by (intro system.boot[OF board_io_board u kernel_image_loaded k]) simp
  then show ?thesis using k s by (auto simp: settle_def)
qed

theorem system_invariant_witness:
  "\<exists>k. kernel_main board_io (\<lambda>n. 0x2000) (\<lambda>n. 0x3000) 0x4000 0x1500 (kernel_image board0) = Some k \<and>
     kb_inv (kdrv (fst (interrupt_handler board_io press_key k)))"
proof -
  obtain k where k: "kernel_main board_io (\<lambda>n. 0x2000) (\<lambda>n. 0x3000) 0x4000 0x1500 (kernel_image board0) = Some k"
      "system board_io 0 (Shell At_prompt) (shell0 k)" "sound k"
    using system0 by blast
  let ?k = "fst (interrupt_handler board_io press_key k)"
  have "\<not> derailed (mm (ksched ?k))" using k(3) by (simp add: interrupt_derailed sound_def)
  moreover obtain st0 where "system board_io 0 st0 ((shell0 k)\<lparr>sk := ?k\<rparr>)"
    using system.interrupt[OF k(2), of press_key "?k" "snd (interrupt_handler board_io press_key k)"] by (auto simp: shell0_def)
  ultimately show ?thesis using system_invariant[of board_io 0 st0 "(shell0 k)\<lparr>sk := ?k\<rparr>"] k(1,3) by (auto simp: sound_def)
qed

end
