(* ===== verification/Typing.thy ===== *)
theory Typing
  imports System
begin

text \<open>
  From the key to the command: the scancodes the keyboard sends, the interrupts they raise, the ring buffer, the line editor
  and the command the shell runs (\<^verbatim>\<open>kernel/isr.c\<close>, \<^verbatim>\<open>kernel/keyboard.c\<close>, \<^verbatim>\<open>kernel/shell.c\<close>).
\<close>

section \<open>The keyboard's interrupts\<close>



lemma kb_part [simp]:
  "kb_flags (s\<lparr>dev := d\<rparr>) = kb_flags s" "kb_contents (s\<lparr>dev := d\<rparr>) = kb_contents s"
  "kb_flags (s\<lparr>dsched := t\<rparr>) = kb_flags s" "kb_contents (s\<lparr>dsched := t\<rparr>) = kb_contents s"
  "kb_flags (s\<lparr>dev := d, dsched := t\<rparr>) = kb_flags s" "kb_contents (s\<lparr>dev := d, dsched := t\<rparr>) = kb_contents s"
  by (simp_all add: kb_flags_def kb_contents_def kb_used_def)





section \<open>Reading and running the line\<close>





section \<open>Typed lines are run\<close>










end
