(* ===== verification/Dispatch.thy ===== *)
theory Dispatch
  imports Shell
begin

text \<open>
  The commands as a table: \<^verbatim>\<open>execute_command\<close> of \<^verbatim>\<open>kernel/shell.c\<close> tests the line against one command after the other; a user
  expects that its first word selects the command and the rest are the arguments. This theory states the second and shows
  that the first is the same.
\<close>

section \<open>The table\<close>

text \<open>A command's word, what it does without a space behind it, and what it does with the text behind the space.\<close>

type_synonym 'd action = "'d kernel \<Rightarrow> 'd kernel \<times> cmd_result"

definition usage :: "'d io \<Rightarrow> string \<Rightarrow> 'd action" where
  "usage io t k = finish (print io [Put (line t)] k)"

definition plain_commands :: "'d io \<Rightarrow> (u8 list \<times> 'd action) list" where
  "plain_commands io =
     [(chars ''help'', finish \<circ> cmd_help io), (chars ''clear'', finish \<circ> cmd_clear io),
      (chars ''version'', finish \<circ> cmd_version io), (chars ''meminfo'', cmd_meminfo io),
      (chars ''uptime'', finish \<circ> cmd_uptime io), (chars ''date'', cmd_date io), (chars ''ps'', finish \<circ> cmd_ps io),
      (chars ''colortest'', finish \<circ> cmd_colortest io), (chars ''mkfs'', finish \<circ> cmd_mkfs io),
      (chars ''ls'', finish \<circ> cmd_ls io), (chars ''halt'', cmd_halt io), (chars ''reboot'', cmd_reboot io)]"

definition arg_commands :: "'d io \<Rightarrow> u32 \<Rightarrow> u32 list \<Rightarrow> (u8 list \<times> 'd action \<times> (u8 list \<Rightarrow> 'd action)) list" where
  "arg_commands io rb irqs =
     [(chars ''echo'', (finish \<circ> print io [Ch 10], \<lambda>a. finish \<circ> cmd_echo io a)),
      (chars ''kill'', (usage io ''Usage: kill <pid>'', \<lambda>a. finish \<circ> cmd_kill io a)),
      (chars ''sleep'', (usage io ''Usage: sleep <milliseconds>'', cmd_sleep io irqs)),
      (chars ''cat'', (usage io ''Usage: cat <filename>'', \<lambda>a. finish \<circ> cmd_cat io a)),
      (chars ''write'', (usage io ''Usage: write <filename> <text>'', \<lambda>a. finish \<circ> cmd_write io a)),
      (chars ''rm'', (usage io ''Usage: rm <filename>'', \<lambda>a. finish \<circ> cmd_rm io a)),
      (chars ''run'', (usage io ''Usage: run <filename>'', cmd_run io rb)),
      (chars ''exec'', (usage io ''Usage: exec <filename>'', cmd_exec io rb))]"

text \<open>
  The line without its leading spaces, up to its terminator; its first word; whether that is the whole line; and the action
  the tables give.
\<close>

definition run_line :: "'d io \<Rightarrow> u32 \<Rightarrow> u32 list \<Rightarrow> u8 list \<Rightarrow> 'd action" where
  "run_line io rb irqs cmd0 k =
     (let cmd = dropWhile (\<lambda>c. c = 32) cmd0;
          word = takeWhile (\<lambda>c. c \<noteq> 32) (cstr cmd);
          alone = (word = cstr cmd)
      in if cstr cmd = [] then (k, Cmd_done)
         else case map_of (plain_commands io) word of
             Some f \<Rightarrow> if alone then f k else finish (cmd_unknown io cmd k)
           | None \<Rightarrow>
               (case map_of (arg_commands io rb irqs) word of
                  Some (f, g) \<Rightarrow> if alone then f k else g (drop (Suc (length word)) cmd) k
                | None \<Rightarrow> finish (cmd_unknown io cmd k)))"

section \<open>The tests of the chain\<close>

lemma str_eq_cstr: "str_eq a b \<longleftrightarrow> cstr a = cstr b"
  by (induction a b rule: str_eq.induct) auto

lemma str_startswith_cstr: "0 \<notin> set b \<Longrightarrow> str_startswith a b \<longleftrightarrow> take (length b) (cstr a) = b"
  by (induction a b rule: str_startswith.induct) auto

definition first_word :: "u8 list \<Rightarrow> u8 list" where
  "first_word c = takeWhile (\<lambda>x. x \<noteq> 32) c"

lemma word_alone:
  assumes "32 \<notin> set w"
  shows "c = w \<longleftrightarrow> first_word c = w \<and> first_word c = c"
proof -
  have "first_word w = w" using assms unfolding first_word_def by (intro takeWhile_eq_all_conv[THEN iffD2]) auto
  then show ?thesis by auto
qed

lemma word_with_args:
  assumes "32 \<notin> set w"
  shows "take (Suc (length w)) c = w @ [32] \<longleftrightarrow> first_word c = w \<and> first_word c \<noteq> c"
  using assms
proof (induction w arbitrary: c)
  case Nil
  then show ?case by (cases c) (auto simp: first_word_def)
next
  case (Cons x w)
  then show ?case by (cases c) (auto simp: first_word_def)
qed

lemma test_alone:
  assumes "0 \<notin> set w" "32 \<notin> set w"
  shows "str_eq cmd w \<longleftrightarrow> first_word (cstr cmd) = w \<and> first_word (cstr cmd) = cstr cmd"
  using word_alone[OF assms(2), of "cstr cmd"] cstr_id[OF assms(1)] by (simp add: str_eq_cstr)

lemma test_args:
  assumes "0 \<notin> set w" "32 \<notin> set w"
  shows "str_startswith cmd (w @ [32]) \<longleftrightarrow> first_word (cstr cmd) = w \<and> first_word (cstr cmd) \<noteq> cstr cmd"
  using word_with_args[OF assms(2), of "cstr cmd"] str_startswith_cstr[of "w @ [32]" cmd] assms(1) by simp

lemma of_char_u8: "(of_char c :: u8) = of_char d \<longleftrightarrow> c = d"
proof
  let ?bits = "\<lambda>c. [digit0 c, digit1 c, digit2 c, digit3 c, digit4 c, digit5 c, digit6 c, digit7 c]"
  assume "(of_char c :: u8) = of_char d"
  then have "bit (horner_sum of_bool 2 (?bits c) :: u8) n = bit (horner_sum of_bool 2 (?bits d) :: u8) n" for n
    unfolding of_char_def by simp
  then have b: "(n < 8 \<and> ?bits c ! n) = (n < 8 \<and> ?bits d ! n)" for n
    by (simp only: bit_horner_sum_bit_word_iff) (simp add: numeral_eq_Suc)
  have n: "?bits c ! n = ?bits d ! n" if "n < 8" for n using b[of n] that by blast
  show "c = d"
    using n[of 0] n[of 1] n[of 2] n[of 3] n[of 4] n[of 5] n[of 6] n[of 7] by (simp add: char.expand)
qed simp

lemma chars_inj [simp]: "chars s = chars t \<longleftrightarrow> s = t"
  unfolding chars_def by (rule inj_map_eq_map) (simp add: inj_def of_char_u8)

lemma of_char_space: "(of_char (CHR '' '') :: u8) = 32"
  by (simp add: of_char_def)

lemma of_char_nul: "(of_char (CHR 0x00) :: u8) = 0"
  by (simp add: of_char_def)

lemma chars_free: "0 \<notin> set (chars t) \<longleftrightarrow> CHR 0x00 \<notin> set t" "32 \<notin> set (chars t) \<longleftrightarrow> CHR '' '' \<notin> set t"
  unfolding chars_def set_map image_iff of_char_nul[symmetric] of_char_space[symmetric] of_char_u8 by auto

lemma length_chars [simp]: "length (chars t) = length t"
  by (simp add: chars_def)

text \<open>The tests against the literals of the chain, in terms of the first word.\<close>

lemma literal_tests:
  assumes "CHR 0x00 \<notin> set t"
  shows "CHR '' '' \<notin> set t \<Longrightarrow> str_eq cmd (chars t) \<longleftrightarrow> first_word (cstr cmd) = chars t \<and> first_word (cstr cmd) = cstr cmd"
    and "t \<noteq> [] \<Longrightarrow> last t = CHR '' '' \<Longrightarrow> CHR '' '' \<notin> set (butlast t) \<Longrightarrow>
      str_startswith cmd (chars t) \<longleftrightarrow> first_word (cstr cmd) = chars (butlast t) \<and> first_word (cstr cmd) \<noteq> cstr cmd"
proof -
  show "str_eq cmd (chars t) \<longleftrightarrow> first_word (cstr cmd) = chars t \<and> first_word (cstr cmd) = cstr cmd" if "CHR '' '' \<notin> set t"
    using that assms by (intro test_alone) (simp_all add: chars_free)
  assume t: "t \<noteq> []" "last t = CHR '' ''" "CHR '' '' \<notin> set (butlast t)"
  then have "t = butlast t @ [CHR '' '']" by (metis append_butlast_last_id)
  then have "chars t = chars (butlast t) @ [32]" unfolding chars_def by (metis (no_types, lifting) list.simps(8,9) map_append of_char_space)
  then show "str_startswith cmd (chars t) \<longleftrightarrow> first_word (cstr cmd) = chars (butlast t) \<and> first_word (cstr cmd) \<noteq> cstr cmd"
    using test_args[of "chars (butlast t)" cmd] t(3) assms in_set_butlastD[of "CHR 0x00" t] by (auto simp: chars_free)
qed

section \<open>The chain is the table\<close>

text \<open>
  C38. The chain of tests in \<^verbatim>\<open>execute_command\<close> is the lookup of the line's first word in the table of commands: after the
  leading spaces an empty line does nothing; a word of the table alone on the line runs its command, or prints its usage when
  it needs an argument; a command that takes arguments gets the text behind the first space; and every other line, one
  that puts a space behind a command without arguments included, is reported as unknown.
\<close>
theorem execute_command_dispatch: "execute_command io rb irqs cmd k = run_line io rb irqs cmd k"
proof -
  define c where "c = dropWhile (\<lambda>x. x = 32) cmd"
  define w where "w = first_word (cstr c)"
  define alone where "alone \<longleftrightarrow> w = cstr c"
  have emp: "empty_name c \<longleftrightarrow> cstr c = []" by (cases c) (auto simp: empty_name_def)
  note tests = literal_tests[where cmd = c, folded w_def, folded alone_def]
  note chain = execute_command_def[of io rb irqs cmd k, folded c_def, unfolded Let_def emp]
  note tab = run_line_def[of io rb irqs cmd k, folded c_def first_word_def, unfolded Let_def, folded w_def alone_def,
    unfolded plain_commands_def arg_commands_def usage_def]
  define words where "words = {''help'', ''clear'', ''version'', ''meminfo'', ''uptime'', ''date'', ''ps'', ''colortest'', ''mkfs'', ''ls'',
    ''halt'', ''reboot'', ''echo'', ''kill'', ''sleep'', ''cat'', ''write'', ''rm'', ''run'', ''exec''}"
  consider t where "w = chars t" "t \<in> words" | "\<forall>t \<in> words. w \<noteq> chars t" by blast
  then show ?thesis
  proof cases
    case 1
    then show ?thesis unfolding chain tab unfolding words_def by (elim insertE emptyE; cases alone; simp add: tests numeral_eq_Suc)
  next
    case 2
    then show ?thesis unfolding chain tab words_def by (simp add: tests)
  qed
qed

end
