(* ===== verification/Buffers.thy ===== *)
theory Buffers
  imports Programs
begin

text \<open>
  The buffers of the kernel that take the contents of files: the caller's buffer of \<^verbatim>\<open>fs_read\<close> in \<^verbatim>\<open>kernel/fs.c\<close> and \<^verbatim>\<open>run_buf\<close> of
  \<^verbatim>\<open>kernel/shell.c\<close>. What is stored stays within them for every content of the disk and every answer of the drive.
\<close>

section \<open>Reads deliver what they announce\<close>

lemma length_read_words: "length (fst (read_words io n d)) = n"
  by (induction n arbitrary: d) (simp_all add: split_beta)

lemma length_words_bytes: "length (concat (map bytes16 ws)) = 2 * length ws"
  by (induction ws) simp_all

lemma ata_read_length: "length (fst (snd (ata_read_sectors io lba 1 d))) \<le> 512"
  by (simp add: ata_read_sectors_def split_beta length_words_bytes length_read_words)

definition short_reads :: "'d blk \<Rightarrow> bool" where
  "short_reads blk \<longleftrightarrow> (\<forall>lba d. length (fst (snd (rd blk lba 1 d))) \<le> 512)"

lemma ata_short_reads: "short_reads (ata_blk io)"
  by (simp add: short_reads_def ata_blk_def ata_read_length)

lemma fs_read_loop_length:
  assumes "short_reads blk" "fs_read_loop blk n f s = (out, rest, f', s')" "length (sector_buf s) = 512"
  shows "length out + unat rest = unat n \<and> length (sector_buf s') = 512"
  using assms
proof (induction blk n f s arbitrary: out rest f' s' rule: fs_read_loop.induct)
  case (1 blk n f s)
  show ?case
  proof (cases "n = 0")
    case True
    then show ?thesis using "1.prems" by (simp add: fs_read_loop.simps)
  next
    case False
    obtain r bs d where rd: "rd blk (f_start_lba f + f_pos f div ATA_SECTOR_SIZE) 1 (fdev s) = (r, bs, d)" by (metis prod_cases3)
    let ?c = "read_chunk (f_pos f) n" and ?s = "s\<lparr>fdev := d, sector_buf := fill bs (sector_buf s)\<rparr>"
    have "length bs \<le> 512" using "1.prems"(1) rd unfolding short_reads_def by (metis fst_conv snd_conv)
    then have sb: "length (sector_buf ?s) = 512" using "1.prems"(3) by (simp add: fill_def)
    show ?thesis
    proof (cases "r = 0")
      case True
      obtain o1 r1 f1 s1 where rec: "fs_read_loop blk (n - ?c) (f\<lparr>f_pos := f_pos f + ?c\<rparr>) ?s = (o1, r1, f1, s1)"
        by (metis prod_cases4)
      from "1.IH"[OF False refl refl refl refl rd[symmetric] refl refl _ refl refl "1.prems"(1) rec sb] True
      have ih: "length o1 + unat r1 = unat (n - ?c)" "length (sector_buf s1) = 512" by auto
      have "unat (f_pos f mod ATA_SECTOR_SIZE) = unat (f_pos f) mod 512" by (simp add: unat_mod ATA_SECTOR_SIZE_def)
      then have "length (take (unat ?c) (drop (unat (f_pos f mod ATA_SECTOR_SIZE)) (sector_buf ?s))) = unat ?c"
        using read_chunk_bounds(1)[OF False, of "f_pos f"] by (simp only: length_take length_drop sb) simp
      moreover have "out = take (unat ?c) (drop (unat (f_pos f mod ATA_SECTOR_SIZE)) (sector_buf ?s)) @ o1" "rest = r1" "s' = s1"
        using "1.prems"(2) False True rd rec by (simp_all add: fs_read_loop.simps[of blk n] Let_def)
      ultimately have "length out = unat ?c + length o1" "rest = r1" "s' = s1" by (simp_all only: length_append)
      moreover have "unat ?c \<le> unat n" "unat (n - ?c) = unat n - unat ?c"
        using read_chunk_bounds(1,3)[OF False, of "f_pos f"] by simp_all
      ultimately have "length out + unat rest = unat n" "length (sector_buf s') = 512" using ih by simp_all
      then show ?thesis by blast
    next
      case r: False
      then show ?thesis using "1.prems"(2) False rd sb by (auto simp: fs_read_loop.simps[of blk n] Let_def)
    qed
  qed
qed

lemma fs_read_length:
  assumes "short_reads blk" "length (sector_buf s) = 512" "fs_read blk f len s = (n, out, f', s')"
  shows "length out = unat n \<and> unat n \<le> unat len \<and> unat n \<le> unat (f_size f) \<and> length (sector_buf s') = 512"
proof (cases "\<not> f_valid f \<or> f_pos f \<ge> f_size f")
  case True
  then show ?thesis using assms by (auto simp: fs_read_def)
next
  case False
  let ?l = "if len > f_size f - f_pos f then f_size f - f_pos f else len"
  obtain o1 r1 f1 s1 where rec: "fs_read_loop blk ?l f s = (o1, r1, f1, s1)" by (metis prod_cases4)
  have l: "length o1 + unat r1 = unat ?l" "length (sector_buf s1) = 512" using fs_read_loop_length[OF assms(1) rec assms(2)] by auto
  have eq: "n = ?l - r1" "out = o1" "s' = s1" using assms(3) False rec by (simp_all add: fs_read_def Let_def)
  have "unat (?l - r1) = unat ?l - unat r1" using l(1) by (intro unat_sub) (simp add: word_le_nat_alt)
  then have n: "unat n = length out" using l(1) unfolding eq by simp
  have "unat ?l \<le> unat len" "unat ?l \<le> unat (f_size f)"
    using False by (auto simp: word_less_nat_alt unat_sub word_le_nat_alt)
  then have "unat n \<le> unat len" "unat n \<le> unat (f_size f)" using n l(1) unfolding eq(2) by linarith+
  then show ?thesis using n l(2) eq(3) by simp
qed

section \<open>The buffers of the shell\<close>

text \<open>The sector buffer has its size, which no operation of the file system changes.\<close>

definition sector_ok :: "'d kernel \<Rightarrow> bool" where
  "sector_ok k \<longleftrightarrow> length (sector_buf (ffs (kfds k))) = 512"

lemma read_file_length:
  assumes "sector_ok k" "read_file io f len k = (k', n, out, f')"
  shows "length out = unat n \<and> unat n \<le> unat len \<and> unat n \<le> unat (f_size f) \<and> ksched k' = ksched k"
proof -
  obtain s where "fs_read (ata_blk io) f len (ffs (kfds k)\<lparr>fdev := kdev k\<rparr>) = (n, out, f', s)" "ksched k' = ksched k"
    using assms(2) by (auto simp: read_file_def on_fs_def on_fds_def Let_def split: prod.splits)
  with fs_read_length[OF ata_short_reads _ this(1)] assms(1) show ?thesis by (simp add: sector_ok_def)
qed

lemma on_fs_sector:
  assumes "on_fs f k = (k', r)" "\<And>s. sector_buf (snd (f s)) = sector_buf s"
  shows "sector_ok k' = sector_ok k \<and> ksched k' = ksched k"
  using assms(1) assms(2)[of "(ffs (kfds k))\<lparr>fdev := kdev k\<rparr>"]
  by (auto simp: on_fs_def on_fds_def Let_def split_beta sector_ok_def)

lemma fs_sector:
  "sector_buf (snd (fs_init blk s)) = sector_buf s" "sector_buf (snd (snd (fs_open blk f name s))) = sector_buf s"
  by (simp_all add: fs_init_def read_super_def fs_open_def read_dir_def Let_def split_beta split: option.split)

lemma load_program_memory:
  assumes "sector_ok k" "unat rb + 65536 \<le> 4294967296" "load_program io rb u name k = (k', r)"
    and "\<not> (unat rb \<le> unat x \<and> unat x < unat rb + 65536)"
  shows "memory (mm (ksched k')) x = memory (mm (ksched k)) x"
proof -
  obtain k1 r1 where k1: "on_fs (fs_init (ata_blk io)) k = (k1, r1)" by fastforce
  note i = on_fs_sector[OF k1 fs_sector(1)]
  obtain k2 r2 f where k2: "open_file io name k1 = (k2, r2, f)" by (metis prod_cases3)
  have o: "sector_ok k2 = sector_ok k1 \<and> ksched k2 = ksched k1"
    by (rule on_fs_sector[OF k2[unfolded open_file_def]]) (simp add: Let_def split_beta fs_sector(2))
  obtain k3 n out f' where k3: "read_file io f (f_size f) k2 = (k3, n, out, f')" by (metis prod_cases4)
  have k2s: "sector_ok k2" using i o assms(1) by simp
  note rd = read_file_length[OF k2s k3]
  have s: "ksched (print io ps k) = ksched k" for ps and k :: "'a kernel" by (simp add: print_def on_con_def Let_def)
  have out: "poke rb out m x = m x" if "\<not> f_size f > RUN_BUF_SIZE" for m
  proof -
    have "length out \<le> 65536" using rd that by (simp add: RUN_BUF_SIZE_def word_less_nat_alt)
    then show ?thesis using assms(2,4) by (subst poke_apply) auto
  qed
  show ?thesis
    using assms(3) i o rd out[of "memory (mm (ksched k))"]
    by (auto simp: load_program_def k1 k2 k3 Let_def complain_def not_found_def s on_kmm_def on_sched_def split: if_splits)
qed

text \<open>
  C39. Whatever the disk holds and whatever its drive answers, a read of a file stores exactly the number of bytes it returns
  and never more than its caller has room for: \<^verbatim>\<open>read_file\<close> with room for \<open>len\<close> bytes delivers at most \<open>len\<close>, and loading a
  program for \<^verbatim>\<open>run\<close> or \<^verbatim>\<open>exec\<close> changes no byte of memory outside the 64 KB of \<^verbatim>\<open>run_buf\<close>, also when the directory
  entry lies about the file's size.
\<close>
theorem file_reads_bounded:
  assumes "sector_ok k" "unat rb + 65536 \<le> 4294967296"
  shows "(case read_file io f len k of (_, n, out, _) \<Rightarrow> length out = unat n \<and> unat n \<le> unat len) \<and>
    (\<not> (unat rb \<le> unat x \<and> unat x < unat rb + 65536) \<longrightarrow>
       memory (mm (ksched (fst (load_program io rb u name k)))) x = memory (mm (ksched k)) x)"
proof -
  have "case read_file io f len k of (_, n, out, _) \<Rightarrow> length out = unat n \<and> unat n \<le> unat len"
    using read_file_length[OF assms(1), of io f len] by (auto split: prod.split)
  moreover have "memory (mm (ksched (fst (load_program io rb u name k)))) x = memory (mm (ksched k)) x"
    if "\<not> (unat rb \<le> unat x \<and> unat x < unat rb + 65536)"
    using load_program_memory[OF assms surjective_pairing that] .
  ultimately show ?thesis by blast
qed

theorem file_reads_bounded_witness:
  "memory (mm (ksched (fst (load_program ata_io 0x20000 [] [0x61] kernel2)))) 0x1FFFF = memory (mm (ksched kernel2)) 0x1FFFF"
proof -
  have "sector_ok kernel2" using disk3_ok(1) by (simp add: sector_ok_def kernel2_def disk_ok_def)
  from file_reads_bounded[OF this, of "0x20000"] show ?thesis by simp
qed

end
