(* ===== verification/Stubs.thy ===== *)
theory Stubs
  imports Syscall Buffers
begin

text \<open>
  The assembly between the processor and the C handlers: the stubs of \<^verbatim>\<open>kernel/isr.asm\<close> and \<^verbatim>\<open>user_mode_enter\<close> of
  \<^verbatim>\<open>kernel/process.asm\<close>, as lists of instructions run by a step function, with what the processor itself does when an
  interrupt is delivered and at \<^verbatim>\<open>iret\<close>. The C handlers are those of the other theories; they see the frame through the
  pointer they are given. Interrupted code finds every register as it was, and a system call changes \<^verbatim>\<open>EAX\<close> only.
\<close>

section \<open>The processor\<close>

datatype reg = EAX | ECX | EDX | EBX | ESP | EBP | ESI | EDI
datatype sreg = ES | CS | SS | DS | FS | GS

text \<open>
  Registers, segment registers, program counter, flags and the kernel with its memory. Three fields stand for what the
  architecture and the compiler leave open: the upper half of the word a push of a segment register writes, and what
  compiled code leaves in the registers and flags it need not preserve. Kernel stacks are identity mapped.
\<close>

record 'd machine =
  gp :: "reg \<Rightarrow> u32"
  seg :: "sreg \<Rightarrow> u16"
  pc :: u32
  eflags :: u32
  kern :: "'d kernel"
  seg_hi :: "sreg \<Rightarrow> u16"
  c_gp :: "reg \<Rightarrow> u32"
  c_flags :: u32

abbreviation kram :: "'d kernel \<Rightarrow> mem" where
  "kram k \<equiv> memory (mm (ksched k))"

definition on_kram :: "(mem \<Rightarrow> mem) \<Rightarrow> 'd kernel \<Rightarrow> 'd kernel" where
  "on_kram f k = k\<lparr>ksched := on_mm (\<lambda>m. m\<lparr>memory := f (memory m)\<rparr>) (ksched k)\<rparr>"

definition cpl :: "'d machine \<Rightarrow> u16" where
  "cpl m = seg m CS AND 3"

definition seg_word :: "'d machine \<Rightarrow> sreg \<Rightarrow> u32" where
  "seg_word m r = ucast (seg m r) OR push_bit 16 (ucast (seg_hi m r))"

definition mpush :: "u32 \<Rightarrow> 'd machine \<Rightarrow> 'd machine" where
  "mpush v m = (let sp = gp m ESP - 4
     in m\<lparr>gp := (gp m)(ESP := sp), kern := on_kram (\<lambda>r. store32 r sp v) (kern m)\<rparr>)"

definition mpop :: "'d machine \<Rightarrow> u32 \<times> 'd machine" where
  "mpop m = (load32 (kram (kern m)) (gp m ESP), m\<lparr>gp := (gp m)(ESP := gp m ESP + 4)\<rparr>)"

definition pop_seg :: "sreg \<Rightarrow> 'd machine \<Rightarrow> 'd machine" where
  "pop_seg r m = (let (v, m) = mpop m in m\<lparr>seg := (seg m)(r := ucast v)\<rparr>)"

definition pop_reg :: "reg \<Rightarrow> 'd machine \<Rightarrow> 'd machine" where
  "pop_reg r m = (let (v, m) = mpop m in m\<lparr>gp := (gp m)(r := v)\<rparr>)"

text \<open>\<^verbatim>\<open>pusha\<close> pushes the stack pointer it started with, and \<^verbatim>\<open>popa\<close> skips that word.\<close>

definition pusha :: "'d machine \<Rightarrow> 'd machine" where
  "pusha m = fold mpush (map (gp m) [EAX, ECX, EDX, EBX, ESP, EBP, ESI, EDI]) m"

definition popa :: "'d machine \<Rightarrow> 'd machine" where
  "popa m =
     (let m = pop_reg EBP (pop_reg ESI (pop_reg EDI m)); m = snd (mpop m)
      in pop_reg EAX (pop_reg ECX (pop_reg EDX (pop_reg EBX m))))"

text \<open>
  A return to an outer ring clears the data segment registers that ring may not use: those whose descriptor is more
  privileged.
\<close>

definition usable :: "'d kernel \<Rightarrow> u16 \<Rightarrow> u16 \<Rightarrow> bool" where
  "usable k ring v \<longleftrightarrow>
     v < 4 \<or> ring \<le> ucast (desc_dpl (access (gdt_table (cpu (ksched k)) ! unat (drop_bit 3 v))))"

definition outer_segs :: "'d machine \<Rightarrow> 'd machine" where
  "outer_segs m = m\<lparr>seg := (\<lambda>r. if r \<in> {DS, ES, FS, GS} \<and> \<not> usable (kern m) (cpl m) (seg m r) then 0 else seg m r)\<rparr>"

definition iret :: "'d machine \<Rightarrow> 'd machine" where
  "iret m =
     (let sp = gp m ESP; w = (\<lambda>i. load32 (kram (kern m)) (sp + i));
          n = m\<lparr>pc := w 0, seg := (seg m)(CS := ucast (w 4)), eflags := w 8, gp := (gp m)(ESP := sp + 12)\<rparr>
      in if cpl n = cpl m then n
         else outer_segs (n\<lparr>gp := (gp n)(ESP := w 12), seg := (seg n)(SS := ucast (w 16))\<rparr>))"

text \<open>
  Delivery of vector \<open>v\<close>: from an outer ring the processor first takes the ring-0 stack from the task state segment and
  saves the old one; then flags, \<^verbatim>\<open>CS\<close> and \<^verbatim>\<open>EIP\<close>, and for some exceptions an error code. The flags TF, NT, RF and VM are cleared, and an
  interrupt gate also clears IF, which masks further interrupts. No value is left when the gate is not present.
\<close>

definition has_errcode :: "nat \<Rightarrow> bool" where
  "has_errcode v \<longleftrightarrow> v \<in> {8, 10, 11, 12, 13, 14, 17}"

definition ring0_stack :: "'d machine \<Rightarrow> 'd machine" where
  "ring0_stack m =
     (if cpl m = 0 then m
      else let t = tss (cpu (ksched (kern m)))
           in mpush (gp m ESP) (mpush (seg_word m SS) (m\<lparr>gp := (gp m)(ESP := esp0 t), seg := (seg m)(SS := ucast (ss0 t))\<rparr>)))"

definition deliver :: "nat \<Rightarrow> u32 \<Rightarrow> 'd machine \<Rightarrow> 'd machine option" where
  "deliver v err m =
     (let g = idt_table (cpu (ksched (kern m))) ! v
      in if \<not> bit (type_attr g) 7 then None
         else let n = mpush (pc m) (mpush (seg_word m CS) (mpush (eflags m) (ring0_stack m)));
                  n = (if has_errcode v then mpush err n else n)
              in Some (n\<lparr>pc := gate_offset g, seg := (seg n)(CS := selector g),
                    eflags := eflags n AND NOT (if masks_interrupts g then 0x34300 else 0x34100)\<rparr>))"

section \<open>The C handlers behind their frame pointer\<close>

text \<open>The fields of the \<^verbatim>\<open>registers_t\<close> at \<open>p\<close> that the handlers read.\<close>

definition regs_at :: "mem \<Rightarrow> u32 \<Rightarrow> registers" where
  "regs_at m p =
     \<lparr>r_eax = load32 m (p + 44), r_ebx = load32 m (p + 32), r_ecx = load32 m (p + 40), r_edx = load32 m (p + 36),
      int_no = load32 m (p + 48), err_code = load32 m (p + 52), r_eip = load32 m (p + 56), r_eflags = load32 m (p + 64)\<rparr>"

text \<open>A call ends on the right when it returns to the stub, on the left when control is elsewhere.\<close>

datatype cfun = Interrupt_handler | Syscall_handler

definition irq_call :: "'d io \<Rightarrow> u32 \<Rightarrow> 'd kernel \<Rightarrow> 'd kernel + 'd kernel" where
  "irq_call io p k = (let (k, r) = interrupt_handler io (regs_at (kram k) p) k in if r = Resumed then Inr k else Inl k)"

text \<open>\<^verbatim>\<open>syscall_handler\<close> stores the default result 0 before the call runs and the result of the call after it.\<close>

definition sys_call :: "'d io \<Rightarrow> u32 \<Rightarrow> 'd kernel \<Rightarrow> 'd kernel + 'd kernel" where
  "sys_call io p k =
     (case syscall_handler io (regs_at (kram k) p) (on_kram (\<lambda>r. store32 r (p + 44) 0) k) of
        (k, Sys_returns v) \<Rightarrow> Inr (on_kram (\<lambda>r. store32 r (p + 44) v) k)
      | (k, _) \<Rightarrow> Inl k)"

definition c_call :: "'d io \<Rightarrow> cfun \<Rightarrow> u32 \<Rightarrow> 'd kernel \<Rightarrow> 'd kernel + 'd kernel" where
  "c_call io c = (case c of Interrupt_handler \<Rightarrow> irq_call io | Syscall_handler \<Rightarrow> sys_call io)"

section \<open>Instructions\<close>

text \<open>
  \<open>PUSH_FIELD\<close> pushes the word at an offset from the process that \<^verbatim>\<open>EAX\<close> points to. The arithmetic flags of \<^verbatim>\<open>add esp\<close> are not followed:
  \<^verbatim>\<open>iret\<close> replaces them all.
\<close>

datatype instr = PUSH_IMM u32 | PUSH_ESP | PUSH_SEG sreg | POP_SEG sreg | PUSHA | POPA | MOV_AX u16 | MOV_SEG sreg
  | ADD_ESP u32 | CALL cfun | IRET | MOV_EAX_CURRENT | PUSH_FIELD u32 | PUSHFD | OR_TOP u32

definition proc_addr :: "sched \<Rightarrow> u32" where
  "proc_addr s = (case current_process s of None \<Rightarrow> 0 | Some i \<Rightarrow> table_addr s + 8252 * of_nat i)"

text \<open>The process whose structure starts at \<open>a\<close>, and the word at an offset of the structure.\<close>

definition proc_at :: "sched \<Rightarrow> u32 \<Rightarrow> process" where
  "proc_at s a = process_table s ! (unat (a - table_addr s) div 8252)"

definition proc_word :: "process \<Rightarrow> u32 \<Rightarrow> u32" where
  "proc_word p off =
     [p_esp p, pd_phys p, of_nat (state_code (p_state p)), pid p, of_bool (is_user p), user_eip p, user_esp p] ! unat (off div 4)"

definition PROC_USER_EIP :: u32 where [kconst]: "PROC_USER_EIP = 20"
definition PROC_USER_ESP :: u32 where [kconst]: "PROC_USER_ESP = 24"

text \<open>The callee keeps the registers of the calling convention; its own stack frames lie below the argument.\<close>

definition after_call :: "'d machine \<Rightarrow> 'd kernel \<Rightarrow> 'd machine" where
  "after_call m k = m\<lparr>gp := (\<lambda>r. if r \<in> {EAX, ECX, EDX} then c_gp m r else gp m r), eflags := c_flags m, kern := k\<rparr>"

fun exec1 :: "(cfun \<Rightarrow> u32 \<Rightarrow> 'd kernel \<Rightarrow> 'd kernel + 'd kernel) \<Rightarrow> instr \<Rightarrow> 'd machine \<Rightarrow> 'd kernel + 'd machine" where
  "exec1 C (PUSH_IMM v) m = Inr (mpush v m)"
| "exec1 C PUSH_ESP m = Inr (mpush (gp m ESP) m)"
| "exec1 C (PUSH_SEG r) m = Inr (mpush (seg_word m r) m)"
| "exec1 C (POP_SEG r) m = Inr (pop_seg r m)"
| "exec1 C PUSHA m = Inr (pusha m)"
| "exec1 C POPA m = Inr (popa m)"
| "exec1 C (MOV_AX v) m = Inr (m\<lparr>gp := (gp m)(EAX := (gp m EAX AND 0xFFFF0000) OR ucast v)\<rparr>)"
| "exec1 C (MOV_SEG r) m = Inr (m\<lparr>seg := (seg m)(r := ucast (gp m EAX))\<rparr>)"
| "exec1 C (ADD_ESP v) m = Inr (m\<lparr>gp := (gp m)(ESP := gp m ESP + v)\<rparr>)"
| "exec1 C (CALL c) m =
     (case C c (load32 (kram (kern m)) (gp m ESP)) (kern m) of Inl k \<Rightarrow> Inl k | Inr k \<Rightarrow> Inr (after_call m k))"
| "exec1 C IRET m = Inr (iret m)"
| "exec1 C MOV_EAX_CURRENT m = Inr (m\<lparr>gp := (gp m)(EAX := proc_addr (ksched (kern m)))\<rparr>)"
| "exec1 C (PUSH_FIELD off) m = Inr (mpush (proc_word (proc_at (ksched (kern m)) (gp m EAX)) off) m)"
| "exec1 C PUSHFD m = Inr (mpush (eflags m) m)"
| "exec1 C (OR_TOP v) m =
     Inr (m\<lparr>kern := on_kram (\<lambda>r. store32 r (gp m ESP) (load32 r (gp m ESP) OR v)) (kern m)\<rparr>)"

fun exec :: "(cfun \<Rightarrow> u32 \<Rightarrow> 'd kernel \<Rightarrow> 'd kernel + 'd kernel) \<Rightarrow> instr list \<Rightarrow> 'd machine \<Rightarrow> 'd kernel + 'd machine" where
  "exec C [] m = Inr m"
| "exec C (i # p) m = (case exec1 C i m of Inl k \<Rightarrow> Inl k | Inr m \<Rightarrow> exec C p m)"

section \<open>The stubs\<close>

definition save_frame :: "instr list" where
  "save_frame = [PUSHA, PUSH_SEG DS, PUSH_SEG ES, PUSH_SEG FS, PUSH_SEG GS,
     MOV_AX 0x10, MOV_SEG DS, MOV_SEG ES, MOV_SEG FS, MOV_SEG GS, PUSH_ESP]"

definition restore_frame :: "instr list" where
  "restore_frame = [ADD_ESP 4, POP_SEG GS, POP_SEG FS, POP_SEG ES, POP_SEG DS, POPA, ADD_ESP 8, IRET]"

definition common_stub :: "instr list" where
  "common_stub = save_frame @ [CALL Interrupt_handler] @ restore_frame"

text \<open>The macros end in \<^verbatim>\<open>jmp common_stub\<close>.\<close>

definition ISR_NOERRCODE :: "nat \<Rightarrow> instr list" where
  "ISR_NOERRCODE n = [PUSH_IMM 0, PUSH_IMM (of_nat n)] @ common_stub"

definition ISR_ERRCODE :: "nat \<Rightarrow> instr list" where
  "ISR_ERRCODE n = [PUSH_IMM (of_nat n)] @ common_stub"

definition IRQ :: "nat \<Rightarrow> nat \<Rightarrow> instr list" where
  "IRQ n v = [PUSH_IMM 0, PUSH_IMM (of_nat v)] @ common_stub"

text \<open>The expansions of the three macros, in the order of the file.\<close>

definition isr_stubs :: "instr list list" where
  "isr_stubs =
     [ISR_NOERRCODE 0, ISR_NOERRCODE 1, ISR_NOERRCODE 2, ISR_NOERRCODE 3, ISR_NOERRCODE 4, ISR_NOERRCODE 5,
      ISR_NOERRCODE 6, ISR_NOERRCODE 7, ISR_ERRCODE 8, ISR_NOERRCODE 9, ISR_ERRCODE 10, ISR_ERRCODE 11, ISR_ERRCODE 12,
      ISR_ERRCODE 13, ISR_ERRCODE 14, ISR_NOERRCODE 15, ISR_NOERRCODE 16, ISR_ERRCODE 17, ISR_NOERRCODE 18,
      ISR_NOERRCODE 19]"

definition irq_stubs :: "instr list list" where
  "irq_stubs =
     [IRQ 0 32, IRQ 1 33, IRQ 2 34, IRQ 3 35, IRQ 4 36, IRQ 5 37, IRQ 6 38, IRQ 7 39, IRQ 8 40, IRQ 9 41, IRQ 10 42,
      IRQ 11 43, IRQ 12 44, IRQ 13 45, IRQ 14 46, IRQ 15 47]"

definition isr_syscall :: "instr list" where
  "isr_syscall = [PUSH_IMM 0, PUSH_IMM 0x80] @ save_frame @ [CALL Syscall_handler] @ restore_frame"

definition user_mode_enter :: "instr list" where
  "user_mode_enter =
     [MOV_EAX_CURRENT, MOV_AX 0x23, MOV_SEG DS, MOV_SEG ES, MOV_SEG FS, MOV_SEG GS, MOV_EAX_CURRENT,
      PUSH_IMM 0x23, PUSH_FIELD PROC_USER_ESP, PUSHFD, OR_TOP 0x200, PUSH_IMM 0x1B, PUSH_FIELD PROC_USER_EIP, IRET]"

text \<open>
  The code at an address, when \<open>isr\<close>, \<open>irq\<close> and \<open>sc\<close> are the addresses the linker gave the stubs, and the whole way of an
  interrupt: the gate leads to a stub, which runs to its \<^verbatim>\<open>iret\<close>.
\<close>

definition code_at :: "(nat \<Rightarrow> u32) \<Rightarrow> (nat \<Rightarrow> u32) \<Rightarrow> u32 \<Rightarrow> u32 \<Rightarrow> instr list option" where
  "code_at isr irq sc a =
     map_of (zip (map isr [0 ..< 20] @ map irq [0 ..< 16] @ [sc]) (isr_stubs @ irq_stubs @ [isr_syscall])) a"

definition interrupt ::
  "'d io \<Rightarrow> (nat \<Rightarrow> u32) \<Rightarrow> (nat \<Rightarrow> u32) \<Rightarrow> u32 \<Rightarrow> nat \<Rightarrow> u32 \<Rightarrow> 'd machine \<Rightarrow> ('d kernel + 'd machine) option" where
  "interrupt io isr irq sc v err m =
     (case deliver v err m of None \<Rightarrow> None
      | Some n \<Rightarrow> (case code_at isr irq sc (pc n) of None \<Rightarrow> None | Some p \<Rightarrow> Some (exec (c_call io) p n)))"

section \<open>Words on the stack\<close>

text \<open>The words \<open>ws\<close> written from address \<open>a\<close> up, the highest first as pushes do.\<close>

fun put_words :: "mem \<Rightarrow> u32 \<Rightarrow> u32 list \<Rightarrow> mem" where
  "put_words m a [] = m"
| "put_words m a (w # ws) = store32 (put_words m (a + 4) ws) a w"

lemma load32_store32_apart:
  fixes a b :: u32
  assumes "4 \<le> unat (b - a)" "unat (b - a) + 4 \<le> 4294967296"
  shows "load32 (store32 m a v) b = load32 m b"
proof (rule load32_cong)
  fix x assume x: "within b 4 x"
  have "unat (x - a) = unat ((b - a) + (x - b))" by simp
  also have "\<dots> = unat (b - a) + unat (x - b)" using x assms(2) by (intro unat_plus_u32) (simp add: within_def)
  finally show "store32 m a v x = m x" using assms(1) by (intro store32_apply_other) (simp add: within_def)
qed

lemma store32_twice: "store32 (store32 m a x) a y = store32 m a y"
  by (simp add: store32_def fun_eq_iff)

lemma load_words:
  assumes "4 * length ws \<le> 4294967296" "i < length ws"
  shows "load32 (put_words m a ws) (a + 4 * of_nat i) = ws ! i"
  using assms
proof (induction ws arbitrary: a i)
  case (Cons w ws)
  show ?case
  proof (cases i)
    case (Suc j)
    have "unat ((4 :: u32) * of_nat (Suc j)) = 4 * Suc j"
      using Cons.prems Suc unat_of_nat_u32[of "4 * Suc j"] by simp
    then have "load32 (put_words m a (w # ws)) (a + 4 * of_nat (Suc j)) = load32 (put_words m (a + 4) ws) (a + 4 * of_nat (Suc j))"
      using Cons.prems Suc by (simp add: load32_store32_apart)
    also have "a + 4 * of_nat (Suc j) = (a + 4) + 4 * of_nat j" by simp
    finally show ?thesis using Cons.IH[of j "a + 4"] Cons.prems Suc by (simp add: add.assoc)
  qed simp
qed simp

lemma put_words_other:
  assumes "unat a + 4 * length ws \<le> 4294967296" "unat x < unat a \<or> unat a + 4 * length ws \<le> unat x"
  shows "put_words m a ws x = m x"
  using assms
proof (induction ws arbitrary: a)
  case (Cons w ws)
  have x: "\<not> within a 4 x" using Cons.prems by (auto simp: within_nat)
  show ?case
  proof (cases "ws = []")
    case False
    then have "unat (a + 4) = unat a + 4" using Cons.prems(1) by (subst unat_plus_u32) (auto simp: Suc_le_eq neq_Nil_conv)
    then show ?thesis using Cons.IH[of "a + 4"] Cons.prems x by (auto simp: store32_apply_other)
  qed (use x in \<open>simp add: store32_apply_other\<close>)
qed simp

lemma on_kram_simps [simp]:
  "kram (on_kram f k) = f (kram k)" "cpu (ksched (on_kram f k)) = cpu (ksched k)"
  "current_process (ksched (on_kram f k)) = current_process (ksched k)"
  "process_table (ksched (on_kram f k)) = process_table (ksched k)"
  "table_addr (ksched (on_kram f k)) = table_addr (ksched k)" "on_kram f (on_kram g k) = on_kram (\<lambda>r. f (g r)) k"
  by (simp_all add: on_kram_def on_mm_def)

lemma current_pid_kram [simp]: "current_pid (on_kram f k) = current_pid k"
  by (simp add: current_pid_def split: option.split)

lemmas instr_simps = mpush_def mpop_def pop_seg_def pop_reg_def pusha_def popa_def after_call_def Let_def

lemma mov_ax_low: "(ucast ((x AND 0xFFFF0000 :: u32) OR 0x10) :: u16) = 0x10" "(ucast ((x AND 0xFFFF0000 :: u32) OR 0x23) :: u16) = 0x23"
proof -
  have "(0xFFFF0000 :: u32) = push_bit 16 0xFFFF" by simp
  then have "bit (0xFFFF0000 :: u32) n = bit (push_bit 16 0xFFFF :: u32) n" for n by (rule arg_cong)
  then have "\<not> bit (0xFFFF0000 :: u32) n" if "n < 16" for n using that by (simp only: bit_push_bit_iff) simp
  then have "(ucast ((x AND 0xFFFF0000 :: u32) OR ucast (v :: u16)) :: u16) = v" for v
    by (intro bit_word_eqI) (auto simp: bit_simps simp del: bit_numeral_word_iff)
  from this[of "0x10"] this[of "0x23"]
  show "(ucast ((x AND 0xFFFF0000 :: u32) OR 0x10) :: u16) = 0x10" "(ucast ((x AND 0xFFFF0000 :: u32) OR 0x23) :: u16) = 0x23"
    by simp_all
qed

lemma seg_word_low: "ucast (seg_word m r) = seg m r"
  unfolding seg_word_def by (rule bit_word_eqI) (auto simp: bit_simps)

section \<open>Saving and restoring\<close>

lemma reg_all: "(\<forall>r. P r) \<longleftrightarrow> P EAX \<and> P ECX \<and> P EDX \<and> P EBX \<and> P ESP \<and> P EBP \<and> P ESI \<and> P EDI"
  by (metis reg.exhaust)

lemma sreg_all: "(\<forall>r. P r) \<longleftrightarrow> P ES \<and> P CS \<and> P SS \<and> P DS \<and> P FS \<and> P GS"
  by (metis sreg.exhaust)

lemma exec_append: "exec C (p @ q) m = (case exec C p m of Inl k \<Rightarrow> Inl k | Inr n \<Rightarrow> exec C q n)"
  by (induction p arbitrary: m) (simp_all split: sum.split)

text \<open>What \<open>restore_frame\<close> does, in terms of the words above the stack pointer.\<close>

lemma exec_restore:
  fixes n :: "'d machine"
  defines "W \<equiv> \<lambda>i. load32 (kram (kern n)) (gp n ESP + i)"
  shows "exec C restore_frame n = Inr (iret (n\<lparr>seg := (seg n)(GS := ucast (W 4), FS := ucast (W 8), ES := ucast (W 12), DS := ucast (W 16)),
      gp := (gp n)(EDI := W 20, ESI := W 24, EBP := W 28, EBX := W 36, EDX := W 40, ECX := W 44, EAX := W 48, ESP := gp n ESP + 60)\<rparr>))"
  unfolding W_def restore_frame_def
  by (simp add: instr_simps, intro arg_cong[where f = iret] machine.equality)
    (simp_all add: fun_eq_iff reg_all sreg_all add.commute[of _ "gp n ESP"])

text \<open>
  The frame of the interrupted machine, from the frame pointer up, in the order of the fields of \<^verbatim>\<open>registers_t\<close>, and the
  two words more that the processor pushes on a change of ring.
\<close>

definition frame_ptr :: "'d machine \<Rightarrow> u32" where
  "frame_ptr m = (if cpl m = 0 then gp m ESP - 68 else esp0 (tss (cpu (ksched (kern m)))) - 76)"

definition frame :: "nat \<Rightarrow> u32 \<Rightarrow> 'd machine \<Rightarrow> u32 list" where
  "frame v err m =
     map (seg_word m) [GS, FS, ES, DS] @ [gp m EDI, gp m ESI, gp m EBP, frame_ptr m + 48] @
     map (gp m) [EBX, EDX, ECX, EAX] @ [of_nat v, if has_errcode v then err else 0] @
     [pc m, seg_word m CS, eflags m] @ (if cpl m = 0 then [] else [gp m ESP, seg_word m SS])"

definition stacked :: "nat \<Rightarrow> u32 \<Rightarrow> 'd machine \<Rightarrow> 'd kernel" where
  "stacked v err m = on_kram (\<lambda>r. put_words r (frame_ptr m - 4) (frame_ptr m # frame v err m)) (kern m)"

definition entry_code :: "nat \<Rightarrow> instr list" where
  "entry_code v = (if has_errcode v then [] else [PUSH_IMM 0]) @ [PUSH_IMM (of_nat v)] @ save_frame"

definition stub_code :: "nat \<Rightarrow> cfun \<Rightarrow> instr list" where
  "stub_code v c = entry_code v @ [CALL c] @ restore_frame"

text \<open>Up to the call, the processor and the stub have written this frame and pushed its address.\<close>

lemma exec_save:
  fixes m n :: "'d machine"
  assumes "deliver v err m = Some n"
  shows "\<exists>n'. exec C (entry_code v) n = Inr n' \<and>
    kern n' = stacked v err m \<and> gp n' ESP = frame_ptr m - 4 \<and>
    seg n' = (seg m)(DS := 0x10, ES := 0x10, FS := 0x10, GS := 0x10, CS := seg n CS, SS := seg n SS) \<and>
    seg_hi n' = seg_hi m \<and> c_gp n' = c_gp m \<and> c_flags n' = c_flags m"
  using assms
  by (auto simp: entry_code_def deliver_def ring0_stack_def save_frame_def instr_simps stacked_def frame_def frame_ptr_def
      seg_word_def fun_eq_iff mov_ax_low split: if_splits)

lemma stacked_word:
  assumes "i < Suc (length (frame v err m))"
  shows "load32 (kram (stacked v err m)) (frame_ptr m - 4 + 4 * of_nat i) = (frame_ptr m # frame v err m) ! i"
proof -
  have "length (frame v err m) \<le> 19" by (simp add: frame_def)
  then show ?thesis unfolding stacked_def using assms by (simp add: load_words del: put_words.simps)
qed

lemma deliver_cpl:
  assumes "deliver v err m = Some n" "selector (idt_table (cpu (ksched (kern m))) ! v) = 8"
  shows "seg n CS = 8"
  using assms by (auto simp: deliver_def Let_def split: if_splits)

text \<open>With the frame intact, \<open>restore_frame\<close> ends in the interrupted machine, but for \<^verbatim>\<open>EAX\<close> and the kernel.\<close>

lemma restore_returns:
  fixes m n :: "'d machine"
  defines "p \<equiv> frame_ptr m"
  defines "E \<equiv> load32 (kram (kern n)) (p + 44)"
  assumes n: "gp n ESP = p - 4" "cpl n = 0" "seg_hi n = seg_hi m" "c_gp n = c_gp m" "c_flags n = c_flags m"
    and ss: "cpl m = 0 \<Longrightarrow> seg n SS = seg m SS"
    and frame: "\<forall>j < length (frame v err m). j \<noteq> 11 \<longrightarrow> load32 (kram (kern n)) (p + 4 * of_nat j) = frame v err m ! j"
    and outer: "cpl m \<noteq> 0 \<Longrightarrow> \<forall>r \<in> {DS, ES, FS, GS}. usable (kern n) (cpl m) (seg m r)"
  shows "exec C restore_frame n = Inr (m\<lparr>gp := (gp m)(EAX := E), kern := kern n\<rparr>)"
proof -
  have l: "17 \<le> length (frame v err m)" "cpl m \<noteq> 0 \<Longrightarrow> length (frame v err m) = 19" by (simp_all add: frame_def)
  have w: "load32 (kram (kern n)) (p - 4 + 4 * of_nat (Suc j)) = frame v err m ! j" if "j < length (frame v err m)" "j \<noteq> 11" for j
    using that frame by simp
  define n3 where "n3 = n\<lparr>seg := (seg m)(CS := seg n CS, SS := seg n SS), gp := (gp m)(EAX := E, ESP := 56 + p)\<rparr>"
  have E: "E = load32 (kram (kern n)) (44 + p)" by (simp add: E_def add.commute)
  have "exec C restore_frame n = Inr (iret n3)"
    unfolding exec_restore n3_def n(1)
    using w[of 0] w[of 1] w[of 2] w[of 3] w[of 4] w[of 5] w[of 6] w[of 8] w[of 9] w[of 10] l(1)
    by (intro arg_cong[where f = Inr] arg_cong[where f = iret] machine.equality)
      (simp_all add: fun_eq_iff reg_all sreg_all E frame_def seg_word_low)
  also have "iret n3 = m\<lparr>gp := (gp m)(EAX := E), kern := kern n\<rparr>"
  proof (cases "cpl m = 0")
    case True
    then have "68 + p = gp m ESP" by (simp add: p_def frame_ptr_def)
    with True show ?thesis unfolding iret_def Let_def n3_def using w[of 14] w[of 15] w[of 16] l(1) n(2-) ss
      by (auto intro!: machine.equality simp: frame_def seg_word_low cpl_def fun_eq_iff)
  next
    case False
    then show ?thesis unfolding iret_def Let_def n3_def
      using w[of 14] w[of 15] w[of 16] w[of 17] w[of 18] l n(2-) outer
      by (auto intro!: machine.equality simp: frame_def seg_word_low cpl_def outer_segs_def fun_eq_iff)
  qed
  finally show ?thesis .
qed

text \<open>
  What a stub relies on: a C handler that returns has left the words of the frame alone, but for the slot of \<^verbatim>\<open>EAX\<close>
  (the twelfth), and the segment descriptors. \<open>good\<close> says for which calls this is known.
\<close>

locale frame_handler =
  fixes call :: "u32 \<Rightarrow> 'd kernel \<Rightarrow> 'd kernel + 'd kernel"
    and good :: "u32 \<Rightarrow> 'd kernel \<Rightarrow> bool"
  assumes frame_kept: "good p k \<Longrightarrow> call p k = Inr k' \<Longrightarrow> i < 19 \<Longrightarrow> i \<noteq> 11 \<Longrightarrow>
      load32 (kram k') (p + 4 * of_nat i) = load32 (kram k) (p + 4 * of_nat i)"
    and tables_kept: "good p k \<Longrightarrow> call p k = Inr k' \<Longrightarrow> gdt_table (cpu (ksched k')) = gdt_table (cpu (ksched k))"
begin

text \<open>
  Under that contract the stub gives the interrupted code all its registers back, with \<^verbatim>\<open>EAX\<close> from its slot of the frame.
\<close>

lemma stub_returns:
  fixes m :: "'d machine"
  assumes "deliver v err m = Some n" "selector (idt_table (cpu (ksched (kern m))) ! v) = 8"
    and "cpl m \<noteq> 0 \<Longrightarrow> \<forall>r \<in> {DS, ES, FS, GS}. usable (kern m) (cpl m) (seg m r)"
    and "C c = call" "good (frame_ptr m) (stacked v err m)"
  shows "exec C (stub_code v c) n =
    (case call (frame_ptr m) (stacked v err m) of Inl k \<Rightarrow> Inl k
     | Inr k \<Rightarrow> Inr (m\<lparr>gp := (gp m)(EAX := load32 (kram k) (frame_ptr m + 44)), kern := k\<rparr>))"
proof -
  define p where "p = frame_ptr m"
  obtain n1 where n1: "exec C (entry_code v) n = Inr n1"
    "kern n1 = stacked v err m" "gp n1 ESP = p - 4"
    "seg n1 = (seg m)(DS := 0x10, ES := 0x10, FS := 0x10, GS := 0x10, CS := seg n CS, SS := seg n SS)"
    "seg_hi n1 = seg_hi m" "c_gp n1 = c_gp m" "c_flags n1 = c_flags m"
    using exec_save[OF assms(1), of C] unfolding p_def by blast
  have len: "length (frame v err m) \<le> 19" by (simp add: frame_def)
  have w: "load32 (kram (stacked v err m)) (p - 4 + 4 * of_nat i) = (p # frame v err m) ! i" if "i < Suc (length (frame v err m))" for i
    unfolding p_def by (rule stacked_word[OF that])
  have arg: "load32 (kram (kern n1)) (gp n1 ESP) = p" unfolding n1(2,3) using w[of 0] by simp
  have run: "exec C (stub_code v c) n = (case call p (stacked v err m) of Inl k \<Rightarrow> Inl k
      | Inr k \<Rightarrow> exec C restore_frame (after_call n1 k))"
    unfolding stub_code_def exec_append n1(1) using arg assms(4) n1(2) by (simp split: sum.split)
  show ?thesis
  proof (cases "call p (stacked v err m)")
    case (Inr k)
    have "load32 (kram k) (p + 4 * of_nat j) = frame v err m ! j" if "j < length (frame v err m)" "j \<noteq> 11" for j
      using w[of "Suc j"] frame_kept[OF assms(5) Inr[unfolded p_def], of j] that len by (simp add: p_def)
    moreover have "usable k r x = usable (kern m) r x" for r x
      using tables_kept[OF assms(5) Inr[unfolded p_def]] by (simp add: usable_def stacked_def)
    moreover have "cpl m = 0 \<Longrightarrow> seg n SS = seg m SS"
      using assms(1) by (auto simp: entry_code_def deliver_def ring0_stack_def mpush_def Let_def split: if_splits)
    ultimately have "exec C restore_frame (after_call n1 k) =
        Inr (m\<lparr>gp := (gp m)(EAX := load32 (kram k) (p + 44)), kern := k\<rparr>)"
      using restore_returns[of "after_call n1 k" m v err C] deliver_cpl[OF assms(1,2)] n1(4-) assms(3)
      unfolding p_def[symmetric] by (simp add: after_call_def cpl_def n1(3))
    then show ?thesis using run Inr by (simp add: p_def)
  qed (use run in \<open>simp add: p_def\<close>)
qed

end

section \<open>The handlers keep the frame\<close>

text \<open>An interrupt that resumes has run a handler that touches neither memory nor the processor's tables.\<close>

lemma run_irq_keeps:
  assumes "run_irq_fn io h s = (s', False)"
  shows "mm (dsched s') = mm (dsched s) \<and> cpu (dsched s') = cpu (dsched s)"
proof -
  have p: "mm (dsched (kb_push c t)) = mm (dsched t) \<and> cpu (dsched (kb_push c t)) = cpu (dsched t)" for c and t :: "'a drv"
    by (simp add: kb_push_def Let_def process_wake_all_blocked_def)
  have "mm (dsched (keyboard_scancode c t)) = mm (dsched t) \<and> cpu (dsched (keyboard_scancode c t)) = cpu (dsched t)" for c and t :: "'a drv"
    using p by (auto simp: keyboard_scancode_decode set_kb_flags_def Let_def split_beta split: option.splits)
  then show ?thesis using assms
    by (cases h) (auto simp: run_irq_fn_def timer_irq_handler_def keyboard_irq_handler_def Let_def split_beta split: if_splits)
qed

lemma irq_keeps:
  assumes "interrupt_handler io regs k = (k', Resumed)"
  shows "mm (ksched k') = mm (ksched k) \<and> cpu (ksched k') = cpu (ksched k)"
  using assms run_irq_keeps[of io _ "(kdrv k)\<lparr>dev := kdev k, dsched := ksched k\<rparr>"]
  by (auto simp: interrupt_handler_def on_drv_def irq_handler_def Let_def split: if_splits prod.splits)

interpretation irqs: frame_handler "irq_call io" "\<lambda>p k. True" for io :: "'d io"
  by unfold_locales (auto simp: irq_call_def split: prod.splits if_splits dest: irq_keeps)

text \<open>Of the system calls, only the two reads store anything in memory.\<close>

lemma kill_keeps:
  assumes "process_kill n s = (s', r)"
  shows "memory (mm s') = memory (mm s) \<and> cpu s' = cpu s"
  using assms by (auto simp: process_kill_def release_pd_def set_state_def upd_proc_def on_mm_def destroy_pd_memory Let_def
      split: option.splits if_splits)

lemma on_ipc_keeps:
  assumes "on_ipc f k = (k', r)" "\<And>s. mm (psched (fst (f s))) = mm (psched s)" "\<And>s. cpu (psched (fst (f s))) = cpu (psched s)"
  shows "mm (ksched k') = mm (ksched k) \<and> cpu (ksched k') = cpu (ksched k)"
  using assms(1) assms(2,3)[of "(kipc k)\<lparr>psched := ksched k\<rparr>"] by (auto simp: on_ipc_def Let_def split_beta)

lemma return_bytes_effect:
  assumes "return_bytes va bs r k = (k', Sys_returns v)"
  shows "cpu (ksched k') = cpu (ksched k) \<and> write_va va bs (kmm k) = (kmm k', Stored)"
  using assms by (auto simp: return_bytes_def kmm_def Let_def split: prod.splits stored.splits)

definition reads :: "registers \<Rightarrow> bool" where
  "reads regs \<longleftrightarrow> r_eax regs = SYS_READ \<or> r_eax regs = SYS_PIPE_READ"

lemma sleep_loop_keeps:
  "sleep_loop io target vs s = Some (s', rest, False) \<Longrightarrow> mm (dsched s') = mm (dsched s) \<and> cpu (dsched s') = cpu (dsched s)"
proof (induction vs arbitrary: s)
  case (Cons v vs)
  have "mm (dsched s1) = mm (dsched s) \<and> cpu (dsched s1) = cpu (dsched s)" if "irq_handler io v s = (s1, False)" for s1
    using that by (auto simp: irq_handler_def Let_def dest: run_irq_keeps split: if_splits prod.splits)
  then show ?case using Cons by (fastforce split: if_splits prod.splits)
qed (simp split: if_splits)

lemma sys_sleep_keeps:
  "sys_sleep io ms k = (k', Sys_returns v) \<Longrightarrow> mm (ksched k') = mm (ksched k) \<and> cpu (ksched k') = cpu (ksched k)"
  by (auto simp: sys_sleep_def timer_sleep_ms_def on_drv_def Let_def dest!: sleep_loop_keeps split: option.splits if_splits)

lemma sys_keeps:
  assumes "syscall_handler io regs k = (k', Sys_returns v)" "\<not> reads regs"
  shows "kram k' = kram k \<and> cpu (ksched k') = cpu (ksched k)"
proof -
  have ipc: "kram k' = kram k \<and> cpu (ksched k') = cpu (ksched k)" if "on_ipc f k = (k', r)"
      "\<And>s. mm (psched (fst (f s))) = mm (psched s)" "\<And>s. cpu (psched (fst (f s))) = cpu (psched s)"
    for f :: "ipc \<Rightarrow> ipc \<times> int" and r using on_ipc_keeps[OF that] by simp
  have al: "mm (psched (fst (pipe_alloc s))) = mm (psched s)" "cpu (psched (fst (pipe_alloc s))) = cpu (psched s)" for s
    by (simp_all add: pipe_alloc_def split: option.split)
  have wr: "mm (psched (fst (pipe_write x bs s))) = mm (psched s)" "cpu (psched (fst (pipe_write x bs s))) = cpu (psched s)" for x bs s
    by (simp_all add: pipe_write_def Let_def split_beta process_wake_all_blocked_def)
  show ?thesis using assms unfolding reads_def syscall_handler_def Let_def sys_write_def sys_open_def sys_gettime_def sys_pipe_write_def
    by (auto split: if_splits option.splits prod.splits dest: ipc[OF _ al] ipc[OF _ wr] kill_keeps sys_sleep_keeps
      simp: on_con_def on_fds_def on_sched_def Let_def)
qed

text \<open>
  The reads store where their caller says, which may be in the kernel itself; then they do not return. When they return, nothing in the first
  megabyte has changed, where the kernel and its stacks are.
\<close>

lemma write_va_low: "write_va va bs m = (m', Stored) \<Longrightarrow> unat x < 0x100000 \<Longrightarrow> memory m' x = memory m x"
  by (induction bs arbitrary: va m) (auto simp: kernel_byte_def Let_def split: option.splits if_splits)

lemma pipe_read_keeps:
  assumes "on_ipc (pipe_read x len) k = (k', Returns n bs)"
  shows "mm (ksched k') = mm (ksched k) \<and> cpu (ksched k') = cpu (ksched k)"
  using assms by (auto simp: on_ipc_def pipe_read_def pipe_read_wait_def Let_def split: if_splits prod.splits)

lemma read_call_keeps:
  assumes "syscall_handler io regs k = (k', Sys_returns v)" "reads regs"
  shows "cpu (ksched k') = cpu (ksched k) \<and> (\<forall>x. unat x < 0x100000 \<longrightarrow> kram k' x = kram k x)"
proof -
  have bytes: ?thesis if "return_bytes (r_edx regs) bs r k1 = (k', Sys_returns v)"
      "mm (ksched k1) = mm (ksched k) \<and> cpu (ksched k1) = cpu (ksched k)" for bs r k1
    using return_bytes_effect[OF that(1)] that(2) write_va_low by (simp add: kmm_def) blast
  consider "r_eax regs = SYS_READ" | "r_eax regs = SYS_PIPE_READ" using assms(2) by (auto simp: reads_def)
  then show ?thesis
  proof cases
    case 1
    obtain k1 n bs where k1: "on_fds (fd_read (ata_blk io) (sint (r_ebx regs)) (r_ecx regs) (current_pid k)) k = (k1, n, bs)"
      by (rule prod_cases3)
    then have "return_bytes (r_edx regs) bs n k1 = (k', Sys_returns v)"
      using assms(1) 1 by (simp add: syscall_handler_def kconst sys_read_def)
    then show ?thesis by (rule bytes) (use k1 in \<open>auto simp: on_fds_def Let_def split: prod.splits\<close>)
  next
    case 2
    obtain k1 n bs where k1: "on_ipc (pipe_read (sint (r_ebx regs)) (r_ecx regs)) k = (k1, Returns n bs)"
      and rb: "return_bytes (r_edx regs) bs n k1 = (k', Sys_returns v)"
      using assms(1) 2 by (auto simp: syscall_handler_def kconst sys_pipe_read_def split: prod.splits read_result.splits)
    from rb show ?thesis by (rule bytes) (rule pipe_read_keeps[OF k1])
  qed
qed

text \<open>The frame lies on a kernel stack, in the first megabyte.\<close>

definition low_frame :: "u32 \<Rightarrow> bool" where
  "low_frame p \<longleftrightarrow> unat p + 76 \<le> 0x100000"

lemma slot_apart:
  assumes "i < 19" "i \<noteq> 11"
  shows "load32 (store32 r (p + 44) v) (p + 4 * of_nat i) = load32 r (p + 4 * of_nat i)"
proof (rule load32_store32_apart)
  have "unat (4 * of_nat i :: u32) = 4 * i" using assms(1) unat_of_nat_u32[of "4 * i"] by simp
  then have "unat (4 * of_nat i - 44 :: u32) = (if 44 \<le> 4 * i then 4 * i - 44 else 4294967296 + 4 * i - 44)"
    by (simp add: unat_sub_if')
  then show "4 \<le> unat (p + 4 * of_nat i - (p + 44))" "unat (p + 4 * of_nat i - (p + 44)) + 4 \<le> 4294967296"
    using assms by (simp_all split: if_splits)
qed

lemma sys_call_keeps:
  assumes "low_frame p" "sys_call io p k = Inr k'"
  shows "gdt_table (cpu (ksched k')) = gdt_table (cpu (ksched k))"
    "i < 19 \<Longrightarrow> i \<noteq> 11 \<Longrightarrow> load32 (kram k') (p + 4 * of_nat i) = load32 (kram k) (p + 4 * of_nat i)"
proof -
  let ?regs = "regs_at (kram k) p"
  define k0 where "k0 = on_kram (\<lambda>r. store32 r (p + 44) 0) k"
  obtain k1 v where run: "syscall_handler io ?regs k0 = (k1, Sys_returns v)" and k': "k' = on_kram (\<lambda>r. store32 r (p + 44) v) k1"
    using assms(2) by (auto simp: sys_call_def k0_def split: prod.splits sys_result.splits)
  have "cpu (ksched k1) = cpu (ksched k0) \<and>
      (\<forall>i. i < 19 \<longrightarrow> load32 (kram k1) (p + 4 * of_nat i) = load32 (kram k0) (p + 4 * of_nat i))"
  proof (cases "reads ?regs")
    case True
    have c: "unat p + 76 \<le> 0x100000" using assms(1) by (simp add: low_frame_def)
    have low: "cpu (ksched k1) = cpu (ksched k0)" "\<forall>x. unat x < 0x100000 \<longrightarrow> kram k1 x = kram k0 x"
      using read_call_keeps[OF run True] by blast+
    have "load32 (kram k1) (p + 4 * of_nat i) = load32 (kram k0) (p + 4 * of_nat i)" if "i < 19" for i
    proof (rule load32_cong)
      fix x assume x: "within (p + 4 * of_nat i) 4 x"
      have "unat (4 * of_nat i :: u32) = 4 * i" using that unat_of_nat_u32[of "4 * i"] by simp
      then have "unat (p + 4 * of_nat i) = unat p + 4 * i" using c that by (subst unat_plus_u32) simp_all
      then have "unat x < 0x100000" using x c that by (simp add: within_nat)
      then show "kram k1 x = kram k0 x" using low(2) by blast
    qed
    then show ?thesis using low(1) by blast
  qed (use sys_keeps[OF run] in simp)
  then show "gdt_table (cpu (ksched k')) = gdt_table (cpu (ksched k))"
    "i < 19 \<Longrightarrow> i \<noteq> 11 \<Longrightarrow> load32 (kram k') (p + 4 * of_nat i) = load32 (kram k) (p + 4 * of_nat i)"
    by (simp_all add: k' k0_def slot_apart)
qed

interpretation syscalls: frame_handler "sys_call io" "\<lambda>p k. low_frame p" for io :: "'d io"
  by unfold_locales (rule sys_call_keeps; assumption)+

section \<open>From the gates to the stubs\<close>

text \<open>
  \<^verbatim>\<open>int n\<close>: code of an outer ring may use a gate only if the gate admits it; otherwise the processor raises a general
  protection fault whose error code names the gate.
\<close>

definition int_n ::
  "'d io \<Rightarrow> (nat \<Rightarrow> u32) \<Rightarrow> (nat \<Rightarrow> u32) \<Rightarrow> u32 \<Rightarrow> nat \<Rightarrow> 'd machine \<Rightarrow> ('d kernel + 'd machine) option" where
  "int_n io isr irq sc v m =
     (if cpl m \<le> ucast (desc_dpl (type_attr (idt_table (cpu (ksched (kern m))) ! v))) then interrupt io isr irq sc v 0 m
      else interrupt io isr irq sc 13 (of_nat (8 * v + 2)) m)"

text \<open>The table as the kernel set it up, with stubs at different addresses.\<close>

definition installed :: "(nat \<Rightarrow> u32) \<Rightarrow> (nat \<Rightarrow> u32) \<Rightarrow> u32 \<Rightarrow> 'd kernel \<Rightarrow> bool" where
  "installed isr irq sc k \<longleftrightarrow> distinct (map isr [0 ..< 20] @ map irq [0 ..< 16] @ [sc]) \<and>
     (\<exists>c. length (idt_table c) = 256 \<and> (\<forall>g \<in> set (idt_table c). type_attr g = 0) \<and>
        idt_table (cpu (ksched k)) = idt_table (syscall_init sc (idt_init isr irq c)))"

definition vectors :: "nat set" where "vectors = {v. v < 20 \<or> 32 \<le> v \<and> v < 48}"

lemma upt_20: "[0 ..< 20] = [0, 1, 2, 3, 4, 5, 6, 7, 8, 9, 10, 11, 12, 13, 14, 15, 16, 17, 18, 19]"
  and upt_16: "[0 ..< 16] = [0, 1, 2, 3, 4, 5, 6, 7, 8, 9, 10, 11, 12, 13, 14, 15]"
  by code_simp+

lemma stub_lists:
  "isr_stubs = map (\<lambda>v. stub_code v Interrupt_handler) [0 ..< 20]"
  "irq_stubs = map (\<lambda>n. stub_code (32 + n) Interrupt_handler) [0 ..< 16]"
  "isr_syscall = stub_code 128 Syscall_handler"
  by (simp_all add: isr_stubs_def irq_stubs_def isr_syscall_def ISR_NOERRCODE_def ISR_ERRCODE_def IRQ_def stub_code_def
      entry_code_def has_errcode_def common_stub_def upt_20 upt_16)

lemma code_at_stubs:
  assumes "distinct (map isr [0 ..< 20] @ map irq [0 ..< 16] @ [sc])"
  shows "v < 20 \<Longrightarrow> code_at isr irq sc (isr v) = Some (stub_code v Interrupt_handler)"
    "n < 16 \<Longrightarrow> code_at isr irq sc (irq n) = Some (stub_code (32 + n) Interrupt_handler)"
    "code_at isr irq sc sc = Some (stub_code 128 Syscall_handler)"
proof -
  let ?a = "map isr [0 ..< 20] @ map irq [0 ..< 16] @ [sc]"
  define L where "L = isr_stubs @ irq_stubs @ [isr_syscall]"
  have at: "code_at isr irq sc (?a ! i) = Some (L ! i)" if "i < 37" for i
    unfolding code_at_def L_def[symmetric] by (rule map_of_zip_nth) (use assms that in \<open>simp_all add: L_def stub_lists\<close>)
  show "code_at isr irq sc (isr v) = Some (stub_code v Interrupt_handler)" if "v < 20"
    using at[of v] that by (simp add: nth_append L_def stub_lists)
  show "code_at isr irq sc (irq n) = Some (stub_code (32 + n) Interrupt_handler)" if "n < 16"
    using at[of "20 + n"] that by (simp add: nth_append L_def stub_lists)
  show "code_at isr irq sc sc = Some (stub_code 128 Syscall_handler)"
    using at[of 36] by (simp add: nth_append L_def stub_lists)
qed

lemma installed_stub:
  assumes "installed isr irq sc k" "v \<in> vectors \<or> v = 128"
  defines "t \<equiv> idt_table (cpu (ksched k)) ! v"
  shows "code_at isr irq sc (gate_offset t) = Some (stub_code v (if v = 128 then Syscall_handler else Interrupt_handler))"
    "bit (type_attr t) 7" "selector t = 8" "desc_dpl (type_attr t) = (if v = 128 then 3 else 0)"
proof -
  obtain c where c: "length (idt_table c) = 256" "idt_table (cpu (ksched k)) = idt_table (syscall_init sc (idt_init isr irq c))"
    and d: "distinct (map isr [0 ..< 20] @ map irq [0 ..< 16] @ [sc])" using assms(1) by (auto simp: installed_def)
  note at = code_at_stubs[OF d]
  have v: "v < 256" using assms(2) by (auto simp: vectors_def)
  note g = installed_gates[OF c(1) v, of sc isr irq]
  have t: "t = (if v = 128 then gate sc IDT_SYSCALL_GATE else gate (if v < 20 then isr v else irq (v - 32)) IDT_INTERRUPT_GATE)"
    unfolding t_def c(2) g using assms(2) by (auto simp: vectors_def)
  then show "bit (type_attr t) 7" "selector t = 8" "desc_dpl (type_attr t) = (if v = 128 then 3 else 0)"
    by (simp_all add: gate_decode kconst desc_dpl_def)
  show "code_at isr irq sc (gate_offset t) = Some (stub_code v (if v = 128 then Syscall_handler else Interrupt_handler))"
    unfolding t using at(1)[of v] at(2)[of "v - 32"] at(3) assms(2) by (auto simp: gate_decode vectors_def)
qed

section \<open>Interrupted code resumes as it was\<close>

text \<open>The registers of the interrupted code as its handler sees them.\<close>

definition trap_regs :: "nat \<Rightarrow> u32 \<Rightarrow> 'd machine \<Rightarrow> registers" where
  "trap_regs v err m =
     \<lparr>r_eax = gp m EAX, r_ebx = gp m EBX, r_ecx = gp m ECX, r_edx = gp m EDX, int_no = of_nat v,
      err_code = (if has_errcode v then err else 0), r_eip = pc m, r_eflags = eflags m\<rparr>"

lemma regs_stacked: "regs_at (kram (stacked v err m)) (frame_ptr m) = trap_regs v err m"
proof -
  define p where "p = frame_ptr m"
  have l: "17 \<le> length (frame v err m)" by (simp add: frame_def)
  have w: "load32 (kram (stacked v err m)) (p - 4 + 4 * of_nat (Suc j)) = frame v err m ! j" if "j < length (frame v err m)" for j
    unfolding p_def using that stacked_word[of "Suc j" v err m] by simp
  show ?thesis unfolding p_def[symmetric] regs_at_def trap_regs_def
    using w[of 8] w[of 9] w[of 10] w[of 11] w[of 12] w[of 13] w[of 14] w[of 16] l
    by (simp add: frame_def add.commute[of p])
qed

text \<open>Ring 3 code holds no data selector of the kernel (the processor would not have loaded it).\<close>

definition ring_ok :: "'d machine \<Rightarrow> bool" where
  "ring_ok m \<longleftrightarrow> cpl m = 0 \<or> (\<forall>r \<in> {DS, ES, FS, GS}. usable (kern m) (cpl m) (seg m r))"

lemma interrupt_runs_stub:
  assumes "installed isr irq sc (kern m)" "v \<in> vectors \<or> v = 128"
  obtains n where "deliver v err m = Some n" "interrupt io isr irq sc v err m =
    Some (exec (c_call io) (stub_code v (if v = 128 then Syscall_handler else Interrupt_handler)) n)"
proof -
  note i = installed_stub[OF assms]
  obtain n where n: "deliver v err m = Some n" "pc n = gate_offset (idt_table (cpu (ksched (kern m))) ! v)"
    using i(2) by (simp add: deliver_def Let_def)
  then show thesis using that[of n] i(1) by (simp add: interrupt_def)
qed

text \<open>A ring-3 program about to ask for its process number, for the witnesses.\<close>

definition isr0 :: "nat \<Rightarrow> u32" where "isr0 n = 0x2000 + 16 * of_nat n"
definition irq0 :: "nat \<Rightarrow> u32" where "irq0 n = 0x3000 + 16 * of_nat n"

definition user_machine :: "unit machine" where
  "user_machine = \<lparr>gp = (\<lambda>_. 0)(EAX := 2, ESP := 0x01001FF0), seg = (\<lambda>_. 0x23)(CS := 0x1B), pc = 0x01000000, eflags = 0x202,
     kern = kernel0\<lparr>ksched := (ksched kernel0)\<lparr>cpu :=
       (syscall_init 0x4000 (idt_init isr0 irq0 boot_cpu))\<lparr>gdt_table := gdt_table (gdt_init boot_cpu),
         tss := zero_tss\<lparr>esp0 := 0x8F000, ss0 := 0x10\<rparr>\<rparr>\<rparr>\<rparr>,
     seg_hi = (\<lambda>_. 0), c_gp = (\<lambda>_. 7), c_flags = 0\<rparr>"

lemma user_machine_ok:
  "installed isr0 irq0 0x4000 (kern user_machine)" "ring_ok user_machine" "cpl user_machine = 3"
proof -
  have "distinct (map isr0 [0 ..< 20] @ map irq0 [0 ..< 16] @ [0x4000])" by (simp add: isr0_def irq0_def upt_20 upt_16)
  moreover have "length (idt_table boot_cpu) = 256" "\<forall>g \<in> set (idt_table boot_cpu). type_attr g = 0"
    by (simp_all add: boot_cpu_def)
  ultimately show "installed isr0 irq0 0x4000 (kern user_machine)"
    unfolding installed_def by (intro conjI exI[of _ boot_cpu]) (simp_all add: user_machine_def)
  show "cpl user_machine = 3" by (simp add: cpl_def user_machine_def)
  have "length (gdt_table boot_cpu) = 6" by (simp add: boot_cpu_def)
  from gdt_init_segments[OF this] show "ring_ok user_machine"
    by (simp add: ring_ok_def usable_def cpl_def user_machine_def Let_def)
qed

lemma interrupt_effect:
  fixes m :: "'d machine"
  assumes "installed isr irq sc (kern m)" "v \<in> vectors" "ring_ok m"
  shows "interrupt io isr irq sc v err m =
    Some (case irq_call io (frame_ptr m) (stacked v err m) of Inl k \<Rightarrow> Inl k
          | Inr k \<Rightarrow> Inr (m\<lparr>gp := (gp m)(EAX := load32 (kram k) (frame_ptr m + 44)), kern := k\<rparr>))"
proof -
  have v: "v \<noteq> 128" using assms(2) by (auto simp: vectors_def)
  obtain n where n: "deliver v err m = Some n"
      "interrupt io isr irq sc v err m = Some (exec (c_call io) (stub_code v Interrupt_handler) n)"
    using interrupt_runs_stub[of isr irq sc m v err io] assms(1,2) v by auto
  show ?thesis unfolding n(2) using installed_stub(3)[OF assms(1)] assms(2,3)
    by (intro arg_cong[where f = Some] irqs.stub_returns[OF n(1)]) (auto simp: c_call_def ring_ok_def)
qed

text \<open>
  C3. An interrupt or exception reaches its C handler with the registers of the interrupted code in \<^verbatim>\<open>registers_t\<close>, its vector and
  the processor's error code (0 where there is none); and when the handler returns, the code continues with every
  register, segment register and flag, the stack pointer and the program counter as they were, from ring 0 and
  from ring 3 alike. Only the kernel state has changed.
\<close>

theorem interrupt_transparent:
  fixes m :: "'d machine"
  assumes "installed isr irq sc (kern m)" "v \<in> vectors" "ring_ok m"
  shows "interrupt io isr irq sc v err m =
    Some (case interrupt_handler io (trap_regs v err m) (stacked v err m) of
            (k, Resumed) \<Rightarrow> Inr (m\<lparr>kern := k\<rparr>) | (k, _) \<Rightarrow> Inl k)"
proof -
  have "load32 (kram k) (frame_ptr m + 44) = gp m EAX"
    if "interrupt_handler io (trap_regs v err m) (stacked v err m) = (k, Resumed)" for k
    using irq_keeps[OF that] regs_stacked[of v err m] by (simp add: regs_at_def trap_regs_def)
  then show ?thesis unfolding interrupt_effect[OF assms] irq_call_def regs_stacked
    by (auto split: prod.split int_result.split)
qed

theorem interrupt_transparent_witness:
  "\<exists>k. interrupt null_io isr0 irq0 0x4000 32 0 user_machine = Some (Inr (user_machine\<lparr>kern := k\<rparr>))"
proof -
  have "32 \<in> vectors" by (simp add: vectors_def)
  note t = interrupt_transparent[OF user_machine_ok(1) this user_machine_ok(2), of null_io 0]
  have "snd (interrupt_handler null_io (trap_regs 32 0 user_machine) (stacked 32 0 user_machine)) = Resumed"
    by (simp add: interrupt_handler_def trap_regs_def on_drv_def irq_handler_def stacked_def on_kram_def user_machine_def
        kernel0_def drv0_def Let_def)
  then show ?thesis using t by (auto split: prod.splits)
qed

lemma cpl_le: "cpl m \<le> 3"
  using word_and_le1[of "seg m CS" 3] by (simp add: cpl_def)

text \<open>
  C4. \<^verbatim>\<open>int 0x80\<close>, from any ring, runs the system call that \<^verbatim>\<open>EAX\<close>, \<^verbatim>\<open>EBX\<close>, \<^verbatim>\<open>ECX\<close> and \<^verbatim>\<open>EDX\<close> describe, and when the call returns a
  value the caller continues with that value in \<^verbatim>\<open>EAX\<close> and every other register, segment register and flag as it
  was, whatever the compiled handler did with them. The frame must lie on a kernel stack in the first megabyte, where the kernel has them;
  and a read that is told to store into kernel memory, this frame included, ends as \<open>Sys_corrupts\<close> and not with a value.
\<close>

theorem syscall_gate:
  fixes m :: "'d machine"
  assumes "installed isr irq sc (kern m)" "ring_ok m" "low_frame (frame_ptr m)"
  shows "int_n io isr irq sc 0x80 m =
    Some (case syscall_handler io (trap_regs 0x80 0 m) (on_kram (\<lambda>r. store32 r (frame_ptr m + 44) 0) (stacked 0x80 0 m)) of
            (k, Sys_returns v) \<Rightarrow>
              Inr (m\<lparr>gp := (gp m)(EAX := v), kern := on_kram (\<lambda>r. store32 r (frame_ptr m + 44) v) k\<rparr>)
          | (k, _) \<Rightarrow> Inl k)"
proof -
  obtain n where n: "deliver 128 0 m = Some n"
      "interrupt io isr irq sc 128 0 m = Some (exec (c_call io) (stub_code 128 Syscall_handler) n)"
    using interrupt_runs_stub[of isr irq sc m 128 0 io] assms(1) by auto
  have "exec (c_call io) (stub_code 128 Syscall_handler) n =
      (case sys_call io (frame_ptr m) (stacked 128 0 m) of Inl k \<Rightarrow> Inl k
       | Inr k \<Rightarrow> Inr (m\<lparr>gp := (gp m)(EAX := load32 (kram k) (frame_ptr m + 44)), kern := k\<rparr>))"
    using installed_stub(3)[OF assms(1), of 128] assms(2,3)
    by (intro syscalls.stub_returns[OF n(1)]) (auto simp: c_call_def ring_ok_def)
  moreover have "int_n io isr irq sc 0x80 m = interrupt io isr irq sc 128 0 m"
    using installed_stub(4)[OF assms(1), of 128] cpl_le[of m] by (simp add: int_n_def)
  ultimately show ?thesis unfolding n(2) sys_call_def regs_stacked by (auto split: prod.split sys_result.split)
qed

theorem syscall_gate_witness:
  "\<exists>k. int_n null_io isr0 irq0 0x4000 0x80 user_machine =
     Some (Inr (user_machine\<lparr>gp := (gp user_machine)(EAX := current_pid (kern user_machine)), kern := k\<rparr>))"
proof -
  have "low_frame (frame_ptr user_machine)" by (simp add: low_frame_def frame_ptr_def user_machine_def cpl_def)
  note t = syscall_gate[OF user_machine_ok(1,2) this, of null_io]
  have "r_eax (trap_regs 0x80 0 user_machine) = 2" by (simp add: trap_regs_def user_machine_def)
  then show ?thesis using t by (simp add: syscall_handler_def kconst stacked_def) blast
qed

text \<open>
  C5. A ring-3 program can raise no other vector itself: every other \<^verbatim>\<open>int n\<close>, also one of a hardware interrupt or an exception, is
  reported as a general protection fault that names the gate, and reaches no other handler.
\<close>

theorem ring3_int_refused:
  fixes m :: "'d machine"
  assumes "installed isr irq sc (kern m)" "ring_ok m" "cpl m = 3" "v < 256" "v \<noteq> 0x80"
  shows "int_n io isr irq sc v m =
    Some (Inl (on_con (isr_handler io (trap_regs 13 (of_nat (8 * v + 2)) m)) (stacked 13 (of_nat (8 * v + 2)) m)))"
proof -
  obtain c where c: "length (idt_table c) = 256" "\<forall>g \<in> set (idt_table c). type_attr g = 0"
      "idt_table (cpu (ksched (kern m))) = idt_table (syscall_init sc (idt_init isr irq c))"
    using assms(1) by (auto simp: installed_def)
  have "type_attr (idt_table c ! v) = 0" using c(1,2) assms(4) by simp
  then have "desc_dpl (type_attr (idt_table (cpu (ksched (kern m))) ! v)) = 0"
    unfolding c(3) installed_gates[OF c(1) assms(4)] using assms(5) by (simp add: gate_decode kconst desc_dpl_def)
  then have "int_n io isr irq sc v m = interrupt io isr irq sc 13 (of_nat (8 * v + 2)) m" using assms(3) by (simp add: int_n_def)
  also have "\<dots> = Some (Inl (on_con (isr_handler io (trap_regs 13 (of_nat (8 * v + 2)) m)) (stacked 13 (of_nat (8 * v + 2)) m)))"
    using interrupt_effect[OF assms(1) _ assms(2), of 13]
    by (simp add: vectors_def irq_call_def regs_stacked interrupt_handler_def trap_regs_def)
  finally show ?thesis .
qed

theorem ring3_int_refused_witness: "\<exists>k. int_n null_io isr0 irq0 0x4000 33 user_machine = Some (Inl k)"
  using ring3_int_refused[OF user_machine_ok, of 33 null_io] by simp

section \<open>The frame of an interrupt\<close>

text \<open>
  C7. Whatever the vector, and whether the interrupted code ran in ring 0 or ring 3, the pointer on the stack when the C handler is called points
  to a complete \<^verbatim>\<open>registers_t\<close>: all seventeen fields, in the order of the structure, hold the segment registers, general registers,
  vector, error code, program counter, code segment and flags of the interrupted code; the handler itself runs with the
  kernel's data segments.
\<close>

theorem frame_has_type:
  fixes m :: "'d machine"
  assumes "installed isr irq sc (kern m)" "v \<in> vectors \<or> v = 0x80"
  shows "\<exists>n n' c. deliver v err m = Some n \<and> code_at isr irq sc (pc n) = Some (entry_code v @ [CALL c] @ restore_frame) \<and>
    exec C (entry_code v) n = Inr n' \<and>
    (let p = load32 (kram (kern n')) (gp n' ESP) in
       map (\<lambda>j. load32 (kram (kern n')) (p + 4 * of_nat j)) [0 ..< 17] =
         map (seg_word m) [GS, FS, ES, DS] @ map (gp m) [EDI, ESI, EBP] @ [p + 48] @ map (gp m) [EBX, EDX, ECX, EAX] @
         [of_nat v, if has_errcode v then err else 0, pc m, seg_word m CS, eflags m]) \<and>
    (\<forall>r \<in> {DS, ES, FS, GS}. seg n' r = GDT_SEL_KDATA)"
proof -
  define F where "F = map (seg_word m) [GS, FS, ES, DS] @ map (gp m) [EDI, ESI, EBP] @ [frame_ptr m + 48] @
    map (gp m) [EBX, EDX, ECX, EAX] @ [of_nat v, if has_errcode v then err else 0, pc m, seg_word m CS, eflags m]"
  have F: "length F = 17" "17 \<le> length (frame v err m)" by (simp_all add: F_def frame_def)
  have "frame v err m = F @ (if cpl m = 0 then [] else [gp m ESP, seg_word m SS])" by (simp add: F_def frame_def)
  then have nth: "frame v err m ! j = F ! j" if "j < 17" for j using that F(1) by (simp add: nth_append)
  note i = installed_stub[OF assms]
  obtain n where n: "deliver v err m = Some n" "pc n = gate_offset (idt_table (cpu (ksched (kern m))) ! v)"
    using i(2) by (simp add: deliver_def Let_def)
  obtain n' where n': "exec C (entry_code v) n = Inr n'" "kern n' = stacked v err m" "gp n' ESP = frame_ptr m - 4"
      "seg n' = (seg m)(DS := 0x10, ES := 0x10, FS := 0x10, GS := 0x10, CS := seg n CS, SS := seg n SS)"
    using exec_save[OF n(1), of C] by blast
  have p: "load32 (kram (kern n')) (gp n' ESP) = frame_ptr m" unfolding n'(2,3) using stacked_word[of 0 v err m] by simp
  have "map (\<lambda>j. load32 (kram (kern n')) (frame_ptr m + 4 * of_nat j)) [0 ..< 17] = F"
  proof (rule nth_equalityI)
    fix j assume "j < length (map (\<lambda>j. load32 (kram (kern n')) (frame_ptr m + 4 * of_nat j)) [0 ..< 17])"
    then have j: "j < 17" by simp
    then show "map (\<lambda>j. load32 (kram (kern n')) (frame_ptr m + 4 * of_nat j)) [0 ..< 17] ! j = F ! j"
      using stacked_word[of "Suc j" v err m] F(2) nth[OF j] n'(2) by simp
  qed (simp add: F(1))
  then show ?thesis using n(1) i(1)[folded n(2)] n'(1,4) unfolding F_def stub_code_def
    by (intro exI[of _ n] exI[of _ n'] exI[of _ "if v = 128 then Syscall_handler else Interrupt_handler"])
      (simp add: p Let_def kconst del: upt_rec_numeral)
qed

theorem frame_has_type_witness:
  "\<exists>n n' c. deliver 14 2 user_machine = Some n \<and>
    code_at isr0 irq0 0x4000 (pc n) = Some (entry_code 14 @ [CALL c] @ restore_frame) \<and>
    exec (c_call null_io) (entry_code 14) n = Inr n' \<and>
    (let p = load32 (kram (kern n')) (gp n' ESP) in
       map (\<lambda>j. load32 (kram (kern n')) (p + 4 * of_nat j)) [0 ..< 17] =
         [0x23, 0x23, 0x23, 0x23, 0, 0, 0, p + 48, 0, 0, 0, 2, 14, 2, 0x01000000, 0x1B, 0x202]) \<and>
    (\<forall>r \<in> {DS, ES, FS, GS}. seg n' r = GDT_SEL_KDATA)"
proof -
  have v: "14 \<in> vectors \<or> (14 :: nat) = 0x80" "has_errcode 14" "(of_nat 14 :: u32) = 14" by (simp_all add: vectors_def has_errcode_def)
  have r: "map (seg_word user_machine) [GS, FS, ES, DS] = [0x23, 0x23, 0x23, 0x23]" "map (gp user_machine) [EDI, ESI, EBP] = [0, 0, 0]"
      "map (gp user_machine) [EBX, EDX, ECX, EAX] = [0, 0, 0, 2]" "pc user_machine = 0x01000000" "seg_word user_machine CS = 0x1B"
      "eflags user_machine = 0x202"
    by (simp_all add: seg_word_def user_machine_def)
  show ?thesis using frame_has_type[OF user_machine_ok(1) v(1), of 2 "c_call null_io"]
    by (simp only: r v(2,3) if_True append.simps)
qed

lemma process_yield_keeps [simp]:
  "table_addr (process_yield s) = table_addr s" "idt_table (cpu (process_yield s)) = idt_table (cpu s)"
proof -
  have "table_addr (fst (sched_next t)) = table_addr t" "cpu (fst (sched_next t)) = cpu t" for t
    by (simp_all add: sched_next_def Let_def split: option.split)
  then have "table_addr (fst (sched_next (yield_save s))) = table_addr s" "cpu (fst (sched_next (yield_save s))) = cpu s" by simp_all
  moreover have "table_addr (process_before_switch n t) = table_addr t" "table_addr (yield_restore n t) = table_addr t"
      "idt_table (cpu (process_before_switch n t)) = idt_table (cpu t)" for n t
    by (simp_all add: process_before_switch_def yield_restore_def tss_set_kernel_stack_def Let_def)
  ultimately show "table_addr (process_yield s) = table_addr s" "idt_table (cpu (process_yield s)) = idt_table (cpu s)"
    by (simp_all add: process_yield_def split_beta Let_def)
qed

text \<open>
  C8. After a context switch, an interrupt of the ring-3 process that runs now is entered on the kernel stack of that process:
  up to the call of the C handler, the processor and the stub write there and nowhere else, so that the contexts saved on the stacks of the other processes, and their table entries, survive it.
\<close>

theorem trap_frame_private:
  fixes m :: "'d machine"
  assumes "sched_inv s" "ksched (kern m) = process_yield s" "unat (table_addr s) + 16 * 8252 < 4294967296" "cpl m \<noteq> 0"
    and "deliver v err m = Some d"
  shows "\<exists>n < 16. \<exists>m'. current_process (ksched (kern m)) = Some n \<and> exec C (entry_code v) d = Inr m' \<and>
    (\<forall>x. kram (kern m') x \<noteq> kram (kern m) x \<longrightarrow>
       unat (table_addr (ksched (kern m))) + 8252 * n + 60 \<le> unat x \<and> unat x < unat (table_addr (ksched (kern m))) + 8252 * (n + 1))"
proof -
  let ?t = "process_yield s"
  obtain s1 n where pick: "sched_next (yield_save s) = (s1, n)" by fastforce
  then have cur: "current_process ?t = Some n" by (rule process_yield_table(2))
  have n: "n < 16" using sched_invD(2)[OF process_yield_inv[OF assms(1)] cur] .
  have "unat (of_nat (8252 * (n + 1)) :: u32) = 8252 * (n + 1)" using n by (intro unat_of_nat_u32) simp
  then have "unat (table_addr ?t + of_nat (8252 * (n + 1))) = unat (table_addr ?t) + 8252 * (n + 1)"
    using assms(3) n by (subst unat_plus_u32) simp_all
  moreover have "kstack_top ?t n = table_addr ?t + of_nat (8252 * (n + 1))"
    by (simp add: kstack_top_def PROCESS_KSTACK_SIZE_def algebra_simps)
  ultimately have top: "unat (kstack_top ?t n) = unat (table_addr ?t) + 8252 * (n + 1)" by simp
  have "frame_ptr m = kstack_top ?t n - 76" using yield_switches_context[OF cur] assms(2,4) by (simp add: frame_ptr_def)
  then have fp: "unat (frame_ptr m - 4) = unat (kstack_top ?t n) - 80" using top by (simp add: unat_sub word_le_nat_alt)
  have "kram (stacked v err m) x = kram (kern m) x"
    if "unat x < unat (kstack_top ?t n) - 80 \<or> unat (kstack_top ?t n) \<le> unat x" for x
  proof -
    have "length (frame_ptr m # frame v err m) = 20" using assms(4) by (simp add: frame_def)
    then show ?thesis using put_words_other[of "frame_ptr m - 4" "frame_ptr m # frame v err m" x "kram (kern m)"] that fp top n assms(3)
      unfolding stacked_def by (auto simp del: put_words.simps)
  qed
  moreover obtain m' where "exec C (entry_code v) d = Inr m'" "kern m' = stacked v err m" using exec_save[OF assms(5), of C] by blast
  ultimately show ?thesis using cur n top assms(2) by (intro exI[of _ n] exI[of _ m'] conjI) force+
qed

theorem trap_frame_private_witness:
  "let s = process_yield (boot_sched\<lparr>cpu := cpu (ksched (kern user_machine))\<rparr>);
       m = user_machine\<lparr>kern := (kern user_machine)\<lparr>ksched := s\<rparr>\<rparr> in
   \<exists>d. deliver 32 0 m = Some d \<and> (\<exists>n < 16. \<exists>m'. current_process s = Some n \<and> exec (c_call null_io) (entry_code 32) d = Inr m' \<and>
    (\<forall>x. kram (kern m') x \<noteq> kram (kern m) x \<longrightarrow>
       unat (table_addr s) + 8252 * n + 60 \<le> unat x \<and> unat x < unat (table_addr s) + 8252 * (n + 1)))"
proof -
  define s where "s = boot_sched\<lparr>cpu := cpu (ksched (kern user_machine))\<rparr>"
  define m where "m = user_machine\<lparr>kern := (kern user_machine)\<lparr>ksched := process_yield s\<rparr>\<rparr>"
  have "sched_inv s"
    by (rule sched_inv_cong[OF boot_sched_facts(1)]) (simp_all add: s_def state_of_def sched_invD(1)[OF boot_sched_facts(1)])
  moreover have "cpl m \<noteq> 0" using user_machine_ok(3) by (simp add: cpl_def m_def)
  moreover have "unat (table_addr s) + 16 * 8252 < 4294967296" by (simp add: s_def boot_sched_facts(3))
  moreover obtain d where d: "deliver 32 0 m = Some d"
    using installed_stub(2)[OF user_machine_ok(1), of 32] by (simp add: deliver_def m_def s_def vectors_def Let_def)
  ultimately show ?thesis
    using trap_frame_private[of s m 32 0 d "c_call null_io"] unfolding s_def[symmetric] Let_def m_def[symmetric] by (simp add: m_def)
qed

section \<open>Entering ring 3\<close>

lemma proc_at_current:
  assumes "current_process s = Some i" "i < 16"
  shows "proc_at s (proc_addr s) = process_table s ! i"
proof -
  have "unat (8252 * of_nat i :: u32) = 8252 * i" using assms(2) unat_of_nat_u32[of "8252 * i"] by simp
  then show ?thesis using assms(1) by (simp add: proc_at_def proc_addr_def)
qed

text \<open>
  C6. \<^verbatim>\<open>user_mode_enter\<close>, the code in which the first switch to a user process ends, leaves the kernel for ring 3 at the program's entry
  point on its own stack, with the user segments of the table that \<^verbatim>\<open>gdt_init\<close> builds and interrupts enabled.
\<close>

theorem user_mode_entered:
  fixes m :: "'d machine"
  assumes "current_process (ksched (kern m)) = Some i" "i < 16" "cpl m = 0"
    and "length (gdt_table c) = 6" "gdt_table (cpu (ksched (kern m))) = gdt_table (gdt_init c)"
  shows "\<exists>m'. exec C user_mode_enter m = Inr m' \<and> cpl m' = 3 \<and> pc m' = user_eip (process_table (ksched (kern m)) ! i) \<and>
    gp m' ESP = user_esp (process_table (ksched (kern m)) ! i) \<and> eflags m' = eflags m OR 0x200 \<and>
    seg m' CS = 0x1B \<and> (\<forall>r \<in> {SS, DS, ES, FS, GS}. seg m' r = 0x23)"
proof -
  let ?s = "ksched (kern m)"
  let ?p = "process_table ?s ! i"
  define ws where "ws = [user_eip ?p, 0x1B, eflags m OR 0x200, user_esp ?p, 0x23]"
  define n where "n = m\<lparr>seg := (seg m)(DS := 0x23, ES := 0x23, FS := 0x23, GS := 0x23),
      gp := (gp m)(EAX := proc_addr ?s, ESP := gp m ESP - 20), kern := on_kram (\<lambda>r. put_words r (gp m ESP - 20) ws) (kern m)\<rparr>"
  have "proc_at (ksched (on_kram f (kern m))) (proc_addr ?s) = ?p" for f
    using proc_at_current[OF assms(1,2)] by (simp add: proc_at_def)
  moreover have "proc_addr (ksched (on_kram f (kern m))) = proc_addr ?s" for f by (simp add: proc_addr_def split: option.split)
  ultimately have run: "exec C user_mode_enter m = Inr (iret n)"
    using proc_at_current[OF assms(1,2)] by (simp add: user_mode_enter_def instr_simps n_def ws_def mov_ax_low kconst proc_word_def
      store32_twice)
  have w: "load32 (kram (kern n)) (gp n ESP + 4 * of_nat j) = ws ! j" if "j < 5" for j
    using that load_words[of ws j] by (simp add: n_def ws_def del: put_words.simps)
  have u: "usable (on_kram f (kern m)) 3 0x23" for f
    using gdt_init_segments[OF assms(4)] by (simp add: usable_def assms(5) Let_def)
  have "(\<forall>r \<in> {SS, DS, ES, FS, GS}. seg (iret n) r = 0x23) \<and> cpl (iret n) = 3 \<and> seg (iret n) CS = 0x1B \<and>
      pc (iret n) = ws ! 0 \<and> gp (iret n) ESP = ws ! 3 \<and> eflags (iret n) = ws ! 2"
    using w[of 0] w[of 1] w[of 2] w[of 3] w[of 4] assms(3) u
    by (simp add: iret_def Let_def outer_segs_def cpl_def n_def ws_def del: put_words.simps)
  then show ?thesis using run by (auto simp: ws_def)
qed

theorem user_mode_entered_witness:
  "\<exists>m'. exec (c_call null_io) user_mode_enter (user_machine\<lparr>seg := (\<lambda>_. 0x10)(CS := 8), kern := (kern user_machine)\<lparr>ksched :=
       (ksched (kern user_machine))\<lparr>current_process := Some 1\<rparr>\<rparr>\<rparr>) = Inr m' \<and> cpl m' = 3"
proof -
  let ?m = "user_machine\<lparr>seg := (\<lambda>_. 0x10)(CS := 8), kern := (kern user_machine)\<lparr>ksched :=
       (ksched (kern user_machine))\<lparr>current_process := Some 1\<rparr>\<rparr>\<rparr>"
  have "length (gdt_table boot_cpu) = 6" "gdt_table (cpu (ksched (kern ?m))) = gdt_table (gdt_init boot_cpu)"
    by (simp_all add: boot_cpu_def user_machine_def)
  moreover have "current_process (ksched (kern ?m)) = Some 1" "cpl ?m = 0" by (simp_all add: cpl_def)
  ultimately show ?thesis using user_mode_entered[of ?m 1 boot_cpu "c_call null_io"] by auto
qed

end
