(* ===== verification/Bootloader.thy ===== *)
theory Bootloader
  imports Boot Stubs
begin

text \<open>
  The boot sector \<^verbatim>\<open>bootloader/boot.asm\<close> over the BIOS it calls, and the entry code \<^verbatim>\<open>kernel/kernel_entry.asm\<close>. The memory map the
  BIOS reports is the map the frame allocator works with. The load of the kernel image is followed down to the
  loader's stack and its instructions in memory, both of which the image overwrites.
\<close>

section \<open>The BIOS\<close>

text \<open>
  The services the boot sector calls, as functions on memory and on a state of their own. Interrupt 15h, function E820h,
  gets the continuation value and the signature and a buffer; interrupt 13h, function 2, gets a sector count, cylinder, sector, head
  and drive and a buffer; interrupt 10h, function 0Eh, gets a character.
\<close>

record e820_reply =
  carry :: bool
  o_eax :: u32
  o_ebx :: u32
  o_ecx :: u32
  o_edx :: u32

record 'b bios =
  int15_e820 :: "u32 \<Rightarrow> u32 \<Rightarrow> u32 \<Rightarrow> u32 \<Rightarrow> mem \<times> 'b \<Rightarrow> e820_reply \<times> mem \<times> 'b"
  int13_read :: "u8 \<Rightarrow> u8 \<Rightarrow> u8 \<Rightarrow> u8 \<Rightarrow> u8 \<Rightarrow> u32 \<Rightarrow> mem \<times> 'b \<Rightarrow> (bool \<times> u8) \<times> mem \<times> 'b"
  int10_tty :: "u8 \<Rightarrow> mem \<times> 'b \<Rightarrow> mem \<times> 'b"

definition store16 :: "mem \<Rightarrow> u32 \<Rightarrow> u16 \<Rightarrow> mem" where
  "store16 m a v = m(a := ucast v, a + 1 := ucast (drop_bit 8 v))"

section \<open>The boot sector\<close>

definition KERNEL_OFFSET :: u16 where [kconst]: "KERNEL_OFFSET = 0x1000"
definition MMAP_ADDR :: u16 where [kconst]: "MMAP_ADDR = 0x0500"
definition MMAP_MAX :: int where [kconst]: "MMAP_MAX = 32"
definition SMAP :: u32 where [kconst]: "SMAP = 0x534D4150"

text \<open>
  The loop of \<^verbatim>\<open>detect_memory\<close>, from one call of the BIOS to the next; the comparisons are signed. It ends when the BIOS
  says so or 32 entries are stored; a BIOS that reports short entries for ever keeps it running (no value).
\<close>

partial_function (option) e820_loop ::
  "'b bios \<Rightarrow> u16 \<Rightarrow> u32 \<Rightarrow> u32 \<Rightarrow> u16 \<Rightarrow> mem \<times> 'b \<Rightarrow> (u16 \<times> mem \<times> 'b) option" where
  "e820_loop B di ebx0 edx0 bp s =
     (case int15_e820 B ebx0 edx0 20 (ucast di) s of (r, s) \<Rightarrow>
        if carry r then Some (bp, s)
        else if o_eax r \<noteq> SMAP then Some (bp, s)
        else if sint (ucast (o_ecx r) :: u16) < 20 then
          (if o_ebx r = 0 then Some (bp, s) else e820_loop B di (o_ebx r) (o_edx r) bp s)
        else if MMAP_MAX \<le> sint (bp + 1) then Some (bp + 1, s)
        else if o_ebx r = 0 then Some (bp + 1, s)
        else e820_loop B (di + 20) (o_ebx r) (o_edx r) (bp + 1) s)"

definition detect_memory :: "'b bios \<Rightarrow> mem \<times> 'b \<Rightarrow> (mem \<times> 'b) option" where
  "detect_memory B s =
     (case e820_loop B (MMAP_ADDR + 2) 0 SMAP 0 s of None \<Rightarrow> None
      | Some (bp, m, b) \<Rightarrow> Some (store16 m (ucast MMAP_ADDR) bp, b))"

declare e820_loop.simps [code]



text \<open>The state of the processor that the switch to protected mode sets.\<close>

record pm =
  interrupts_on :: bool
  pm_gdtr :: "u16 \<times> u32"
  pm_cr0 :: u32
  pm_cs :: u16
  pm_segs :: "u16 list"
  pm_ebp :: u32
  pm_esp :: u32
  pm_eip :: u32







text \<open>The table of the boot sector, and the switch to protected mode.\<close>

definition boot_gdt :: "gdt_entry list" where
  "boot_gdt =
     [\<lparr>limit_low = 0, base_low = 0, base_mid = 0, access = 0, flags_limit_high = 0, base_high = 0\<rparr>,
      \<lparr>limit_low = 0xFFFF, base_low = 0, base_mid = 0, access = 0x9A, flags_limit_high = 0xCF, base_high = 0\<rparr>,
      \<lparr>limit_low = 0xFFFF, base_low = 0, base_mid = 0, access = 0x92, flags_limit_high = 0xCF, base_high = 0\<rparr>]"

definition CODE_SEG :: u16 where [kconst]: "CODE_SEG = 0x08"
definition DATA_SEG :: u16 where [kconst]: "DATA_SEG = 0x10"

definition init_pm :: "pm \<Rightarrow> pm" where
  "init_pm p =
     (let p = p\<lparr>pm_segs := replicate 5 DATA_SEG\<rparr>; p = p\<lparr>pm_ebp := 0x90000\<rparr>; p = p\<lparr>pm_esp := pm_ebp p\<rparr>
      in p\<lparr>pm_eip := ucast KERNEL_OFFSET\<rparr>)"

definition switch_to_pm :: "u32 \<Rightarrow> pm \<Rightarrow> pm" where
  "switch_to_pm gdt p =
     init_pm (p\<lparr>interrupts_on := False, pm_gdtr := (24 - 1, gdt), pm_cr0 := pm_cr0 p OR 1, pm_cs := CODE_SEG\<rparr>)"


section \<open>The entry of the kernel\<close>

text \<open>\<^verbatim>\<open>rep stosb\<close>, and \<^verbatim>\<open>kernel_entry\<close>: the BSS section is cleared, then \<^verbatim>\<open>kernel_main\<close> runs.\<close>

fun rep_stosb :: "nat \<Rightarrow> u32 \<Rightarrow> u8 \<Rightarrow> mem \<Rightarrow> mem" where
  "rep_stosb 0 edi0 al m = m"
| "rep_stosb (Suc ecx0) edi0 al m = rep_stosb ecx0 (edi0 + 1) al (m(edi0 := al))"

definition kernel_entry ::
  "u32 \<Rightarrow> u32 \<Rightarrow> 'd io \<Rightarrow> (nat \<Rightarrow> u32) \<Rightarrow> (nat \<Rightarrow> u32) \<Rightarrow> u32 \<Rightarrow> u32 \<Rightarrow> 'd kernel \<Rightarrow> 'd kernel option" where
  "kernel_entry bss_start bss_end io isr irq sc idle k =
     kernel_main io isr irq sc idle (on_kram (rep_stosb (unat (bss_end - bss_start)) bss_start 0) k)"

section \<open>The memory map of the BIOS\<close>

text \<open>An entry of the map as the five words the BIOS stores.\<close>

definition entry_words :: "e820_entry \<Rightarrow> u32 list" where
  "entry_words e = [ucast (e820_base e), ucast (drop_bit 32 (e820_base e)), ucast (e820_length e),
     ucast (drop_bit 32 (e820_length e)), e820_type e]"

text \<open>
  The documented behaviour of the service: with the continuation value it returned before it stores the next entry in 20 bytes,
  keeps the signature in its registers, and marks the end with a zero continuation value or, one call later, with the carry flag.
\<close>

definition reports :: "'b bios \<Rightarrow> (nat \<Rightarrow> u32) \<Rightarrow> e820_entry list \<Rightarrow> bool" where
  "reports B cont es \<longleftrightarrow> cont 0 = 0 \<and> (\<forall>i. 0 < i \<and> i < length es \<longrightarrow> cont i \<noteq> 0) \<and>
     (\<forall>i < length es. \<forall>a m b. \<exists>b'. int15_e820 B (cont i) SMAP 20 a (m, b) =
        (\<lparr>carry = False, o_eax = SMAP, o_ebx = cont (Suc i), o_ecx = 20, o_edx = SMAP\<rparr>, put_words m a (entry_words (es ! i)), b')) \<and>
     (es = [] \<or> cont (length es) \<noteq> 0 \<longrightarrow>
        (\<forall>a m b. \<exists>r b'. int15_e820 B (cont (length es)) SMAP 20 a (m, b) = (r, m, b') \<and> carry r))"

fun put_entries :: "mem \<Rightarrow> u32 \<Rightarrow> e820_entry list \<Rightarrow> mem" where
  "put_entries m a [] = m"
| "put_entries m a (e # es) = put_entries (put_words m a (entry_words e)) (a + 20) es"

lemma e820_address: "i \<le> 32 \<Longrightarrow> (ucast (0x502 + 20 * of_nat i :: u16) :: u32) = 0x502 + 20 * of_nat i"
proof -
  assume "i \<le> 32"
  then have "unat (of_nat (0x502 + 20 * i) :: u16) = 0x502 + 20 * i" by (simp only: unat_of_nat) (simp add: take_bit_eq_mod)
  then have "unat (ucast (0x502 + 20 * of_nat i :: u16) :: u32) = 0x502 + 20 * i" using \<open>i \<le> 32\<close> by (simp add: unsigned_ucast_eq take_bit_eq_mod)
  moreover have "unat (of_nat (0x502 + 20 * i) :: u32) = 0x502 + 20 * i" using \<open>i \<le> 32\<close> by (intro unat_of_nat_u32) simp
  ultimately show ?thesis by (simp add: word_unat_eq_iff)
qed

lemma e820_count: "i < 32 \<Longrightarrow> sint (of_nat i + 1 :: u16) = int i + 1"
proof -
  assume "i < 32"
  then have "sint (of_nat (Suc i) :: u16) = int (Suc i)" by (simp add: signed_of_nat signed_take_bit_int_eq_self del: of_nat_Suc)
  then show ?thesis by (simp add: add.commute)
qed

lemma e820_loop_reports:
  assumes "reports B cont es" "i < length es \<or> i = length es \<and> (es = [] \<or> cont i \<noteq> 0)" "i < 32"
  shows "\<exists>b'. e820_loop B (0x502 + 20 * of_nat i) (cont i) SMAP (of_nat i) (m, b) =
    Some (of_nat (min 32 (length es)), put_entries m (0x502 + 20 * of_nat i) (take (32 - i) (drop i es)), b')"
  using assms(2,3)
proof (induction "32 - i" arbitrary: i m b)
  case (Suc n)
  let ?a = "0x502 + 20 * of_nat i :: u32"
  have call: "\<exists>b'. int15_e820 B (cont i) SMAP 20 ?a (m, b) =
      (\<lparr>carry = False, o_eax = SMAP, o_ebx = cont (Suc i), o_ecx = 20, o_edx = SMAP\<rparr>, put_words m ?a (entry_words (es ! i)), b')"
    if "i < length es" using assms(1) that unfolding reports_def by blast
  show ?case
  proof (cases "i < length es")
    case True
    obtain b1 where b1: "int15_e820 B (cont i) SMAP 20 ?a (m, b) =
        (\<lparr>carry = False, o_eax = SMAP, o_ebx = cont (Suc i), o_ecx = 20, o_edx = SMAP\<rparr>, put_words m ?a (entry_words (es ! i)), b1)"
      using call[OF True] by blast
    let ?m = "put_words m ?a (entry_words (es ! i))"
    have step: "e820_loop B (0x502 + 20 * of_nat i) (cont i) SMAP (of_nat i) (m, b) =
        (if 32 \<le> int i + 1 \<or> cont (Suc i) = 0 then Some (of_nat i + 1, ?m, b1)
         else e820_loop B (0x502 + 20 * of_nat i + 20) (cont (Suc i)) SMAP (of_nat i + 1) (?m, b1))"
      using Suc.prems(2) by (subst e820_loop.simps) (simp add: e820_address b1 e820_count MMAP_MAX_def)
    have nxt: "(0x502 + 20 * of_nat i + 20 :: u16) = 0x502 + 20 * of_nat (Suc i)" "(of_nat i + 1 :: u16) = of_nat (Suc i)"
      "?a + 20 = 0x502 + 20 * of_nat (Suc i)" by simp_all
    have split: "take (32 - i) (drop i es) = es ! i # take (32 - Suc i) (drop (Suc i) es)"
      using True Suc.prems(2) by (simp add: Cons_nth_drop_Suc[symmetric] Suc_diff_Suc[symmetric] del: Cons_nth_drop_Suc)
    show ?thesis
    proof (cases "Suc i = 32 \<or> cont (Suc i) = 0")
      case True
      have "0 < Suc i \<and> Suc i < length es \<longrightarrow> cont (Suc i) \<noteq> 0" using assms(1) unfolding reports_def by blast
      with True have "Suc i = 32 \<or> Suc i = length es" using \<open>i < length es\<close> by auto
      then have "min 32 (length es) = Suc i" "take (32 - Suc i) (drop (Suc i) es) = []"
        using Suc.prems(2) \<open>i < length es\<close> by auto
      then show ?thesis unfolding split using True step by (auto simp del: of_nat_Suc simp: nxt(2))
    next
      case False
      then have "Suc i < length es \<or> Suc i = length es \<and> (es = [] \<or> cont (Suc i) \<noteq> 0)" "Suc i < 32"
        using \<open>i < length es\<close> Suc.prems(2) by auto
      moreover from this(2) have "n = 32 - Suc i" "\<not> 32 \<le> int i + 1" using Suc.hyps(2) by auto
      ultimately show ?thesis using Suc.hyps(1)[of "Suc i" ?m b1] False step unfolding split
        by (simp del: of_nat_Suc add: nxt)
    qed
  next
    case False
    then have "i = length es" "es = [] \<or> cont (length es) \<noteq> 0" using Suc.prems(1) by auto
    then obtain r b1 where "int15_e820 B (cont i) SMAP 20 ?a (m, b) = (r, m, b1)" "carry r" using assms(1) unfolding reports_def by metis
    then show ?thesis using \<open>i = length es\<close> Suc.prems(2) by (subst e820_loop.simps) (simp add: e820_address)
  qed
qed simp

text \<open>What was stored is read back, and nothing else changes.\<close>

lemma length_entry_words [simp]: "length (entry_words e) = 5"
  by (simp add: entry_words_def)

lemma put_entries_other:
  assumes "unat a + 20 * length es \<le> 4294967295" "unat x < unat a \<or> unat a + 20 * length es \<le> unat x"
  shows "put_entries m a es x = m x"
  using assms
proof (induction es arbitrary: a m)
  case (Cons e es)
  have "unat (a + 20) = unat a + 20" using Cons.prems(1) by (subst unat_plus_u32) simp_all
  then show ?case using Cons.IH[of "a + 20"] Cons.prems by (auto simp: put_words_other)
qed simp

lemma put_entries_load:
  assumes "unat a + 20 * length es \<le> 4294967295" "j < length es" "w < 5"
  shows "load32 (put_entries m a es) (a + 20 * of_nat j + 4 * of_nat w) = entry_words (es ! j) ! w"
  using assms(1,2)
proof (induction es arbitrary: a m j)
  case (Cons e es)
  have u: "unat (a + 20) = unat a + 20" using Cons.prems(1) by (subst unat_plus_u32) simp_all
  show ?case
  proof (cases j)
    case 0
    have "unat (4 * of_nat w :: u32) = 4 * w" using assms(3) unat_of_nat_u32[of "4 * w"] by simp
    then have uw: "unat (a + 4 * of_nat w) = unat a + 4 * w" using Cons.prems(1) assms(3) by (subst unat_plus_u32) simp_all
    have "load32 (put_entries m a (e # es)) (a + 4 * of_nat w) = load32 (put_words m a (entry_words e)) (a + 4 * of_nat w)"
    proof (rule load32_cong)
      fix x assume "within (a + 4 * of_nat w) 4 x"
      then have "unat x < unat (a + 20)" using u uw Cons.prems(1) assms(3) by (simp add: within_nat)
      then show "put_entries m a (e # es) x = put_words m a (entry_words e) x"
        using Cons.prems(1) u by (simp add: put_entries_other)
    qed
    then show ?thesis using 0 assms(3) load_words[of "entry_words e" w m a] by simp
  next
    case (Suc i)
    have eq: "a + 20 * of_nat j + 4 * of_nat w = (a + 20) + 20 * of_nat i + 4 * of_nat w" using Suc by (simp add: algebra_simps)
    show ?thesis unfolding eq using Cons.IH[of "a + 20" i] Cons.prems u Suc by simp
  qed
qed simp

lemma word_halves: "(ucast (ucast (x :: u64) :: u32) OR push_bit 32 (ucast (ucast (drop_bit 32 x) :: u32)) :: u64) = x"
proof (rule bit_word_eqI)
  fix n assume "n < LENGTH(64)"
  then show "bit (ucast (ucast x :: u32) OR push_bit 32 (ucast (ucast (drop_bit 32 x) :: u32)) :: u64) n = bit x n"
    by (cases "n < 32") (auto simp: bit_simps)
qed

lemma mmap_entries:
  assumes "length es \<le> 32" "j < length es"
  shows "mmap_entry (put_entries m 0x502 es) j = es ! j"
proof -
  have "unat (0x502 :: u32) + 20 * length es \<le> 4294967295" using assms(1) by simp
  note l = put_entries_load[OF this assms(2), where m = m]
  show ?thesis using l[of 0] l[of 1] l[of 2] l[of 3] l[of 4]
    by (simp add: mmap_entry_def Let_def kconst load64_def entry_words_def word_halves add.commute add.left_commute)
qed

lemma mmap_entry_cong:
  assumes "j < 32" "\<And>x. 0x502 \<le> unat x \<Longrightarrow> unat x < 0x1000 \<Longrightarrow> m x = m' x"
  shows "mmap_entry m j = mmap_entry m' j"
proof -
  have u: "unat (0x502 + of_nat (20 * j) + of_nat k :: u32) = 0x502 + 20 * j + k" if "k \<le> 16" for k
  proof -
    have "unat (of_nat (0x502 + 20 * j + k) :: u32) = 0x502 + 20 * j + k" using assms(1) that by (intro unat_of_nat_u32) simp
    then show ?thesis by simp
  qed
  have l: "load32 m (0x502 + of_nat (20 * j) + of_nat k) = load32 m' (0x502 + of_nat (20 * j) + of_nat k)" if "k \<le> 16" for k
  proof (rule load32_cong)
    fix x assume "within (0x502 + of_nat (20 * j) + of_nat k) 4 x"
    then show "m x = m' x" using u[OF that] assms(1) that by (intro assms(2)) (simp_all add: within_nat)
  qed
  show ?thesis using l[of 0] l[of 4] l[of 8] l[of 12] l[of 16]
    by (simp add: mmap_entry_def Let_def kconst load64_def add.assoc)
qed

lemma boot_entries_cong:
  assumes "unat (mmap_count m) \<le> 32" "\<And>x. unat x < 0x1000 \<Longrightarrow> m x = m' x"
  shows "boot_entries m = boot_entries m'"
proof -
  have "mmap_count m = mmap_count m'" using assms(2)[of "0x500"] assms(2)[of "0x501"] by (simp add: mmap_count_def load16_def kconst)
  then show ?thesis using assms mmap_entry_cong[of _ m m'] by (simp add: boot_entries_def)
qed

lemma load16_store16: "load16 (store16 m a v) a = v"
proof (rule bit_word_eqI)
  fix n assume "n < LENGTH(16)"
  then show "bit (load16 (store16 m a v) a) n = bit v n"
    by (cases "n < 8") (auto simp: load16_def store16_def bit_simps)
qed

lemma detect_memory_reports:
  assumes "reports B cont es"
  obtains m' b' where "detect_memory B (m, b) = Some (m', b')" "mmap_count m' = of_nat (min 32 (length es))"
    "boot_entries m' = take 32 es" "\<And>x. unat x < 0x500 \<or> 0x782 \<le> unat x \<Longrightarrow> m' x = m x"
proof -
  have "cont 0 = 0" using assms by (simp add: reports_def)
  then obtain b' where run: "e820_loop B 0x502 0 SMAP 0 (m, b) = Some (of_nat (min 32 (length es)), put_entries m 0x502 (take 32 es), b')"
    using e820_loop_reports[OF assms, of 0 m b] by (cases "es = []") auto
  define m' where "m' = store16 (put_entries m 0x502 (take 32 es)) 0x500 (of_nat (min 32 (length es)))"
  have d: "detect_memory B (m, b) = Some (m', b')" by (simp add: detect_memory_def MMAP_ADDR_def run m'_def)
  have c: "mmap_count m' = of_nat (min 32 (length es))" by (simp add: mmap_count_def m'_def kconst load16_store16)
  have o: "m' x = put_entries m 0x502 (take 32 es) x" if "x \<noteq> 0x500" "x \<noteq> 0x501" for x
    using that by (simp add: m'_def store16_def)
  have n: "unat (of_nat (min 32 (length es)) :: u16) = min 32 (length es)" by (simp add: unat_of_nat take_bit_eq_mod)
  have e: "mmap_entry m' j = es ! j" if "j < min 32 (length es)" for j
  proof -
    have "mmap_entry m' j = mmap_entry (put_entries m 0x502 (take 32 es)) j"
      using that by (intro mmap_entry_cong o) auto
    then show ?thesis using mmap_entries[of "take 32 es" j m] that by simp
  qed
  have "boot_entries m' = take 32 es"
    unfolding boot_entries_def c n using e by (auto intro!: nth_equalityI)
  moreover have "m' x = m x" if "unat x < 0x500 \<or> 0x782 \<le> unat x" for x
  proof -
    have "x \<noteq> 0x500" "x \<noteq> 0x501" using that by auto
    then show ?thesis using that put_entries_other[of "0x502" "take 32 es" x m] by (auto simp: o)
  qed
  ultimately show thesis by (rule that[OF d c])
qed

section \<open>From the BIOS to the frame allocator\<close>

lemma rep_stosb_memset: "rep_stosb n a v m = memset_bytes m a v n"
  by (induction n arbitrary: a m) simp_all

lemma clear_bss:
  assumes "unat bss_start \<le> unat bss_end"
  shows "rep_stosb (unat (bss_end - bss_start)) bss_start 0 m x =
    (if unat bss_start \<le> unat x \<and> unat x < unat bss_end then 0 else m x)"
proof -
  have n: "unat (bss_end - bss_start) = unat bss_end - unat bss_start" using assms by (simp add: unat_sub word_le_nat_alt)
  then have "within bss_start (unat (bss_end - bss_start)) x \<longleftrightarrow> unat bss_start \<le> unat x \<and> unat x < unat bss_end"
    using unat_u32[of bss_end] assms by (simp add: within_nat)
  then show ?thesis using unat_u32[of "bss_end - bss_start"] by (simp add: rep_stosb_memset memset_bytes_apply)
qed

lemma loaded_kram:
  assumes "loaded k" "map_disjoint (f (kram k))"
  shows "loaded (on_kram f k)"
  using assms by (auto simp: loaded_def on_kram_def on_mm_def kernel_layout_def kframe_def table_apart_def table_pages_def kdir_def Let_def)

text \<open>
  C9. The memory map that the BIOS reports is what the frame allocator works with: \<^verbatim>\<open>detect_memory\<close> ends, and when the kernel, loaded at or above
  0x1000, has cleared its BSS section and booted, a frame is free exactly when it lies between 1 MB and 32 MB wholly inside a usable
  entry among the first 32 of the map (anywhere there if the map is empty).
\<close>

theorem memory_map_reaches_allocator:
  fixes B :: "'b bios" and k :: "'d kernel"
  assumes "reports B cont es" "board io p1 p2 u polls" "\<not> dlab (u (kdev k))" "loaded k"
    and "0x1000 \<le> unat bss_start" "unat bss_start \<le> unat bss_end"
  shows "\<exists>m1 b1. detect_memory B (m, b) = Some (m1, b1) \<and>
    ((\<forall>x. unat x < 0x1000 \<longrightarrow> kram k x = m1 x) \<longrightarrow>
      (\<exists>k'. kernel_entry bss_start bss_end io isr irq sc idle k = Some k' \<and>
        free_set (frames (mm (ksched k'))) = {f. 256 \<le> f \<and> f < 8192 \<and> (es = [] \<or>
          (\<exists>e \<in> set (take 32 es). e820_type e = 1 \<and> unat (e820_base e) \<le> 4096 * f \<and>
             4096 * (f + 1) \<le> unat (e820_base e + e820_length e)))}))"
proof -
  obtain m1 b1 where d: "detect_memory B (m, b) = Some (m1, b1)" "mmap_count m1 = of_nat (min 32 (length es))" "boot_entries m1 = take 32 es"
    by (rule detect_memory_reports[OF assms(1), of m b])
  have c: "unat (mmap_count m1) = min 32 (length es)" unfolding d(2) by (simp add: unat_of_nat take_bit_eq_mod)
  define f where "f = rep_stosb (unat (bss_end - bss_start)) bss_start 0"
  have "\<exists>k'. kernel_entry bss_start bss_end io isr irq sc idle k = Some k' \<and> frames (mm (ksched k')) = pmm_init (f (kram k)) \<and>
      boot_entries (f (kram k)) = take 32 es \<and> (mmap_count (f (kram k)) = 0 \<longleftrightarrow> es = [])"
    if low: "\<forall>x. unat x < 0x1000 \<longrightarrow> kram k x = m1 x"
  proof -
    have f: "f (kram k) x = m1 x" if "unat x < 0x1000" for x
      using low that assms(5) by (simp add: f_def clear_bss[OF assms(6)])
    have be: "boot_entries m1 = boot_entries (f (kram k))" "boot_entries m1 = boot_entries (kram k)"
      using c f low by (auto intro!: boot_entries_cong)
    have "mmap_count (f (kram k)) = mmap_count m1" using f[of "0x500"] f[of "0x501"] by (simp add: mmap_count_def load16_def kconst)
    then have z: "mmap_count (f (kram k)) = 0 \<longleftrightarrow> es = []" using c by (auto simp: word_unat_eq_iff min_def)
    have "map_disjoint (kram k)" using assms(4) by (simp add: loaded_def)
    then have L: "loaded (on_kram f k)" using loaded_kram[OF assms(4)] be by (simp add: map_disjoint_def)
    have "\<not> dlab (u (kdev (on_kram f k)))" "length (vga_buffer (kcon (on_kram f k))) = 2000"
      using assms(3) L by (simp_all add: on_kram_def loaded_def)
    then obtain k' where k': "kernel_main io isr irq sc idle (on_kram f k) = Some k'"
      "ksched k' = process_init idle ((ksched (on_kram f k))\<lparr>
         cpu := syscall_init sc (idt_init isr irq (tss_flush (gdt_init (tss_init 0x90000 (cpu (ksched (on_kram f k))))))),
         mm := paging_init ((mm (ksched (on_kram f k)))\<lparr>frames := pmm_init (memory (mm (ksched (on_kram f k))))\<rparr>)\<rparr>)"
      using kernel_main_runs[OF assms(2), of "on_kram f k" isr irq sc idle] by metis
    have "frames (mm (ksched k')) = pmm_init (kram (on_kram f k))"
      unfolding k'(2) using L by (intro boot_sched_ok(10)) (simp_all add: loaded_def)
    then show ?thesis using k'(1) be d(3) z by (auto simp: kernel_entry_def f_def)
  qed
  then show ?thesis using d(1) pmm_init_free[of "f (kram k)"] by (auto simp: Let_def)
qed

text \<open>A BIOS that reports one usable megabyte.\<close>

definition entry0 :: e820_entry where "entry0 = \<lparr>e820_base = 0x100000, e820_length = 0x100000, e820_type = 1\<rparr>"

definition bios0 :: "unit bios" where
  "bios0 = \<lparr>int15_e820 = (\<lambda>ebx0 edx0 ecx0 a (m, b). (\<lparr>carry = False, o_eax = SMAP, o_ebx = 0, o_ecx = 20, o_edx = edx0\<rparr>,
       put_words m a (entry_words entry0), b)),
     int13_read = (\<lambda>n c sec h d a (m, b). ((False, n), memset m a 0 (512 * ucast n), b)), int10_tty = (\<lambda>c s. s)\<rparr>"

lemma bios0_reports: "reports bios0 (\<lambda>_. 0) [entry0]"
  by (auto simp: reports_def bios0_def)

theorem memory_map_reaches_allocator_witness:
  "\<exists>m1 b1 k'. detect_memory bios0 (\<lambda>_. 0, ()) = Some (m1, b1) \<and>
     kernel_entry 0x9000 0xA000 board_io isr0 irq0 0x4000 0x1500 (on_kram (\<lambda>_. m1) (kernel_image board0)) = Some k' \<and>
     free_set (frames (mm (ksched k'))) = {256 ..< 512}"
proof -
  obtain m1 b1 where d: "detect_memory bios0 (\<lambda>_. 0, ()) = Some (m1, b1)" "boot_entries m1 = take 32 [entry0]"
    by (rule detect_memory_reports[OF bios0_reports, of "\<lambda>_. 0" "()"])
  let ?k = "on_kram (\<lambda>_. m1) (kernel_image board0)"
  have "loaded ?k" by (rule loaded_kram[OF kernel_image_loaded]) (simp add: map_disjoint_def d(2))
  moreover have "\<not> dlab ((fst \<circ> snd) (kdev ?k))" by (simp add: on_kram_def kernel_image_def board0_def uart0_def dlab_def)
  ultimately obtain k' where k': "kernel_entry 0x9000 0xA000 board_io isr0 irq0 0x4000 0x1500 ?k = Some k'"
    "free_set (frames (mm (ksched k'))) = {f. 256 \<le> f \<and> f < 8192 \<and> 1048576 \<le> 4096 * f \<and> 4096 * (f + 1) \<le> 2097152}"
    using memory_map_reaches_allocator[OF bios0_reports board_io_board, of ?k "0x9000" "0xA000" "\<lambda>_. 0" "()" isr0 irq0 "0x4000" "0x1500"] d(1)
    by (auto simp: entry0_def)
  then show ?thesis using d(1) frames_1MB by auto
qed

section \<open>The load of the kernel\<close>





























section \<open>Protected mode\<close>

text \<open>
  The table of the boot sector has the same first three descriptors as the kernel's own, so the selectors loaded at the
  switch stay valid when \<^verbatim>\<open>gdt_init\<close> replaces it.
\<close>

lemma boot_gdt_same:
  assumes "length (gdt_table s) = 6"
  shows "take 3 (gdt_table (gdt_init s)) = boot_gdt"
proof -
  have "gdt_table (gdt_init s) = [gdt_entry_of 0 0 0 0, gdt_entry_of 0 0xFFFFF 0x9A 0xCF, gdt_entry_of 0 0xFFFFF 0x92 0xCF,
      gdt_entry_of 0 0xFFFFF 0xFA 0xCF, gdt_entry_of 0 0xFFFFF 0xF2 0xCF, gdt_entry_of (tss_addr s) 103 0x89 0]"
    using assms by (rule gdt_init_table)
  then show ?thesis by (simp add: boot_gdt_def gdt_entry_of_def)
qed

lemma switch_to_pm_state:
  "pm_cs (switch_to_pm g p) = GDT_SEL_KCODE" "pm_segs (switch_to_pm g p) = replicate 5 GDT_SEL_KDATA"
  "pm_esp (switch_to_pm g p) = 0x90000" "pm_eip (switch_to_pm g p) = 0x1000" "\<not> interrupts_on (switch_to_pm g p)"
  "bit (pm_cr0 (switch_to_pm g p)) 0" "fst (pm_gdtr (switch_to_pm g p)) = 8 * of_nat (length boot_gdt) - 1"
  by (simp_all add: switch_to_pm_def init_pm_def Let_def kconst boot_gdt_def bit_or_iff)

text \<open>After the boot the gates of the processor are those the stubs expect.\<close>

lemma idt_gates_keep_gdt:
  "gdt_table (syscall_init sc (idt_init isr irq c)) = gdt_table c"
proof -
  have "gdt_table (fold (\<lambda>n. idt_set_gate (v n) (h n) sel attr) ns c) = gdt_table c" for v h sel attr and ns :: "nat list" and c :: cpu_tables
    by (induction ns arbitrary: c) (simp_all add: idt_set_gate_def)
  then show ?thesis by (simp add: syscall_init_def idt_init_def idt_set_gate_def Let_def)
qed

lemma kernel_main_installs:
  assumes "board io p1 p2 u polls" "\<not> dlab (u (kdev k))" "loaded k"
    and "length (idt_table (cpu (ksched k))) = 256" "\<forall>g \<in> set (idt_table (cpu (ksched k))). type_attr g = 0"
    and "distinct (map isr [0 ..< 20] @ map irq [0 ..< 16] @ [sc])"
  shows "\<exists>k'. kernel_main io isr irq sc idle k = Some k' \<and> installed isr irq sc k' \<and>
    gdt_table (cpu (ksched k')) = gdt_table (gdt_init (cpu (ksched k)))"
proof -
  let ?c = "tss_flush (gdt_init (tss_init 0x90000 (cpu (ksched k))))"
  have "length (vga_buffer (kcon k)) = 2000" using assms(3) by (simp add: loaded_def)
  then obtain k' where k': "kernel_main io isr irq sc idle k = Some k'"
    "ksched k' = process_init idle ((ksched k)\<lparr>cpu := syscall_init sc (idt_init isr irq ?c),
       mm := paging_init ((mm (ksched k))\<lparr>frames := pmm_init (memory (mm (ksched k)))\<rparr>)\<rparr>)"
    using kernel_main_runs[OF assms(1,2), of isr irq sc idle] by metis
  have cpu: "cpu (ksched k') = syscall_init sc (idt_init isr irq ?c)"
    unfolding k'(2) using assms(3) by (intro boot_sched_ok(9)) (simp_all add: loaded_def)
  have "idt_table ?c = idt_table (cpu (ksched k))"
    by (simp add: tss_flush_def gdt_init_def gdt_set_entry_def tss_init_def Let_def)
  then have "installed isr irq sc k'" unfolding installed_def cpu using assms(4-6) by metis
  moreover have "gdt_table ?c = gdt_table (gdt_init (cpu (ksched k)))"
    by (simp add: tss_flush_def gdt_init_def gdt_set_entry_def tss_init_def tss_get_base_def tss_get_limit_def Let_def)
  ultimately show ?thesis using k'(1) by (simp add: cpu idt_gates_keep_gdt)
qed

end
