(* ===== verification/Spec2Isabelle.thy ===== *)
theory Spec2Isabelle
  imports Typing Dispatch Bootloader
begin

text \<open>
  \<^bold>\<open>VESPER OS.\<close> A model of the kernel of VESPER OS, a 32-bit x86 teaching system in C, and the theorems that make it
  correct. Names in \<^verbatim>\<open>typewriter\<close> are those of the sources; file names are relative to \<^verbatim>\<open>src/kernel\<close>. Definitions keep
  the names of the C functions they translate.

  \<^bold>\<open>The program.\<close> The boot sector \<^verbatim>\<open>../bootloader/boot.asm\<close> asks the BIOS for the memory map, loads the kernel image and switches to
  protected mode; \<^verbatim>\<open>kernel_entry.asm\<close> clears the static data and calls \<^verbatim>\<open>kernel_main\<close>, which initialises the components one after the other and runs the shell. Hardware interrupts
  arrive through the interrupt controllers: the timer preempts the running process every five ticks, the keyboard fills a ring
  buffer. Assembly stubs (\<^verbatim>\<open>isr.asm\<close>) save the registers of the interrupted code around the C
  handlers. Processes run in their own address spaces and call the kernel through \<^verbatim>\<open>INT 0x80\<close>. Files are on an ATA disk in a
  flat file system; the shell loads ELF files from it and turns them into processes.

  \<^bold>\<open>How it is modelled.\<close> Every C function is a HOL function on the state it works on; loops are recursive functions
  or folds with a termination proof, and the loops that may run for ever (waiting for the clock, for the serial transmitter,
  the walk of a corrupt heap list, and the two loops of the boot sector over BIOS answers and texts) have the value None when they do. Integers are words of their C width, so that
  arithmetic wraps. Errors are the return values of the code; calls that do not return because another process runs, the processor stops, or
  nothing ever happens again have a result of their own. The machine is a parameter: an \<open>io\<close> record of the four port
  instructions over an arbitrary device state. What a driver relies on is a predicate of the port behaviour taken from the
  chip's data sheet or the BIOS documentation (\<open>reports\<close>, \<open>loads\<close>, \<open>types_only\<close>, \<open>pics_wired\<close>, \<open>cmos_wired\<close>, \<open>uart_wired\<close>, \<open>ata_protocol\<close>), and every one of them is satisfied by a
  concrete machine. What goes beyond the documents is a predicate of its own: \<open>err_quiet\<close> says that a drive keeps its error bit clear while it is
  busy (\<open>ata_wired\<close> is both).

  \<^bold>\<open>Memory the kernel may use.\<close> The kernel's mapping is the identity on the first 8 MB. Every access of kernel code to a page table, a frame or a
  segment of a program goes through it: beyond 8 MB (\<open>touch\<close>), and where \<^verbatim>\<open>elf_load\<close> writes over the kernel (\<open>stray\<close>), the flag \<open>derailed\<close> of the memory system is set and stays
  set. The processor would fault there, so nothing is claimed behind the flag, and theorems that promise success show that it stays clear when enough frames
  are free below 8 MB (\<open>lowfree\<close>). The buffers of system calls are reached through the page tables of the caller; a byte stored into kernel memory makes the
  call end as \<open>Sys_corrupts\<close>, because the process table, the pipes and the other objects of the kernel that lie there are records of the model and not bytes.

  \<^bold>\<open>The theories.\<close>

  \<^item> \<^verbatim>\<open>Prelude\<close>: words, loops over ranges, texts. \<^verbatim>\<open>Memory\<close>: byte-addressed memory, little-endian access, \<^verbatim>\<open>memset\<close> and
    \<^verbatim>\<open>memcpy\<close>. \<^verbatim>\<open>CString\<close>: the routines of \<^verbatim>\<open>string.h\<close> on byte lists.
  \<^item> \<^verbatim>\<open>Kmem\<close>: the heap of \<^verbatim>\<open>kmem.c\<close>, a list of headers in memory. It refines a list of blocks with first-fit
    allocation and coalescing; live blocks are disjoint, aligned, inside the heap, and clients that write only to their blocks
    do not disturb each other (locale \<open>allocator\<close> and its interpretation).
  \<^item> \<^verbatim>\<open>Pmm\<close>: the frame bitmap of \<^verbatim>\<open>pmm.c\<close> with its counters, and the E820 map it is built from; it implements the
    locale \<open>frame_allocator\<close>.
  \<^item> \<^verbatim>\<open>Paging\<close>: page directories and tables in memory (\<^verbatim>\<open>paging.c\<close>), against the translation the processor performs. The
    abstract view is a map from pages to frames; address spaces are isolated and freed without loss.
  \<^item> \<^verbatim>\<open>Descriptors\<close>: \<^verbatim>\<open>gdt.c\<close>, \<^verbatim>\<open>idt.c\<close>, \<^verbatim>\<open>tss.c\<close> and \<^verbatim>\<open>syscall_init\<close>, with what the processor decodes.
  \<^item> \<^verbatim>\<open>Process\<close>: the process table, scheduler and context switch of \<^verbatim>\<open>process.c\<close> and \<^verbatim>\<open>process.asm\<close>. Reachability as an
    inductive relation, its invariant, round-robin fairness, and that a switch away and back restores every register.
  \<^item> \<^verbatim>\<open>Fifo\<close>: bounded queues as a locale and ring buffers; \<^verbatim>\<open>Pipe\<close> (\<^verbatim>\<open>pipe.c\<close>) and \<^verbatim>\<open>Keyboard\<close> (\<^verbatim>\<open>keyboard.c\<close>) interpret it.
  \<^item> \<^verbatim>\<open>Devices\<close>: \<^verbatim>\<open>port_io.h\<close>, \<^verbatim>\<open>pic.c\<close>, \<^verbatim>\<open>rtc.c\<close>. \<^verbatim>\<open>Irq\<close> and \<^verbatim>\<open>Interrupts\<close>: the handler table of \<^verbatim>\<open>isr.c\<close> and the timer of
    \<^verbatim>\<open>timer.c\<close>: every interrupt is acknowledged, the timer switches processes every fifth tick.
    \<^verbatim>\<open>Serial\<close>: \<^verbatim>\<open>serial.c\<close>.
  \<^item> \<^verbatim>\<open>Bytes\<close>, \<^verbatim>\<open>Ata\<close>: the PIO driver of \<^verbatim>\<open>ata.c\<close> against a model of a drive; on an error-free drive it implements the locale \<open>block_device\<close>. \<^verbatim>\<open>Fs\<close> and
    \<^verbatim>\<open>Fs_Correct\<close>: the file system of \<^verbatim>\<open>fs.c\<close> over that interface refines a map from names to contents. \<^verbatim>\<open>Fd\<close>: \<^verbatim>\<open>fd.c\<close>.
  \<^item> \<^verbatim>\<open>Vga\<close>: the console of \<^verbatim>\<open>vga.c\<close>. \<^verbatim>\<open>Elf\<close>: both loaders of \<^verbatim>\<open>elf.c\<close>.
  \<^item> \<^verbatim>\<open>Kernel\<close>: the state of all components side by side, with the exceptions of \<^verbatim>\<open>isr.c\<close> and the lists on the console.
    \<^verbatim>\<open>Syscall\<close>: the dispatcher of \<^verbatim>\<open>syscall.c\<close>, its buffers accessed through the page tables of the caller.
  \<^item> \<^verbatim>\<open>Commands\<close>, \<^verbatim>\<open>Shell\<close>: \<^verbatim>\<open>shell.c\<close>: every command; the history, the line editor, the dispatch and the loop.
    \<^verbatim>\<open>Dispatch\<close>: the chain of comparisons is a table lookup. \<^verbatim>\<open>Shell_Files\<close> and \<^verbatim>\<open>Programs\<close>: the commands end to end, from the
    typed line through file system, disk driver, loader, paging and process table. \<^verbatim>\<open>Buffers\<close>: what files are read into is large enough.
  \<^item> \<^verbatim>\<open>Boot\<close>: \<^verbatim>\<open>kernel_main\<close> of \<^verbatim>\<open>kernel.c\<close>. \<^verbatim>\<open>System\<close>: the running system as an inductive relation (start, interrupts, system calls, idle loop,
    user programs, steps of the shell in any order) and the invariant of all its states. The status of the system says whether the shell runs (and where in its
    loop it is), whether it has switched away for good, or whether the machine stands; a shell that has left does not step again, and histories end where
    memory is no longer sound (\<open>sound\<close>). \<^verbatim>\<open>Typing\<close>: from the scancodes of a line to the command it runs.
  \<^item> \<^verbatim>\<open>Stubs\<close>: the stubs of \<^verbatim>\<open>isr.asm\<close> and \<^verbatim>\<open>user_mode_enter\<close> as lists of instructions, on a processor with registers, segment
    registers, flags and a stack in memory, which delivers interrupts through the gates of \<^verbatim>\<open>Descriptors\<close>. The locale
    \<open>frame_handler\<close> is what a stub relies on (the C handler leaves the saved frame alone); both handlers interpret it, so
    interrupted code resumes unchanged and a system call changes \<^verbatim>\<open>EAX\<close> only. The handler is given a complete \<^verbatim>\<open>registers_t\<close>, and the
    frame of a ring-3 process is on the kernel stack that the last context switch installed.
  \<^item> \<^verbatim>\<open>Bootloader\<close>: \<^verbatim>\<open>boot.asm\<close> over the BIOS and \<^verbatim>\<open>kernel_entry.asm\<close>: the reported memory map reaches the frame allocator; the image that is
    loaded replaces the loader and its stack, so that the instructions behind the read are those of the loader only where the image has the same bytes. How the
    load ends is a datatype: the kernel is entered, the loader waits, control goes elsewhere, or other bytes run in the loader's place.

  \<^bold>\<open>The state.\<close> The record \<open>kernel\<close> holds one record per component; what components share (the device state, the scheduler with the
    memory system and the processor's tables) is passed to a component before it runs and taken back afterwards. A process is the
    record \<open>process\<close> of its table entry; the kernel stacks are in memory at the address of the table. The heap keeps a memory of its own,
    since no other component points into it. Function pointers are values of a datatype (\<open>irq_fn\<close>) or addresses given as
    arguments (stubs, idle loop, user-mode entry).

  \<^bold>\<open>Interleaving.\<close> A function that blocks is cut at the blocking point: it returns the state in which the other process runs, and starts over
  when it is scheduled again, as the loop in the C code does. Interrupts arrive between the operations of the inductive
  relations, and inside the sleep of \<^verbatim>\<open>timer_sleep_ms\<close>, where they are an argument; not in the middle of other operations. The sleep ends as soon as an
  interrupt switches to another process. In a system call it is given the interrupts the devices raise (\<open>kirqs\<close>) only if the gate leaves interrupts on.
  A key interrupt between the test and the block of \<^verbatim>\<open>keyboard_getchar\<close> is therefore outside the model.

  \<^bold>\<open>Bounds.\<close> The polling loops of the disk driver run at most \<^verbatim>\<open>0x100000\<close> times, as in the code. \<open>read_blocks\<close> of \<^verbatim>\<open>Kmem\<close> has
  the number of headers that fit into the heap as fuel. File names passed to system calls are read up to 4096 bytes, the
  size of the directory they are compared with. \<^verbatim>\<open>shell_run\<close> does not end: it is a step function, from the prompt through the characters of a
  line, each taken from the keyboard buffer, to the command.

  \<^bold>\<open>Assembly.\<close> Code in \<^verbatim>\<open>process_yield\<close> is a function on the registers it touches; the stubs are executed instruction by instruction. The
  stack frames of compiled C lie below the stack pointer of the assembly that calls it and are not represented; what
  compiled code leaves in the registers it may change is arbitrary. Faults of the assembly's own segment loads are not modelled, as the
  selectors it loads are valid in the tables it runs with.

  \<^bold>\<open>Not modelled.\<close> The translation look-aside buffer, and with it \<^verbatim>\<open>invlpg\<close>. The BIOS, which is a parameter. The programs that run in
  processes: they write to their own pages and call the kernel. What a ring-0 program of the command \<^verbatim>\<open>run\<close> does to the kernel. \<^verbatim>\<open>Makefile\<close> and \<^verbatim>\<open>linker.ld\<close> have no behaviour; the addresses
  they determine are fields of the state, with the assumption that the tables do not overlap where a theorem needs it.
\<close>

end
